(* ===== verification/Ngx_Prelude.thy ===== *)
theory Ngx_Prelude
  imports Complex_Main "HOL-Library.Word" "HOL-Library.Log_Nat"
begin

text \<open>
  The shared base of the development: the C integer types the sources use on the platform
  of \<^verbatim>\<open>objs/ngx_auto_config.h\<close> (64-bit pointers), the result type that makes a crash of the C
  program a value, and the generic lemmas the components share.

  \<^item> \<open>ngx_int_t\<close> (\<^verbatim>\<open>intptr_t\<close>), \<open>time_t\<close>, \<open>off_t\<close>, \<open>ssize_t\<close> are signed 64-bit; signed overflow is
    undefined in C, so these are \<open>int\<close> and the theorems about the code that guards against
    overflow show that the values stay below \<open>NGX_MAX_INT_T_VALUE\<close>.
  \<^item> \<open>ngx_uint_t\<close> (\<^verbatim>\<open>uintptr_t\<close>) wraps around: \<open>64 word\<close>.
  \<^item> \<open>u_char\<close> is \<open>8 word\<close>.
\<close>

section \<open>Named collections\<close>

named_theorems res_simps \<open>evaluation of the result monad\<close>
named_theorems digit_simps \<open>digits as bytes and as numbers\<close>
named_theorems fl_intros \<open>introduction rules for sign and bounds of floating point results\<close>

section \<open>C integer types\<close>

type_synonym ngx_int_t = int
type_synonym ngx_uint_t = "64 word"
type_synonym u_char = "8 word"
type_synonym time_t = int

definition NGX_MAX_INT_T_VALUE :: int where
  "NGX_MAX_INT_T_VALUE = 9223372036854775807"

definition NGX_OK :: int where "NGX_OK = 0"
definition NGX_ERROR :: int where "NGX_ERROR = - 1"
definition NGX_AGAIN :: int where "NGX_AGAIN = - 2"
definition NGX_BUSY :: int where "NGX_BUSY = - 3"
definition NGX_DONE :: int where "NGX_DONE = - 4"
definition NGX_DECLINED :: int where "NGX_DECLINED = - 5"

text \<open>The state a peer is released with (\<^verbatim>\<open>ngx_event_connect.h\<close>).\<close>

definition NGX_PEER_FAILED :: ngx_uint_t where "NGX_PEER_FAILED = 4"

lemmas ngx_rc_defs = NGX_OK_def NGX_ERROR_def NGX_AGAIN_def NGX_BUSY_def NGX_DONE_def
  NGX_DECLINED_def

text \<open>\<^verbatim>\<open>ngx_max\<close> and \<^verbatim>\<open>ngx_min\<close> of \<^verbatim>\<open>ngx_core.h\<close> on integers agree with \<open>max\<close> and \<open>min\<close>.\<close>

section \<open>Crashes as values\<close>

text \<open>
  A run of the C code either returns or does something the C standard leaves undefined.
  The kinds the modelled code can reach are kept apart, so that a theorem can say which one
  is excluded.
\<close>

datatype fault =
    NullDeref          \<comment> \<open>a field of a \<^verbatim>\<open>NULL\<close> pointer is read or written\<close>
  | UseAfterFree       \<comment> \<open>a node that was passed to \<^verbatim>\<open>free()\<close> is read, written or freed again\<close>
  | BadConversion      \<comment> \<open>a NaN, infinite or out-of-range \<^verbatim>\<open>float\<close> is converted to an integer\<close>
  | BadFree            \<comment> \<open>\<^verbatim>\<open>free()\<close> of something that \<^verbatim>\<open>malloc()\<close> did not return\<close>
  | DivByZero          \<comment> \<open>integer division or remainder by zero\<close>
  | OutOfBounds        \<comment> \<open>an array is read past its end, or a fixed buffer is overrun\<close>
  | OutOfFuel          \<comment> \<open>the loop of the model ran out of its step bound\<close>

datatype 'a res = Fault fault | Ok 'a

primrec bindR :: "'a res \<Rightarrow> ('a \<Rightarrow> 'b res) \<Rightarrow> 'b res" where
  "bindR (Fault e) f = Fault e"
| "bindR (Ok x) f = f x"

declare bindR.simps [res_simps]

lemma bindR_Ok_iff [simp]: "bindR m f = Ok y \<longleftrightarrow> (\<exists>x. m = Ok x \<and> f x = Ok y)"
  by (cases m) auto

lemma bindR_Fault_iff:
  "bindR m f = Fault e \<longleftrightarrow> m = Fault e \<or> (\<exists>x. m = Ok x \<and> f x = Fault e)"
  by (cases m) auto

lemma bindR_assoc: "bindR (bindR m f) g = bindR m (\<lambda>x. bindR (f x) g)"
  by (cases m) auto

lemma bindR_cong [fundef_cong]:
  "m = m' \<Longrightarrow> (\<And>x. m' = Ok x \<Longrightarrow> f x = g x) \<Longrightarrow> bindR m f = bindR m' g"
  by (cases m') auto

definition guardR :: "fault \<Rightarrow> bool \<Rightarrow> unit res" where
  "guardR e b = (if b then Ok () else Fault e)"

lemma guardR_Ok [simp]: "guardR e b = Ok u \<longleftrightarrow> b"
  by (simp add: guardR_def)

primrec derefR :: "fault \<Rightarrow> 'a option \<Rightarrow> 'a res" where
  "derefR e None = Fault e"
| "derefR e (Some x) = Ok x"

declare derefR.simps [res_simps]

lemma derefR_Ok [simp]: "derefR e m = Ok x \<longleftrightarrow> m = Some x"
  by (cases m) auto

text \<open>A loop that builds an array and stops at the first crash.\<close>

primrec mapR :: "('a \<Rightarrow> 'b res) \<Rightarrow> 'a list \<Rightarrow> 'b list res" where
  "mapR f [] = Ok []"
| "mapR f (x # xs) = bindR (f x) (\<lambda>y. bindR (mapR f xs) (\<lambda>ys. Ok (y # ys)))"

declare mapR.simps [res_simps]

lemma mapR_Ok: "mapR f xs = Ok ys \<longleftrightarrow> list_all2 (\<lambda>x y. f x = Ok y) xs ys"
  by (induction xs arbitrary: ys) (auto simp: list_all2_Cons1)

lemma mapR_length: "mapR f xs = Ok ys \<Longrightarrow> length ys = length xs"
  by (simp add: mapR_Ok list_all2_lengthD)

lemma mapR_nth: "mapR f xs = Ok ys \<Longrightarrow> i < length xs \<Longrightarrow> f (xs ! i) = Ok (ys ! i)"
  by (simp add: mapR_Ok list_all2_conv_all_nth)

lemma mapR_all_Ok: "(\<And>x. x \<in> set xs \<Longrightarrow> f x = Ok (g x)) \<Longrightarrow> mapR f xs = Ok (map g xs)"
  by (induction xs) auto

text \<open>
  \<open>outcome F P r\<close>: the code returns a result with \<open>P\<close> or faults in one of the ways \<open>F\<close>.  With
  \<open>F = {}\<close> it says that the code returns.
\<close>

definition outcome :: "fault set \<Rightarrow> ('a \<Rightarrow> bool) \<Rightarrow> 'a res \<Rightarrow> bool" where
  "outcome F P r = (case r of Ok x \<Rightarrow> P x | Fault e \<Rightarrow> e \<in> F)"

lemma outcome_simps [simp]:
  "outcome F P (Ok x) = P x" "outcome F P (Fault e) = (e \<in> F)"
  by (simp_all add: outcome_def)

lemma outcome_bind:
  "outcome F Q m \<Longrightarrow> (\<And>x. m = Ok x \<Longrightarrow> Q x \<Longrightarrow> outcome F P (f x)) \<Longrightarrow> outcome F P (bindR m f)"
  by (cases m) auto

lemma outcome_derefI: "m = Some y \<Longrightarrow> P y \<Longrightarrow> outcome F P (derefR e m)"
  by simp

lemma outcome_mono: "outcome F P m \<Longrightarrow> F \<subseteq> G \<Longrightarrow> (\<And>x. m = Ok x \<Longrightarrow> P x \<Longrightarrow> Q x) \<Longrightarrow> outcome G Q m"
  by (cases m) auto

lemma outcome_empty: "outcome {} P m \<longleftrightarrow> (\<exists>x. m = Ok x \<and> P x)"
  by (cases m) auto

lemma outcome_Ok: "outcome F P m \<Longrightarrow> m = Ok x \<Longrightarrow> P x"
  by simp

section \<open>Arrays of bytes\<close>

definition byte_at :: "u_char list \<Rightarrow> nat \<Rightarrow> u_char res" where
  "byte_at xs i = (if i < length xs then Ok (xs ! i) else Fault OutOfBounds)"

lemma byte_at_Ok: "byte_at xs i = Ok x \<longleftrightarrow> i < length xs \<and> x = xs ! i"
  by (auto simp: byte_at_def)

text \<open>A property of bytes, by the list of all of them.\<close>

lemma byte_all:
  assumes "list_all (\<lambda>n. P (of_nat n :: u_char)) [0..<256]"
  shows "P c"
proof -
  have "unat c < 2 ^ LENGTH(8)" by (rule unsigned_less)
  then have "unat c < 256" by simp
  then have "unat c \<in> set [0..<256]" by simp
  then have "P (of_nat (unat c))" using assms unfolding list_all_iff by blast
  then show ?thesis by simp
qed

section \<open>Decimal digits\<close>

definition is_digit :: "u_char \<Rightarrow> bool" where
  "is_digit c \<longleftrightarrow> 0x30 \<le> c \<and> c \<le> 0x39"

definition digit_val :: "u_char \<Rightarrow> int" where
  "digit_val c = uint c - 48"

lemma is_digit_uint: "is_digit c \<longleftrightarrow> 48 \<le> uint c \<and> uint c \<le> 57"
  by (simp add: is_digit_def word_le_def)

lemma digit_val_range [digit_simps]: "is_digit c \<Longrightarrow> 0 \<le> digit_val c \<and> digit_val c \<le> 9"
  by (simp add: is_digit_uint digit_val_def)

end
