(* ===== verification/C_Float.thy ===== *)
theory C_Float
  imports Ngx_Prelude
begin

text \<open>
  The C types \<^verbatim>\<open>float\<close> and \<^verbatim>\<open>double\<close> (IEEE 754 binary32 and binary64, round to nearest, ties to
  even, as on x86-64 with SSE arithmetic).  A finite value is an exact rational, \<open>NZero\<close> is the
  negative zero, and every operation rounds the exact result once.
\<close>

section \<open>Formats and values\<close>

datatype cfloat = NaN | PInf | NInf | NZero | Fin rat

text \<open>Precision in bits, exponent of the least subnormal, and least exponent that overflows.\<close>

record fmt =
  prec :: nat
  emin :: int
  emax :: int

definition binary32 :: fmt where
  "binary32 = \<lparr>prec = 24, emin = - 149, emax = 128\<rparr>"

definition binary64 :: fmt where
  "binary64 = \<lparr>prec = 53, emin = - 1074, emax = 1024\<rparr>"

section \<open>Rounding\<close>

text \<open>Powers of two with an integer exponent; the code equation squares.\<close>

definition p2 :: "int \<Rightarrow> rat" where
  "p2 k = 2 powi k"

function ipow2 :: "int \<Rightarrow> int" where
  "ipow2 k =
    (if k \<le> 0 then 1
     else let h = ipow2 (k div 2) in if even k then h * h else 2 * h * h)"
  by pat_completeness auto
termination
  by (relation "measure nat") auto

declare ipow2.simps [simp del]

lemma ipow2_eq: "ipow2 k = 2 ^ nat k"
proof (induction k rule: ipow2.induct)
  case (1 k)
  show ?case
  proof (cases "k \<le> 0")
    case True
    then show ?thesis by (simp add: ipow2.simps)
  next
    case False
    define m where "m = nat (k div 2)"
    have IH: "ipow2 (k div 2) = 2 ^ m"
      using "1" False by (simp add: m_def)
    have "nat k = (if even k then m + m else Suc (m + m))"
      using False by (auto simp: m_def nat_eq_iff elim!: evenE oddE)
    then show ?thesis
      using False IH by (simp add: ipow2.simps [of k] Let_def power_add mult.assoc)
  qed
qed

lemma p2_code [code]:
  "p2 k = (if k < 0 then 1 / of_int (ipow2 (- k)) else of_int (ipow2 k))"
  by (simp add: p2_def ipow2_eq power_int_def power_one_over inverse_eq_divide)

text \<open>The number of binary digits of a positive integer.\<close>

function blen :: "int \<Rightarrow> int" where
  "blen n = (if n \<le> 0 then 0 else blen (n div 2) + 1)"
  by pat_completeness auto
termination
  by (relation "measure nat") auto

declare blen.simps [simp del]

text \<open>\<open>ilog2 x\<close> is the exponent of the leading bit of a positive rational.\<close>

definition ilog2 :: "rat \<Rightarrow> int" where
  "ilog2 x =
    (let (a, b) = quotient_of x; k = blen a - blen b
     in if x < p2 k then k - 1 else k)"

text \<open>Round to an integer, ties to even.\<close>

definition rne :: "rat \<Rightarrow> int" where
  "rne x =
    (let f = \<lfloor>x\<rfloor>; d = x - of_int f
     in if d < 1 / 2 then f
        else if 1 / 2 < d then f + 1
        else if even f then f else f + 1)"

definition fexp :: "fmt \<Rightarrow> rat \<Rightarrow> int" where
  "fexp F r = max (emin F) (ilog2 \<bar>r\<bar> - int (prec F) + 1)"

text \<open>The rational a value is rounded to, before the overflow check.\<close>

definition rnd :: "fmt \<Rightarrow> rat \<Rightarrow> rat" where
  "rnd F r =
    (if r = 0 then 0 else of_int (rne (r / p2 (fexp F r))) * p2 (fexp F r))"

text \<open>\<open>round_to F neg r\<close>: \<open>neg\<close> is the sign of a zero result.\<close>

definition round_to :: "fmt \<Rightarrow> bool \<Rightarrow> rat \<Rightarrow> cfloat" where
  "round_to F neg r =
    (let s = rnd F r
     in if p2 (emax F) \<le> \<bar>s\<bar> then (if s < 0 then NInf else PInf)
        else if s = 0 then (if neg then NZero else Fin 0)
        else Fin s)"

section \<open>Operations\<close>

primrec is_neg :: "cfloat \<Rightarrow> bool" where
  "is_neg NaN = False"
| "is_neg PInf = False"
| "is_neg NInf = True"
| "is_neg NZero = True"
| "is_neg (Fin r) = (r < 0)"

primrec fval :: "cfloat \<Rightarrow> rat option" where
  "fval NaN = None"
| "fval PInf = None"
| "fval NInf = None"
| "fval NZero = Some 0"
| "fval (Fin r) = Some r"

primrec fneg :: "cfloat \<Rightarrow> cfloat" where
  "fneg NaN = NaN"
| "fneg PInf = NInf"
| "fneg NInf = PInf"
| "fneg NZero = Fin 0"
| "fneg (Fin r) = (if r = 0 then NZero else Fin (- r))"

definition finf :: "bool \<Rightarrow> cfloat" where
  "finf neg = (if neg then NInf else PInf)"

definition fzero :: "bool \<Rightarrow> cfloat" where
  "fzero neg = (if neg then NZero else Fin 0)"

definition fadd :: "fmt \<Rightarrow> cfloat \<Rightarrow> cfloat \<Rightarrow> cfloat" where
  "fadd F a b =
    (if a = NaN \<or> b = NaN then NaN
     else case (fval a, fval b) of
       (Some x, Some y) \<Rightarrow> round_to F (is_neg a \<and> is_neg b) (x + y)
     | (Some x, None) \<Rightarrow> b
     | (None, Some y) \<Rightarrow> a
     | (None, None) \<Rightarrow> if a = b then a else NaN)"

definition fsub :: "fmt \<Rightarrow> cfloat \<Rightarrow> cfloat \<Rightarrow> cfloat" where
  "fsub F a b = fadd F a (fneg b)"

definition fmul :: "fmt \<Rightarrow> cfloat \<Rightarrow> cfloat \<Rightarrow> cfloat" where
  "fmul F a b =
    (let s = is_neg a \<noteq> is_neg b
     in if a = NaN \<or> b = NaN then NaN
        else case (fval a, fval b) of
          (Some x, Some y) \<Rightarrow> round_to F s (x * y)
        | (Some x, None) \<Rightarrow> if x = 0 then NaN else finf s
        | (None, Some y) \<Rightarrow> if y = 0 then NaN else finf s
        | (None, None) \<Rightarrow> finf s)"

definition fdiv :: "fmt \<Rightarrow> cfloat \<Rightarrow> cfloat \<Rightarrow> cfloat" where
  "fdiv F a b =
    (let s = is_neg a \<noteq> is_neg b
     in if a = NaN \<or> b = NaN then NaN
        else case (fval a, fval b) of
          (Some x, Some y) \<Rightarrow>
            if y = 0 then (if x = 0 then NaN else finf s) else round_to F s (x / y)
        | (Some x, None) \<Rightarrow> fzero s
        | (None, Some y) \<Rightarrow> finf s
        | (None, None) \<Rightarrow> NaN)"

text \<open>Comparisons are false when an operand is a NaN.\<close>

fun flt :: "cfloat \<Rightarrow> cfloat \<Rightarrow> bool" where
  "flt a b =
    (case (a, b) of
       (NaN, _) \<Rightarrow> False
     | (_, NaN) \<Rightarrow> False
     | (PInf, _) \<Rightarrow> False
     | (_, NInf) \<Rightarrow> False
     | (NInf, _) \<Rightarrow> True
     | (_, PInf) \<Rightarrow> True
     | _ \<Rightarrow> the (fval a) < the (fval b))"

fun fle :: "cfloat \<Rightarrow> cfloat \<Rightarrow> bool" where
  "fle a b =
    (case (a, b) of
       (NaN, _) \<Rightarrow> False
     | (_, NaN) \<Rightarrow> False
     | (NInf, _) \<Rightarrow> True
     | (_, PInf) \<Rightarrow> True
     | (PInf, _) \<Rightarrow> False
     | (_, NInf) \<Rightarrow> False
     | _ \<Rightarrow> the (fval a) \<le> the (fval b))"

declare flt.simps [simp del] fle.simps [simp del]

fun feq :: "cfloat \<Rightarrow> cfloat \<Rightarrow> bool" where
  "feq a b \<longleftrightarrow> fle a b \<and> fle b a"

text \<open>\<^verbatim>\<open>ngx_max(val1, val2)\<close> is \<^verbatim>\<open>((val1 < val2) ? (val2) : (val1))\<close>.\<close>

definition ngx_maxf :: "cfloat \<Rightarrow> cfloat \<Rightarrow> cfloat" where
  "ngx_maxf a b = (if flt a b then b else a)"

text \<open>Conversions: from an integer, between formats, and truncation to a signed 64-bit integer.\<close>

definition f_of_int :: "fmt \<Rightarrow> int \<Rightarrow> cfloat" where
  "f_of_int F n = round_to F False (of_int n)"

definition f_lit :: "fmt \<Rightarrow> rat \<Rightarrow> cfloat" where
  "f_lit F r = round_to F False r"

primrec f_conv :: "fmt \<Rightarrow> cfloat \<Rightarrow> cfloat" where
  "f_conv F NaN = NaN"
| "f_conv F PInf = PInf"
| "f_conv F NInf = NInf"
| "f_conv F NZero = NZero"
| "f_conv F (Fin r) = round_to F (r < 0) r"

definition trunc :: "rat \<Rightarrow> int" where
  "trunc r = (if r < 0 then - \<lfloor>- r\<rfloor> else \<lfloor>r\<rfloor>)"

definition f_to_int :: "cfloat \<Rightarrow> int res" where
  "f_to_int a =
    (case fval a of
       None \<Rightarrow> Fault BadConversion
     | Some r \<Rightarrow> (let n = trunc r in
         if - (2 ^ 63) \<le> n \<and> n < 2 ^ 63 then Ok n else Fault BadConversion))"

section \<open>Facts about rounding\<close>

lemma p2_pos [simp]: "0 < p2 k"
  by (simp add: p2_def)

lemma p2_nonzero [simp]: "p2 k \<noteq> 0"
  by (simp add: p2_def)

lemma p2_nonneg [simp]: "0 \<le> p2 k"
  by (rule less_imp_le) simp

lemma p2_add: "p2 (a + b) = p2 a * p2 b"
  by (simp add: p2_def power_int_add)

lemma p2_nat: "0 \<le> k \<Longrightarrow> p2 k = of_int (2 ^ nat k)"
  by (simp add: p2_def power_int_def)

lemma p2_not_le_0 [simp]: "\<not> p2 k \<le> 0"
  by (simp add: not_le)

lemma p2_0 [simp]: "p2 0 = 1"
  by (simp add: p2_def)

lemma p2_mono: "a \<le> b \<Longrightarrow> p2 a \<le> p2 b"
  by (simp add: p2_def power_int_increasing)

lemma p2_less_cancel: "p2 a < p2 b \<Longrightarrow> a < b"
  by (meson p2_mono not_less)

lemma p2_diff: "p2 a / p2 b = p2 (a - b)"
proof -
  have "p2 a = p2 (a - b) * p2 b"
    by (simp flip: p2_add)
  then show ?thesis by simp
qed

lemma blen_bounds:
  "0 < n \<Longrightarrow> 1 \<le> blen n \<and> 2 ^ nat (blen n - 1) \<le> n \<and> n < 2 ^ nat (blen n)"
proof (induction n rule: blen.induct)
  case (1 n)
  show ?case
  proof (cases "n = 1")
    case True
    then show ?thesis by (simp add: blen.simps)
  next
    case False
    with "1.prems" have pos: "0 < n div 2" by simp
    define b where "b = blen (n div 2)"
    have IH: "1 \<le> b" "2 ^ nat (b - 1) \<le> n div 2" "n div 2 < 2 ^ nat b"
      using "1.IH" "1.prems" pos by (auto simp: b_def)
    have bn: "blen n = b + 1"
      using "1.prems" by (simp add: blen.simps [of n] b_def)
    have nb: "nat b = Suc (nat (b - 1))" "nat (b + 1) = Suc (nat b)"
      using IH(1) by linarith+
    have "2 * 2 ^ nat (b - 1) \<le> n" "n < 2 * 2 ^ nat b"
      using IH(2,3) by linarith+
    then show ?thesis
      using IH(1) nb by (simp add: bn)
  qed
qed

lemma ilog2_bounds:
  assumes "0 < x"
  shows "p2 (ilog2 x) \<le> x \<and> x < p2 (ilog2 x + 1)"
proof -
  obtain a b where q: "quotient_of x = (a, b)" by force
  have b: "0 < b" using q by (rule quotient_of_denom_pos)
  have x: "x = of_int a / of_int b" using q by (rule quotient_of_div)
  with assms b have a: "0 < a" by (simp add: zero_less_divide_iff)
  define la lb where "la = blen a" and "lb = blen b"
  have A: "p2 (la - 1) \<le> of_int a" "of_int a < p2 la"
    using blen_bounds [OF a] of_int_le_iff [where 'a = rat] of_int_less_iff [where 'a = rat]
    by (auto simp: la_def p2_nat simp del: of_int_power)
  have B: "p2 (lb - 1) \<le> of_int b" "of_int b < p2 lb"
    using blen_bounds [OF b] of_int_le_iff [where 'a = rat] of_int_less_iff [where 'a = rat]
    by (auto simp: lb_def p2_nat simp del: of_int_power)
  have "p2 (la - 1) / p2 lb \<le> x"
    unfolding x using A B a b by (intro frac_le) auto
  then have lo: "p2 (la - lb - 1) \<le> x"
    by (simp add: p2_diff algebra_simps)
  have "x < p2 la / p2 (lb - 1)"
    unfolding x using A B a by (intro frac_less) auto
  then have hi: "x < p2 (la - lb + 1)"
    by (simp add: p2_diff algebra_simps)
  show ?thesis
    using lo hi by (auto simp: ilog2_def q Let_def la_def lb_def)
qed

lemma ilog2_less: "0 < x \<Longrightarrow> x < p2 k \<Longrightarrow> ilog2 x < k"
  using ilog2_bounds [of x] p2_less_cancel [of "ilog2 x" k] by linarith

lemma ilog2_ge: "0 < x \<Longrightarrow> p2 k \<le> x \<Longrightarrow> k \<le> ilog2 x"
  using ilog2_bounds [of x] p2_less_cancel [of k "ilog2 x + 1"] by linarith

lemma ilog2_mono: "0 < x \<Longrightarrow> x \<le> y \<Longrightarrow> ilog2 x \<le> ilog2 y"
  using ilog2_bounds [of x] by (intro ilog2_ge) auto

lemma rne_of_int [simp]: "rne (of_int n) = n"
  by (simp add: rne_def)

lemma rne_floor: "rne x = \<lfloor>x\<rfloor> \<or> rne x = \<lfloor>x\<rfloor> + 1"
  by (simp add: rne_def Let_def)

lemma rne_error: "\<bar>of_int (rne x) - x\<bar> \<le> 1 / 2"
  by (simp add: rne_def Let_def abs_if) linarith

lemma rne_minus: "rne (- x) = - rne x"
proof (cases "x = of_int \<lfloor>x\<rfloor>")
  case True
  then obtain n where "x = of_int n" by blast
  then show ?thesis
    using rne_of_int [of "- n"] by simp
next
  case False
  define f d where "f = \<lfloor>x\<rfloor>" and "d = x - of_int f"
  have d: "0 < d" "d < 1"
    using False floor_correct [of x] unfolding f_def d_def by linarith+
  have x: "x = of_int f + d" by (simp add: d_def)
  have fl: "\<lfloor>- x\<rfloor> = - f - 1"
    using d by (intro floor_unique) (auto simp: x)
  have r: "rne x = (if d < 1 / 2 then f else if 1 / 2 < d then f + 1
      else if even f then f else f + 1)"
    by (simp add: rne_def Let_def f_def d_def)
  have m: "rne (- x) = (if 1 / 2 < d then - f - 1 else if d < 1 / 2 then - f
      else if even f then - f else - f - 1)"
    unfolding rne_def fl Let_def by (auto simp: x)
  show ?thesis
    unfolding r m by auto
qed

lemma rne_mono: "x \<le> y \<Longrightarrow> rne x \<le> rne y"
proof -
  assume le: "x \<le> y"
  show ?thesis
  proof (cases "\<lfloor>x\<rfloor> = \<lfloor>y\<rfloor>")
    case True
    with le show ?thesis by (auto simp: rne_def Let_def)
  next
    case False
    with floor_mono [OF le] have "\<lfloor>x\<rfloor> + 1 \<le> \<lfloor>y\<rfloor>" by linarith
    with rne_floor [of x] rne_floor [of y] show ?thesis by auto
  qed
qed

lemma rnd_0 [simp]: "rnd F 0 = 0"
  by (simp add: rnd_def)

lemma rnd_minus: "rnd F (- r) = - rnd F r"
  by (simp add: rnd_def fexp_def rne_minus)

text \<open>
  The interface of a floating point format: what the arithmetic of the load balancer relies on.
\<close>

locale float_fmt =
  fixes F :: fmt
  assumes prec_pos: "0 < prec F"
    and range: "emin F + int (prec F) \<le> emax F"
begin

lemma rnd_nonneg: "0 \<le> r \<Longrightarrow> 0 \<le> rnd F r"
  using rne_mono [of 0 "r / p2 (fexp F r)"] rne_of_int [of 0]
  by (simp add: rnd_def)

lemma rnd_upper:
  assumes "0 < x"
  shows "rnd F x \<le> p2 (fexp F x + int (prec F))"
proof -
  let ?e = "fexp F x"
  have "x < p2 (ilog2 x + 1)" using ilog2_bounds [OF assms] by simp
  also have "\<dots> \<le> p2 (?e + int (prec F))"
    using assms by (intro p2_mono) (simp add: fexp_def)
  finally have "x / p2 ?e \<le> p2 (int (prec F))"
    by (simp add: p2_add divide_le_eq mult.commute)
  then have "rne (x / p2 ?e) \<le> 2 ^ prec F"
    using rne_mono [of "x / p2 ?e" "of_int (2 ^ prec F)"]
    by (simp add: p2_nat del: of_int_power)
  then have "of_int (rne (x / p2 ?e)) \<le> p2 (int (prec F))"
    using of_int_le_iff [where 'a = rat] by (fastforce simp: p2_nat simp del: of_int_power)
  then have "of_int (rne (x / p2 ?e)) * p2 ?e \<le> p2 (int (prec F)) * p2 ?e"
    by (intro mult_right_mono) auto
  then show ?thesis
    using assms by (simp add: rnd_def p2_add mult.commute)
qed

lemma rnd_lower:
  assumes "0 < x" and "emin F < fexp F x"
  shows "p2 (fexp F x + int (prec F) - 1) \<le> rnd F x"
proof -
  let ?e = "fexp F x"
  have e: "?e = ilog2 x - int (prec F) + 1"
    using assms by (simp add: fexp_def max_def split: if_splits)
  define q where "q = nat (int (prec F) - 1)"
  have q: "int q = int (prec F) - 1" using prec_pos by (simp add: q_def)
  have "p2 (?e + int q) \<le> x"
    using ilog2_bounds [OF assms(1)] by (simp add: e q)
  then have "p2 (int q) \<le> x / p2 ?e"
    by (simp add: p2_add le_divide_eq mult.commute)
  then have "2 ^ q \<le> rne (x / p2 ?e)"
    using rne_mono [of "of_int (2 ^ q)" "x / p2 ?e"] by (simp add: p2_nat del: of_int_power)
  then have "p2 (int q) \<le> of_int (rne (x / p2 ?e))"
    using of_int_le_iff [where 'a = rat] by (fastforce simp: p2_nat simp del: of_int_power)
  then have "p2 (int q) * p2 ?e \<le> of_int (rne (x / p2 ?e)) * p2 ?e"
    by (intro mult_right_mono) auto
  then show ?thesis
    using assms(1) q by (simp add: rnd_def mult.commute flip: p2_add) (simp add: algebra_simps)
qed

lemma rnd_mono_pos:
  assumes "0 < x" and "x \<le> y"
  shows "rnd F x \<le> rnd F y"
proof -
  have ex: "fexp F x \<le> fexp F y"
    using ilog2_mono [OF assms] assms by (simp add: fexp_def)
  show ?thesis
  proof (cases "fexp F x = fexp F y")
    case True
    have "x / p2 (fexp F y) \<le> y / p2 (fexp F y)"
      using assms by (intro divide_right_mono) auto
    then have "rne (x / p2 (fexp F y)) \<le> rne (y / p2 (fexp F y))" by (rule rne_mono)
    then show ?thesis
      using True assms by (simp add: rnd_def)
  next
    case False
    with ex have lt: "fexp F x < fexp F y" by simp
    have "emin F \<le> fexp F x" by (simp add: fexp_def)
    with lt have em: "emin F < fexp F y" by simp
    have "rnd F x \<le> p2 (fexp F x + int (prec F))" using assms(1) by (rule rnd_upper)
    also have "\<dots> \<le> p2 (fexp F y + int (prec F) - 1)" using lt by (intro p2_mono) simp
    also have "\<dots> \<le> rnd F y" using assms em by (intro rnd_lower) auto
    finally show ?thesis .
  qed
qed

lemma rnd_mono: "x \<le> y \<Longrightarrow> rnd F x \<le> rnd F y"
proof -
  assume le: "x \<le> y"
  consider "0 < x" | "x \<le> 0" "0 \<le> y" | "y < 0" by linarith
  then show ?thesis
  proof cases
    case 1
    then show ?thesis using le by (rule rnd_mono_pos)
  next
    case 2
    have "0 \<le> rnd F (- x)" using 2 by (intro rnd_nonneg) simp
    moreover have "0 \<le> rnd F y" using 2 by (intro rnd_nonneg) simp
    ultimately show ?thesis by (simp add: rnd_minus)
  next
    case 3
    with le have "rnd F (- y) \<le> rnd F (- x)" by (intro rnd_mono_pos) auto
    then show ?thesis by (simp add: rnd_minus)
  qed
qed

lemma rnd_exact:
  assumes m: "\<bar>m\<bar> \<le> 2 ^ prec F" and e: "emin F \<le> e"
  shows "rnd F (of_int m * p2 e) = of_int m * p2 e"
proof (cases "m = 0")
  case True
  then show ?thesis by simp
next
  case False
  let ?r = "of_int m * p2 e"
  have fe: "\<bar>m\<bar> < 2 ^ prec F \<Longrightarrow> fexp F ?r \<le> e"
  proof -
    assume lt: "\<bar>m\<bar> < 2 ^ prec F"
    have "of_int \<bar>m\<bar> < (of_int (2 ^ prec F) :: rat)" using lt by (simp del: of_int_power)
    then have "\<bar>?r\<bar> < p2 (int (prec F) + e)"
      by (simp add: p2_add abs_mult p2_nat)
    then have "ilog2 \<bar>?r\<bar> < int (prec F) + e"
      using False by (intro ilog2_less) auto
    with e show ?thesis by (simp add: fexp_def)
  qed
  show ?thesis
  proof (cases "fexp F ?r \<le> e")
    case True
    then have "p2 e / p2 (fexp F ?r) = of_int (2 ^ nat (e - fexp F ?r))"
      by (simp add: p2_diff p2_nat)
    then have "?r / p2 (fexp F ?r) = of_int (m * 2 ^ nat (e - fexp F ?r))"
      by (simp flip: times_divide_eq_right)
    then have "of_int (rne (?r / p2 (fexp F ?r))) = ?r / p2 (fexp F ?r)"
      by (simp only: rne_of_int)
    then show ?thesis using False by (simp add: rnd_def)
  next
    case F: False
    with fe m have am: "\<bar>m\<bar> = 2 ^ prec F" by fastforce
    have "\<bar>of_int m\<bar> = (of_int (2 ^ prec F) :: rat)"
      by (simp only: am flip: of_int_abs)
    then have "ilog2 \<bar>?r\<bar> < int (prec F) + e + 1"
      using False by (intro ilog2_less) (auto simp: abs_mult p2_add p2_nat)
    with F e have fx: "fexp F ?r = e + 1" by (simp add: fexp_def)
    obtain q where q: "prec F = Suc q" using prec_pos by (cases "prec F") auto
    define m' where "m' = sgn m * 2 ^ q"
    have mm: "m = 2 * m'"
      using am by (simp add: m'_def q abs_if sgn_if split: if_splits)
    have "?r / p2 (e + 1) = of_int m'"
      by (simp add: mm p2_add p2_nat)
    then have "of_int (rne (?r / p2 (fexp F ?r))) = ?r / p2 (fexp F ?r)"
      by (simp only: fx rne_of_int)
    then show ?thesis using False by (simp add: rnd_def)
  qed
qed

text \<open>Values that survive rounding; a result between two of them stays between them.\<close>

definition representable :: "rat \<Rightarrow> bool" where
  "representable r \<longleftrightarrow> rnd F r = r \<and> \<bar>r\<bar> < p2 (emax F)"

lemma representable_0 [simp]: "representable 0"
  by (simp add: representable_def)

lemma representable_minus [simp]: "representable (- r) = representable r"
  by (auto simp: representable_def rnd_minus)

lemma representable_scaled:
  assumes "\<bar>m\<bar> \<le> 2 ^ prec F" and "emin F \<le> e" and "e + int (prec F) < emax F"
  shows "representable (of_int m * p2 e)"
proof -
  have "of_int \<bar>m\<bar> \<le> (of_int (2 ^ prec F) :: rat)"
    using assms(1) by (simp del: of_int_power)
  then have "\<bar>of_int m * p2 e\<bar> \<le> p2 (e + int (prec F))"
    by (simp add: abs_mult p2_add p2_nat mult.commute)
  also have "\<dots> < p2 (emax F)"
    using assms(3) p2_mono [of "emax F" "e + int (prec F)"] p2_less_cancel
    by (metis linorder_not_le p2_def power_int_strict_increasing one_less_numeral_iff
        semiring_norm(76))
  finally show ?thesis
    using rnd_exact [OF assms(1,2)] by (simp add: representable_def)
qed

lemma round_to_between:
  assumes "representable lo" and "representable hi" and "lo \<le> r" and "r \<le> hi"
  shows "\<exists>s. fval (round_to F neg r) = Some s \<and> lo \<le> s \<and> s \<le> hi"
proof -
  have "lo \<le> rnd F r" "rnd F r \<le> hi"
    using assms rnd_mono [of lo r] rnd_mono [of r hi] by (auto simp: representable_def)
  moreover have "\<bar>rnd F r\<bar> < p2 (emax F)"
    using calculation assms(1,2) by (auto simp: representable_def abs_if split: if_splits)
  ultimately show ?thesis
    by (auto simp: round_to_def Let_def)
qed

lemma round_to_exact: "representable r \<Longrightarrow> fval (round_to F neg r) = Some r"
  using round_to_between [of r r r neg] by fastforce

lemma round_to_pos:
  "representable r \<Longrightarrow> r \<noteq> 0 \<Longrightarrow> round_to F neg r = Fin r"
  by (auto simp: round_to_def Let_def representable_def)

end

lemma p2_strict_mono: "a < b \<Longrightarrow> p2 a < p2 b"
  by (simp add: p2_def power_int_strict_increasing)

interpretation b32: float_fmt binary32
  by unfold_locales (simp_all add: binary32_def)

interpretation b64: float_fmt binary64
  by unfold_locales (simp_all add: binary64_def)

text \<open>Integers of at most 24 (53) bits are exact in \<^verbatim>\<open>float\<close> (\<^verbatim>\<open>double\<close>).\<close>

lemma b32_representable_int: "\<bar>n\<bar> \<le> 2 ^ 24 \<Longrightarrow> b32.representable (of_int n)"
  using b32.representable_scaled [of n 0] by (simp add: binary32_def)

lemma b64_representable_int: "\<bar>n\<bar> \<le> 2 ^ 53 \<Longrightarrow> b64.representable (of_int n)"
  using b64.representable_scaled [of n 0] by (simp add: binary64_def)

lemma b32_representable_p2: "0 \<le> k \<Longrightarrow> k < 127 \<Longrightarrow> b32.representable (p2 k)"
proof (cases "k \<le> 24")
  case True
  assume "0 \<le> k"
  with True show ?thesis
    using b32_representable_int [of "2 ^ nat k"] power_increasing [of "nat k" 24 "2::int"]
    by (simp add: p2_nat)
next
  case False
  assume "k < 127"
  with False show ?thesis
    using b32.representable_scaled [of "2 ^ 23" "k - 23"] p2_nat [of 23] p2_add [of 23 "k - 23"]
    by (simp add: binary32_def)
qed

lemma f_of_int_exact64: "\<bar>n\<bar> \<le> 2 ^ 53 \<Longrightarrow> f_of_int binary64 n = Fin (of_int n)"
  using b64_representable_int [of n] b64.round_to_pos [of "of_int n" False]
  by (cases "n = 0") (auto simp: f_of_int_def round_to_def Let_def not_le [symmetric])

lemma f_of_int_exact32: "\<bar>n\<bar> \<le> 2 ^ 24 \<Longrightarrow> f_of_int binary32 n = Fin (of_int n)"
  using b32_representable_int [of n] b32.round_to_pos [of "of_int n" False]
  by (cases "n = 0") (auto simp: f_of_int_def round_to_def Let_def not_le [symmetric])

text \<open>Operations on finite operands round the exact result.\<close>

lemma fval_not_NaN: "fval a = Some x \<Longrightarrow> a \<noteq> NaN"
  by auto

lemma fadd_fin: "fval a = Some x \<Longrightarrow> fval b = Some y \<Longrightarrow>
    fadd F a b = round_to F (is_neg a \<and> is_neg b) (x + y)"
  by (auto simp: fadd_def)

lemma fval_fneg: "fval (fneg a) = map_option uminus (fval a)"
  by (cases a) auto

lemma fsub_fin: "fval a = Some x \<Longrightarrow> fval b = Some y \<Longrightarrow>
    fsub F a b = round_to F (is_neg a \<and> is_neg (fneg b)) (x - y)"
  by (simp add: fsub_def fadd_fin fval_fneg)

lemma fmul_fin: "fval a = Some x \<Longrightarrow> fval b = Some y \<Longrightarrow>
    fmul F a b = round_to F (is_neg a \<noteq> is_neg b) (x * y)"
  by (auto simp: fmul_def Let_def)

lemma fdiv_fin: "fval a = Some x \<Longrightarrow> fval b = Some y \<Longrightarrow> y \<noteq> 0 \<Longrightarrow>
    fdiv F a b = round_to F (is_neg a \<noteq> is_neg b) (x / y)"
  by (auto simp: fdiv_def Let_def)

lemma flt_fin: "fval a = Some x \<Longrightarrow> fval b = Some y \<Longrightarrow> flt a b \<longleftrightarrow> x < y"
  by (cases a; cases b) (auto simp: flt.simps)

lemma fle_fin: "fval a = Some x \<Longrightarrow> fval b = Some y \<Longrightarrow> fle a b \<longleftrightarrow> x \<le> y"
  by (cases a; cases b) (auto simp: fle.simps)

lemma f_to_int_fin:
  "fval a = Some r \<Longrightarrow> - (2 ^ 63) \<le> trunc r \<Longrightarrow> trunc r < 2 ^ 63 \<Longrightarrow> f_to_int a = Ok (trunc r)"
  by (simp add: f_to_int_def)

lemma f_to_int_fault: "f_to_int a = Fault e \<Longrightarrow> e = BadConversion"
  by (auto simp: f_to_int_def Let_def split: option.splits if_splits)

lemma trunc_of_int [simp]: "trunc (of_int n) = n"
  by (simp add: trunc_def)

lemma trunc_nonneg: "0 \<le> r \<Longrightarrow> 0 \<le> trunc r \<and> of_int (trunc r) \<le> r"
  by (simp add: trunc_def)


end
