(* ===== verification/LB_State.thy ===== *)
theory LB_State
  imports C_Float
begin

text \<open>
  The data of the multiversioning load balancer and its initialisation:
  \<^verbatim>\<open>src/http/ngx_http_request.h\<close> (the version structures),
  \<^verbatim>\<open>src/http/ngx_http_upstream_round_robin.h\<close> (peers) and the initialisers of
  \<^verbatim>\<open>src/http/ngx_http_upstream_round_robin.c\<close>.

  The active requests of a version form a singly linked list of \<^verbatim>\<open>malloc\<close>ed nodes that three
  places point into (the list head and tail, the \<^verbatim>\<open>recent_req\<close> of \<^verbatim>\<open>old_requests\<close>, and the
  \<^verbatim>\<open>enter_time\<close> of every request), so the nodes live in an explicit heap.
  The other structures have one owner each and are plain records.
\<close>

section \<open>Data\<close>

type_synonym addr = nat

record ngx_time =
  tp_sec :: int
  tp_msec :: int

record req_time =
  rt_sec :: int
  rt_msec :: int
  rt_no :: int
  rt_next :: "addr option"
  rt_tail :: "addr option"

type_synonym heap = "addr \<Rightarrow> req_time option"

record old_requests =
  time_sum :: int
  req_count :: int
  recent_req :: "addr option"
  recent_req_num :: int
  updated_sec :: int
  updated_msec :: int

text \<open>\<^verbatim>\<open>list_head\<close> and \<^verbatim>\<open>list_tail\<close> of the distribution own their nodes: the list of the values.\<close>

record probability_distribution =
  pd_list :: "cfloat list"
  pd_sum :: int
  squared_error_sum :: cfloat
  size_count :: int

record custom_versioned_server =
  vid :: int
  ip :: "string option"
  port :: "int option"
  completed_requests :: int
  req_upper_bound :: int
  active_req :: int
  predicted_avg_rt :: cfloat
  max_prediction :: cfloat
  predict :: int
  latest :: int
  avg_service_time :: cfloat
  service_time :: int
  service_time_update_sec :: int
  service_time_update_msec :: int
  curr_load :: cfloat
  req_times :: "addr option"
  req_tail :: "addr option"
  basic_probability :: probability_distribution
  old_reqs :: old_requests

text \<open>
  The pointers \<^verbatim>\<open>light\<close> and \<^verbatim>\<open>heavy\<close> of a peer are either \<^verbatim>\<open>NULL\<close> or equal to \<^verbatim>\<open>version\<close>:
  a flag says which.  \<^verbatim>\<open>sockaddr\<close> and \<^verbatim>\<open>socklen\<close> are one byte list.
\<close>

record rr_peer =
  sockaddr :: "u_char list"
  pname :: string
  server :: string
  current_weight :: ngx_int_t
  effective_weight :: ngx_int_t
  weight :: ngx_int_t
  light :: bool
  heavy :: bool
  version :: "custom_versioned_server option"
  pt :: ngx_uint_t
  conns :: ngx_uint_t
  max_conns :: ngx_uint_t
  fails :: ngx_uint_t
  accessed :: time_t
  checked :: time_t
  max_fails :: ngx_uint_t
  fail_timeout :: time_t
  down :: bool

record rr_peers =
  number :: ngx_uint_t
  total_weight :: ngx_uint_t
  ptries :: ngx_uint_t
  single :: bool
  weighted :: bool
  psname :: string
  peer :: "rr_peer list"
  log_time_sec :: ngx_int_t
  log_time_msec :: ngx_int_t
  max_req :: ngx_int_t
  ps_active_req :: ngx_int_t
  ps_req_count :: ngx_int_t
  avg_active_req :: cfloat
  avg_req_var :: cfloat

text \<open>
  The state of one upstream: the heap of request nodes, the primary group of peers and its
  \<^verbatim>\<open>next\<close>, the backup group.  \<open>next_addr\<close> is the address the next \<^verbatim>\<open>malloc\<close> returns; addresses
  are not reused, so a stale pointer is never valid again.
\<close>

record lb =
  heap :: heap
  next_addr :: addr
  primary :: rr_peers
  backup :: "rr_peers option"

datatype group = Primary | Backup

text \<open>\<open>rr_peer_data\<close> is \<^verbatim>\<open>ngx_http_upstream_rr_peer_data_t\<close>, one per request.\<close>

record rr_peer_data =
  rrp_peers :: group
  current :: "nat option"
  tried :: "64 word list"

text \<open>
  The fields of \<^verbatim>\<open>ngx_http_request_t\<close> and of its \<^verbatim>\<open>ngx_peer_connection_t\<close> the balancer uses.
  A version pointer is the position of its peer in a group.
\<close>

record http_request =
  start_sec :: int
  start_msec :: int
  r_version :: "(group \<times> nat) option"
  req_finish_before :: int
  r_predict :: int
  no :: int
  last_complete :: int
  enter_time :: "addr option"
  service_time_record :: cfloat
  pc_tries :: ngx_uint_t
  pc_name :: string
  pc_sockaddr :: "u_char list option"
  rrp :: rr_peer_data

definition group_of :: "lb \<Rightarrow> group \<Rightarrow> rr_peers option" where
  "group_of s g = (case g of Primary \<Rightarrow> Some (primary s) | Backup \<Rightarrow> backup s)"

definition set_group :: "lb \<Rightarrow> group \<Rightarrow> rr_peers \<Rightarrow> lb" where
  "set_group s g ps =
    (case g of Primary \<Rightarrow> s\<lparr>primary := ps\<rparr> | Backup \<Rightarrow> s\<lparr>backup := Some ps\<rparr>)"

section \<open>Initialisation of a version\<close>

abbreviation f32 :: "int \<Rightarrow> cfloat" where
  "f32 n \<equiv> f_of_int binary32 n"

abbreviation f64 :: "int \<Rightarrow> cfloat" where
  "f64 n \<equiv> f_of_int binary64 n"

definition INT_MAX :: int where
  "INT_MAX = 2147483647"

definition custom_server_init :: "int \<Rightarrow> custom_versioned_server" where
  "custom_server_init i =
    \<lparr>vid = i, ip = None, port = None, completed_requests = 0, req_upper_bound = INT_MAX - 5,
     active_req = 0, predicted_avg_rt = f32 0, max_prediction = f32 0, predict = 0, latest = 0,
     avg_service_time = f32 0, service_time = 0, service_time_update_sec = 0,
     service_time_update_msec = 0, curr_load = f32 0, req_times = None, req_tail = None,
     basic_probability =
       \<lparr>pd_list = [], pd_sum = 0, squared_error_sum = f32 0, size_count = 0\<rparr>,
     old_reqs =
       \<lparr>time_sum = 0, req_count = 0, recent_req = None, recent_req_num = 0,
        updated_sec = 0, updated_msec = 0\<rparr>\<rparr>"

section \<open>The configured servers\<close>

record ngx_addr =
  a_sockaddr :: "u_char list"
  a_name :: string

record upstream_server =
  us_name :: string
  us_addrs :: "ngx_addr list"
  us_weight :: ngx_uint_t
  us_max_conns :: ngx_uint_t
  us_max_fails :: ngx_uint_t
  us_pt :: ngx_uint_t
  us_fail_timeout :: time_t
  us_down :: bool
  us_backup :: bool

record srv_conf =
  servers :: "upstream_server list option"
  host :: string
  us_port :: int

text \<open>\<^verbatim>\<open>strtok(s, ":")\<close> followed by \<^verbatim>\<open>strtok(NULL, "")\<close>: the host part and the rest.\<close>

definition strtok_host :: "string \<Rightarrow> (string \<times> string option) option" where
  "strtok_host s =
    (let t = dropWhile (\<lambda>c. c = CHR '':'') s
     in if t = [] then None
        else let rest = drop 1 (dropWhile (\<lambda>c. c \<noteq> CHR '':'') t)
             in Some (takeWhile (\<lambda>c. c \<noteq> CHR '':'') t, if rest = [] then None else Some rest))"

text \<open>\<^verbatim>\<open>atoi\<close> of the C library: white space, a sign, then the longest run of digits.\<close>

fun atoi_digits :: "int \<Rightarrow> string \<Rightarrow> int" where
  "atoi_digits acc [] = acc"
| "atoi_digits acc (c # cs) =
    (let d = int (of_char c) - 48
     in if 0 \<le> d \<and> d \<le> 9 then atoi_digits (acc * 10 + d) cs else acc)"

definition c_isspace :: "char \<Rightarrow> bool" where
  "c_isspace c \<longleftrightarrow> (let k = (of_char c :: nat) in k = 32 \<or> 9 \<le> k \<and> k \<le> 13)"

definition c_atoi :: "string \<Rightarrow> int" where
  "c_atoi s =
    (case dropWhile c_isspace s of
       [] \<Rightarrow> 0
     | c # cs \<Rightarrow>
         if c = CHR ''-'' then - atoi_digits 0 cs
         else if c = CHR ''+'' then atoi_digits 0 cs
         else atoi_digits 0 (c # cs))"

section \<open>\<^verbatim>\<open>ngx_http_upstream_init_round_robin\<close>\<close>

text \<open>
  The first loop over the servers: number of addresses, weight, tries and performance target of
  the servers whose \<^verbatim>\<open>backup\<close> flag is \<open>b\<close>.  The backup loop does not look at \<^verbatim>\<open>pt\<close>.
\<close>

fun count_servers ::
  "bool \<Rightarrow> upstream_server list \<Rightarrow> ngx_uint_t \<times> ngx_uint_t \<times> ngx_uint_t \<times> ngx_uint_t
    \<Rightarrow> ngx_uint_t \<times> ngx_uint_t \<times> ngx_uint_t \<times> ngx_uint_t" where
  "count_servers b [] (n, w, t, p) = (n, w, t, p)"
| "count_servers b (s # ss) (n, w, t, p) =
    (if us_backup s \<noteq> b then count_servers b ss (n, w, t, p)
     else let k = of_nat (length (us_addrs s))
          in count_servers b ss
               (n + k, w + k * us_weight s, if us_down s then t else t + k,
                if us_pt s > 0 then us_pt s else p))"

text \<open>
  One peer of the primary group.  The name is copied into a buffer of 60 bytes with \<^verbatim>\<open>strcpy\<close>.
  \<open>mem_ok\<close> says whether the \<^verbatim>\<open>malloc\<close>s for this peer succeed; their results are not checked.
\<close>

definition init_primary_peer ::
  "bool \<Rightarrow> ngx_uint_t \<Rightarrow> upstream_server \<Rightarrow> ngx_addr \<Rightarrow> rr_peer res" where
  "init_primary_peer mem_ok perf s a =
    bindR (guardR NullDeref mem_ok) (\<lambda>_.
    bindR (guardR OutOfBounds (length (a_name a) < 60)) (\<lambda>_.
    let hv = (us_weight s = 2);
        v = custom_server_init (if hv then 4 else 2);
        v' = (case strtok_host (a_name a) of
                None \<Rightarrow> v
              | Some (h, None) \<Rightarrow> v\<lparr>ip := Some h\<rparr>
              | Some (h, Some r) \<Rightarrow> v\<lparr>ip := Some h, port := Some (c_atoi r)\<rparr>)
    in Ok \<lparr>sockaddr = a_sockaddr a, pname = a_name a, server = us_name s, current_weight = 0,
           effective_weight = sint (us_weight s), weight = sint (us_weight s),
           light = (\<not> hv), heavy = hv, version = Some v', pt = perf, conns = 0,
           max_conns = us_max_conns s, fails = 0, accessed = 0, checked = 0,
           max_fails = us_max_fails s, fail_timeout = us_fail_timeout s, down = us_down s\<rparr>))"

definition init_backup_peer :: "upstream_server \<Rightarrow> ngx_addr \<Rightarrow> rr_peer" where
  "init_backup_peer s a =
    \<lparr>sockaddr = a_sockaddr a, pname = a_name a, server = us_name s, current_weight = 0,
     effective_weight = sint (us_weight s), weight = sint (us_weight s),
     light = False, heavy = False, version = None, pt = 0, conns = 0,
     max_conns = us_max_conns s, fails = 0, accessed = 0, checked = 0,
     max_fails = us_max_fails s, fail_timeout = us_fail_timeout s, down = us_down s\<rparr>"

definition init_default_peer :: "ngx_addr \<Rightarrow> rr_peer" where
  "init_default_peer a =
    \<lparr>sockaddr = a_sockaddr a, pname = a_name a, server = [], current_weight = 0,
     effective_weight = 1, weight = 1, light = False, heavy = False, version = None, pt = 0,
     conns = 0, max_conns = 0, fails = 0, accessed = 0, checked = 0,
     max_fails = 1, fail_timeout = 10, down = False\<rparr>"

text \<open>The addresses of a group in configuration order, each with its server.\<close>

definition server_addrs :: "bool \<Rightarrow> upstream_server list \<Rightarrow> (upstream_server \<times> ngx_addr) list" where
  "server_addrs b ss =
    concat (map (\<lambda>s. map (Pair s) (us_addrs s)) (filter (\<lambda>s. us_backup s = b) ss))"

text \<open>A zeroed group (\<^verbatim>\<open>ngx_pcalloc\<close>) with its counters.\<close>

definition new_peers ::
  "string \<Rightarrow> ngx_uint_t \<Rightarrow> ngx_uint_t \<Rightarrow> ngx_uint_t \<Rightarrow> rr_peer list \<Rightarrow> rr_peers" where
  "new_peers nm n w t ps =
    \<lparr>number = n, total_weight = w, ptries = t, single = (n = 1), weighted = (w \<noteq> n),
     psname = nm, peer = ps, log_time_sec = 0, log_time_msec = 0, max_req = 0,
     ps_active_req = 0, ps_req_count = 0, avg_active_req = f32 0, avg_req_var = f32 0\<rparr>"

text \<open>
  The result is the return code and what \<^verbatim>\<open>us->peer.data\<close> points to.  \<open>pal k\<close> says whether the
  \<open>k\<close>-th \<^verbatim>\<open>ngx_pcalloc\<close> succeeds, \<open>mal i\<close> whether the \<^verbatim>\<open>malloc\<close>s for the \<open>i\<close>-th peer do, and
  \<open>resolve\<close> is \<^verbatim>\<open>ngx_inet_resolve_host\<close> (the system resolver).
\<close>

definition init_backup ::
  "(nat \<Rightarrow> bool) \<Rightarrow> upstream_server list \<Rightarrow> string \<Rightarrow> rr_peers
    \<Rightarrow> int \<times> (rr_peers \<times> rr_peers option) option" where
  "init_backup pal ss h ps =
    (let (n, w, t, _) = count_servers True ss (0, 0, 0, 0)
     in if n = 0 then (NGX_OK, Some (ps, None))
        else if \<not> pal 2 then (NGX_ERROR, Some (ps, None))
        else if \<not> pal 3 then (NGX_ERROR, Some (ps, None))
        else let bs = map (\<lambda>(s, a). init_backup_peer s a) (server_addrs True ss)
             in (NGX_OK, Some (ps\<lparr>single := False\<rparr>, Some ((new_peers h n w t bs)\<lparr>single := False\<rparr>))))"

definition ngx_http_upstream_init_round_robin ::
  "(nat \<Rightarrow> bool) \<Rightarrow> (nat \<Rightarrow> bool) \<Rightarrow> (string \<Rightarrow> int \<Rightarrow> ngx_addr list option) \<Rightarrow> srv_conf
    \<Rightarrow> (int \<times> (rr_peers \<times> rr_peers option) option) res" where
  "ngx_http_upstream_init_round_robin pal mal resolve us =
    (case servers us of
       Some ss \<Rightarrow>
         (let (n, w, t, p) = count_servers False ss (0, 0, 0, 0)
          in if n = 0 then Ok (NGX_ERROR, None)
             else if \<not> pal 0 then Ok (NGX_ERROR, None)
             else if \<not> pal 1 then Ok (NGX_ERROR, None)
             else bindR (mapR (\<lambda>(i, s, a). init_primary_peer (mal i) p s a)
                          (List.enumerate 0 (server_addrs False ss))) (\<lambda>ps.
                  Ok (init_backup pal ss (host us)
                       ((new_peers (host us) n w t ps)
                          \<lparr>log_time_sec := - 1, log_time_msec := - 1\<rparr>))))
     | None \<Rightarrow>
         if us_port us = 0 then Ok (NGX_ERROR, None)
         else (case resolve (host us) (us_port us) of
             None \<Rightarrow> Ok (NGX_ERROR, None)
           | Some as \<Rightarrow>
               if \<not> pal 0 then Ok (NGX_ERROR, None)
               else if \<not> pal 1 then Ok (NGX_ERROR, None)
               else let n = of_nat (length as)
                    in Ok (NGX_OK, Some ((new_peers (host us) n n n (map init_default_peer as))
                         \<lparr>weighted := False\<rparr>, None))))"

text \<open>The upstream after configuration, before the first request.\<close>

definition start_lb :: "rr_peers \<times> rr_peers option \<Rightarrow> lb" where
  "start_lb d = \<lparr>heap = Map.empty, next_addr = 0, primary = fst d, backup = snd d\<rparr>"

end
