(* ===== verification/LB_Select.thy ===== *)
theory LB_Select
  imports LB_State
begin

text \<open>
  Choosing a peer for a request: \<^verbatim>\<open>ngx_http_upstream_init_round_robin_peer\<close>,
  \<^verbatim>\<open>ngx_http_upstream_create_round_robin_peer\<close>, \<^verbatim>\<open>ngx_http_upstream_get_peer\<close>,
  \<^verbatim>\<open>ngx_http_upstream_buffer_request_data\<close>, \<^verbatim>\<open>ngx_http_upstream_get_round_robin_peer\<close> and
  \<^verbatim>\<open>ngx_http_upstream_free_round_robin_peer\<close> of \<^verbatim>\<open>src/http/ngx_http_upstream_round_robin.c\<close>.
  Locks and debug logging have no effect on the state and are left out; \<open>tp\<close> is the cached time
  (\<^verbatim>\<open>ngx_timeofday()\<close>, whose seconds are \<^verbatim>\<open>ngx_time()\<close>).
\<close>

section \<open>Per-request data\<close>

definition tried_words :: "ngx_uint_t \<Rightarrow> nat" where
  "tried_words n = (if n \<le> 64 then 1 else unat ((n + 63) div 64))"

definition ngx_http_upstream_tries :: "rr_peers \<Rightarrow> rr_peers option \<Rightarrow> ngx_uint_t" where
  "ngx_http_upstream_tries ps nx = ptries ps + (case nx of None \<Rightarrow> 0 | Some b \<Rightarrow> ptries b)"

text \<open>\<open>pal 0\<close> is the allocation of \<^verbatim>\<open>rrp\<close>, \<open>pal 1\<close> that of a long \<^verbatim>\<open>tried\<close> bitmap.\<close>

definition ngx_http_upstream_init_round_robin_peer ::
  "(nat \<Rightarrow> bool) \<Rightarrow> lb \<Rightarrow> http_request \<Rightarrow> int \<times> http_request" where
  "ngx_http_upstream_init_round_robin_peer pal s r =
    (if \<not> pal 0 then (NGX_ERROR, r)
     else
       let n0 = number (primary s);
           n = (case backup s of
                  Some b \<Rightarrow> if number b > n0 then number b else n0
                | None \<Rightarrow> n0)
       in if \<not> n \<le> 64 \<and> \<not> pal 1 then (NGX_ERROR, r)
          else (NGX_OK,
                r\<lparr>rrp := \<lparr>rrp_peers = Primary, current = None,
                          tried = replicate (tried_words n) 0\<rparr>,
                  pc_tries := ngx_http_upstream_tries (primary s) (backup s)\<rparr>))"

record upstream_resolved =
  ur_host :: string
  ur_name :: "string option"
  ur_sockaddr :: "u_char list option"
  ur_addrs :: "ngx_addr list"
  ur_naddrs :: nat

text \<open>
  A group of peers made for one request from resolved addresses.  \<open>with_port\<close> is
  \<^verbatim>\<open>ngx_inet_set_port\<close> and \<^verbatim>\<open>ngx_sock_ntop\<close> applied to an address.
\<close>

definition ngx_http_upstream_create_round_robin_peer ::
  "(nat \<Rightarrow> bool) \<Rightarrow> (ngx_addr \<Rightarrow> ngx_addr) \<Rightarrow> upstream_resolved \<Rightarrow> http_request
    \<Rightarrow> int \<times> (lb \<times> http_request) option" where
  "ngx_http_upstream_create_round_robin_peer pal with_port ur r =
    (if \<not> pal 0 \<or> \<not> pal 1 \<or> \<not> pal 2 then (NGX_ERROR, None)
     else
       let n = of_nat (ur_naddrs ur);
           ps = (case ur_sockaddr ur of
                   Some sa \<Rightarrow>
                     [init_default_peer \<lparr>a_sockaddr = sa,
                        a_name = (case ur_name ur of Some nm \<Rightarrow> nm | None \<Rightarrow> ur_host ur)\<rparr>]
                 | None \<Rightarrow> map (\<lambda>a. init_default_peer (with_port a)) (take (ur_naddrs ur) (ur_addrs ur)));
           g = (new_peers (ur_host ur) n 0 n ps)\<lparr>weighted := False\<rparr>;
           s = \<lparr>heap = Map.empty, next_addr = 0, primary = g, backup = None\<rparr>
       in if ur_sockaddr ur = None \<and> \<not> (\<forall>i < ur_naddrs ur. pal (3 + 2 * i) \<and> pal (4 + 2 * i))
          then (NGX_ERROR, None)
          else if \<not> n \<le> 64 \<and> \<not> pal (3 + 2 * ur_naddrs ur) then (NGX_ERROR, None)
          else (NGX_OK, Some (s,
                r\<lparr>rrp := \<lparr>rrp_peers = Primary, current = None,
                          tried = replicate (tried_words n) 0\<rparr>,
                  pc_tries := ngx_http_upstream_tries g None\<rparr>)))"

section \<open>Selecting a peer\<close>

text \<open>The performance target: the last positive \<^verbatim>\<open>pt\<close> of the list of peers.\<close>

fun find_pt :: "rr_peer list \<Rightarrow> int \<Rightarrow> int" where
  "find_pt [] p = p"
| "find_pt (x # xs) p = find_pt xs (if pt x > 0 then sint (pt x) else p)"

text \<open>The bit of peer \<open>i\<close> in the bitmap of tried peers.\<close>

definition tried_bit :: "64 word list \<Rightarrow> nat \<Rightarrow> bool res" where
  "tried_bit ts i =
    (if i div 64 < length ts then Ok (bit (ts ! (i div 64)) (i mod 64)) else Fault OutOfBounds)"

definition peer_failed :: "time_t \<Rightarrow> rr_peer \<Rightarrow> bool" where
  "peer_failed now p \<longleftrightarrow>
    max_fails p \<noteq> 0 \<and> fails p \<ge> max_fails p \<and> now - checked p \<le> fail_timeout p"

definition peer_full :: "rr_peer \<Rightarrow> bool" where
  "peer_full p \<longleftrightarrow> max_conns p \<noteq> 0 \<and> conns p \<ge> max_conns p"

text \<open>A peer the loop does not skip, apart from the bitmap.\<close>

definition peer_usable :: "time_t \<Rightarrow> rr_peer \<Rightarrow> bool" where
  "peer_usable now p \<longleftrightarrow> \<not> down p \<and> \<not> peer_failed now p \<and> \<not> peer_full p"

text \<open>
  Finished requests at the front of the list are freed.  \<open>prune_dead\<close> works on the heap, the list
  head and \<^verbatim>\<open>recent_req\<close>; every turn frees a node, so \<open>Suc (next_addr s)\<close> turns are enough.
\<close>

fun prune_dead ::
  "nat \<Rightarrow> heap \<Rightarrow> addr option \<Rightarrow> addr option \<Rightarrow> (heap \<times> addr option \<times> addr option) res" where
  "prune_dead fuel h None rq = Ok (h, None, rq)"
| "prune_dead 0 h (Some a) rq = Fault OutOfFuel"
| "prune_dead (Suc fuel) h (Some a) rq =
    bindR (derefR UseAfterFree (h a)) (\<lambda>nd.
      if rt_sec nd = - 1
      then prune_dead fuel (h(a := None)) (rt_next nd) (if rq = Some a then None else rq)
      else Ok (h, Some a, rq))"

text \<open>When no old request is being watched, the oldest active request becomes the first one.\<close>

definition watch_oldest :: "ngx_time \<Rightarrow> heap \<Rightarrow> addr option \<Rightarrow> old_requests \<Rightarrow> old_requests res" where
  "watch_oldest tp h hd_req od =
    (case (recent_req od, hd_req) of
       (None, Some a) \<Rightarrow>
         bindR (derefR UseAfterFree (h a)) (\<lambda>nd.
           Ok (od\<lparr>recent_req := Some a, req_count := req_count od + 1,
                  time_sum := time_sum od
                    + (1000 * (tp_sec tp - rt_sec nd) + (tp_msec tp - rt_msec nd)),
                  updated_sec := tp_sec tp, updated_msec := tp_msec tp,
                  recent_req_num := rt_no nd\<rparr>))
     | _ \<Rightarrow> Ok od)"

definition clamp_prediction :: "int \<Rightarrow> custom_versioned_server \<Rightarrow> custom_versioned_server" where
  "clamp_prediction perf v =
    (if fle (f32 perf) (max_prediction v)
     then v\<lparr>predicted_avg_rt := f32 (perf - 1), max_prediction := f32 (perf - 1)\<rparr> else v)"

definition elapsed_ms :: "ngx_time \<Rightarrow> int \<Rightarrow> int \<Rightarrow> int" where
  "elapsed_ms tp s ms = (tp_sec tp - s) * 1000 + (tp_msec tp - ms)"

definition account_service :: "ngx_time \<Rightarrow> custom_versioned_server \<Rightarrow> custom_versioned_server" where
  "account_service tp v =
    v\<lparr>service_time := service_time v
        + elapsed_ms tp (service_time_update_sec v) (service_time_update_msec v) * active_req v,
      service_time_update_sec := tp_sec tp, service_time_update_msec := tp_msec tp\<rparr>"

text \<open>The predicted response time of one more request, and its correction by the burst factor.\<close>

definition base_load :: "custom_versioned_server \<Rightarrow> cfloat" where
  "base_load v = fmul binary32 (predicted_avg_rt v) (f32 (active_req v + 1))"

definition curr_service :: "custom_versioned_server \<Rightarrow> cfloat" where
  "curr_service v =
    (let n = f32 (active_req v - req_count (old_reqs v))
     in fdiv binary32 (f32 (service_time v - time_sum (old_reqs v)))
          (ngx_maxf (f32 1) (fmul binary32 n n)))"

definition burst_factor :: "custom_versioned_server \<Rightarrow> cfloat" where
  "burst_factor v =
    fdiv binary32 (fsub binary32 (avg_service_time v) (curr_service v))
      (fmul binary32 (f32 3) (avg_service_time v))"

definition peer_load :: "custom_versioned_server \<Rightarrow> cfloat" where
  "peer_load v =
    (if completed_requests v > 200 then
       let bf = burst_factor v
       in if fle (f_lit binary64 (- 33 / 100)) bf \<and> fle bf (f_lit binary64 (33 / 100))
          then f_conv binary32 (fmul binary64 (base_load v) (fadd binary64 (f64 1) bf))
          else base_load v
     else base_load v)"

definition decay_prediction :: "custom_versioned_server \<Rightarrow> custom_versioned_server" where
  "decay_prediction v =
    (if completed_requests v + active_req v < 200
     then v\<lparr>predicted_avg_rt :=
              f_conv binary32 (fmul binary64 (predicted_avg_rt v) (f_lit binary64 (995 / 1000)))\<rparr>
     else v)"

text \<open>The mean age in milliseconds of the watched old requests.\<close>

definition mean_oldest :: "custom_versioned_server \<Rightarrow> int res" where
  "mean_oldest v =
    f_to_int (fdiv binary32 (f32 (time_sum (old_reqs v))) (f32 (req_count (old_reqs v))))"

definition avg_oldest :: "custom_versioned_server \<Rightarrow> int res" where
  "avg_oldest v =
    f_to_int (fdiv binary32 (f32 (time_sum (old_reqs v))) (f32 (max 1 (req_count (old_reqs v)))))"

text \<open>The variables of the selection loop.\<close>

record sel =
  s_heap :: heap
  s_peers :: "rr_peer list"
  s_heavy :: "nat option"
  s_light :: "nat option"
  heavy_load :: cfloat
  light_load :: cfloat

text \<open>The updates of a version that the loop makes before it compares loads.\<close>

definition refresh_version ::
  "nat \<Rightarrow> ngx_time \<Rightarrow> int \<Rightarrow> heap \<Rightarrow> custom_versioned_server
    \<Rightarrow> (heap \<times> custom_versioned_server) res" where
  "refresh_version fuel tp perf h v =
    bindR (prune_dead fuel h (req_times v) (recent_req (old_reqs v))) (\<lambda>(h', hd_req, rq).
    bindR (watch_oldest tp h' hd_req ((old_reqs v)\<lparr>recent_req := rq\<rparr>)) (\<lambda>od.
    Ok (h', account_service tp (clamp_prediction perf (v\<lparr>req_times := hd_req, old_reqs := od\<rparr>)))))"

definition version_of :: "rr_peer list \<Rightarrow> nat \<Rightarrow> custom_versioned_server res" where
  "version_of ps i =
    (if i < length ps then derefR NullDeref (version (ps ! i)) else Fault OutOfBounds)"

text \<open>Comparing peer \<open>i\<close> of load \<open>ld\<close> with the best heavy and light peers so far.\<close>

definition compare_peer :: "int \<Rightarrow> nat \<Rightarrow> cfloat \<Rightarrow> sel \<Rightarrow> sel res" where
  "compare_peer perf i ld st =
    (let p = s_peers st ! i
     in if s_heavy st = None \<and> heavy p
        then Ok (st\<lparr>s_heavy := Some i, heavy_load := ld\<rparr>)
        else if s_light st = None \<and> light p
        then Ok (st\<lparr>s_light := Some i, light_load := ld\<rparr>)
        else
          bindR (derefR NullDeref (s_heavy st)) (\<lambda>hi.
          bindR (version_of (s_peers st) hi) (\<lambda>hv.
          bindR (mean_oldest hv) (\<lambda>h_oldest.
          bindR (version_of (s_peers st) i) (\<lambda>cv.
          bindR (mean_oldest cv) (\<lambda>curr_oldest.
          Ok (if heavy p \<and> (flt ld (heavy_load st) \<or> h_oldest \<ge> perf \<and> curr_oldest < perf)
              then st\<lparr>s_heavy := Some i, heavy_load := ld\<rparr>
              else if light p \<and> flt ld (light_load st)
              then st\<lparr>s_light := Some i, light_load := ld\<rparr>
              else st)))))))"

text \<open>One turn of the loop over the peers.\<close>

definition select_step ::
  "nat \<Rightarrow> ngx_time \<Rightarrow> int \<Rightarrow> 64 word list \<Rightarrow> nat \<Rightarrow> sel \<Rightarrow> sel res" where
  "select_step fuel tp perf ts i st =
    bindR (tried_bit ts i) (\<lambda>t.
      if t \<or> \<not> peer_usable (tp_sec tp) (s_peers st ! i) then Ok st
      else
        bindR (version_of (s_peers st) i) (\<lambda>v.
        bindR (refresh_version fuel tp perf (s_heap st) v) (\<lambda>(h', v').
        compare_peer perf i (peer_load v')
          (st\<lparr>s_heap := h',
              s_peers := (s_peers st)[i := (s_peers st ! i)\<lparr>version := Some (decay_prediction v')\<rparr>]\<rparr>))))"

fun select_loop ::
  "nat \<Rightarrow> ngx_time \<Rightarrow> int \<Rightarrow> 64 word list \<Rightarrow> nat list \<Rightarrow> sel \<Rightarrow> sel res" where
  "select_loop fuel tp perf ts [] st = Ok st"
| "select_loop fuel tp perf ts (i # is) st =
    bindR (select_step fuel tp perf ts i st) (select_loop fuel tp perf ts is)"

text \<open>The heavy version is used unless its old requests or its predicted load exceed the target.\<close>

definition choose_best :: "int \<Rightarrow> sel \<Rightarrow> nat option res" where
  "choose_best perf st =
    (case (s_heavy st, s_light st) of
       (None, l) \<Rightarrow> Ok l
     | (Some hi, None) \<Rightarrow> Ok (Some hi)
     | (Some hi, Some li) \<Rightarrow>
         bindR (version_of (s_peers st) hi) (\<lambda>hv.
         bindR (avg_oldest hv) (\<lambda>ao.
         Ok (if fle (fmul binary64 (f_lit binary64 (3 / 2)) (f64 perf)) (f64 ao) then Some li
             else if fle (f32 perf) (heavy_load st) then Some li
             else Some hi))))"

definition smooth64 :: "cfloat \<Rightarrow> cfloat \<Rightarrow> cfloat" where
  "smooth64 old new =
    f_conv binary32
      (fadd binary64 (fmul binary64 (f_lit binary64 (995 / 1000)) old)
                     (fmul binary64 (f_lit binary64 (5 / 1000)) new))"

text \<open>Entering the request into the chosen version.\<close>

definition enter_version :: "ngx_time \<Rightarrow> cfloat \<Rightarrow> custom_versioned_server \<Rightarrow> custom_versioned_server res" where
  "enter_version tp ld v =
    (let m = max 1 (active_req v - req_count (old_reqs v));
         cst = fdiv binary32 (f32 (service_time v - time_sum (old_reqs v))) (f32 (m * m));
         avg = (if feq (avg_service_time v) (f32 0) then cst else smooth64 (avg_service_time v) cst)
     in bindR (f_to_int ld) (\<lambda>pr.
        Ok (v\<lparr>avg_service_time := avg, service_time_update_sec := tp_sec tp,
              service_time_update_msec := tp_msec tp, curr_load := ld, predict := pr,
              active_req := active_req v + 1\<rparr>)))"

definition enter_peers :: "rr_peers \<Rightarrow> rr_peers" where
  "enter_peers ps =
    (let a = ps_active_req ps + 1;
         diff = fsub binary32 (avg_active_req ps) (f32 a)
     in ps\<lparr>ps_active_req := a,
           avg_active_req := smooth64 (avg_active_req ps) (f64 a),
           avg_req_var := smooth64 (avg_req_var ps) (fmul binary32 diff diff),
           max_req := max a (max_req ps),
           ps_req_count := ps_req_count ps + 1\<rparr>)"

text \<open>
  The whole function.  The chosen peer is read (\<^verbatim>\<open>best->version\<close>) before it is compared with
  \<^verbatim>\<open>NULL\<close>, so having no usable peer is a crash and the \<^verbatim>\<open>NULL\<close> result is never returned.
\<close>

definition ngx_http_upstream_get_peer ::
  "ngx_time \<Rightarrow> lb \<Rightarrow> rr_peer_data \<Rightarrow> (lb \<times> rr_peer_data \<times> nat option) res" where
  "ngx_http_upstream_get_peer tp s rd =
    bindR (derefR NullDeref (group_of s (rrp_peers rd))) (\<lambda>ps.
    let perf = find_pt (peer ps) 0;
        st0 = \<lparr>s_heap = heap s, s_peers = peer ps, s_heavy = None, s_light = None,
               heavy_load = f32 0, light_load = f32 0\<rparr>
    in
    bindR (select_loop (Suc (next_addr s)) tp perf (tried rd) [0..<length (peer ps)] st0) (\<lambda>st.
    bindR (choose_best perf st) (\<lambda>best.
    bindR (derefR NullDeref best) (\<lambda>b.
    bindR (version_of (s_peers st) b) (\<lambda>v.
    bindR (enter_version tp (if best = s_heavy st then heavy_load st else light_load st) v) (\<lambda>v'.
    let ps' = (enter_peers ps)
                \<lparr>peer := (s_peers st)
                  [b := (s_peers st ! b)\<lparr>version := Some v', checked := tp_sec tp\<rparr>]\<rparr>
    in Ok (set_group (s\<lparr>heap := s_heap st\<rparr>) (rrp_peers rd) ps', rd\<lparr>current := Some b\<rparr>, Some b)))))))"

section \<open>Recording the request\<close>

text \<open>
  A new node at the tail of the list of active requests.  The tail pointer is only trusted when
  the list is not empty.
\<close>

definition push_req_time ::
  "http_request \<Rightarrow> heap \<Rightarrow> addr \<Rightarrow> custom_versioned_server \<Rightarrow> (heap \<times> custom_versioned_server) res" where
  "push_req_time r h a v =
    (let nd = \<lparr>rt_sec = start_sec r, rt_msec = start_msec r, rt_no = no r, rt_next = None,
               rt_tail = None\<rparr>;
         h1 = h(a \<mapsto> nd)
     in if req_times v = None then Ok (h1, v\<lparr>req_times := Some a, req_tail := Some a\<rparr>)
        else
          bindR (derefR NullDeref (req_tail v)) (\<lambda>t.
          bindR (derefR UseAfterFree (h1 t)) (\<lambda>tn.
          Ok (h1(t \<mapsto> tn\<lparr>rt_next := Some a\<rparr>), v\<lparr>req_tail := Some a\<rparr>))))"

definition ngx_http_upstream_buffer_request_data ::
  "bool \<Rightarrow> ngx_time \<Rightarrow> lb \<Rightarrow> http_request \<Rightarrow> (lb \<times> http_request) res" where
  "ngx_http_upstream_buffer_request_data mem_ok tp s r =
    (let g = rrp_peers (rrp r) in
    bindR (derefR NullDeref (group_of s g)) (\<lambda>ps.
    bindR (derefR NullDeref (current (rrp r))) (\<lambda>i.
    bindR (version_of (peer ps) i) (\<lambda>v.
    let v1 = v\<lparr>service_time := service_time v
                 + elapsed_ms tp (service_time_update_sec v) (service_time_update_msec v)
                   * (active_req v - 1)
                 + elapsed_ms tp (start_sec r) (start_msec r),
               service_time_update_sec := tp_sec tp, service_time_update_msec := tp_msec tp\<rparr>;
        r1 = r\<lparr>r_version := Some (g, i), req_finish_before := completed_requests v1,
               no := completed_requests v1 + active_req v1, last_complete := latest v1,
               r_predict := predict v1\<rparr>;
        m = max 1 (active_req v1 - req_count (old_reqs v1));
        srec = fdiv binary32 (f32 (service_time v1 - time_sum (old_reqs v1))) (f32 (m * m));
        a = next_addr s
    in if mem_ok then
         bindR (push_req_time r1 (heap s) a v1) (\<lambda>(h', v2).
         Ok (set_group (s\<lparr>heap := h', next_addr := Suc a\<rparr>) g
               (ps\<lparr>peer := (peer ps)[i := (peer ps ! i)\<lparr>version := Some v2\<rparr>]\<rparr>),
             r1\<lparr>enter_time := Some a, service_time_record := srec\<rparr>))
       else
         Ok (set_group s g (ps\<lparr>peer := (peer ps)[i := (peer ps ! i)\<lparr>version := Some v1\<rparr>]\<rparr>),
             r1\<lparr>enter_time := None, service_time_record := srec\<rparr>)))))"

section \<open>\<^verbatim>\<open>ngx_http_upstream_get_round_robin_peer\<close>\<close>

text \<open>The body for one group: \<open>None\<close> is the jump to \<^verbatim>\<open>failed\<close>.\<close>

definition get_peer_in_group ::
  "bool \<Rightarrow> ngx_time \<Rightarrow> lb \<Rightarrow> http_request \<Rightarrow> (lb \<times> http_request) option res" where
  "get_peer_in_group mem_ok tp s r =
    bindR (ngx_http_upstream_get_peer tp s (rrp r)) (\<lambda>(s1, rd, best).
    case best of
      None \<Rightarrow> Ok None
    | Some b \<Rightarrow>
        let g = rrp_peers rd in
        bindR (derefR NullDeref (group_of s1 g)) (\<lambda>ps.
        let p = peer ps ! b;
            s2 = set_group s1 g (ps\<lparr>peer := (peer ps)[b := p\<lparr>conns := conns p + 1\<rparr>]\<rparr>);
            r2 = r\<lparr>rrp := rd, pc_sockaddr := Some (sockaddr p), pc_name := pname p\<rparr>
        in bindR (ngx_http_upstream_buffer_request_data mem_ok tp s2 r2) (\<lambda>sr. Ok (Some sr))))"

definition clear_tried :: "ngx_uint_t \<Rightarrow> 64 word list \<Rightarrow> 64 word list" where
  "clear_tried n ts = (let k = unat ((n + 63) div 64) in replicate (min k (length ts)) 0 @ drop k ts)"

definition ngx_http_upstream_get_round_robin_peer ::
  "bool \<Rightarrow> ngx_time \<Rightarrow> lb \<Rightarrow> http_request \<Rightarrow> (int \<times> lb \<times> http_request) res" where
  "ngx_http_upstream_get_round_robin_peer mem_ok tp s r =
    bindR (get_peer_in_group mem_ok tp s r) (\<lambda>res.
    case res of
      Some (s', r') \<Rightarrow> Ok (NGX_OK, s', r')
    | None \<Rightarrow>
        (case (rrp_peers (rrp r), backup s) of
           (Primary, Some b) \<Rightarrow>
             let r1 = r\<lparr>rrp := (rrp r)\<lparr>rrp_peers := Backup,
                                       tried := clear_tried (number b) (tried (rrp r))\<rparr>\<rparr>
             in bindR (get_peer_in_group mem_ok tp s r1) (\<lambda>res2.
                case res2 of
                  Some (s', r') \<Rightarrow> Ok (NGX_OK, s', r')
                | None \<Rightarrow> Ok (NGX_BUSY, s, r1\<lparr>pc_name := psname (primary s)\<rparr>))
         | _ \<Rightarrow> Ok (NGX_BUSY, s, r\<lparr>pc_name :=
                  (case group_of s (rrp_peers (rrp r)) of Some ps \<Rightarrow> psname ps | None \<Rightarrow> [])\<rparr>)))"

section \<open>\<^verbatim>\<open>ngx_http_upstream_free_round_robin_peer\<close>\<close>

definition NGX_PEER_KEEPALIVE :: "64 word" where "NGX_PEER_KEEPALIVE = 1"
definition NGX_PEER_NEXT :: "64 word" where "NGX_PEER_NEXT = 2"

text \<open>
  \<^verbatim>\<open>effective_weight -= weight / max_fails\<close> mixes signed and unsigned operands: it is computed on
  64-bit words and stored back as a signed number.
\<close>

definition weaken :: "rr_peer \<Rightarrow> ngx_int_t" where
  "weaken p = sint (word_of_int (effective_weight p) - word_of_int (weight p) div max_fails p :: 64 word)"

definition free_failed_peer :: "time_t \<Rightarrow> rr_peer \<Rightarrow> rr_peer" where
  "free_failed_peer now p =
    (let ew = (if max_fails p \<noteq> 0 then weaken p else effective_weight p)
     in p\<lparr>fails := fails p + 1, accessed := now, checked := now,
          effective_weight := (if ew < 0 then 0 else ew)\<rparr>)"

definition free_live_peer :: "rr_peer \<Rightarrow> rr_peer" where
  "free_live_peer p = (if accessed p < checked p then p\<lparr>fails := 0\<rparr> else p)"

definition ngx_http_upstream_free_round_robin_peer ::
  "ngx_time \<Rightarrow> lb \<Rightarrow> http_request \<Rightarrow> 64 word \<Rightarrow> (lb \<times> http_request) res" where
  "ngx_http_upstream_free_round_robin_peer tp s r state =
    (let g = rrp_peers (rrp r) in
    bindR (derefR NullDeref (group_of s g)) (\<lambda>ps.
    bindR (derefR NullDeref (current (rrp r))) (\<lambda>i.
    if i < length (peer ps) then
      let p = peer ps ! i
      in if single ps then
           Ok (set_group s g (ps\<lparr>peer := (peer ps)[i := p\<lparr>conns := conns p - 1\<rparr>]\<rparr>),
               r\<lparr>pc_tries := 0\<rparr>)
         else
           let p' = (if and state NGX_PEER_FAILED \<noteq> 0 then free_failed_peer (tp_sec tp) p
                     else free_live_peer p)
           in Ok (set_group s g (ps\<lparr>peer := (peer ps)[i := p'\<lparr>conns := conns p' - 1\<rparr>]\<rparr>),
                  r\<lparr>pc_tries := (if pc_tries r \<noteq> 0 then pc_tries r - 1 else 0)\<rparr>)
    else Fault OutOfBounds)))"

end
