(* ===== verification/LB_Complete.thy ===== *)
theory LB_Complete
  imports LB_Select
begin

text \<open>
  Completion of a request: \<^verbatim>\<open>ngx_http_log_request_time\<close> and \<^verbatim>\<open>custom_system_monitor_capacity\<close>
  of \<^verbatim>\<open>src/http/modules/ngx_http_log_module.c\<close>.  The log line itself is not modelled; everything
  the function does to the balancer's state is.
\<close>

section \<open>The window of squared prediction errors\<close>

text \<open>The mean time per request completed while this request was active.\<close>

definition req_share :: "cfloat \<Rightarrow> int \<Rightarrow> custom_versioned_server \<Rightarrow> cfloat" where
  "req_share ms bef v =
    (if completed_requests v < bef
     then fdiv binary32 ms (f32 (completed_requests v - bef + req_upper_bound v))
     else fdiv binary32 ms (f32 (max 1 (completed_requests v - bef))))"

definition push_error :: "cfloat \<Rightarrow> probability_distribution \<Rightarrow> probability_distribution" where
  "push_error d pd =
    (let val = (if size_count pd = 0 then f32 0 else fmul binary32 d d);
         lst = (if size_count pd = 0 then [val] else pd_list pd @ [val]);
         sq = fadd binary32 (squared_error_sum pd) val
     in if size_count pd \<ge> 200
        then pd\<lparr>pd_list := tl lst, squared_error_sum := fsub binary32 sq (hd lst)\<rparr>
        else pd\<lparr>pd_list := lst, squared_error_sum := sq, size_count := size_count pd + 1\<rparr>)"

section \<open>The watched old requests\<close>

text \<open>Request number \<open>k\<close>, started at the given time, leaves the set of watched requests.\<close>

definition unwatch :: "int \<Rightarrow> int \<Rightarrow> int \<Rightarrow> int \<Rightarrow> old_requests \<Rightarrow> old_requests" where
  "unwatch k s ms tot od =
    (if recent_req od \<noteq> None \<and> (k \<le> recent_req_num od \<or> k > tot)
     then let c = req_count od - 1
          in od\<lparr>time_sum := time_sum od
                  - (1000 * (updated_sec od - s) + (updated_msec od - ms)),
                req_count := c, recent_req := (if c = 0 then None else recent_req od)\<rparr>
     else od)"

definition age_watched :: "ngx_time \<Rightarrow> old_requests \<Rightarrow> old_requests" where
  "age_watched tp od =
    od\<lparr>time_sum := time_sum od
         + req_count od
           * (1000 * (tp_sec tp - updated_sec od) + (tp_msec tp - updated_msec od)),
       updated_sec := tp_sec tp, updated_msec := tp_msec tp\<rparr>"

text \<open>The loop condition \<^verbatim>\<open>oldest->req_count < 0.2 * r->version->active_req\<close>, in \<^verbatim>\<open>double\<close>.\<close>

definition needs_watch :: "int \<Rightarrow> int \<Rightarrow> bool" where
  "needs_watch c n = flt (f64 c) (fmul binary64 (f_lit binary64 (1 / 5)) (f64 n))"

text \<open>Node \<open>a\<close> becomes the newest watched request.\<close>

definition watch :: "addr \<Rightarrow> req_time \<Rightarrow> old_requests \<Rightarrow> old_requests" where
  "watch a nd od =
    od\<lparr>req_count := req_count od + 1,
       time_sum := time_sum od
         + (1000 * (updated_sec od - rt_sec nd) + (updated_msec od - rt_msec nd)),
       recent_req := Some a, recent_req_num := rt_no nd\<rparr>"

text \<open>
  The loop that keeps a fifth of the active requests watched.  \<open>n\<close> is the number of active
  requests; the state is the heap, the list head and the watched set.  Every turn unlinks a node or
  moves \<^verbatim>\<open>recent_req\<close> forward.
\<close>

fun rewatch ::
  "nat \<Rightarrow> int \<Rightarrow> heap \<Rightarrow> addr option \<Rightarrow> old_requests \<Rightarrow> (heap \<times> addr option \<times> old_requests) res" where
  "rewatch fuel n h hd_req od =
    (if \<not> needs_watch (req_count od) n then Ok (h, hd_req, od)
     else case fuel of
       0 \<Rightarrow> Fault OutOfFuel
     | Suc fuel' \<Rightarrow>
         (case recent_req od of
            None \<Rightarrow>
              bindR (derefR NullDeref hd_req) (\<lambda>a.
              bindR (derefR UseAfterFree (h a)) (\<lambda>nd.
                if rt_sec nd = - 1 then rewatch fuel' n (h(a := None)) (rt_next nd) od
                else rewatch fuel' n h hd_req (watch a nd od)))
          | Some c \<Rightarrow>
              bindR (derefR UseAfterFree (h c)) (\<lambda>cn.
              bindR (derefR NullDeref (rt_next cn)) (\<lambda>a.
              bindR (derefR UseAfterFree (h a)) (\<lambda>nd.
                if rt_sec nd = - 1
                then rewatch fuel' n ((h(c \<mapsto> cn\<lparr>rt_next := rt_next nd\<rparr>))(a := None)) hd_req od
                else rewatch fuel' n h hd_req (watch a nd od))))))"

declare rewatch.simps [simp del]

section \<open>The prediction\<close>

definition update_prediction :: "cfloat \<Rightarrow> int \<Rightarrow> custom_versioned_server \<Rightarrow> custom_versioned_server" where
  "update_prediction ms bef v =
    (let a = f_conv binary32 (f_lit binary64 (5 / 1000));
         p = predicted_avg_rt v;
         c = completed_requests v;
         p' = (if c < 100 then
                 let b = fsub binary32 (f32 1) (fdiv binary32 (f32 1) (f32 c))
                 in fadd binary32 (fmul binary32 b p)
                      (fmul binary32 (fsub binary32 (f32 1) b)
                        (fdiv binary32 ms (f32 (c - bef))))
               else
                 fadd binary32 (fmul binary32 a (req_share ms bef v))
                   (fmul binary32 (fsub binary32 (f32 1) a) p))
     in v\<lparr>predicted_avg_rt := p', max_prediction := ngx_maxf (max_prediction v) p'\<rparr>)"

section \<open>\<^verbatim>\<open>custom_system_monitor_capacity\<close>\<close>

text \<open>
  The report is a \<^verbatim>\<open>malloc\<close>ed string, or a string literal when no performance target is set; the
  caller passes either to \<^verbatim>\<open>free\<close>.  The result says whether the string may be freed.
\<close>

definition custom_system_monitor_capacity :: "ngx_time \<Rightarrow> rr_peers \<Rightarrow> (rr_peers \<times> bool) res" where
  "custom_system_monitor_capacity tp ps =
    (if find_pt (peer ps) 0 = 0 then Ok (ps, False)
     else if \<exists>p \<in> set (peer ps). version p = None then Fault NullDeref
     else Ok (ps\<lparr>log_time_sec := tp_sec tp, log_time_msec := tp_msec tp, ps_req_count := 0,
                 max_req := 0\<rparr>, True))"

section \<open>\<^verbatim>\<open>ngx_http_log_request_time\<close>\<close>

text \<open>The response time in milliseconds as a \<^verbatim>\<open>float\<close>, not negative.\<close>

definition response_ms :: "ngx_time \<Rightarrow> http_request \<Rightarrow> cfloat" where
  "response_ms tp r = ngx_maxf (f32 (elapsed_ms tp (start_sec r) (start_msec r))) (f32 0)"

definition start_monitor :: "ngx_time \<Rightarrow> rr_peers \<Rightarrow> rr_peers \<times> bool" where
  "start_monitor tp ps =
    (if log_time_sec ps = - 1
     then (ps\<lparr>log_time_sec := tp_sec tp, log_time_msec := tp_msec tp\<rparr>, False)
     else (ps, tp_sec tp - log_time_sec ps \<ge> 15))"

text \<open>The counters, the service time and the error window of the version.\<close>

definition complete_counters ::
  "ngx_time \<Rightarrow> http_request \<Rightarrow> custom_versioned_server \<Rightarrow> custom_versioned_server res" where
  "complete_counters tp r v =
    bindR (guardR DivByZero (req_upper_bound v \<noteq> 0)) (\<lambda>_.
    let v1 = v\<lparr>completed_requests := (completed_requests v + 1) mod req_upper_bound v,
               active_req := active_req v - 1, latest := no r\<rparr>;
        st = service_time v1 + (active_req v1 + 1)
               * elapsed_ms tp (service_time_update_sec v1) (service_time_update_msec v1)
    in bindR (f_to_int (fsub binary32 (f32 st) (response_ms tp r))) (\<lambda>st'.
       let v2 = v1\<lparr>service_time := st', service_time_update_sec := tp_sec tp,
                   service_time_update_msec := tp_msec tp\<rparr>;
           d = fsub binary32 (req_share (response_ms tp r) (req_finish_before r) v2)
                 (predicted_avg_rt v2)
       in Ok (v2\<lparr>basic_probability := push_error d (basic_probability v2)\<rparr>)))"

text \<open>The node of the request is marked as finished.\<close>

definition mark_done :: "heap \<Rightarrow> addr option \<Rightarrow> heap res" where
  "mark_done h e =
    bindR (derefR NullDeref e) (\<lambda>a.
    bindR (derefR UseAfterFree (h a)) (\<lambda>nd.
    Ok (h(a \<mapsto> nd\<lparr>rt_sec := - 1, rt_msec := - 1\<rparr>))))"

definition complete_version ::
  "nat \<Rightarrow> ngx_time \<Rightarrow> http_request \<Rightarrow> heap \<Rightarrow> custom_versioned_server
    \<Rightarrow> (heap \<times> custom_versioned_server) res" where
  "complete_version fuel tp r h v =
    bindR (mark_done h (enter_time r)) (\<lambda>h1.
    bindR (complete_counters tp r v) (\<lambda>v2.
    let od = age_watched tp
               (unwatch (no r) (start_sec r) (start_msec r)
                 (completed_requests v2 + active_req v2) (old_reqs v2))
    in bindR (rewatch fuel (active_req v2) h1 (req_times v2) od) (\<lambda>(h2, hd_req, od').
       Ok (h2, update_prediction (response_ms tp r) (req_finish_before r)
                 (v2\<lparr>req_times := hd_req, old_reqs := od'\<rparr>)))))"

definition ngx_http_log_request_time :: "ngx_time \<Rightarrow> lb \<Rightarrow> http_request \<Rightarrow> lb res" where
  "ngx_http_log_request_time tp s r =
    (case r_version r of
       None \<Rightarrow> Ok s
     | Some (g, i) \<Rightarrow>
         let g' = rrp_peers (rrp r) in
         bindR (derefR NullDeref (group_of s g')) (\<lambda>ps0.
         let (ps1, monitor) = start_monitor tp ps0;
             s1 = set_group s g' (ps1\<lparr>ps_active_req := ps_active_req ps1 - 1\<rparr>)
         in
         bindR (derefR NullDeref (group_of s1 g)) (\<lambda>ps.
         bindR (version_of (peer ps) i) (\<lambda>v.
         bindR (complete_version (Suc (next_addr s1)) tp r (heap s1) v) (\<lambda>(h', v').
         let s2 = set_group (s1\<lparr>heap := h'\<rparr>) g
                    (ps\<lparr>peer := (peer ps)[i := (peer ps ! i)\<lparr>version := Some v'\<rparr>]\<rparr>)
         in if \<not> monitor then Ok s2
            else
              bindR (derefR NullDeref (group_of s2 g')) (\<lambda>ps2.
              bindR (custom_system_monitor_capacity tp ps2) (\<lambda>(ps3, freeable).
              bindR (guardR BadFree freeable) (\<lambda>_. Ok (set_group s2 g' ps3)))))))))"

end
