(* ===== verification/LB_Queue.thy ===== *)
theory LB_Queue
  imports LB_Complete
begin

text \<open>
  The list of active requests of a version as a list on the heap: what its operations
  (\<open>prune_dead\<close>, \<open>watch_oldest\<close>, \<open>push_req_time\<close>, \<open>mark_done\<close>, \<open>unwatch\<close>, \<open>rewatch\<close>) do to it, and the
  invariant they keep.  The watched requests are the live ones up to \<^verbatim>\<open>recent_req\<close>;
  \<^verbatim>\<open>req_count\<close> is their number and \<^verbatim>\<open>time_sum\<close> the sum of their ages at the time of the last
  update.
\<close>

section \<open>Paths on the heap\<close>

primrec path :: "heap \<Rightarrow> addr option \<Rightarrow> addr list \<Rightarrow> addr option \<Rightarrow> bool" where
  "path h p [] q \<longleftrightarrow> p = q"
| "path h p (a # as) q \<longleftrightarrow> p = Some a \<and> (\<exists>nd. h a = Some nd \<and> path h (rt_next nd) as q)"

lemma path_append: "path h p (as @ bs) q \<longleftrightarrow> (\<exists>m. path h p as m \<and> path h m bs q)"
  by (induction as arbitrary: p) auto

lemma path_cong: "(\<And>a. a \<in> set as \<Longrightarrow> h a = h' a) \<Longrightarrow> path h p as q = path h' p as q"
  by (induction as arbitrary: p) auto

lemma path_upd [simp]: "a \<notin> set as \<Longrightarrow> path (h(a := x)) p as q = path h p as q"
  by (rule path_cong) auto

lemma path_dom: "path h p as q \<Longrightarrow> a \<in> set as \<Longrightarrow> \<exists>nd. h a = Some nd"
  by (induction as arbitrary: p) auto

lemma path_None_Nil: "path h None as None \<longleftrightarrow> as = []"
  by (cases as) auto

lemma path_next_cong:
  "(\<And>a. a \<in> set as \<Longrightarrow> map_option rt_next (h a) = map_option rt_next (h' a)) \<Longrightarrow>
    path h p as q = path h' p as q"
proof (induction as arbitrary: p)
  case (Cons a as)
  have "map_option rt_next (h a) = map_option rt_next (h' a)" by (simp add: Cons.prems)
  then show ?case using Cons by (cases "h a"; cases "h' a") auto
qed simp

section \<open>Live nodes\<close>

definition live :: "heap \<Rightarrow> addr \<Rightarrow> bool" where
  "live h a \<longleftrightarrow> (case h a of None \<Rightarrow> False | Some nd \<Rightarrow> rt_sec nd \<noteq> - 1)"

abbreviation nlive :: "heap \<Rightarrow> addr list \<Rightarrow> nat" where
  "nlive h as \<equiv> length (filter (live h) as)"

definition nno :: "heap \<Rightarrow> addr \<Rightarrow> int" where
  "nno h a = (case h a of None \<Rightarrow> 0 | Some nd \<Rightarrow> rt_no nd)"

definition node_age :: "int \<Rightarrow> int \<Rightarrow> heap \<Rightarrow> addr \<Rightarrow> int" where
  "node_age s ms h a =
    (case h a of None \<Rightarrow> 0 | Some nd \<Rightarrow> 1000 * (s - rt_sec nd) + (ms - rt_msec nd))"

definition ages :: "int \<Rightarrow> int \<Rightarrow> heap \<Rightarrow> addr list \<Rightarrow> int" where
  "ages s ms h as = sum_list (map (node_age s ms h) (filter (live h) as))"

lemma ages_Nil [simp]: "ages s ms h [] = 0"
  by (simp add: ages_def)

lemma ages_append [simp]: "ages s ms h (as @ bs) = ages s ms h as + ages s ms h bs"
  by (simp add: ages_def)

lemma ages_Cons [simp]:
  "ages s ms h (a # as) = (if live h a then node_age s ms h a else 0) + ages s ms h as"
  by (simp add: ages_def)

text \<open>The heap fields other than the links.\<close>

definition same_data :: "heap \<Rightarrow> heap \<Rightarrow> addr \<Rightarrow> bool" where
  "same_data h h' a \<longleftrightarrow>
    map_option (\<lambda>nd. (rt_sec nd, rt_msec nd, rt_no nd)) (h a)
    = map_option (\<lambda>nd. (rt_sec nd, rt_msec nd, rt_no nd)) (h' a)"

lemma same_data_refl [simp]: "same_data h h a"
  by (simp add: same_data_def)

lemma same_data_eq: "h a = h' a \<Longrightarrow> same_data h h' a"
  by (simp add: same_data_def)

lemma same_data_trans: "same_data h h' a \<Longrightarrow> same_data h' h'' a \<Longrightarrow> same_data h h'' a"
  by (simp add: same_data_def)

lemma same_data_live: "same_data h h' a \<Longrightarrow> live h a = live h' a"
  by (auto simp: same_data_def live_def split: option.splits)

lemma same_data_nno: "same_data h h' a \<Longrightarrow> nno h a = nno h' a"
  by (auto simp: same_data_def nno_def split: option.splits)

lemma same_data_age: "same_data h h' a \<Longrightarrow> node_age s ms h a = node_age s ms h' a"
  by (auto simp: same_data_def node_age_def split: option.splits)

lemma same_data_filter:
  "\<forall>a \<in> set as. same_data h h' a \<Longrightarrow> filter (live h) as = filter (live h') as"
  by (rule filter_cong) (auto simp: same_data_live)

lemma same_data_ages:
  "\<forall>a \<in> set as. same_data h h' a \<Longrightarrow> ages s ms h as = ages s ms h' as"
  unfolding ages_def by (simp add: same_data_filter [of as h h'])
    (rule arg_cong [where f = sum_list], auto intro!: map_cong simp: same_data_age)

section \<open>The invariant of a queue\<close>

text \<open>\<open>ws\<close> is the part of the list up to \<^verbatim>\<open>recent_req\<close>.\<close>

definition watched :: "heap \<Rightarrow> addr list \<Rightarrow> old_requests \<Rightarrow> bool" where
  "watched h ws od \<longleftrightarrow>
    0 < req_count od \<and> req_count od = int (nlive h ws)
    \<and> time_sum od = ages (updated_sec od) (updated_msec od) h ws
    \<and> recent_req_num od = nno h (last ws)"

definition watch_ok :: "heap \<Rightarrow> addr list \<Rightarrow> old_requests \<Rightarrow> bool" where
  "watch_ok h as od \<longleftrightarrow>
    (case recent_req od of
       None \<Rightarrow> req_count od = 0 \<and> time_sum od = 0
     | Some c \<Rightarrow> \<exists>pre post. as = pre @ c # post \<and> watched h (pre @ [c]) od)"

lemma watch_ok_None: "recent_req od = None \<Longrightarrow>
    watch_ok h as od \<longleftrightarrow> req_count od = 0 \<and> time_sum od = 0"
  by (simp add: watch_ok_def)

lemma watch_ok_SomeE:
  assumes "watch_ok h as od" and "recent_req od = Some c"
  obtains pre post where "as = pre @ c # post" and "watched h (pre @ [c]) od"
  using assms by (auto simp: watch_ok_def)

lemma watch_ok_SomeI:
  "recent_req od = Some c \<Longrightarrow> as = pre @ c # post \<Longrightarrow> watched h (pre @ [c]) od \<Longrightarrow> watch_ok h as od"
  by (auto simp: watch_ok_def)

definition qinv :: "heap \<Rightarrow> addr option \<Rightarrow> addr option \<Rightarrow> addr list \<Rightarrow> old_requests \<Rightarrow> bool" where
  "qinv h hd_req tl_req as od \<longleftrightarrow>
    path h hd_req as None \<and> distinct as \<and> (as \<noteq> [] \<longrightarrow> tl_req = Some (last as))
    \<and> sorted_wrt (\<lambda>a b. nno h a < nno h b) as \<and> watch_ok h as od"

lemma qinv_path: "qinv h p t as od \<Longrightarrow> path h p as None"
  by (simp add: qinv_def)

lemma qinv_distinct: "qinv h p t as od \<Longrightarrow> distinct as"
  by (simp add: qinv_def)

lemma qinv_dom: "qinv h p t as od \<Longrightarrow> a \<in> set as \<Longrightarrow> \<exists>nd. h a = Some nd"
  using path_dom qinv_path by blast

lemma watch_ok_append: "watch_ok h as od \<Longrightarrow> watch_ok h (as @ bs) od"
  by (cases "recent_req od") (auto simp: watch_ok_None elim!: watch_ok_SomeE intro: watch_ok_SomeI)

lemma watched_data:
  assumes d: "\<forall>a \<in> set ws. same_data h h' a" and "ws \<noteq> []" and "watched h ws od"
  shows "watched h' ws od"
proof -
  have "nno h (last ws) = nno h' (last ws)"
    using d assms(2) by (simp add: same_data_nno)
  with assms(3) show ?thesis
    unfolding watched_def same_data_filter [OF d] same_data_ages [OF d] by auto
qed

lemma watch_ok_data:
  assumes d: "\<forall>a \<in> set as. same_data h h' a" and w: "watch_ok h as od"
  shows "watch_ok h' as od"
proof (cases "recent_req od")
  case None
  with w show ?thesis by (simp add: watch_ok_def)
next
  case (Some c)
  with w obtain pre post where as: "as = pre @ c # post" and wd: "watched h (pre @ [c]) od"
    by (rule watch_ok_SomeE)
  have "watched h' (pre @ [c]) od"
    using d as by (intro watched_data [OF _ _ wd]) auto
  with Some as show ?thesis by (rule watch_ok_SomeI)
qed

lemma sorted_data:
  assumes "\<forall>a \<in> set as. same_data h h' a" and "sorted_wrt (\<lambda>a b. nno h a < nno h b) as"
  shows "sorted_wrt (\<lambda>a b. nno h' a < nno h' b) as"
  using assms(2)
proof (rule sorted_wrt_mono_rel [rotated])
  fix x y
  assume "x \<in> set as" "y \<in> set as" "nno h x < nno h y"
  with assms(1) same_data_nno [of h h' x] same_data_nno [of h h' y]
  show "nno h' x < nno h' y" by simp
qed

lemma qinv_frame:
  assumes "\<forall>a \<in> set as. h' a = h a"
  shows "qinv h' p t as od = qinv h p t as od"
proof -
  have d: "\<forall>a \<in> set as. same_data h h' a" "\<forall>a \<in> set as. same_data h' h a"
    using assms by (auto simp: same_data_def)
  show ?thesis
    using path_cong [of as h' h] assms sorted_data [OF d(1)] sorted_data [OF d(2)]
      watch_ok_data [OF d(1)] watch_ok_data [OF d(2)]
    by (auto simp: qinv_def)
qed

section \<open>Freeing finished requests at the front\<close>

lemma prune_dead_spec:
  assumes "path h p as None" and "distinct as" and "length as \<le> fuel"
  shows "\<exists>h' p'. prune_dead fuel h p rq
      = Ok (h', p', if rq \<in> Some ` set (takeWhile (\<lambda>a. \<not> live h a) as) then None else rq)
    \<and> path h' p' (dropWhile (\<lambda>a. \<not> live h a) as) None
    \<and> (\<forall>a. a \<notin> set (takeWhile (\<lambda>a. \<not> live h a) as) \<longrightarrow> h' a = h a)"
  using assms
proof (induction as arbitrary: h p rq fuel)
  case Nil
  then show ?case by (cases fuel) auto
next
  case (Cons a as)
  from Cons.prems(1) obtain nd where p: "p = Some a" and nd: "h a = Some nd"
    and rest: "path h (rt_next nd) as None"
    by auto
  from Cons.prems(3) obtain f where f: "fuel = Suc f" "length as \<le> f" by (cases fuel) auto
  show ?case
  proof (cases "rt_sec nd = - 1")
    case True
    then have dead: "\<not> live h a" by (simp add: live_def nd)
    have na: "a \<notin> set as" using Cons.prems(2) by simp
    let ?h = "h(a := None)" and ?rq = "if rq = Some a then None else rq"
    have lv: "\<And>b. b \<in> set as \<Longrightarrow> live ?h b = live h b"
      using na by (auto simp: live_def)
    have tk: "takeWhile (\<lambda>b. \<not> live ?h b) as = takeWhile (\<lambda>b. \<not> live h b) as"
      "dropWhile (\<lambda>b. \<not> live ?h b) as = dropWhile (\<lambda>b. \<not> live h b) as"
      using lv by (auto intro!: takeWhile_cong dropWhile_cong)
    have "path ?h (rt_next nd) as None" using rest na by simp
    note Cons.IH [OF this _ f(2), of ?rq, unfolded tk]
    then obtain h' p' where IH: "prune_dead f ?h (rt_next nd) ?rq
        = Ok (h', p', if ?rq \<in> Some ` set (takeWhile (\<lambda>b. \<not> live h b) as) then None else ?rq)"
      "path h' p' (dropWhile (\<lambda>b. \<not> live h b) as) None"
      "\<forall>b. b \<notin> set (takeWhile (\<lambda>b. \<not> live h b) as) \<longrightarrow> h' b = ?h b"
      using Cons.prems(2) by (meson distinct.simps(2))
    show ?thesis
      using IH dead True
      by (intro exI [of _ h'] exI [of _ p']) (auto simp: f p nd)
  next
    case False
    then have "live h a" by (simp add: live_def nd)
    then show ?thesis
      using False p nd rest by (auto simp: f)
  qed
qed

lemma filter_dropWhile_dead:
  "filter (live h) (dropWhile (\<lambda>a. \<not> live h a) as) = filter (live h) as"
  by (induction as) auto


lemma takeWhile_dead: "a \<in> set (takeWhile (\<lambda>a. \<not> live h a) as) \<Longrightarrow> \<not> live h a"
  by (induction as) (auto split: if_splits)

lemma dropWhile_append_live:
  "live h a \<Longrightarrow> a \<in> set pre \<Longrightarrow>
    dropWhile (\<lambda>a. \<not> live h a) (pre @ post) = dropWhile (\<lambda>a. \<not> live h a) pre @ post"
  by (rule dropWhile_append1) auto

lemma watched_live: "watched h ws od \<Longrightarrow> \<exists>a \<in> set ws. live h a"
  using filter_empty_conv [of "live h" ws] by (fastforce simp: watched_def)

lemma watched_dropWhile:
  assumes "watched h ws od"
  shows "watched h (dropWhile (\<lambda>a. \<not> live h a) ws) od"
proof -
  obtain a where "a \<in> set ws" "live h a" using watched_live [OF assms] by blast
  then have "dropWhile (\<lambda>a. \<not> live h a) ws \<noteq> []" by (auto simp: dropWhile_eq_Nil_conv)
  then have "last (dropWhile (\<lambda>a. \<not> live h a) ws) = last ws"
    by (metis last_appendR takeWhile_dropWhile_id)
  with assms show ?thesis
    by (auto simp: watched_def ages_def filter_dropWhile_dead)
qed

lemma prune_dead_qinv:
  assumes q: "qinv h p t as od" and "length as \<le> fuel"
  shows "\<exists>h' p' as'. prune_dead fuel h p (recent_req od) = Ok (h', p', recent_req od)
    \<and> qinv h' p' t as' od \<and> filter (live h') as' = filter (live h) as \<and> set as' \<subseteq> set as
    \<and> (as' \<noteq> [] \<longrightarrow> live h' (hd as'))
    \<and> (\<forall>a. a \<notin> set as \<or> live h a \<or> a \<in> set as' \<longrightarrow> h' a = h a)"
proof -
  let ?d = "\<lambda>a. \<not> live h a"
  let ?as = "dropWhile ?d as"
  from q have dist: "distinct as" by (rule qinv_distinct)
  obtain h' p' where pr: "prune_dead fuel h p (recent_req od)
      = Ok (h', p', if recent_req od \<in> Some ` set (takeWhile ?d as) then None else recent_req od)"
    and pa: "path h' p' ?as None"
    and fr: "\<forall>a. a \<notin> set (takeWhile ?d as) \<longrightarrow> h' a = h a"
    using prune_dead_spec [OF qinv_path [OF q] dist assms(2)] by blast
  have disj: "\<And>a. a \<in> set ?as \<Longrightarrow> a \<notin> set (takeWhile ?d as)"
    using dist by (metis distinct_append disjoint_iff takeWhile_dropWhile_id)
  have heq: "\<forall>a \<in> set ?as. h' a = h a" using fr disj by blast
  have wk: "watch_ok h ?as od \<and> recent_req od \<notin> Some ` set (takeWhile ?d as)"
  proof (cases "recent_req od")
    case None
    with q show ?thesis by (auto simp: qinv_def watch_ok_None)
  next
    case (Some c)
    with q obtain pre post where as: "as = pre @ c # post" and w: "watched h (pre @ [c]) od"
      by (auto simp: qinv_def elim: watch_ok_SomeE)
    obtain a where a: "a \<in> set (pre @ [c])" "live h a" using watched_live [OF w] by blast
    have e: "?as = dropWhile ?d (pre @ [c]) @ post"
      using dropWhile_append_live [OF a(2,1), of post] by (simp add: as)
    let ?ws = "dropWhile ?d (pre @ [c])"
    have "?ws \<noteq> []" using a by (auto simp: dropWhile_eq_Nil_conv)
    moreover from this have "last ?ws = c"
      by (metis last_appendR last_snoc takeWhile_dropWhile_id)
    ultimately have ws: "?ws = butlast ?ws @ [c]" by (metis append_butlast_last_id)
    have wo: "watch_ok h ?as od"
    proof (rule watch_ok_SomeI [OF Some])
      show "?as = butlast ?ws @ c # post" using e ws by (metis append.assoc append_Cons append_Nil)
      show "watched h (butlast ?ws @ [c]) od" using watched_dropWhile [OF w] ws by simp
    qed
    have "c \<in> set ?as" using e ws by (metis UnCI in_set_conv_decomp set_append)
    with disj Some wo show ?thesis by auto
  qed
  have ls: "?as \<noteq> [] \<longrightarrow> t = Some (last ?as)"
    using q by (auto simp: qinv_def) (metis dropWhile_eq_Nil_conv last_appendR takeWhile_dropWhile_id)
  have so: "sorted_wrt (\<lambda>a b. nno h a < nno h b) ?as"
    using q by (metis qinv_def sorted_wrt_append takeWhile_dropWhile_id)
  have di: "distinct ?as" using dist by (rule distinct_dropWhile)
  have "path h p' ?as None" using path_cong [of ?as h' h] heq pa by simp
  with wk ls so di have "qinv h p' t ?as od" by (simp add: qinv_def)
  then have qi: "qinv h' p' t ?as od" using qinv_frame [OF heq] by simp
  have "filter (live h') ?as = filter (live h) ?as"
    by (rule filter_cong [OF refl]) (simp add: live_def heq)
  then have fl: "filter (live h') ?as = filter (live h) as"
    by (simp add: filter_dropWhile_dead)
  have hdl: "?as \<noteq> [] \<longrightarrow> live h' (hd ?as)"
    using hd_dropWhile [of ?d as] heq by (auto simp: live_def)
  have pr': "prune_dead fuel h p (recent_req od) = Ok (h', p', recent_req od)"
    using pr wk by simp
  have su: "set ?as \<subseteq> set as" by (auto dest: set_dropWhileD)
  have fr': "\<forall>a. a \<notin> set as \<or> live h a \<or> a \<in> set ?as \<longrightarrow> h' a = h a"
    using fr heq takeWhile_dead [of _ h as] set_takeWhileD [of _ ?d as] by blast
  show ?thesis
    by (intro exI conjI) (rule pr' qi fl su hdl fr')+
qed

section \<open>Watching requests\<close>

lemma watched_single:
  assumes "h a = Some nd" and "rt_sec nd \<noteq> - 1" and "req_count od = 0" and "time_sum od = 0"
  shows "watched h [a] (watch a nd od)"
  using assms by (simp add: watched_def watch_def live_def ages_def node_age_def nno_def)

lemma watched_snoc:
  assumes "h a = Some nd" and "rt_sec nd \<noteq> - 1" and "watched h ws od"
  shows "watched h (ws @ [a]) (watch a nd od)"
  using assms by (auto simp: watched_def watch_def live_def ages_def node_age_def nno_def)

lemma watch_oldest_watch:
  "watch_oldest tp h p od =
    (case (recent_req od, p) of
       (None, Some a) \<Rightarrow> bindR (derefR UseAfterFree (h a)) (\<lambda>nd.
         Ok (watch a nd (od\<lparr>updated_sec := tp_sec tp, updated_msec := tp_msec tp\<rparr>)))
     | _ \<Rightarrow> Ok od)"
  by (auto simp: watch_oldest_def watch_def split: option.splits intro!: bindR_cong)

lemma watch_oldest_qinv:
  assumes q: "qinv h p t as od" and l: "as \<noteq> [] \<longrightarrow> live h (hd as)"
  shows "\<exists>od'. watch_oldest tp h p od = Ok od' \<and> qinv h p t as od'
    \<and> (recent_req od = None \<longrightarrow> req_count od' = (if as = [] then 0 else 1))
    \<and> (recent_req od \<noteq> None \<longrightarrow> od' = od)"
proof (cases "recent_req od")
  case (Some c)
  then show ?thesis using q by (simp add: watch_oldest_watch split: option.split)
next
  case None
  with q have z: "req_count od = 0" "time_sum od = 0" by (auto simp: qinv_def watch_ok_None)
  show ?thesis
  proof (cases as)
    case Nil
    with q have "p = None" by (simp add: qinv_def)
    with None Nil q z show ?thesis by (simp add: watch_oldest_watch)
  next
    case (Cons a as')
    with q obtain nd where p: "p = Some a" and nd: "h a = Some nd" by (auto simp: qinv_def)
    from l Cons nd have lv: "rt_sec nd \<noteq> - 1" by (simp add: live_def)
    let ?od = "watch a nd (od\<lparr>updated_sec := tp_sec tp, updated_msec := tp_msec tp\<rparr>)"
    have "watched h ([] @ [a]) ?od"
      using watched_single [of h a nd] nd lv z by simp
    then have "watch_ok h as ?od"
      using Cons by (intro watch_ok_SomeI [where c = a and pre = "[]"]) (auto simp: watch_def)
    with q have "qinv h p t as ?od" by (simp add: qinv_def)
    with None p nd Cons z show ?thesis by (simp add: watch_oldest_watch) (simp add: watch_def)
  qed
qed

text \<open>The loop condition only holds when there is an active request that is not watched.\<close>

lemma fifth_lit: "f_lit binary64 (1 / 5) = Fin (3602879701896397 / 18014398509481984)"
  by code_simp

lemma needs_watch_less:
  assumes "needs_watch c n" and "0 \<le> c" and "0 \<le> n" and "n \<le> 2 ^ 53" and "c \<le> 2 ^ 53"
  shows "c < n"
proof -
  let ?q = "3602879701896397 / 18014398509481984 :: rat"
  have c: "f64 c = Fin (of_int c)" and n: "f64 n = Fin (of_int n)"
    using assms by (auto intro!: f_of_int_exact64)
  have "?q * of_int n \<le> 1 * of_int n" using assms(3) by (intro mult_right_mono) auto
  then obtain s where s: "fval (round_to binary64 (is_neg (Fin ?q) \<noteq> is_neg (f64 n)) (?q * of_int n)) = Some s"
    and le: "s \<le> of_int n"
    using b64.round_to_between [of 0 "of_int n" "?q * of_int n"] b64_representable_int [of n] assms
    by fastforce
  have "fval (fmul binary64 (f_lit binary64 (1 / 5)) (f64 n)) = Some s"
    unfolding fifth_lit using s fmul_fin [of "Fin ?q" ?q "f64 n" "of_int n" binary64]
    by (simp add: n)
  then have "of_int c < s"
    using assms(1) flt_fin [of "f64 c" "of_int c"] by (simp add: needs_watch_def c)
  with le show ?thesis by (metis le_less_trans less_le_trans of_int_less_iff)
qed

lemma path_unlink:
  assumes "path h p (pre @ c # a # post) None" and "distinct (pre @ c # a # post)"
    and "h c = Some cn" and "h a = Some nd"
  shows "path ((h(c \<mapsto> cn\<lparr>rt_next := rt_next nd\<rparr>))(a := None)) p (pre @ c # post) None"
  using assms by (auto simp: path_append)

text \<open>
  One turn of the loop keeps the invariant and the live requests.  \<open>unwatched\<close> counts the nodes the
  loop may still visit.
\<close>

definition unwatched :: "addr list \<Rightarrow> old_requests \<Rightarrow> nat" where
  "unwatched as od =
    (case recent_req od of
       None \<Rightarrow> length as
     | Some c \<Rightarrow> length (tl (dropWhile (\<lambda>a. a \<noteq> c) as)))"

lemma unwatched_Some:
  assumes "recent_req od = Some c" and "c \<notin> set pre"
  shows "unwatched (pre @ c # post) od = length post"
proof -
  have "dropWhile (\<lambda>x. x \<noteq> c) (pre @ c # post) = c # post"
    using assms(2) by (induction pre) auto
  then show ?thesis using assms(1) by (simp add: unwatched_def)
qed

definition preserves :: "heap \<Rightarrow> addr list \<Rightarrow> heap \<Rightarrow> addr list \<Rightarrow> bool" where
  "preserves h as h' as' \<longleftrightarrow>
    filter (live h') as' = filter (live h) as \<and> set as' \<subseteq> set as
    \<and> (\<forall>a. a \<notin> set as \<longrightarrow> h' a = h a) \<and> (\<forall>a. live h a \<or> a \<in> set as' \<longrightarrow> same_data h h' a)"

lemma preserves_refl [simp]: "preserves h as h as"
  by (simp add: preserves_def)

lemma preserves_trans:
  assumes "preserves h as h1 as1" and "preserves h1 as1 h2 as2"
  shows "preserves h as h2 as2"
proof -
  have "live h1 a" if "live h a" for a
    using assms(1) that same_data_live [of h h1 a] by (simp add: preserves_def)
  then show ?thesis
    using assms same_data_trans [of h h1 _ h2] unfolding preserves_def by (metis subset_eq)
qed

lemma preserves_unlink:
  assumes "\<not> live h a" and "set as = insert a (set as')" and "a \<notin> set as'"
    and "filter (live h) as' = filter (live h) as"
    and "\<forall>x. x \<notin> set as \<longrightarrow> h' x = h x" and "\<forall>x. x \<noteq> a \<longrightarrow> same_data h h' x"
  shows "preserves h as h' as'"
proof -
  have "\<forall>x \<in> set as'. same_data h h' x" using assms(3,6) by metis
  then have "filter (live h') as' = filter (live h) as'" using same_data_filter by fastforce
  then show ?thesis using assms by (auto simp: preserves_def)
qed

lemma rewatch_head:
  assumes q: "qinv h p t as od" and n: "n = int (nlive h as)" "n \<le> 2 ^ 53"
    and nw: "needs_watch (req_count od) n" and rq: "recent_req od = None"
  shows "\<exists>h1 p1 as1 od1. rewatch (Suc fuel) n h p od = rewatch fuel n h1 p1 od1
    \<and> qinv h1 p1 t as1 od1 \<and> preserves h as h1 as1 \<and> unwatched as1 od1 < unwatched as od"
proof -
  have z: "req_count od = 0" "time_sum od = 0"
    using q rq by (auto simp: qinv_def watch_ok_None)
  have "0 < n" using needs_watch_less [OF nw] z n by simp
  then obtain a rest where as: "as = a # rest" using n by (cases as) auto
  then obtain nd where p: "p = Some a" and nd: "h a = Some nd"
    and pr: "path h (rt_next nd) rest None"
    using q by (auto simp: qinv_def)
  show ?thesis
  proof (cases "rt_sec nd = - 1")
    case True
    have na: "a \<notin> set rest" using q by (simp add: qinv_def as)
    then have heq: "\<forall>x \<in> set rest. (h(a := None)) x = h x" by auto
    have "qinv h (rt_next nd) t rest od"
      using q pr rq z by (auto simp: qinv_def as watch_ok_None)
    then have q': "qinv (h(a := None)) (rt_next nd) t rest od" by (simp only: qinv_frame [OF heq])
    have da: "\<not> live h a" using True nd by (simp add: live_def)
    have pv: "preserves h as (h(a := None)) rest"
      using da na by (intro preserves_unlink [of h a]) (auto simp: as same_data_def)
    have "rewatch (Suc fuel) n h p od = rewatch fuel n (h(a := None)) (rt_next nd) od"
      using nw rq p nd True by (subst rewatch.simps) simp
    moreover have "unwatched rest od < unwatched as od" using rq by (simp add: unwatched_def as)
    ultimately show ?thesis using q' pv by blast
  next
    case False
    have "watched h ([] @ [a]) (watch a nd od)"
      using watched_single [of h a nd] nd False z by simp
    then have "watch_ok h as (watch a nd od)"
      by (intro watch_ok_SomeI [where c = a and pre = "[]"]) (auto simp: watch_def as)
    then have "qinv h p t as (watch a nd od)" using q by (simp add: qinv_def)
    moreover have "rewatch (Suc fuel) n h p od = rewatch fuel n h p (watch a nd od)"
      using nw rq p nd False by (subst rewatch.simps) simp
    ultimately show ?thesis
      using rq by (intro exI [of _ h] exI [of _ p] exI [of _ as] exI [of _ "watch a nd od"])
        (simp add: as unwatched_def watch_def)
  qed
qed

lemma rewatch_next:
  assumes q: "qinv h p t as od" and n: "n = int (nlive h as)" "n \<le> 2 ^ 53"
    and nw: "needs_watch (req_count od) n" and rq: "recent_req od = Some c"
  shows "\<exists>h1 as1 od1. rewatch (Suc fuel) n h p od = rewatch fuel n h1 p od1
    \<and> qinv h1 p t as1 od1 \<and> preserves h as h1 as1 \<and> unwatched as1 od1 < unwatched as od"
proof -
  obtain pre post where ap: "as = pre @ c # post" and w: "watched h (pre @ [c]) od"
    using q rq by (auto simp: qinv_def elim: watch_ok_SomeE)
  have nn: "0 < req_count od" "n = req_count od + int (nlive h post)"
    using w n by (auto simp: watched_def ap)
  then have "req_count od < n" using needs_watch_less [OF nw] n(2) by simp
  then have lp: "0 < nlive h post" using nn(2) by simp
  then obtain a rest where post: "post = a # rest" by (cases post) auto
  note as = ap [unfolded post]
  have dist: "distinct as" using q by (rule qinv_distinct)
  have pa: "path h p (pre @ c # a # rest) None" using q as by (simp add: qinv_def)
  then obtain cn nd where cn: "h c = Some cn" "rt_next cn = Some a" and nd: "h a = Some nd"
    by (auto simp: path_append)
  have uw: "unwatched as od = Suc (length rest)"
    using dist unwatched_Some [OF rq, of pre] by (simp add: as)
  show ?thesis
  proof (cases "rt_sec nd = - 1")
    case True
    let ?h = "(h(c \<mapsto> cn\<lparr>rt_next := rt_next nd\<rparr>))(a := None)" and ?as = "pre @ c # rest"
    have da: "\<not> live h a" using True nd by (simp add: live_def)
    have rne: "rest \<noteq> []" using lp da by (auto simp: post split: if_splits)
    have an: "a \<notin> set ?as" using dist by (auto simp: as)
    have sd: "\<forall>x. x \<noteq> a \<longrightarrow> same_data h ?h x" using cn by (auto simp: same_data_def)
    then have sd': "\<forall>x \<in> set ?as. same_data h ?h x" using an by metis
    have "path ?h p ?as None" using path_unlink [OF pa _ cn(1) nd] dist by (simp add: as)
    moreover have "sorted_wrt (\<lambda>x y. nno ?h x < nno ?h y) ?as"
      using q by (intro sorted_data [OF sd']) (auto simp: qinv_def as sorted_wrt_append)
    moreover have "watch_ok ?h ?as od"
      using w rq by (intro watch_ok_data [OF sd']) (auto intro: watch_ok_SomeI)
    ultimately have q': "qinv ?h p t ?as od"
      using q dist rne by (simp add: qinv_def as)
    have pv: "preserves h as ?h ?as"
      using an da sd by (intro preserves_unlink [of h a]) (auto simp: as)
    have "rewatch (Suc fuel) n h p od = rewatch fuel n ?h p od"
      using nw rq cn nd True by (subst rewatch.simps) simp
    moreover have "unwatched ?as od = length rest"
      using dist unwatched_Some [OF rq, of pre] by (simp add: as)
    ultimately show ?thesis using q' pv uw by (metis lessI)
  next
    case False
    let ?od = "watch a nd od"
    have an: "a \<notin> set (pre @ [c])" using dist by (auto simp: as)
    have "watched h ((pre @ [c]) @ [a]) ?od" using watched_snoc [OF nd False w] .
    then have "watch_ok h as ?od"
      by (intro watch_ok_SomeI [where c = a and pre = "pre @ [c]" and post = rest])
        (auto simp: watch_def as)
    then have "qinv h p t as ?od" using q by (simp add: qinv_def)
    moreover have "rewatch (Suc fuel) n h p od = rewatch fuel n h p ?od"
      using nw rq cn nd False by (subst rewatch.simps) simp
    moreover have "unwatched as ?od = length rest"
      using unwatched_Some [of ?od a "pre @ [c]" rest] an by (simp add: as watch_def)
    ultimately show ?thesis using uw by (metis lessI preserves_refl)
  qed
qed

text \<open>The loop ends, keeps the invariant and the live requests, and leaves enough watched.\<close>

lemma rewatch_qinv:
  assumes "qinv h p t as od" and "n = int (nlive h as)" and "n \<le> 2 ^ 53" and "unwatched as od \<le> fuel"
  shows "\<exists>h' p' as' od'. rewatch fuel n h p od = Ok (h', p', od') \<and> qinv h' p' t as' od'
    \<and> preserves h as h' as' \<and> \<not> needs_watch (req_count od') n"
  using assms
proof (induction fuel arbitrary: h p as od)
  case 0
  have "req_count od = n"
  proof (cases "recent_req od")
    case None
    then show ?thesis using "0.prems"(1,2,4) by (simp add: unwatched_def qinv_def watch_ok_None)
  next
    case (Some c)
    then obtain pre post where as: "as = pre @ c # post" "watched h (pre @ [c]) od"
      using "0.prems"(1) by (auto simp: qinv_def elim: watch_ok_SomeE)
    have "c \<notin> set pre" using qinv_distinct [OF "0.prems"(1)] as by auto
    then have "post = []" using unwatched_Some [OF Some, of pre post] "0.prems"(4) as by simp
    then show ?thesis using as "0.prems"(2) by (simp add: watched_def)
  qed
  then have "\<not> needs_watch (req_count od) n"
    using needs_watch_less [of n n] "0.prems"(2,3) by auto
  then show ?case using 0 by (subst rewatch.simps) auto
next
  case (Suc fuel)
  show ?case
  proof (cases "needs_watch (req_count od) n")
    case False
    then show ?thesis using Suc.prems by (subst rewatch.simps) auto
  next
    case True
    obtain h1 p1 as1 od1 where st: "rewatch (Suc fuel) n h p od = rewatch fuel n h1 p1 od1"
      "qinv h1 p1 t as1 od1" "preserves h as h1 as1" "unwatched as1 od1 < unwatched as od"
      using rewatch_head [OF Suc.prems(1-3) True, of fuel] rewatch_next [OF Suc.prems(1-3) True, of _ fuel]
      by (cases "recent_req od") blast+
    have n1: "n = int (nlive h1 as1)" using st(3) Suc.prems(2) by (simp add: preserves_def)
    have "unwatched as1 od1 \<le> fuel" using st(4) Suc.prems(4) by simp
    from Suc.IH [OF st(2) n1 Suc.prems(3) this] obtain h' p' as' od' where
      r: "rewatch fuel n h1 p1 od1 = Ok (h', p', od')" "qinv h' p' t as' od'"
        "preserves h1 as1 h' as'" "\<not> needs_watch (req_count od') n"
      by blast
    from preserves_trans [OF st(3) r(3)] r show ?thesis unfolding st(1) by blast
  qed
qed

section \<open>A new request\<close>

lemma path_snoc:
  assumes "path h p as None" and "distinct as" and "as \<noteq> []" and "a \<notin> set as"
    and "h (last as) = Some tn" and "rt_next nd = None"
  shows "path ((h(a \<mapsto> nd))(last as \<mapsto> tn\<lparr>rt_next := Some a\<rparr>)) p (as @ [a]) None"
  using assms
proof (induction as arbitrary: p)
  case (Cons b bs)
  show ?case
  proof (cases "bs = []")
    case True
    with Cons.prems show ?thesis by auto
  next
    case False
    then have "last bs \<in> set bs" by simp
    with Cons False show ?thesis by auto
  qed
qed simp

lemma push_req_time_qinv:
  assumes q: "qinv h (req_times v) (req_tail v) as (old_reqs v)"
    and fresh: "h a = None" and r: "start_sec r \<noteq> - 1" and nos: "\<forall>x \<in> set as. nno h x < no r"
  shows "\<exists>h' p t. push_req_time r h a v = Ok (h', v\<lparr>req_times := p, req_tail := t\<rparr>)
    \<and> qinv h' p t (as @ [a]) (old_reqs v)
    \<and> h' a = Some \<lparr>rt_sec = start_sec r, rt_msec = start_msec r, rt_no = no r, rt_next = None,
                   rt_tail = None\<rparr>
    \<and> (\<forall>x. x \<noteq> a \<longrightarrow> same_data h h' x) \<and> (\<forall>x. x \<noteq> a \<and> x \<notin> set as \<longrightarrow> h' x = h x)"
proof -
  let ?nd = "\<lparr>rt_sec = start_sec r, rt_msec = start_msec r, rt_no = no r, rt_next = None,
              rt_tail = None\<rparr>"
  have an: "a \<notin> set as" using qinv_dom [OF q] fresh by fastforce
  have inv: "qinv h' p t (as @ [a]) (old_reqs v)"
    if pa: "path h' p (as @ [a]) None" and t: "t = Some a" and ha: "h' a = Some ?nd"
      and sd: "\<forall>x. x \<noteq> a \<longrightarrow> same_data h h' x" for h' p t
  proof -
    have sd': "\<forall>x \<in> set as. same_data h h' x" using sd an by metis
    have "\<forall>x \<in> set as. nno h' x < nno h' a"
      using nos sd' ha same_data_nno [of h h'] by (simp add: nno_def)
    then have "sorted_wrt (\<lambda>x y. nno h' x < nno h' y) (as @ [a])"
      using q sorted_data [OF sd'] by (simp add: qinv_def sorted_wrt_append)
    moreover have "watch_ok h' (as @ [a]) (old_reqs v)"
    proof -
      have "watch_ok h' as (old_reqs v)" using q watch_ok_data [OF sd'] by (simp add: qinv_def)
      then show ?thesis by (rule watch_ok_append)
    qed
    ultimately show ?thesis using q pa t an by (simp add: qinv_def)
  qed
  show ?thesis
  proof (cases "as = []")
    case True
    with q have p: "req_times v = None" by (simp add: qinv_def)
    have "qinv (h(a \<mapsto> ?nd)) (Some a) (Some a) (as @ [a]) (old_reqs v)"
      using True by (intro inv) (auto simp: same_data_def)
    with p show ?thesis
      by (intro exI [of _ "h(a \<mapsto> ?nd)"] exI [of _ "Some a"])
        (auto simp: push_req_time_def same_data_def)
  next
    case False
    then obtain tn where t: "req_tail v = Some (last as)" "h (last as) = Some tn"
      using q qinv_dom [OF q, of "last as"] by (auto simp: qinv_def)
    have la: "last as \<noteq> a" using an False by (metis last_in_set)
    let ?h = "(h(a \<mapsto> ?nd))(last as \<mapsto> tn\<lparr>rt_next := Some a\<rparr>)"
    have p: "req_times v \<noteq> None" using q False by (cases as) (auto simp: qinv_def)
    have sd: "\<forall>x. x \<noteq> a \<longrightarrow> same_data h ?h x" using t by (auto simp: same_data_def)
    have "path ?h (req_times v) (as @ [a]) None"
      using q False an t by (intro path_snoc) (auto simp: qinv_def)
    then have "qinv ?h (req_times v) (Some a) (as @ [a]) (old_reqs v)"
      using la sd by (intro inv) auto
    moreover have "push_req_time r h a v = Ok (?h, v\<lparr>req_times := req_times v, req_tail := Some a\<rparr>)"
      using p t la by (auto simp: push_req_time_def Let_def)
    moreover have "\<forall>x. x \<noteq> a \<and> x \<notin> set as \<longrightarrow> ?h x = h x"
      using False by (metis fun_upd_other last_in_set)
    moreover have "?h a = Some ?nd" using la by simp
    ultimately show ?thesis using sd by blast
  qed
qed

section \<open>A finished request\<close>

definition finished :: "heap \<Rightarrow> addr \<Rightarrow> req_time \<Rightarrow> heap" where
  "finished h a nd = h(a \<mapsto> nd\<lparr>rt_sec := - 1, rt_msec := - 1\<rparr>)"

lemma mark_done_Ok: "h a = Some nd \<Longrightarrow> mark_done h (Some a) = Ok (finished h a nd)"
  by (simp add: mark_done_def finished_def)

lemma live_done: "live (finished h a nd) x \<longleftrightarrow> live h x \<and> x \<noteq> a"
  by (auto simp: live_def finished_def)

lemma nno_done: "h a = Some nd \<Longrightarrow> nno (finished h a nd) x = nno h x"
  by (auto simp: nno_def finished_def)

lemma path_done: "h a = Some nd \<Longrightarrow> path (finished h a nd) p as q = path h p as q"
  by (rule path_next_cong) (auto simp: finished_def)

lemma filter_live_done: "filter (live (finished h a nd)) as = filter (\<lambda>x. x \<noteq> a) (filter (live h) as)"
  by (auto simp: live_done intro!: filter_cong)

lemma nlive_done:
  "distinct as \<Longrightarrow> a \<in> set as \<Longrightarrow> live h a \<Longrightarrow> nlive h as = Suc (nlive (finished h a nd) as)"
  by (induction as) (auto simp: live_done intro!: arg_cong [where f = length] filter_cong)

lemma nlive_done_other: "a \<notin> set as \<Longrightarrow> nlive (finished h a nd) as = nlive h as"
  by (auto simp: live_done intro!: arg_cong [where f = length] filter_cong)

lemma ages_done_other: "a \<notin> set as \<Longrightarrow> ages s ms (finished h a nd) as = ages s ms h as"
  by (intro same_data_ages) (auto simp: same_data_def finished_def)

lemma ages_done:
  "distinct as \<Longrightarrow> a \<in> set as \<Longrightarrow> live h a \<Longrightarrow>
    ages s ms h as = ages s ms (finished h a nd) as + node_age s ms h a"
proof (induction as)
  case (Cons b as)
  show ?case
  proof (cases "a = b")
    case True
    with Cons.prems show ?thesis by (simp add: live_done ages_done_other)
  next
    case False
    then have "node_age s ms (finished h a nd) b = node_age s ms h b"
      by (simp add: node_age_def finished_def)
    with False Cons show ?thesis by (simp add: live_done)
  qed
qed simp

lemma sorted_watched_iff:
  assumes "sorted_wrt (\<lambda>x y. nno h x < nno h y) (pre @ c # post)" and "a \<in> set (pre @ c # post)"
  shows "nno h a \<le> nno h c \<longleftrightarrow> a \<in> set (pre @ [c])"
  using assms by (auto simp: sorted_wrt_append)

lemma unwatch_ok:
  assumes w: "watch_ok h as od" and d: "distinct as" and so: "sorted_wrt (\<lambda>x y. nno h x < nno h y) as"
    and a: "a \<in> set as" "live h a" "h a = Some nd" and tot: "rt_no nd \<le> tot"
  shows "watch_ok (finished h a nd) as (unwatch (rt_no nd) (rt_sec nd) (rt_msec nd) tot od)"
proof (cases "recent_req od")
  case None
  with w show ?thesis by (simp add: unwatch_def watch_ok_None)
next
  case (Some c)
  with w obtain pre post where as: "as = pre @ c # post" and wd: "watched h (pre @ [c]) od"
    by (rule watch_ok_SomeE)
  define ws where "ws = pre @ [c]"
  note wd = wd [folded ws_def]
  have ls: "last ws = c" by (simp add: ws_def)
  let ?h = "finished h a nd" and ?od = "unwatch (rt_no nd) (rt_sec nd) (rt_msec nd) tot od"
  have dw: "distinct ws" using d as by (auto simp: ws_def)
  have no: "nno h a = rt_no nd" using a(3) by (simp add: nno_def)
  have iff: "rt_no nd \<le> recent_req_num od \<longleftrightarrow> a \<in> set ws"
    using sorted_watched_iff [of h pre c post a] so a(1) as wd no ls
    by (simp add: watched_def ws_def)
  have "watched ?h ws ?od \<and> recent_req ?od = Some c \<or> recent_req ?od = None \<and> watch_ok ?h as ?od"
  proof (cases "a \<in> set ws")
    case False
    then have "watched ?h ws od"
      using wd nlive_done_other [OF False, of h nd] ages_done_other [OF False]
      by (auto simp: watched_def nno_done a(3))
    with False Some iff tot show ?thesis by (auto simp: unwatch_def)
  next
    case True
    have nl: "nlive h ws = Suc (nlive ?h ws)" by (rule nlive_done [OF dw True a(2)])
    have ag: "ages (updated_sec od) (updated_msec od) h ws
        = ages (updated_sec od) (updated_msec od) ?h ws
          + (1000 * (updated_sec od - rt_sec nd) + (updated_msec od - rt_msec nd))"
      using ages_done [OF dw True a(2), of _ _ nd] a(3) by (simp add: node_age_def)
    show ?thesis
    proof (cases "nlive ?h ws = 0")
      case z: True
      then have "ages (updated_sec od) (updated_msec od) ?h ws = 0" by (simp add: ages_def)
      with z True Some iff nl ag wd show ?thesis
        by (auto simp: unwatch_def watched_def watch_ok_def)
    next
      case False
      with True Some iff nl ag wd show ?thesis
        by (auto simp: unwatch_def watched_def nno_done a(3))
    qed
  qed
  then show ?thesis using as by (auto simp: ws_def intro: watch_ok_SomeI)
qed

lemma age_watched_ok: "watch_ok h as od \<Longrightarrow> watch_ok h as (age_watched tp od)"
proof -
  have shift: "ages (tp_sec tp) (tp_msec tp) h ws
      = ages (updated_sec od) (updated_msec od) h ws
        + int (nlive h ws)
          * (1000 * (tp_sec tp - updated_sec od) + (tp_msec tp - updated_msec od))" for ws
    by (induction ws) (auto simp: node_age_def live_def algebra_simps split: option.splits)
  have "watched h ws (age_watched tp od)" if "watched h ws od" for ws
    using that shift [of ws] by (auto simp: watched_def age_watched_def)
  moreover assume "watch_ok h as od"
  ultimately show ?thesis
    by (auto simp: watch_ok_def age_watched_def split: option.splits)
qed

lemma finish_qinv:
  assumes q: "qinv h p t as od" and a: "a \<in> set as" "live h a" "h a = Some nd"
    and tot: "rt_no nd \<le> tot"
  shows "qinv (finished h a nd) p t as
      (age_watched tp (unwatch (rt_no nd) (rt_sec nd) (rt_msec nd) tot od))"
  using assms unwatch_ok [of h as od a nd tot] path_done [of h a nd] nno_done [of h a nd]
  by (simp add: qinv_def age_watched_ok)

end
