(* ===== verification/LB_Safety.thy ===== *)
theory LB_Safety
  imports LB_Queue
begin

text \<open>
  The balancer as a transition system: requests arrive or are tried again (\<^verbatim>\<open>get_round_robin_peer\<close>), are freed
  (\<^verbatim>\<open>free_round_robin_peer\<close>) and complete (\<^verbatim>\<open>ngx_http_log_request_time\<close>).  The invariant relates the
  queues of all versions, their counters and the requests that are under way; it implies that no
  step dereferences a \<^verbatim>\<open>NULL\<close> or freed node.
\<close>

section \<open>One version and its queue\<close>

definition version_ok :: "heap \<Rightarrow> custom_versioned_server \<Rightarrow> addr list \<Rightarrow> bool" where
  "version_ok h v as \<longleftrightarrow>
    qinv h (req_times v) (req_tail v) as (old_reqs v) \<and> active_req v = int (nlive h as)
    \<and> 0 \<le> completed_requests v \<and> req_upper_bound v = INT_MAX - 5
    \<and> (\<forall>a \<in> set as. nno h a \<le> completed_requests v + active_req v)"

definition same_counters :: "custom_versioned_server \<Rightarrow> custom_versioned_server \<Rightarrow> bool" where
  "same_counters v v' \<longleftrightarrow>
    active_req v' = active_req v \<and> completed_requests v' = completed_requests v
    \<and> req_upper_bound v' = req_upper_bound v \<and> latest v' = latest v"

lemma same_counters_refl [simp]: "same_counters v v"
  by (simp add: same_counters_def)

lemma same_counters_trans: "same_counters u v \<Longrightarrow> same_counters v w \<Longrightarrow> same_counters u w"
  by (simp add: same_counters_def)

lemma version_ok_frame:
  assumes "\<forall>a \<in> set as. h' a = h a"
  shows "version_ok h' v as = version_ok h v as"
proof -
  have "filter (live h') as = filter (live h) as" "\<forall>a \<in> set as. nno h' a = nno h a"
    using assms by (auto simp: live_def nno_def intro!: filter_cong)
  then show ?thesis using qinv_frame [OF assms] by (simp add: version_ok_def)
qed

lemma length_le_bound:
  assumes "distinct as" and "\<forall>a \<in> set as. a < n"
  shows "length as \<le> n"
proof -
  have "card (set as) \<le> card {..<n}" using assms(2) by (intro card_mono) auto
  then show ?thesis using assms(1) by (simp add: distinct_card)
qed

text \<open>\<open>refresh_version\<close> keeps the queue, whatever the clock and the performance target.\<close>

lemma clamp_account_simps [simp]:
  "req_times (account_service tp (clamp_prediction perf v)) = req_times v"
  "req_tail (account_service tp (clamp_prediction perf v)) = req_tail v"
  "old_reqs (account_service tp (clamp_prediction perf v)) = old_reqs v"
  "same_counters u (account_service tp (clamp_prediction perf v)) = same_counters u v"
  by (simp_all add: account_service_def clamp_prediction_def same_counters_def)

lemma decay_simps [simp]:
  "req_times (decay_prediction v) = req_times v" "req_tail (decay_prediction v) = req_tail v"
  "old_reqs (decay_prediction v) = old_reqs v"
  "same_counters u (decay_prediction v) = same_counters u v"
  by (simp_all add: decay_prediction_def same_counters_def)

lemma version_ok_cong:
  assumes "req_times v' = req_times v" and "req_tail v' = req_tail v" and "old_reqs v' = old_reqs v"
    and "same_counters v v'"
  shows "version_ok h v' as = version_ok h v as"
  using assms by (simp add: version_ok_def same_counters_def)

lemma version_ok_decay [simp]: "version_ok h (decay_prediction v) as = version_ok h v as"
  by (rule version_ok_cong) (simp_all add: decay_simps(4) [of v])

lemma refresh_version_ok:
  assumes vo: "version_ok h v as" and fuel: "length as \<le> fuel"
  shows "\<exists>h' v' as'. refresh_version fuel tp perf h v = Ok (h', v') \<and> version_ok h' v' as'
    \<and> preserves h as h' as' \<and> same_counters v v'"
proof -
  have q: "qinv h (req_times v) (req_tail v) as (old_reqs v)" using vo by (simp add: version_ok_def)
  obtain h' p' as' where pr: "prune_dead fuel h (req_times v) (recent_req (old_reqs v))
      = Ok (h', p', recent_req (old_reqs v))"
    and q': "qinv h' p' (req_tail v) as' (old_reqs v)"
    and fl: "filter (live h') as' = filter (live h) as" and su: "set as' \<subseteq> set as"
    and hd: "as' \<noteq> [] \<longrightarrow> live h' (hd as')"
    and fr: "\<forall>a. a \<notin> set as \<or> live h a \<or> a \<in> set as' \<longrightarrow> h' a = h a"
    using prune_dead_qinv [OF q fuel] by blast
  obtain od where wo: "watch_oldest tp h' p' (old_reqs v) = Ok od"
    and q2: "qinv h' p' (req_tail v) as' od"
    using watch_oldest_qinv [OF q' hd] by blast
  have pv: "preserves h as h' as'"
    using fl su fr by (auto simp: preserves_def intro: same_data_eq)
  let ?v = "account_service tp (clamp_prediction perf (v\<lparr>req_times := p', old_reqs := od\<rparr>))"
  have "old_reqs v\<lparr>recent_req := recent_req (old_reqs v)\<rparr> = old_reqs v" by simp
  then have "refresh_version fuel tp perf h v = Ok (h', ?v)"
    by (simp add: refresh_version_def pr wo)
  moreover have sc: "same_counters v ?v" by (simp add: same_counters_def clamp_account_simps)
      (simp add: account_service_def clamp_prediction_def)
  moreover have "version_ok h' ?v as'"
  proof -
    have "\<forall>a \<in> set as'. nno h' a \<le> completed_requests v + active_req v"
      using vo su fr by (auto simp: version_ok_def nno_def)
    then show ?thesis using vo q2 fl sc by (simp add: version_ok_def same_counters_def)
  qed
  ultimately show ?thesis using pv by blast
qed

section \<open>Which peers can be chosen\<close>

text \<open>Peers that differ at most in their version data.\<close>

definition same_static :: "rr_peer \<Rightarrow> rr_peer \<Rightarrow> bool" where
  "same_static p p' \<longleftrightarrow> p' = p\<lparr>version := version p'\<rparr>"

lemma same_static_refl [simp]: "same_static p p"
  by (simp add: same_static_def)

lemma same_static_version [simp]: "same_static p (p\<lparr>version := x\<rparr>)"
  by (simp add: same_static_def)

lemma same_static_trans: "same_static p q \<Longrightarrow> same_static q r \<Longrightarrow> same_static p r"
proof -
  assume "same_static p q" and "same_static q r"
  then obtain x y where "q = p\<lparr>version := x\<rparr>" and "r = q\<lparr>version := y\<rparr>"
    unfolding same_static_def by blast
  then show ?thesis by (simp add: same_static_def)
qed

lemma same_static_simps:
  assumes "same_static p p'"
  shows "heavy p' = heavy p" "light p' = light p" "peer_usable now p' = peer_usable now p"
    "pt p' = pt p" "conns p' = conns p" "sockaddr p' = sockaddr p" "pname p' = pname p"
proof -
  from assms obtain x where "p' = p\<lparr>version := x\<rparr>" unfolding same_static_def by blast
  then show "heavy p' = heavy p" "light p' = light p" "peer_usable now p' = peer_usable now p"
    "pt p' = pt p" "conns p' = conns p" "sockaddr p' = sockaddr p" "pname p' = pname p"
    by (simp_all add: peer_usable_def peer_failed_def peer_full_def)
qed

definition same_statics :: "rr_peer list \<Rightarrow> rr_peer list \<Rightarrow> bool" where
  "same_statics ps ps' \<longleftrightarrow> list_all2 same_static ps ps'"

lemma same_statics_refl [simp]: "same_statics ps ps"
  by (simp add: same_statics_def list_all2_refl)

lemma same_statics_trans: "same_statics ps qs \<Longrightarrow> same_statics qs rs \<Longrightarrow> same_statics ps rs"
  unfolding same_statics_def by (rule list_all2_trans [OF same_static_trans])

lemma same_statics_upd: "i < length ps \<Longrightarrow> same_statics ps (ps[i := (ps ! i)\<lparr>version := x\<rparr>])"
  by (simp add: same_statics_def list_all2_conv_all_nth nth_list_update)

lemma same_statics_nth: "same_statics ps ps' \<Longrightarrow> i < length ps \<Longrightarrow> same_static (ps ! i) (ps' ! i)"
  by (simp add: same_statics_def list_all2_conv_all_nth)

lemma same_statics_length: "same_statics ps ps' \<Longrightarrow> length ps' = length ps"
  by (simp add: same_statics_def list_all2_lengthD)

definition eligible :: "ngx_time \<Rightarrow> 64 word list \<Rightarrow> rr_peer list \<Rightarrow> nat \<Rightarrow> bool" where
  "eligible tp ts ps i \<longleftrightarrow>
    i < length ps \<and> tried_bit ts i = Ok False \<and> peer_usable (tp_sec tp) (ps ! i)"

definition chosen_ok :: "ngx_time \<Rightarrow> 64 word list \<Rightarrow> rr_peer list \<Rightarrow> sel \<Rightarrow> bool" where
  "chosen_ok tp ts ps st \<longleftrightarrow>
    same_statics ps (s_peers st)
    \<and> (\<forall>j. s_heavy st = Some j \<longrightarrow> eligible tp ts ps j \<and> heavy (ps ! j))
    \<and> (\<forall>j. s_light st = Some j \<longrightarrow> eligible tp ts ps j \<and> light (ps ! j))"

lemma compare_peer_sel:
  assumes "compare_peer perf i ld st = Ok st'"
  shows "s_peers st' = s_peers st \<and> s_heap st' = s_heap st
    \<and> (s_heavy st' = s_heavy st \<or> s_heavy st' = Some i \<and> heavy (s_peers st ! i))
    \<and> (s_light st' = s_light st \<or> s_light st' = Some i \<and> light (s_peers st ! i))"
  using assms by (auto simp: compare_peer_def Let_def split: if_splits)

lemma select_step_chosen:
  assumes c: "chosen_ok tp ts ps st" and i: "i < length ps"
    and r: "select_step fuel tp perf ts i st = Ok st'"
  shows "chosen_ok tp ts ps st'"
proof (cases "tried_bit ts i = Ok True \<or> \<not> peer_usable (tp_sec tp) (s_peers st ! i)")
  case True
  then show ?thesis using r c by (auto simp: select_step_def)
next
  case False
  have ss: "same_statics ps (s_peers st)" using c by (simp add: chosen_ok_def)
  note len = same_statics_length [OF ss]
  have el: "eligible tp ts ps i"
    using False r i same_static_simps(3) [OF same_statics_nth [OF ss i]]
    by (auto simp: eligible_def select_step_def)
  from r False obtain v h' v' where
    cp: "compare_peer perf i (peer_load v')
          (st\<lparr>s_heap := h',
              s_peers := (s_peers st)[i := (s_peers st ! i)\<lparr>version := Some (decay_prediction v')\<rparr>]\<rparr>)
        = Ok st'"
    by (auto simp: select_step_def split: if_splits)
  let ?ps = "(s_peers st)[i := (s_peers st ! i)\<lparr>version := Some (decay_prediction v')\<rparr>]"
  have s2: "same_statics ps ?ps"
    using same_statics_trans [OF ss same_statics_upd] i len by simp
  have hl: "heavy (?ps ! i) = heavy (ps ! i)" "light (?ps ! i) = light (ps ! i)"
    using same_static_simps(1,2) [OF same_statics_nth [OF s2 i]] by auto
  show ?thesis
    using compare_peer_sel [OF cp] c s2 el hl by (auto simp: chosen_ok_def)
qed

lemma select_loop_chosen:
  "chosen_ok tp ts ps st \<Longrightarrow> \<forall>i \<in> set is. i < length ps \<Longrightarrow>
    select_loop fuel tp perf ts is st = Ok st' \<Longrightarrow> chosen_ok tp ts ps st'"
  by (induction "is" arbitrary: st) (auto dest: select_step_chosen)

lemma choose_best_cases:
  assumes "choose_best perf st = Ok best"
  shows "best = s_heavy st \<or> best = s_light st"
  using assms by (auto simp: choose_best_def split: option.splits if_splits)

definition sel_start :: "lb \<Rightarrow> rr_peers \<Rightarrow> sel" where
  "sel_start s ps =
    \<lparr>s_heap = heap s, s_peers = peer ps, s_heavy = None, s_light = None,
     heavy_load = f32 0, light_load = f32 0\<rparr>"

lemma sel_start_chosen [simp]: "chosen_ok tp ts (peer ps) (sel_start s ps)"
  by (simp add: chosen_ok_def sel_start_def)

lemma get_peer_Ok:
  assumes "ngx_http_upstream_get_peer tp s rd = Ok (s', rd', res)"
  obtains ps st b v v' where
    "group_of s (rrp_peers rd) = Some ps"
    "select_loop (Suc (next_addr s)) tp (find_pt (peer ps) 0) (tried rd) [0..<length (peer ps)]
       (sel_start s ps) = Ok st"
    "choose_best (find_pt (peer ps) 0) st = Ok (Some b)" "res = Some b"
    "version_of (s_peers st) b = Ok v"
    "enter_version tp (if Some b = s_heavy st then heavy_load st else light_load st) v = Ok v'"
    "rd' = rd\<lparr>current := Some b\<rparr>"
    "s' = set_group (s\<lparr>heap := s_heap st\<rparr>) (rrp_peers rd) ((enter_peers ps)
            \<lparr>peer := (s_peers st)[b := (s_peers st ! b)\<lparr>version := Some v', checked := tp_sec tp\<rparr>]\<rparr>)"
  using assms by (auto simp: ngx_http_upstream_get_peer_def sel_start_def Let_def)

lemma get_peer_eligible:
  assumes "ngx_http_upstream_get_peer tp s rd = Ok (s', rd', res)"
    and "group_of s (rrp_peers rd) = Some ps"
  shows "\<exists>b. res = Some b \<and> eligible tp (tried rd) (peer ps) b"
  using assms(1)
proof (rule get_peer_Ok)
  fix ps' st b v v'
  assume ps': "group_of s (rrp_peers rd) = Some ps'"
    and sl: "select_loop (Suc (next_addr s)) tp (find_pt (peer ps') 0) (tried rd)
      [0..<length (peer ps')] (sel_start s ps') = Ok st"
    and cb: "choose_best (find_pt (peer ps') 0) st = Ok (Some b)" and res: "res = Some b"
  have "ps' = ps" using ps' assms(2) by simp
  moreover have "chosen_ok tp (tried rd) (peer ps') st"
    using select_loop_chosen [OF sel_start_chosen _ sl] by simp
  ultimately show ?thesis
    using choose_best_cases [OF cb] res by (auto simp: chosen_ok_def)
qed

text \<open>With no eligible peer the function crashes instead of returning \<^verbatim>\<open>NULL\<close>.\<close>

lemma tried_bit_Ok: "i < n \<Longrightarrow> n \<le> 64 * length ts \<Longrightarrow> \<exists>b. tried_bit ts i = Ok b"
  using less_mult_imp_div_less [of i "length ts" 64] by (simp add: tried_bit_def)

lemma select_step_skip:
  assumes "\<not> eligible tp ts (s_peers st) i" and "i < length (s_peers st)"
    and "length (s_peers st) \<le> 64 * length ts"
  shows "select_step fuel tp perf ts i st = Ok st"
proof -
  obtain b where b: "tried_bit ts i = Ok b" using tried_bit_Ok [OF assms(2,3)] by blast
  have "b \<or> \<not> peer_usable (tp_sec tp) (s_peers st ! i)"
    using assms(1,2) b by (cases b) (simp_all add: eligible_def)
  then show ?thesis by (simp add: select_step_def b)
qed

lemma select_loop_skip:
  "\<forall>i \<in> set is. i < length (s_peers st) \<and> \<not> eligible tp ts (s_peers st) i \<Longrightarrow>
    length (s_peers st) \<le> 64 * length ts \<Longrightarrow> select_loop fuel tp perf ts is st = Ok st"
  by (induction "is") (auto simp: select_step_skip)

lemma get_peer_no_eligible:
  assumes "group_of s (rrp_peers rd) = Some ps" and "length (peer ps) \<le> 64 * length (tried rd)"
    and "\<forall>i < length (peer ps). \<not> eligible tp (tried rd) (peer ps) i"
  shows "ngx_http_upstream_get_peer tp s rd = Fault NullDeref"
proof -
  have "select_loop (Suc (next_addr s)) tp (find_pt (peer ps) 0) (tried rd) [0..<length (peer ps)]
      (sel_start s ps) = Ok (sel_start s ps)"
    using assms(2,3) by (intro select_loop_skip) (auto simp: sel_start_def)
  then show ?thesis
    using assms(1) by (simp add: ngx_http_upstream_get_peer_def sel_start_def choose_best_def Let_def)
qed

section \<open>All versions of an upstream\<close>

definition queues_ok :: "heap \<Rightarrow> rr_peer list \<Rightarrow> addr list list \<Rightarrow> bool" where
  "queues_ok h ps qs \<longleftrightarrow>
    length qs = length ps
    \<and> (\<forall>i < length ps. \<exists>v. version (ps ! i) = Some v \<and> version_ok h v (qs ! i))
    \<and> (\<forall>i < length ps. \<forall>j < length ps. i \<noteq> j \<longrightarrow> set (qs ! i) \<inter> set (qs ! j) = {})"

lemma queues_okD:
  assumes "queues_ok h ps qs" and "i < length ps"
  obtains v where "version (ps ! i) = Some v" and "version_ok h v (qs ! i)"
    and "version_of ps i = Ok v"
  using assms by (auto simp: queues_ok_def version_of_def)

lemma queues_ok_update:
  assumes q: "queues_ok h ps qs" and i: "i < length ps" and v: "version_ok h' v' as'"
    and p: "version p' = Some v'"
    and su: "set as' \<subseteq> set (qs ! i) \<union> fresh"
    and fr: "\<forall>j < length ps. fresh \<inter> set (qs ! j) = {}"
    and eq: "\<forall>a. a \<notin> set (qs ! i) \<and> a \<notin> fresh \<longrightarrow> h' a = h a"
  shows "queues_ok h' (ps[i := p']) (qs[i := as'])"
proof -
  have len: "length qs = length ps" using q by (simp add: queues_ok_def)
  have dj: "set (qs ! k) \<inter> set (qs ! j) = {}" if "k < length ps" "j < length ps" "k \<noteq> j" for k j
    using q that by (simp add: queues_ok_def)
  have "\<exists>v. version (ps[i := p'] ! j) = Some v \<and> version_ok h' v (qs[i := as'] ! j)"
    if j: "j < length ps" for j
  proof (cases "j = i")
    case True
    then show ?thesis using v p i len by simp
  next
    case False
    obtain w where w: "version (ps ! j) = Some w" "version_ok h w (qs ! j)"
      using queues_okD [OF q j] by blast
    have "\<forall>a \<in> set (qs ! j). h' a = h a" using eq fr dj [OF i j] False j by blast
    with w False show ?thesis using version_ok_frame [of "qs ! j" h' h] by simp
  qed
  moreover have "set (qs[i := as'] ! k) \<inter> set (qs[i := as'] ! j) = {}"
    if "k < length ps" "j < length ps" "k \<noteq> j" for k j
    using that dj [OF that] dj [OF i that(2)] dj [OF that(1) i] su fr len i
    by (simp add: nth_list_update) blast
  ultimately show ?thesis using len by (simp add: queues_ok_def)
qed

lemma queues_ok_static:
  assumes "queues_ok h ps qs" and "length ps' = length ps"
    and "\<forall>i < length ps. version (ps' ! i) = version (ps ! i)"
  shows "queues_ok h ps' qs"
  using assms by (simp add: queues_ok_def)

text \<open>What the selection loop changes: nothing a request under way depends on.\<close>

definition refreshed :: "heap \<Rightarrow> addr list list \<Rightarrow> heap \<Rightarrow> addr list list \<Rightarrow> bool" where
  "refreshed h qs h' qs' \<longleftrightarrow>
    length qs' = length qs
    \<and> (\<forall>i < length qs. filter (live h') (qs' ! i) = filter (live h) (qs ! i)
        \<and> set (qs' ! i) \<subseteq> set (qs ! i))
    \<and> (\<forall>a. live h a \<longrightarrow> same_data h h' a)
    \<and> (\<forall>a. (\<forall>i < length qs. a \<notin> set (qs ! i)) \<longrightarrow> h' a = h a)"

lemma refreshed_refl [simp]: "refreshed h qs h qs"
  by (simp add: refreshed_def)

lemma refreshed_trans:
  assumes "refreshed h qs h1 qs1" and "refreshed h1 qs1 h2 qs2"
  shows "refreshed h qs h2 qs2"
proof -
  have "live h1 a" if "live h a" for a
    using assms(1) that same_data_live [of h h1 a] by (simp add: refreshed_def)
  then have "same_data h h2 a" if "live h a" for a
    using assms that same_data_trans [of h h1 a h2] by (simp add: refreshed_def)
  moreover have "h2 a = h a" if "\<forall>i < length qs. a \<notin> set (qs ! i)" for a
  proof -
    have "\<forall>i < length qs1. a \<notin> set (qs1 ! i)" using assms(1) that by (auto simp: refreshed_def)
    then show ?thesis using assms that by (simp add: refreshed_def)
  qed
  moreover have "set (qs2 ! i) \<subseteq> set (qs ! i)" if "i < length qs" for i
    using assms that unfolding refreshed_def by (metis order_trans)
  ultimately show ?thesis using assms by (simp add: refreshed_def)
qed

lemma refreshed_update:
  assumes "preserves h (qs ! i) h' as'" and "i < length qs"
    and "\<forall>j < length qs. j \<noteq> i \<longrightarrow> set (qs ! i) \<inter> set (qs ! j) = {}"
  shows "refreshed h qs h' (qs[i := as'])"
proof -
  have "filter (live h') (qs ! j) = filter (live h) (qs ! j)" if "j < length qs" "j \<noteq> i" for j
  proof -
    have "\<forall>a \<in> set (qs ! j). h' a = h a" using assms(1,3) that by (auto simp: preserves_def)
    then show ?thesis by (auto simp: live_def intro!: filter_cong)
  qed
  then show ?thesis
    using assms(1,2) by (auto simp: refreshed_def preserves_def nth_list_update)
qed

end
