(* ===== verification/LB_System.thy ===== *)
theory LB_System
  imports LB_Safety
begin

text \<open>
  The balancer as a transition system: requests arrive or are tried again (\<^verbatim>\<open>get_round_robin_peer\<close>), release their peer
  (\<^verbatim>\<open>free_round_robin_peer\<close>) and complete (\<^verbatim>\<open>ngx_http_log_request_time\<close>).  The invariant relates the
  queues of all versions, their counters and the requests that are under way; it implies that no
  step dereferences a \<^verbatim>\<open>NULL\<close> or freed node.
\<close>

section \<open>The selection loop on well-formed queues\<close>

definition same_counts :: "rr_peer list \<Rightarrow> rr_peer list \<Rightarrow> bool" where
  "same_counts ps ps' \<longleftrightarrow>
    length ps' = length ps
    \<and> (\<forall>i v. i < length ps \<longrightarrow> version (ps ! i) = Some v \<longrightarrow>
         (\<exists>v'. version (ps' ! i) = Some v' \<and> same_counters v v'))"

lemma same_counts_refl [simp]: "same_counts ps ps"
  by (simp add: same_counts_def)

lemma same_counts_trans: "same_counts ps qs \<Longrightarrow> same_counts qs rs \<Longrightarrow> same_counts ps rs"
  unfolding same_counts_def by (metis same_counters_trans)

lemma same_counts_update:
  assumes "version (ps ! i) = Some v" and "same_counters v v'"
  shows "same_counts ps (ps[i := (ps ! i)\<lparr>version := Some v'\<rparr>])"
proof -
  let ?ps = "ps[i := (ps ! i)\<lparr>version := Some v'\<rparr>]"
  have "\<exists>w'. version (?ps ! j) = Some w' \<and> same_counters w w'"
    if "j < length ps" and "version (ps ! j) = Some w" for j w
    using that assms by (cases "j = i") simp_all
  then show ?thesis by (simp add: same_counts_def)
qed

text \<open>What every turn of the loop keeps; \<open>h\<close>, \<open>ps\<close> and \<open>qs\<close> are those at the start.\<close>

definition sel_inv :: "heap \<Rightarrow> rr_peer list \<Rightarrow> addr list list \<Rightarrow> sel \<Rightarrow> bool" where
  "sel_inv h ps qs st \<longleftrightarrow>
    (\<exists>qs'. queues_ok (s_heap st) (s_peers st) qs' \<and> refreshed h qs (s_heap st) qs')
    \<and> same_counts ps (s_peers st)"

lemma sel_inv_more [simp]:
  "sel_inv h ps qs (st\<lparr>s_heavy := x\<rparr>) = sel_inv h ps qs st"
  "sel_inv h ps qs (st\<lparr>s_light := x\<rparr>) = sel_inv h ps qs st"
  "sel_inv h ps qs (st\<lparr>heavy_load := l\<rparr>) = sel_inv h ps qs st"
  "sel_inv h ps qs (st\<lparr>light_load := l\<rparr>) = sel_inv h ps qs st"
  by (simp_all add: sel_inv_def)

lemma refresh_sel_inv:
  assumes inv: "sel_inv h ps qs st" and i: "i < length ps" and fuel: "\<forall>q \<in> set qs. length q \<le> fuel"
    and qd: "length qs = length ps" "\<forall>q \<in> set qs. distinct q"
  obtains v h' v' where "version_of (s_peers st) i = Ok v"
    "refresh_version fuel tp perf (s_heap st) v = Ok (h', v')"
    "sel_inv h ps qs (st\<lparr>s_heap := h',
       s_peers := (s_peers st)[i := (s_peers st ! i)\<lparr>version := Some (decay_prediction v')\<rparr>]\<rparr>)"
proof -
  obtain qs' where q: "queues_ok (s_heap st) (s_peers st) qs'" and rf: "refreshed h qs (s_heap st) qs'"
    and sc: "same_counts ps (s_peers st)" using inv by (auto simp: sel_inv_def)
  have len: "length (s_peers st) = length ps" using sc by (simp add: same_counts_def)
  have i': "i < length (s_peers st)" using i len by simp
  obtain v where v: "version (s_peers st ! i) = Some v" "version_ok (s_heap st) v (qs' ! i)"
    "version_of (s_peers st) i = Ok v" using q i' by (rule queues_okD)
  have lq: "length qs' = length ps" using q len by (simp add: queues_ok_def)
  have dj: "\<forall>j < length qs'. j \<noteq> i \<longrightarrow> set (qs' ! i) \<inter> set (qs' ! j) = {}"
    using q i lq len by (auto simp: queues_ok_def)
  have "length (qs' ! i) \<le> length (qs ! i)"
  proof -
    have "set (qs' ! i) \<subseteq> set (qs ! i)" using rf i qd(1) by (simp add: refreshed_def)
    moreover have "distinct (qs' ! i)" using v(2) by (auto simp: version_ok_def dest: qinv_distinct)
    moreover have "distinct (qs ! i)" using qd i by simp
    ultimately show ?thesis by (metis card_mono distinct_card finite_set)
  qed
  moreover have "length (qs ! i) \<le> fuel" using fuel i qd(1) by simp
  ultimately have "length (qs' ! i) \<le> fuel" by simp
  from refresh_version_ok [OF v(2) this, of tp perf] obtain h' v' as' where
    r: "refresh_version fuel tp perf (s_heap st) v = Ok (h', v')" "version_ok h' v' as'"
      "preserves (s_heap st) (qs' ! i) h' as'" "same_counters v v'" by blast
  let ?ps = "(s_peers st)[i := (s_peers st ! i)\<lparr>version := Some (decay_prediction v')\<rparr>]"
  have "queues_ok h' ?ps (qs'[i := as'])"
    using r(2,3) by (intro queues_ok_update [OF q i', where fresh = "{}" and v' = "decay_prediction v'"])
      (auto simp: preserves_def)
  moreover have "refreshed h qs h' (qs'[i := as'])"
    using refreshed_trans [OF rf refreshed_update [OF r(3) _ dj]] i lq by simp
  moreover have "same_counts ps ?ps"
    using same_counts_trans [OF sc same_counts_update [OF v(1)]] r(4) by simp
  ultimately have "sel_inv h ps qs (st\<lparr>s_heap := h', s_peers := ?ps\<rparr>)"
    by (auto simp: sel_inv_def)
  with v(3) r(1) show ?thesis by (rule that)
qed

lemma f_to_int_outcome [simp]: "outcome {BadConversion} (\<lambda>_. True) (f_to_int f)"
  by (simp add: f_to_int_def Let_def split: option.split)

lemma mean_oldest_outcome [simp]: "outcome {BadConversion} (\<lambda>_. True) (mean_oldest v)"
  by (simp add: mean_oldest_def)

lemma avg_oldest_outcome [simp]: "outcome {BadConversion} (\<lambda>_. True) (avg_oldest v)"
  by (simp add: avg_oldest_def)

lemma sel_inv_version:
  assumes "sel_inv h ps qs st" and "i < length ps"
  shows "\<exists>v. version_of (s_peers st) i = Ok v"
  using assms unfolding sel_inv_def same_counts_def queues_ok_def version_of_def by fastforce

lemma compare_peer_outcome:
  assumes inv: "sel_inv h ps qs st" and i: "i < length ps"
    and hv: "\<forall>j. s_heavy st = Some j \<longrightarrow> j < length ps"
  shows "outcome {NullDeref, BadConversion} (sel_inv h ps qs) (compare_peer perf i ld st)"
proof -
  note mo = outcome_mono [OF mean_oldest_outcome, of "{NullDeref, BadConversion}" _ "\<lambda>_. True"]
  obtain cv where cv: "version_of (s_peers st) i = Ok cv" using sel_inv_version [OF inv i] by blast
  have "outcome {NullDeref, BadConversion} (sel_inv h ps qs)
      (bindR (version_of (s_peers st) j) (\<lambda>hv. bindR (mean_oldest hv) (\<lambda>h_oldest.
       bindR (version_of (s_peers st) i) (\<lambda>cv. bindR (mean_oldest cv) (\<lambda>curr_oldest. Ok (X h_oldest curr_oldest))))))"
    if j: "j < length ps" and X: "\<And>a b. sel_inv h ps qs (X a b)" for j X
  proof -
    obtain w where "version_of (s_peers st) j = Ok w" using sel_inv_version [OF inv j] by blast
    then show ?thesis using X by (auto simp: cv intro!: outcome_bind mo)
  qed
  then show ?thesis using inv hv
    by (cases "s_heavy st") (auto simp: compare_peer_def Let_def)
qed

lemma compare_peer_new:
  assumes "heavy (s_peers st ! i) \<and> s_heavy st = None \<or> light (s_peers st ! i) \<and> s_light st = None"
  shows "\<exists>st'. compare_peer perf i ld st = Ok st' \<and> (s_heavy st' \<noteq> None \<or> s_light st' \<noteq> None)
    \<and> (\<forall>h ps qs. sel_inv h ps qs st' = sel_inv h ps qs st)"
  using assms by (auto simp: compare_peer_def Let_def)

lemma select_step_sel:
  assumes "select_step fuel tp perf ts i st = Ok st'"
  shows "(s_heavy st' = s_heavy st \<or> s_heavy st' = Some i) \<and> (s_light st' = s_light st \<or> s_light st' = Some i)"
  using assms by (auto simp: select_step_def split: if_splits dest!: compare_peer_sel)

text \<open>Enough fuel and well-formed queues.\<close>

definition sel_pre :: "nat \<Rightarrow> 64 word list \<Rightarrow> rr_peer list \<Rightarrow> addr list list \<Rightarrow> bool" where
  "sel_pre fuel ts ps qs \<longleftrightarrow>
    length ps \<le> 64 * length ts \<and> length qs = length ps
    \<and> (\<forall>q \<in> set qs. length q \<le> fuel) \<and> (\<forall>q \<in> set qs. distinct q)"

lemma select_step_outcome:
  assumes pre: "sel_pre fuel ts ps qs" and inv: "sel_inv h ps qs st" and c: "chosen_ok tp ts ps st"
    and i: "i < length ps"
  shows "outcome {NullDeref, BadConversion} (sel_inv h ps qs) (select_step fuel tp perf ts i st)"
proof -
  obtain b where b: "tried_bit ts i = Ok b" using tried_bit_Ok [OF i, of ts] pre unfolding sel_pre_def by blast
  obtain v h' v' where v: "version_of (s_peers st) i = Ok v"
    "refresh_version fuel tp perf (s_heap st) v = Ok (h', v')"
    "sel_inv h ps qs (st\<lparr>s_heap := h',
       s_peers := (s_peers st)[i := (s_peers st ! i)\<lparr>version := Some (decay_prediction v')\<rparr>]\<rparr>)"
    using refresh_sel_inv [OF inv i] pre unfolding sel_pre_def by blast
  have "\<forall>j. s_heavy st = Some j \<longrightarrow> j < length ps" using c by (auto simp: chosen_ok_def eligible_def)
  then show ?thesis
    using compare_peer_outcome [OF v(3) i] inv by (simp add: select_step_def b v(1,2))
qed

lemma select_loop_outcome:
  "sel_pre fuel ts ps qs \<Longrightarrow> sel_inv h ps qs st \<Longrightarrow> chosen_ok tp ts ps st \<Longrightarrow>
    \<forall>i \<in> set is. i < length ps \<Longrightarrow>
    outcome {NullDeref, BadConversion} (sel_inv h ps qs) (select_loop fuel tp perf ts is st)"
proof (induction "is" arbitrary: st)
  case (Cons i "is")
  have i: "i < length ps" using Cons.prems(4) by simp
  have "outcome {NullDeref, BadConversion} (sel_inv h ps qs) (select_step fuel tp perf ts i st)"
    by (rule select_step_outcome [OF Cons.prems(1-3) i])
  then show ?case
    using Cons.IH [OF Cons.prems(1)] Cons.prems(4) select_step_chosen [OF Cons.prems(3) i]
    by (auto intro!: outcome_bind)
qed simp

section \<open>One heavy and one light version\<close>

text \<open>The configurations the balancer was written for: at most one peer of each kind.\<close>

definition one_each :: "rr_peer list \<Rightarrow> bool" where
  "one_each ps \<longleftrightarrow>
    (\<forall>p \<in> set ps. heavy p \<or> light p)
    \<and> (\<forall>i < length ps. \<forall>j < length ps. i \<noteq> j \<longrightarrow>
        \<not> (heavy (ps ! i) \<and> heavy (ps ! j)) \<and> \<not> (light (ps ! i) \<and> light (ps ! j)))"

definition picked :: "sel \<Rightarrow> bool" where
  "picked st \<longleftrightarrow> s_heavy st \<noteq> None \<or> s_light st \<noteq> None"

lemma select_step_one_each:
  assumes pre: "sel_pre fuel ts ps qs" and inv: "sel_inv h ps qs st" and c: "chosen_ok tp ts ps st"
    and i: "i < length ps" and oe: "one_each ps"
    and new: "s_heavy st \<noteq> Some i" "s_light st \<noteq> Some i"
  shows "\<exists>st'. select_step fuel tp perf ts i st = Ok st' \<and> sel_inv h ps qs st'
    \<and> (eligible tp ts ps i \<or> picked st \<longrightarrow> picked st')"
proof (cases "eligible tp ts ps i")
  case False
  have ss: "same_statics ps (s_peers st)" using c by (simp add: chosen_ok_def)
  have "\<not> eligible tp ts (s_peers st) i"
    using False i same_static_simps(3) [OF same_statics_nth [OF ss i]] same_statics_length [OF ss]
    by (simp add: eligible_def)
  then have "select_step fuel tp perf ts i st = Ok st"
    using pre i same_statics_length [OF ss] by (intro select_step_skip) (simp_all add: sel_pre_def)
  then show ?thesis using inv False by simp
next
  case True
  have ss: "same_statics ps (s_peers st)" using c by (simp add: chosen_ok_def)
  have len: "length (s_peers st) = length ps" by (rule same_statics_length [OF ss])
  note st_i = same_static_simps [OF same_statics_nth [OF ss i]]
  obtain v h' v' where v: "version_of (s_peers st) i = Ok v"
    "refresh_version fuel tp perf (s_heap st) v = Ok (h', v')"
    "sel_inv h ps qs (st\<lparr>s_heap := h',
       s_peers := (s_peers st)[i := (s_peers st ! i)\<lparr>version := Some (decay_prediction v')\<rparr>]\<rparr>)"
    (is "sel_inv h ps qs ?st")
    using refresh_sel_inv [OF inv i] pre unfolding sel_pre_def by blast
  have "heavy (ps ! i) \<or> light (ps ! i)" using oe i by (simp add: one_each_def)
  moreover have "heavy (ps ! i) \<Longrightarrow> s_heavy st = None"
    using c oe i new(1) by (cases "s_heavy st") (auto simp: chosen_ok_def one_each_def eligible_def)
  moreover have "light (ps ! i) \<Longrightarrow> s_light st = None"
    using c oe i new(2) by (cases "s_light st") (auto simp: chosen_ok_def one_each_def eligible_def)
  ultimately have nw: "heavy (s_peers ?st ! i) \<and> s_heavy ?st = None
      \<or> light (s_peers ?st ! i) \<and> s_light ?st = None"
    using i len st_i(1,2) by auto
  from compare_peer_new [OF nw] obtain st' where
    "compare_peer perf i (peer_load v') ?st = Ok st'" "picked st'"
    "sel_inv h ps qs st' = sel_inv h ps qs ?st" unfolding picked_def by blast
  moreover have "tried_bit ts i = Ok False" "peer_usable (tp_sec tp) (s_peers st ! i)"
    using True st_i(3) by (auto simp: eligible_def)
  ultimately show ?thesis using v by (simp add: select_step_def)
qed

lemma select_loop_one_each:
  "sel_pre fuel ts ps qs \<Longrightarrow> one_each ps \<Longrightarrow> sel_inv h ps qs st \<Longrightarrow> chosen_ok tp ts ps st \<Longrightarrow>
    \<forall>i \<in> set is. i < length ps \<and> s_heavy st \<noteq> Some i \<and> s_light st \<noteq> Some i \<Longrightarrow> distinct is \<Longrightarrow>
    \<exists>st'. select_loop fuel tp perf ts is st = Ok st' \<and> sel_inv h ps qs st' \<and> chosen_ok tp ts ps st'
      \<and> ((\<exists>i \<in> set is. eligible tp ts ps i) \<or> picked st \<longrightarrow> picked st')"
proof (induction "is" arbitrary: st)
  case (Cons i "is")
  have i: "i < length ps" "s_heavy st \<noteq> Some i" "s_light st \<noteq> Some i" using Cons.prems(5) by auto
  obtain st1 where s1: "select_step fuel tp perf ts i st = Ok st1" "sel_inv h ps qs st1"
    "eligible tp ts ps i \<or> picked st \<longrightarrow> picked st1"
    using select_step_one_each [OF Cons.prems(1,3,4) i(1) Cons.prems(2) i(2,3)] by blast
  have c1: "chosen_ok tp ts ps st1" by (rule select_step_chosen [OF Cons.prems(4) i(1) s1(1)])
  have "\<forall>j \<in> set is. s_heavy st1 \<noteq> Some j \<and> s_light st1 \<noteq> Some j"
    using select_step_sel [OF s1(1)] Cons.prems(5,6) by auto
  then have "\<forall>j \<in> set is. j < length ps \<and> s_heavy st1 \<noteq> Some j \<and> s_light st1 \<noteq> Some j"
    using Cons.prems(5) by auto
  from Cons.IH [OF Cons.prems(1,2) s1(2) c1 this] Cons.prems(6) obtain st' where
    "select_loop fuel tp perf ts is st1 = Ok st'" "sel_inv h ps qs st'" "chosen_ok tp ts ps st'"
    "(\<exists>i \<in> set is. eligible tp ts ps i) \<or> picked st1 \<longrightarrow> picked st'" by auto
  then show ?case using s1 by auto
qed simp

end
