(* ===== verification/LB_Invariant.thy ===== *)
theory LB_Invariant
  imports LB_System "HOL-Library.Multiset"
begin

text \<open>
  The invariant of the whole balancer.  \<open>outs\<close> are the requests under way; every one owns a live
  node in the queue of its version, and the counters of the versions and of the group count them.
\<close>

section \<open>The invariant\<close>

definition node_of :: "heap \<Rightarrow> addr \<Rightarrow> http_request \<Rightarrow> bool" where
  "node_of h a r \<longleftrightarrow>
    map_option (\<lambda>nd. (rt_sec nd, rt_msec nd, rt_no nd)) (h a) = Some (start_sec r, start_msec r, no r)"

definition req_ok :: "heap \<Rightarrow> addr list list \<Rightarrow> http_request \<Rightarrow> bool" where
  "req_ok h qs r \<longleftrightarrow>
    (\<exists>i a. r_version r = Some (Primary, i) \<and> i < length qs \<and> enter_time r = Some a \<and> a \<in> set (qs ! i)
      \<and> node_of h a r \<and> start_sec r \<noteq> - 1 \<and> rrp_peers (rrp r) = Primary \<and> current (rrp r) = Some i)"

definition of_version :: "nat \<Rightarrow> http_request list \<Rightarrow> http_request list" where
  "of_version i outs = filter (\<lambda>r. r_version r = Some (Primary, i)) outs"

lemma of_version_simps [simp]:
  "of_version i [] = []"
  "of_version i (r # rs) = (if r_version r = Some (Primary, i) then r # of_version i rs else of_version i rs)"
  "of_version i (xs @ ys) = of_version i xs @ of_version i ys"
  by (simp_all add: of_version_def)

definition outs_ok :: "heap \<Rightarrow> addr list list \<Rightarrow> http_request list \<Rightarrow> bool" where
  "outs_ok h qs outs \<longleftrightarrow>
    (\<forall>r \<in> set outs. req_ok h qs r) \<and> distinct (map enter_time outs)
    \<and> (\<forall>i < length qs. nlive h (qs ! i) = length (of_version i outs))"

definition sys_inv :: "lb \<Rightarrow> http_request list \<Rightarrow> bool" where
  "sys_inv s outs \<longleftrightarrow>
    (\<exists>qs. queues_ok (heap s) (peer (primary s)) qs \<and> outs_ok (heap s) qs outs
      \<and> (\<forall>q \<in> set qs. \<forall>a \<in> set q. a < next_addr s))
    \<and> (\<forall>a \<ge> next_addr s. heap s a = None)
    \<and> ps_active_req (primary s) = int (length outs)
    \<and> number (primary s) = of_nat (length (peer (primary s))) \<and> length (peer (primary s)) < 2 ^ 32
    \<and> (\<forall>b. backup s = Some b \<longrightarrow> number b < 2 ^ 32)"

lemma node_of_live: "node_of h a r \<Longrightarrow> start_sec r \<noteq> - 1 \<Longrightarrow> live h a"
  by (auto simp: node_of_def live_def)

lemma node_of_same: "same_data h h' a \<Longrightarrow> node_of h' a r = node_of h a r"
  by (simp add: node_of_def same_data_def)

lemma node_of_nno: "node_of h a r \<Longrightarrow> nno h a = no r"
  by (auto simp: node_of_def nno_def)

lemma req_okE:
  assumes "req_ok h qs r"
  obtains i a nd where "r_version r = Some (Primary, i)" "i < length qs" "enter_time r = Some a"
    "a \<in> set (qs ! i)" "live h a" "h a = Some nd" "rt_sec nd = start_sec r" "rt_msec nd = start_msec r"
    "rt_no nd = no r" "rrp_peers (rrp r) = Primary" "current (rrp r) = Some i"
  using assms node_of_live unfolding req_ok_def by (auto simp: node_of_def)

text \<open>Requests and counts survive everything that keeps the live nodes.\<close>

lemma req_ok_mono:
  assumes r: "req_ok h qs r" and len: "length qs' = length qs"
    and a: "\<And>i a. i < length qs \<Longrightarrow> a \<in> set (qs ! i) \<Longrightarrow> live h a \<Longrightarrow> enter_time r = Some a \<Longrightarrow>
      a \<in> set (qs' ! i) \<and> same_data h h' a"
  shows "req_ok h' qs' r"
proof -
  obtain i a where ia: "r_version r = Some (Primary, i)" "i < length qs" "enter_time r = Some a"
    "a \<in> set (qs ! i)" "node_of h a r" "start_sec r \<noteq> - 1" "rrp_peers (rrp r) = Primary"
    "current (rrp r) = Some i" using r unfolding req_ok_def by blast
  have "a \<in> set (qs' ! i) \<and> same_data h h' a"
    using ia(2-6) by (intro a) (auto dest: node_of_live)
  then show ?thesis using ia len node_of_same [of h h' a r] unfolding req_ok_def by auto
qed

lemma refreshed_member:
  assumes "refreshed h qs h' qs'" and "i < length qs" and "a \<in> set (qs ! i)" and "live h a"
  shows "a \<in> set (qs' ! i)" "same_data h h' a" "live h' a"
proof -
  have "filter (live h') (qs' ! i) = filter (live h) (qs ! i)" and sd: "same_data h h' a"
    using assms by (auto simp: refreshed_def)
  moreover have "a \<in> set (filter (live h) (qs ! i))" using assms(3,4) by simp
  ultimately have "a \<in> set (filter (live h') (qs' ! i))" by simp
  then show "a \<in> set (qs' ! i)" "same_data h h' a" "live h' a" using sd by auto
qed

lemma outs_ok_refreshed:
  assumes o: "outs_ok h qs outs" and rf: "refreshed h qs h' qs'"
  shows "outs_ok h' qs' outs"
proof -
  have len: "length qs' = length qs" using rf by (simp add: refreshed_def)
  have "\<forall>r \<in> set outs. req_ok h' qs' r"
    using o refreshed_member [OF rf] unfolding outs_ok_def by (blast intro: req_ok_mono [OF _ len])
  moreover have "\<forall>i < length qs'. nlive h' (qs' ! i) = length (of_version i outs)"
    using o rf len by (simp add: outs_ok_def refreshed_def)
  ultimately show ?thesis using o by (simp add: outs_ok_def)
qed

text \<open>The order in which the requests are listed does not matter.\<close>

lemma of_version_mset: "mset xs = mset ys \<Longrightarrow> length (of_version i xs) = length (of_version i ys)"
  unfolding of_version_def by (metis mset_filter size_mset)

lemma sys_inv_mset:
  assumes m: "mset xs = mset ys" and inv: "sys_inv s xs"
  shows "sys_inv s ys"
proof -
  have "set xs = set ys" using m by (rule mset_eq_setD)
  moreover have "length xs = length ys" using m by (rule mset_eq_length)
  moreover have "distinct (map enter_time xs) = distinct (map enter_time ys)"
    using m by (metis mset_eq_imp_distinct_iff mset_map)
  ultimately show ?thesis
    using inv of_version_mset [OF m] unfolding sys_inv_def outs_ok_def by simp
qed

lemma queue_len_bound:
  assumes "queues_ok h ps qs" and "\<forall>q \<in> set qs. \<forall>a \<in> set q. a < n"
  shows "\<forall>q \<in> set qs. length q \<le> n \<and> distinct q"
proof
  fix q assume "q \<in> set qs"
  then obtain i where i: "i < length qs" "q = qs ! i" by (metis in_set_conv_nth)
  then have "distinct q"
    using assms(1) by (auto simp: queues_ok_def version_ok_def dest!: qinv_distinct)
  then show "length q \<le> n \<and> distinct q"
    using length_le_bound [of q n] assms(2) \<open>q \<in> set qs\<close> by blast
qed

section \<open>Arrival\<close>

lemma enter_version_Ok:
  assumes "enter_version tp ld v = Ok v'"
  shows "req_times v' = req_times v" "req_tail v' = req_tail v" "old_reqs v' = old_reqs v"
    "active_req v' = active_req v + 1" "completed_requests v' = completed_requests v"
    "req_upper_bound v' = req_upper_bound v"
  using assms by (auto simp: enter_version_def Let_def)

lemma arrive_version_ok:
  assumes vo: "version_ok h v as" and fresh: "h a = None" and r: "start_sec r \<noteq> - 1"
    and q: "req_times v' = req_times v" "req_tail v' = req_tail v" "old_reqs v' = old_reqs v"
    and c: "active_req v' = active_req v + 1" "completed_requests v' = completed_requests v"
      "req_upper_bound v' = req_upper_bound v"
    and no: "no r = completed_requests v' + active_req v'"
  shows "\<exists>h' v2. push_req_time r h a v' = Ok (h', v2) \<and> version_ok h' v2 (as @ [a]) \<and> node_of h' a r
    \<and> (\<forall>x. x \<noteq> a \<longrightarrow> same_data h h' x) \<and> (\<forall>x. x \<noteq> a \<and> x \<notin> set as \<longrightarrow> h' x = h x)
    \<and> completed_requests v2 = completed_requests v'"
proof -
  have qi: "qinv h (req_times v') (req_tail v') as (old_reqs v')"
    using vo by (simp add: q version_ok_def)
  have nn: "nno h x \<le> completed_requests v + active_req v" if "x \<in> set as" for x
    using vo that unfolding version_ok_def by blast
  then have nos: "\<forall>x \<in> set as. nno h x < no r" using no c by fastforce
  have an: "a \<notin> set as" using qinv_dom [OF qi] fresh by fastforce
  obtain h' p t where p: "push_req_time r h a v' = Ok (h', v'\<lparr>req_times := p, req_tail := t\<rparr>)"
    "qinv h' p t (as @ [a]) (old_reqs v')"
    and ha: "h' a = Some \<lparr>rt_sec = start_sec r, rt_msec = start_msec r, rt_no = no r, rt_next = None,
                   rt_tail = None\<rparr>"
    and sd: "\<forall>x. x \<noteq> a \<longrightarrow> same_data h h' x" and fr: "\<forall>x. x \<noteq> a \<and> x \<notin> set as \<longrightarrow> h' x = h x"
    using push_req_time_qinv [OF qi fresh r nos] by blast
  have sd': "\<forall>x \<in> set as. same_data h h' x" using sd an by metis
  have "live h' a" using ha r by (simp add: live_def)
  then have nl: "nlive h' (as @ [a]) = Suc (nlive h as)" using same_data_filter [OF sd'] by simp
  have "\<forall>x \<in> set as. nno h' x \<le> completed_requests v + active_req v"
    using nn sd' same_data_nno [of h h'] by fastforce
  moreover have "nno h' a = completed_requests v + active_req v + 1"
    using ha no c by (simp add: nno_def)
  ultimately have "version_ok h' (v'\<lparr>req_times := p, req_tail := t\<rparr>) (as @ [a])"
    using vo p(2) nl c by (auto simp: version_ok_def)
  moreover have "node_of h' a r" using ha by (simp add: node_of_def)
  ultimately show ?thesis using p(1) sd fr by (intro exI [of _ h'] exI [of _ "v'\<lparr>req_times := p, req_tail := t\<rparr>"]) simp
qed

lemma get_peer_in_group_Ok:
  assumes "get_peer_in_group m tp s r = Ok res"
  obtains s1 rd b ps s' r' where
    "ngx_http_upstream_get_peer tp s (rrp r) = Ok (s1, rd, Some b)"
    "group_of s1 (rrp_peers rd) = Some ps"
    "ngx_http_upstream_buffer_request_data m tp
       (set_group s1 (rrp_peers rd)
         (ps\<lparr>peer := (peer ps)[b := (peer ps ! b)\<lparr>conns := conns (peer ps ! b) + 1\<rparr>]\<rparr>))
       (r\<lparr>rrp := rd, pc_sockaddr := Some (sockaddr (peer ps ! b)), pc_name := pname (peer ps ! b)\<rparr>)
      = Ok (s', r')"
    "res = Some (s', r')"
proof -
  from assms obtain s1 rd best where
    g: "ngx_http_upstream_get_peer tp s (rrp r) = Ok (s1, rd, best)"
    by (auto simp: get_peer_in_group_def)
  obtain b where b: "best = Some b" using g by (rule get_peer_Ok) simp
  show thesis using assms g b by (auto simp: get_peer_in_group_def Let_def intro: that)
qed

lemma get_rr_peer_Ok:
  assumes "ngx_http_upstream_get_round_robin_peer m tp s r = Ok (rc, s', r')"
  shows "rc = NGX_OK \<and> get_peer_in_group m tp s r = Ok (Some (s', r'))"
proof -
  from assms obtain res where res: "get_peer_in_group m tp s r = Ok res"
    by (auto simp: ngx_http_upstream_get_round_robin_peer_def)
  then obtain x where "res = Some x" by (rule get_peer_in_group_Ok) simp
  then show ?thesis using assms res
    by (auto simp: ngx_http_upstream_get_round_robin_peer_def split: prod.splits)
qed

lemma buffer_request_data_Ok:
  assumes "ngx_http_upstream_buffer_request_data True tp s r = Ok (s', r')"
    and g: "group_of s (rrp_peers (rrp r)) = Some ps" and i: "current (rrp r) = Some i"
    and v: "version_of (peer ps) i = Ok v"
  obtains v1 r1 h' v2 where
    "push_req_time r1 (heap s) (next_addr s) v1 = Ok (h', v2)"
    "req_times v1 = req_times v" "req_tail v1 = req_tail v" "old_reqs v1 = old_reqs v"
    "active_req v1 = active_req v" "completed_requests v1 = completed_requests v"
    "req_upper_bound v1 = req_upper_bound v"
    "start_sec r1 = start_sec r" "start_msec r1 = start_msec r"
    "no r1 = completed_requests v + active_req v"
    "s' = set_group (s\<lparr>heap := h', next_addr := Suc (next_addr s)\<rparr>) (rrp_peers (rrp r))
            (ps\<lparr>peer := (peer ps)[i := (peer ps ! i)\<lparr>version := Some v2\<rparr>]\<rparr>)"
    "r_version r' = Some (rrp_peers (rrp r), i)" "enter_time r' = Some (next_addr s)"
    "start_sec r' = start_sec r" "start_msec r' = start_msec r" "no r' = no r1" "rrp r' = rrp r"
    "req_finish_before r' = completed_requests v"
  using assms
  by (auto simp: ngx_http_upstream_buffer_request_data_def Let_def intro: that)

lemma sel_inv_start:
  assumes "queues_ok (heap s) (peer ps) qs"
  shows "sel_inv (heap s) (peer ps) qs (sel_start s ps)"
  using assms refreshed_refl by (auto simp: sel_inv_def sel_start_def)

text \<open>The data of a request after \<^verbatim>\<open>ngx_http_upstream_init_round_robin_peer\<close>.\<close>

definition req_start :: "lb \<Rightarrow> http_request \<Rightarrow> bool" where
  "req_start s r \<longleftrightarrow>
    rrp_peers (rrp r) = Primary \<and> length (peer (primary s)) \<le> 64 * length (tried (rrp r))
    \<and> start_sec r \<noteq> - 1"

lemma get_peer_inv:
  assumes q: "queues_ok (heap s) (peer (primary s)) qs" and b: "\<forall>q \<in> set qs. \<forall>a \<in> set q. a < next_addr s"
    and pr: "rrp_peers rd = Primary" and ts: "length (peer (primary s)) \<le> 64 * length (tried rd)"
    and g: "ngx_http_upstream_get_peer tp s rd = Ok (s1, rd1, Some i)"
  obtains h1 ps1 qs1 v v' where
    "queues_ok h1 ps1 qs1" "refreshed (heap s) qs h1 qs1" "same_counts (peer (primary s)) ps1"
    "i < length ps1" "version (ps1 ! i) = Some v"
    "req_times v' = req_times v" "req_tail v' = req_tail v" "old_reqs v' = old_reqs v"
    "active_req v' = active_req v + 1" "completed_requests v' = completed_requests v"
    "req_upper_bound v' = req_upper_bound v"
    "s1 = s\<lparr>heap := h1, primary := (enter_peers (primary s))
            \<lparr>peer := ps1[i := (ps1 ! i)\<lparr>version := Some v', checked := tp_sec tp\<rparr>]\<rparr>\<rparr>"
    "rd1 = rd\<lparr>current := Some i\<rparr>"
proof -
  have grp: "group_of s (rrp_peers rd) = Some (primary s)" using pr by (simp add: group_of_def)
  obtain st v v' where
    st: "select_loop (Suc (next_addr s)) tp (find_pt (peer (primary s)) 0) (tried rd)
        [0..<length (peer (primary s))] (sel_start s (primary s)) = Ok st"
    and v: "version_of (s_peers st) i = Ok v" and v': "enter_version tp
        (if Some i = s_heavy st then heavy_load st else light_load st) v = Ok v'"
    and rd1: "rd1 = rd\<lparr>current := Some i\<rparr>"
    and s1: "s1 = set_group (s\<lparr>heap := s_heap st\<rparr>) (rrp_peers rd) ((enter_peers (primary s))
            \<lparr>peer := (s_peers st)[i := (s_peers st ! i)\<lparr>version := Some v', checked := tp_sec tp\<rparr>]\<rparr>)"
    using g grp by (auto elim!: get_peer_Ok)
  have pre: "sel_pre (Suc (next_addr s)) (tried rd) (peer (primary s)) qs"
    using queue_len_bound [OF q b] q ts by (auto simp: sel_pre_def queues_ok_def intro: le_SucI)
  have "sel_inv (heap s) (peer (primary s)) qs st"
    using select_loop_outcome [OF pre sel_inv_start [OF q] sel_start_chosen, of "[0..<length (peer (primary s))]"]
      st by (auto dest: outcome_Ok)
  then obtain qs1 where "queues_ok (s_heap st) (s_peers st) qs1" "refreshed (heap s) qs (s_heap st) qs1"
    "same_counts (peer (primary s)) (s_peers st)" by (auto simp: sel_inv_def)
  moreover have "i < length (s_peers st)" "version (s_peers st ! i) = Some v"
    using v by (auto simp: version_of_def split: if_splits)
  ultimately show ?thesis
    using s1 rd1 pr by (intro that [OF _ _ _ _ _ enter_version_Ok [OF v']]) (simp_all add: set_group_def)
qed

lemma outs_ok_push:
  assumes o: "outs_ok h qs outs" and i: "i < length qs" and nd: "node_of h' a r" "start_sec r \<noteq> - 1"
    and r: "r_version r = Some (Primary, i)" "enter_time r = Some a" "rrp_peers (rrp r) = Primary"
      "current (rrp r) = Some i"
    and fresh: "\<forall>q \<in> set qs. a \<notin> set q" and sd: "\<forall>x. x \<noteq> a \<longrightarrow> same_data h h' x"
  shows "outs_ok h' (qs[i := qs ! i @ [a]]) (r # outs)"
proof -
  let ?qs = "qs[i := qs ! i @ [a]]"
  have new: "req_ok h' ?qs r" using i nd r by (auto simp: req_ok_def)
  have na: "enter_time x \<noteq> Some a" if x: "x \<in> set outs" for x
  proof -
    have "req_ok h qs x" using o x by (simp add: outs_ok_def)
    then obtain j b where "enter_time x = Some b" "j < length qs" "b \<in> set (qs ! j)"
      by (rule req_okE)
    then show ?thesis using fresh by auto
  qed
  have old: "req_ok h' ?qs x" if x: "x \<in> set outs" for x
  proof -
    have "req_ok h qs x" using o x by (simp add: outs_ok_def)
    then show ?thesis
      using i sd na [OF x] by (rule_tac req_ok_mono [of h qs]) (auto simp: nth_list_update)
  qed
  have fl: "filter (live h') (qs ! j) = filter (live h) (qs ! j)" if "j < length qs" for j
  proof -
    have "\<forall>x \<in> set (qs ! j). same_data h h' x" using that fresh sd by (metis nth_mem)
    then show ?thesis by (simp add: same_data_filter)
  qed
  have "nlive h' (?qs ! j) = length (of_version j (r # outs))" if j: "j < length qs" for j
    using o j i fl [OF j] node_of_live [OF nd] r(1) by (auto simp: outs_ok_def nth_list_update)
  moreover have "distinct (map enter_time (r # outs))" using o na r(2) by (force simp: outs_ok_def)
  ultimately show ?thesis using new old by (simp add: outs_ok_def)
qed

text \<open>
  What an arrival does to the state: the queues are refreshed (\<open>h1\<close>, \<open>ps1\<close>, \<open>qs1\<close>), and the request
  is appended to the queue of its peer \<open>i\<close>, whose version becomes \<open>w\<close>.
\<close>

lemma arrive_Ok:
  assumes q: "queues_ok (heap s) (peer (primary s)) qs"
    and bd: "\<forall>q \<in> set qs. \<forall>a \<in> set q. a < next_addr s" and hn: "heap s (next_addr s) = None"
    and rs: "req_start s r"
    and g: "ngx_http_upstream_get_round_robin_peer True tp s r = Ok (rc, s', r')"
  obtains h1 ps1 qs1 i v h' w p where
    "queues_ok h1 ps1 qs1" "refreshed (heap s) qs h1 qs1" "same_counts (peer (primary s)) ps1"
    "i < length ps1" "version (ps1 ! i) = Some v"
    "version_ok h' w (qs1 ! i @ [next_addr s])" "version p = Some w"
    "completed_requests w = completed_requests v" "node_of h' (next_addr s) r'"
    "\<forall>x. x \<noteq> next_addr s \<longrightarrow> same_data h1 h' x"
    "\<forall>x. x \<noteq> next_addr s \<and> x \<notin> set (qs1 ! i) \<longrightarrow> h' x = h1 x"
    "s' = s\<lparr>heap := h', next_addr := Suc (next_addr s),
      primary := (enter_peers (primary s))\<lparr>peer := ps1[i := p]\<rparr>\<rparr>"
    "r_version r' = Some (Primary, i)" "enter_time r' = Some (next_addr s)"
    "rrp_peers (rrp r') = Primary" "current (rrp r') = Some i" "start_sec r' = start_sec r"
    "tried (rrp r') = tried (rrp r)"
proof -
  have rp: "rrp_peers (rrp r) = Primary" "length (peer (primary s)) \<le> 64 * length (tried (rrp r))"
    "start_sec r \<noteq> - 1" using rs by (auto simp: req_start_def)
  have gg: "get_peer_in_group True tp s r = Ok (Some (s', r'))" using get_rr_peer_Ok [OF g] by auto
  obtain s1 rd i ps where gp: "ngx_http_upstream_get_peer tp s (rrp r) = Ok (s1, rd, Some i)"
    and ps: "group_of s1 (rrp_peers rd) = Some ps"
    and bf: "ngx_http_upstream_buffer_request_data True tp
       (set_group s1 (rrp_peers rd)
         (ps\<lparr>peer := (peer ps)[i := (peer ps ! i)\<lparr>conns := conns (peer ps ! i) + 1\<rparr>]\<rparr>))
       (r\<lparr>rrp := rd, pc_sockaddr := Some (sockaddr (peer ps ! i)), pc_name := pname (peer ps ! i)\<rparr>)
      = Ok (s', r')"
    using gg by (auto elim!: get_peer_in_group_Ok)
  obtain h1 ps1 qs1 v v' where q1: "queues_ok h1 ps1 qs1" and rf: "refreshed (heap s) qs h1 qs1"
    and sc: "same_counts (peer (primary s)) ps1" and i: "i < length ps1"
    and v: "version (ps1 ! i) = Some v"
    and v': "req_times v' = req_times v" "req_tail v' = req_tail v" "old_reqs v' = old_reqs v"
      "active_req v' = active_req v + 1" "completed_requests v' = completed_requests v"
      "req_upper_bound v' = req_upper_bound v"
    and s1: "s1 = s\<lparr>heap := h1, primary := (enter_peers (primary s))
            \<lparr>peer := ps1[i := (ps1 ! i)\<lparr>version := Some v', checked := tp_sec tp\<rparr>]\<rparr>\<rparr>"
    and rd: "rd = (rrp r)\<lparr>current := Some i\<rparr>"
    using q bd rp(1,2) gp by (rule get_peer_inv)
  have rdp: "rrp_peers rd = Primary" using rd rp by simp
  have ps': "ps = primary s1" using ps rdp by (simp add: group_of_def)
  define p2 where "p2 = (ps1 ! i)\<lparr>version := Some v', checked := tp_sec tp, conns := conns (ps1 ! i) + 1\<rparr>"
  define s2 where "s2 = s\<lparr>heap := h1, primary := (enter_peers (primary s))\<lparr>peer := ps1[i := p2]\<rparr>\<rparr>"
  have bf': "ngx_http_upstream_buffer_request_data True tp s2
      (r\<lparr>rrp := rd, pc_sockaddr := Some (sockaddr (peer ps ! i)), pc_name := pname (peer ps ! i)\<rparr>) = Ok (s', r')"
    using bf i by (simp add: s2_def s1 ps' rdp set_group_def p2_def)
  have g2: "group_of s2 (rrp_peers rd) = Some (primary s2)" using rdp by (simp add: group_of_def)
  have v2: "version_of (peer (primary s2)) i = Ok v'" using i by (simp add: s2_def version_of_def p2_def)
  obtain v1 r1 h' w where
    pu: "push_req_time r1 (heap s2) (next_addr s2) v1 = Ok (h', w)"
    and v1: "req_times v1 = req_times v'" "req_tail v1 = req_tail v'" "old_reqs v1 = old_reqs v'"
      "active_req v1 = active_req v'" "completed_requests v1 = completed_requests v'"
      "req_upper_bound v1 = req_upper_bound v'"
    and r1: "start_sec r1 = start_sec r" "start_msec r1 = start_msec r"
      "no r1 = completed_requests v' + active_req v'"
    and s': "s' = set_group (s2\<lparr>heap := h', next_addr := Suc (next_addr s2)\<rparr>) Primary
            ((primary s2)\<lparr>peer := (peer (primary s2))[i := (peer (primary s2) ! i)\<lparr>version := Some w\<rparr>]\<rparr>)"
    and r': "r_version r' = Some (Primary, i)" "enter_time r' = Some (next_addr s2)"
      "start_sec r' = start_sec r" "start_msec r' = start_msec r" "no r' = no r1" "rrp r' = rd"
    using bf' g2 v2 rdp rd by (auto elim!: buffer_request_data_Ok)
  let ?a = "next_addr s"
  have "\<forall>j < length qs. ?a \<notin> set (qs ! j)" using bd by (metis less_irrefl nth_mem)
  then have ha: "h1 ?a = None" using rf hn by (simp add: refreshed_def)
  have vo: "version_ok h1 v (qs1 ! i)" using queues_okD [OF q1 i] v by auto
  obtain v3 where p: "push_req_time r1 h1 ?a v1 = Ok (h', v3)" "version_ok h' v3 (qs1 ! i @ [?a])"
    and nd: "node_of h' ?a r1" and sd: "\<forall>x. x \<noteq> ?a \<longrightarrow> same_data h1 h' x"
    and fr: "\<forall>x. x \<noteq> ?a \<and> x \<notin> set (qs1 ! i) \<longrightarrow> h' x = h1 x"
    and c3: "completed_requests v3 = completed_requests v1"
    using arrive_version_ok [of h1 v "qs1 ! i" ?a r1 v1] vo ha rp(3) v' v1 r1 pu
    by (auto simp: s2_def)
  have w: "w = v3" using pu p(1) by (simp add: s2_def)
  have "s' = s\<lparr>heap := h', next_addr := Suc ?a,
      primary := (enter_peers (primary s))\<lparr>peer := ps1[i := p2\<lparr>version := Some w\<rparr>]\<rparr>\<rparr>"
    using s' i by (simp add: s2_def set_group_def)
  moreover have "node_of h' ?a r'" using nd r' r1 by (simp add: node_of_def)
  ultimately show thesis
    using p(2) w c3 v1(5) v'(5) r' rdp rd sd fr
    by (intro that [OF q1 rf sc i v, where h' = h' and w = w and p = "p2\<lparr>version := Some w\<rparr>"])
      (simp_all add: s2_def)
qed

lemma arrive_keeps:
  assumes inv: "sys_inv s outs" and rs: "req_start s r"
    and g: "ngx_http_upstream_get_round_robin_peer True tp s r = Ok (rc, s', r')"
  shows "length (peer (primary s')) = length (peer (primary s))" "req_start s' r'"
proof -
  obtain qs where q: "queues_ok (heap s) (peer (primary s)) qs"
    and bd: "\<forall>q \<in> set qs. \<forall>a \<in> set q. a < next_addr s" and hn: "heap s (next_addr s) = None"
    using inv by (auto simp: sys_inv_def)
  obtain h1 ps1 qs1 i v h' w p where sc: "same_counts (peer (primary s)) ps1"
    and s': "s' = s\<lparr>heap := h', next_addr := Suc (next_addr s),
      primary := (enter_peers (primary s))\<lparr>peer := ps1[i := p]\<rparr>\<rparr>"
    and r': "rrp_peers (rrp r') = Primary" "start_sec r' = start_sec r" "tried (rrp r') = tried (rrp r)"
    using q bd hn rs g by (rule arrive_Ok)
  show l: "length (peer (primary s')) = length (peer (primary s))"
    using sc by (simp add: s' same_counts_def)
  show "req_start s' r'" using rs r' by (simp add: req_start_def l)
qed

lemma arrive_inv:
  assumes inv: "sys_inv s outs" and rs: "req_start s r"
    and g: "ngx_http_upstream_get_round_robin_peer True tp s r = Ok (rc, s', r')"
  shows "rc = NGX_OK \<and> sys_inv s' (r' # outs)"
proof -
  let ?a = "next_addr s"
  obtain qs where q: "queues_ok (heap s) (peer (primary s)) qs" and o: "outs_ok (heap s) qs outs"
    and bd: "\<forall>q \<in> set qs. \<forall>a \<in> set q. a < ?a" and hn: "\<forall>a \<ge> ?a. heap s a = None"
    using inv by (auto simp: sys_inv_def)
  from hn have hn1: "heap s ?a = None" by simp
  obtain h1 ps1 qs1 i v h' w p where q1: "queues_ok h1 ps1 qs1" and rf: "refreshed (heap s) qs h1 qs1"
    and sc: "same_counts (peer (primary s)) ps1" and i: "i < length ps1"
    and vo: "version_ok h' w (qs1 ! i @ [?a])" "version p = Some w" and nd: "node_of h' ?a r'"
    and sd: "\<forall>x. x \<noteq> ?a \<longrightarrow> same_data h1 h' x"
    and fr: "\<forall>x. x \<noteq> ?a \<and> x \<notin> set (qs1 ! i) \<longrightarrow> h' x = h1 x"
    and s': "s' = s\<lparr>heap := h', next_addr := Suc ?a,
      primary := (enter_peers (primary s))\<lparr>peer := ps1[i := p]\<rparr>\<rparr>"
    and r': "r_version r' = Some (Primary, i)" "enter_time r' = Some ?a"
      "rrp_peers (rrp r') = Primary" "current (rrp r') = Some i" "start_sec r' = start_sec r"
    using q bd hn1 rs g by (rule arrive_Ok)
  have bd1: "\<forall>q \<in> set qs1. \<forall>a \<in> set q. a < ?a"
    using rf bd by (fastforce simp: refreshed_def in_set_conv_nth)
  have len1: "length qs1 = length ps1" "length ps1 = length (peer (primary s))"
    using q1 sc by (auto simp: queues_ok_def same_counts_def)
  have na: "\<forall>q \<in> set qs1. ?a \<notin> set q" using bd1 by blast
  have "queues_ok h' (ps1[i := p]) (qs1[i := qs1 ! i @ [?a]])"
    using vo fr na len1 by (intro queues_ok_update [OF q1 i, where fresh = "{?a}" and v' = w]) auto
  moreover have "outs_ok h' (qs1[i := qs1 ! i @ [?a]]) (r' # outs)"
    using i len1 r' rs na sd nd
    by (intro outs_ok_push [OF outs_ok_refreshed [OF o rf]]) (simp_all add: req_start_def)
  moreover have "\<forall>q \<in> set (qs1[i := qs1 ! i @ [?a]]). \<forall>a \<in> set q. a < Suc ?a"
    using bd1 i len1 set_update_subset_insert [of qs1 i] by (fastforce simp: less_Suc_eq)
  moreover have "\<forall>a \<ge> Suc ?a. h' a = None"
  proof (intro allI impI)
    fix a assume a: "Suc ?a \<le> a"
    have "\<forall>j < length qs. a \<notin> set (qs ! j)" using bd a by (metis Suc_leD leD nth_mem)
    then have "h1 a = None" using rf hn a by (simp add: refreshed_def)
    moreover have "h' a = h1 a" using fr bd1 a i len1 by (metis Suc_leD Suc_n_not_le_n leD nth_mem)
    ultimately show "h' a = None" by simp
  qed
  ultimately show ?thesis
    using get_rr_peer_Ok [OF g] inv len1 unfolding sys_inv_def s' by (auto simp: enter_peers_def Let_def)
qed

text \<open>Arrivals do not change the counters of completed requests.\<close>

definition completed_le :: "int \<Rightarrow> rr_peer list \<Rightarrow> bool" where
  "completed_le k ps \<longleftrightarrow> (\<forall>i < length ps. \<forall>v. version (ps ! i) = Some v \<longrightarrow> completed_requests v \<le> k)"

lemma arrive_completed:
  assumes inv: "sys_inv s outs" and rs: "req_start s r"
    and g: "ngx_http_upstream_get_round_robin_peer True tp s r = Ok (rc, s', r')"
    and c: "completed_le k (peer (primary s))"
  shows "completed_le k (peer (primary s'))"
proof -
  let ?a = "next_addr s"
  obtain qs where q: "queues_ok (heap s) (peer (primary s)) qs"
    and bd: "\<forall>q \<in> set qs. \<forall>a \<in> set q. a < ?a" and hn: "heap s ?a = None"
    using inv by (auto simp: sys_inv_def)
  obtain h1 ps1 qs1 i v h' w p where sc: "same_counts (peer (primary s)) ps1" and i: "i < length ps1"
    and v: "version (ps1 ! i) = Some v" and w: "version p = Some w" "completed_requests w = completed_requests v"
    and s': "s' = s\<lparr>heap := h', next_addr := Suc ?a,
      primary := (enter_peers (primary s))\<lparr>peer := ps1[i := p]\<rparr>\<rparr>"
    using q bd hn rs g by (rule arrive_Ok)
  have "completed_requests u \<le> k" if j: "j < length ps1" and u: "version (ps1 ! j) = Some u" for j u
  proof -
    have j': "j < length (peer (primary s))" using sc j by (simp add: same_counts_def)
    obtain u0 where "version (peer (primary s) ! j) = Some u0" using queues_okD [OF q j'] by blast
    then show ?thesis using sc c j' u by (auto simp: same_counts_def completed_le_def same_counters_def)
  qed
  then show ?thesis using i v w unfolding s' by (auto simp: completed_le_def nth_list_update)
qed

end
