(* ===== verification/LB_Reach.thy ===== *)
theory LB_Reach
  imports LB_Invariant
begin

text \<open>
  Completion and release of a request on well-formed states, and the reachable states of the
  balancer.
\<close>

section \<open>Completion\<close>

lemma unwatched_le: "unwatched as od \<le> length as"
  using length_dropWhile_le [of "\<lambda>a. a \<noteq> the (recent_req od)" as]
  by (auto simp: unwatched_def split: option.split)

lemma complete_counters_outcome:
  assumes "req_upper_bound v \<noteq> 0"
  shows "outcome {BadConversion} (\<lambda>v2. req_times v2 = req_times v \<and> req_tail v2 = req_tail v
      \<and> old_reqs v2 = old_reqs v \<and> active_req v2 = active_req v - 1
      \<and> completed_requests v2 = (completed_requests v + 1) mod req_upper_bound v
      \<and> req_upper_bound v2 = req_upper_bound v) (complete_counters tp r v)"
  using assms unfolding complete_counters_def Let_def
  by (auto simp: guardR_def intro!: outcome_bind [OF f_to_int_outcome])

lemma complete_version_outcome:
  assumes vo: "version_ok h v as" and a: "a \<in> set as" "live h a" "h a = Some nd"
    and r: "rt_sec nd = start_sec r" "rt_msec nd = start_msec r" "rt_no nd = no r" "enter_time r = Some a"
    and wrap: "completed_requests v + 1 < req_upper_bound v" and n: "active_req v \<le> 2 ^ 53"
    and fuel: "length as \<le> fuel"
  shows "outcome {BadConversion} (\<lambda>(h', v'). \<exists>as'. version_ok h' v' as'
      \<and> preserves (finished h a nd) as h' as'
      \<and> completed_requests v' = completed_requests v + 1 \<and> active_req v' = active_req v - 1
      \<and> \<not> needs_watch (req_count (old_reqs v')) (active_req v'))
    (complete_version fuel tp r h v)"
proof -
  let ?h = "finished h a nd"
  have md: "mark_done h (enter_time r) = Ok ?h" using a(3) r(4) by (simp add: mark_done_Ok)
  have q: "qinv h (req_times v) (req_tail v) as (old_reqs v)" and ac: "active_req v = int (nlive h as)"
    and c0: "0 \<le> completed_requests v" and ub: "req_upper_bound v = INT_MAX - 5"
    and nn: "\<forall>x \<in> set as. nno h x \<le> completed_requests v + active_req v"
    using vo by (auto simp: version_ok_def)
  have nl: "nlive h as = Suc (nlive ?h as)" by (rule nlive_done [OF qinv_distinct [OF q] a(1,2)])
  have "rt_no nd \<le> completed_requests v + active_req v" using nn a(1,3) by (force simp: nno_def)
  note fq = finish_qinv [OF q a this, of tp, unfolded r]
  have "outcome {BadConversion} (\<lambda>(h', v'). \<exists>as'. version_ok h' v' as' \<and> preserves ?h as h' as'
      \<and> completed_requests v' = completed_requests v + 1 \<and> active_req v' = active_req v - 1
      \<and> \<not> needs_watch (req_count (old_reqs v')) (active_req v'))
      (let od = age_watched tp (unwatch (no r) (start_sec r) (start_msec r)
                  (completed_requests v2 + active_req v2) (old_reqs v2))
       in bindR (rewatch fuel (active_req v2) ?h (req_times v2) od) (\<lambda>(h2, hd_req, od').
          Ok (h2, update_prediction (response_ms tp r) (req_finish_before r)
                 (v2\<lparr>req_times := hd_req, old_reqs := od'\<rparr>))))"
    if v2: "req_times v2 = req_times v" "req_tail v2 = req_tail v" "old_reqs v2 = old_reqs v"
      "active_req v2 = active_req v - 1"
      "completed_requests v2 = (completed_requests v + 1) mod req_upper_bound v"
      "req_upper_bound v2 = req_upper_bound v" for v2
  proof -
    have c: "completed_requests v2 = completed_requests v + 1" using v2(5) c0 wrap by simp
    have tot: "completed_requests v2 + active_req v2 = completed_requests v + active_req v"
      using c v2(4) by simp
    let ?od = "age_watched tp (unwatch (no r) (start_sec r) (start_msec r)
                  (completed_requests v2 + active_req v2) (old_reqs v2))"
    have n2: "active_req v2 = int (nlive ?h as)" "active_req v2 \<le> 2 ^ 53" using v2(4) ac nl n by auto
    have "qinv ?h (req_times v2) (req_tail v2) as ?od" using fq by (simp add: v2(1-3) tot)
    then obtain h' p' as' od' where
      rw: "rewatch fuel (active_req v2) ?h (req_times v2) ?od = Ok (h', p', od')"
        "qinv h' p' (req_tail v2) as' od'" "preserves ?h as h' as'" "\<not> needs_watch (req_count od') (active_req v2)"
      using rewatch_qinv [OF _ n2, of "req_times v2" "req_tail v2" ?od fuel] unwatched_le [of as ?od] fuel
      by fastforce
    let ?v = "update_prediction (response_ms tp r) (req_finish_before r) (v2\<lparr>req_times := p', old_reqs := od'\<rparr>)"
    have "nlive h' as' = nlive ?h as" using rw(3) by (simp add: preserves_def)
    moreover have "\<forall>x \<in> set as'. nno h' x \<le> completed_requests v + active_req v"
    proof
      fix x assume x: "x \<in> set as'"
      have "same_data ?h h' x" "x \<in> set as" using rw(3) x by (auto simp: preserves_def)
      then show "nno h' x \<le> completed_requests v + active_req v"
        using nn same_data_nno [of ?h h' x] nno_done [of h a nd x] a(3) by fastforce
    qed
    ultimately have "version_ok h' ?v as'"
      using rw(2) c v2 ub c0 n2 tot by (auto simp: version_ok_def update_prediction_def Let_def)
    moreover have "completed_requests ?v = completed_requests v + 1" "active_req ?v = active_req v - 1"
      "old_reqs ?v = od'" "active_req ?v = active_req v2"
      using c v2 by (simp_all add: update_prediction_def Let_def)
    ultimately show ?thesis using rw by auto
  qed
  moreover have "req_upper_bound v \<noteq> 0" using ub by (simp add: INT_MAX_def)
  ultimately show ?thesis unfolding complete_version_def md
    by (auto intro!: outcome_bind [OF complete_counters_outcome] simp del: outcome_simps(2))
qed

lemma outs_ok_complete:
  assumes o: "outs_ok h qs (xs @ r # ys)"
    and dj: "\<forall>k < length qs. \<forall>j < length qs. k \<noteq> j \<longrightarrow> set (qs ! k) \<inter> set (qs ! j) = {}"
    and r: "r_version r = Some (Primary, i)" "enter_time r = Some a"
    and a: "i < length qs" "a \<in> set (qs ! i)" "live h a" "distinct (qs ! i)"
    and p: "preserves (finished h a nd) (qs ! i) h' as'"
  shows "outs_ok h' (qs[i := as']) (xs @ ys)"
proof -
  let ?f = "finished h a nd"
  have other: "h' b = h b" if "j < length qs" "j \<noteq> i" "b \<in> set (qs ! j)" for j b
  proof -
    have "b \<notin> set (qs ! i)" using dj that a(1) by blast
    then show ?thesis using p a(2) by (auto simp: preserves_def finished_def)
  qed
  have "req_ok h' (qs[i := as']) x" if x: "x \<in> set (xs @ ys)" for x
  proof (rule req_ok_mono)
    show "req_ok h qs x" using o x by (auto simp: outs_ok_def)
    fix j b assume j: "j < length qs" "b \<in> set (qs ! j)" "live h b" "enter_time x = Some b"
    have "distinct (map enter_time (xs @ r # ys))" using o by (simp add: outs_ok_def)
    then have "enter_time x \<noteq> enter_time r" using x by (auto simp: image_iff)
    then have ba: "b \<noteq> a" using r(2) j(4) by simp
    have sd: "same_data h ?f b" using ba by (simp add: same_data_def finished_def)
    show "b \<in> set (qs[i := as'] ! j) \<and> same_data h h' b"
    proof (cases "j = i")
      case False
      then show ?thesis using j other by (simp add: same_data_def)
    next
      case True
      have lb: "live ?f b" using j(3) ba by (simp add: live_done)
      have "filter (live h') as' = filter (live ?f) (qs ! i)" using p by (simp add: preserves_def)
      moreover have "b \<in> set (filter (live ?f) (qs ! i))" using lb j(2) True by simp
      ultimately have "b \<in> set as'" by (metis filter_is_subset subset_iff)
      then show ?thesis
        using True a(1) p lb same_data_trans [OF sd] by (simp add: preserves_def)
    qed
  qed simp
  moreover have "nlive h' (qs[i := as'] ! j) = length (of_version j (xs @ ys))" if j: "j < length qs" for j
  proof (cases "j = i")
    case True
    have "nlive h (qs ! i) = length (of_version i (xs @ r # ys))" using o a(1) by (simp add: outs_ok_def)
    moreover have "nlive h (qs ! i) = Suc (nlive ?f (qs ! i))" by (rule nlive_done [OF a(4,2,3)])
    ultimately show ?thesis using True a(1) p r(1) by (simp add: preserves_def)
  next
    case False
    have "filter (live h') (qs ! j) = filter (live h) (qs ! j)"
      using other [OF j False] by (auto simp: live_def intro!: filter_cong)
    then show ?thesis using o j False r(1) by (simp add: outs_ok_def)
  qed
  moreover have "distinct (map enter_time (xs @ ys))" using o by (simp add: outs_ok_def)
  ultimately show ?thesis unfolding outs_ok_def length_list_update by blast
qed

lemma find_pt_fold: "find_pt ps k = fold (\<lambda>p k. if p > 0 then sint p else k) (map pt ps) k"
  by (induction ps arbitrary: k) simp_all

lemma find_pt_map: "map pt ps = map pt ps' \<Longrightarrow> find_pt ps k = find_pt ps' k"
  by (simp add: find_pt_fold)

text \<open>No version is about to wrap its counter of completed requests.\<close>

definition no_wrap :: "rr_peer list \<Rightarrow> bool" where
  "no_wrap ps \<longleftrightarrow> completed_le (INT_MAX - 7) ps"

lemma active_le_outs:
  assumes "outs_ok h qs outs" and "i < length qs" and "version_ok h v (qs ! i)"
  shows "active_req v \<le> int (length outs)"
  using assms length_filter_le [of _ outs] by (auto simp: outs_ok_def version_ok_def of_version_def)

lemma complete_outcome:
  assumes inv: "sys_inv s (xs @ r # ys)" and nw: "no_wrap (peer (primary s))"
    and n: "length (xs @ r # ys) \<le> 2 ^ 53"
  shows "outcome ({BadConversion} \<union> (if find_pt (peer (primary s)) 0 = 0 then {BadFree} else {}))
      (\<lambda>s'. sys_inv s' (xs @ ys)
        \<and> (\<forall>k. completed_le k (peer (primary s)) \<longrightarrow> completed_le (k + 1) (peer (primary s')))
        \<and> (\<forall>i v. r_version r = Some (Primary, i) \<longrightarrow> version (peer (primary s') ! i) = Some v \<longrightarrow>
              \<not> needs_watch (req_count (old_reqs v)) (active_req v)))
      (ngx_http_log_request_time tp s r)"
proof -
  let ?F = "{BadConversion} \<union> (if find_pt (peer (primary s)) 0 = 0 then {BadFree} else {})"
  obtain qs where q: "queues_ok (heap s) (peer (primary s)) qs"
    and o: "outs_ok (heap s) qs (xs @ r # ys)"
    and bd: "\<forall>q \<in> set qs. \<forall>a \<in> set q. a < next_addr s" using inv by (auto simp: sys_inv_def)
  have "req_ok (heap s) qs r" using o by (simp add: outs_ok_def)
  then obtain i a nd where r: "r_version r = Some (Primary, i)" "i < length qs" "enter_time r = Some a"
    "a \<in> set (qs ! i)" "live (heap s) a" "heap s a = Some nd" "rt_sec nd = start_sec r"
    "rt_msec nd = start_msec r" "rt_no nd = no r" "rrp_peers (rrp r) = Primary"
    by (rule req_okE)
  have len: "length qs = length (peer (primary s))" using q by (simp add: queues_ok_def)
  have i: "i < length (peer (primary s))" using r(2) len by simp
  obtain v where v: "version (peer (primary s) ! i) = Some v" "version_ok (heap s) v (qs ! i)"
    "version_of (peer (primary s)) i = Ok v" using q i by (rule queues_okD)
  have ac: "active_req v \<le> 2 ^ 53" using active_le_outs [OF o r(2) v(2)] n by simp
  have wr: "completed_requests v + 1 < req_upper_bound v" using nw v(1,2) i by (auto simp: no_wrap_def completed_le_def version_ok_def)
  have fu: "length (qs ! i) \<le> Suc (next_addr s)" and di: "distinct (qs ! i)"
    using queue_len_bound [OF q bd] r(2) by (auto intro: le_SucI)
  note cv = complete_version_outcome [OF v(2) r(4-9) r(3) wr ac fu, of tp]
  let ?ps = "(fst (start_monitor tp (primary s)))\<lparr>ps_active_req := ps_active_req (primary s) - 1\<rparr>"
  have mon: "peer ?ps = peer (primary s)" "number ?ps = number (primary s)"
    "ps_active_req (fst (start_monitor tp (primary s))) = ps_active_req (primary s)"
    by (simp_all add: start_monitor_def)
  have fin: "sys_inv (s\<lparr>heap := h', primary := ps'\<rparr>) (xs @ ys)"
    if h': "version_ok h' v' as'" "preserves (finished (heap s) a nd) (qs ! i) h' as'"
      and ps': "peer ps' = (peer (primary s))[i := (peer (primary s) ! i)\<lparr>version := Some v'\<rparr>]"
        "ps_active_req ps' = ps_active_req (primary s) - 1" "number ps' = number (primary s)"
    for h' v' as' ps'
  proof -
    have "queues_ok h' (peer ps') (qs[i := as'])"
      unfolding ps'(1) using h' r(4)
      by (intro queues_ok_update [OF q i, where fresh = "{}" and v' = v'])
        (auto simp: preserves_def finished_def)
    moreover have "outs_ok h' (qs[i := as']) (xs @ ys)"
      using outs_ok_complete [OF o _ r(1,3,2,4,5) di h'(2)] q by (simp add: queues_ok_def)
    moreover have "set (qs[i := as']) \<subseteq> insert as' (set qs)" by (rule set_update_subset_insert)
    then have "\<forall>q \<in> set (qs[i := as']). \<forall>x \<in> set q. x < next_addr s"
      using bd h'(2) r(2) by (fastforce simp: preserves_def)
    moreover have "\<forall>x \<ge> next_addr s. h' x = None"
    proof (intro allI impI)
      fix x assume x: "next_addr s \<le> x"
      have "x \<notin> set (qs ! i)" using bd r(2) x by (metis leD nth_mem)
      then have "h' x = heap s x" using h'(2) r(4) by (auto simp: preserves_def finished_def)
      then show "h' x = None" using inv x by (simp add: sys_inv_def)
    qed
    ultimately show ?thesis using inv ps' by (auto simp: sys_inv_def)
  qed
  have vn: "\<forall>p \<in> set (peer (primary s)). version p \<noteq> None"
    using queues_okD [OF q] by (metis in_set_conv_nth option.distinct(1))
  define fini where "fini = (\<lambda>h' v'.
      (let s2 = s\<lparr>heap := h', primary :=
              ?ps\<lparr>peer := (peer (primary s))[i := (peer (primary s) ! i)\<lparr>version := Some v'\<rparr>]\<rparr>\<rparr>
       in if \<not> snd (start_monitor tp (primary s)) then Ok s2
          else bindR (custom_system_monitor_capacity tp (primary s2)) (\<lambda>(ps3, freeable).
               bindR (guardR BadFree freeable) (\<lambda>_. Ok (s2\<lparr>primary := ps3\<rparr>)))))"
  have eq: "ngx_http_log_request_time tp s r
      = bindR (complete_version (Suc (next_addr s)) tp r (heap s) v) (\<lambda>(h', v'). fini h' v')"
    using r(1,10) v(3) mon
    by (cases "start_monitor tp (primary s)")
      (auto simp: ngx_http_log_request_time_def group_of_def set_group_def fini_def Let_def intro!: bindR_cong)
  have "outcome ?F (\<lambda>s'. sys_inv s' (xs @ ys)
        \<and> (\<forall>k. completed_le k (peer (primary s)) \<longrightarrow> completed_le (k + 1) (peer (primary s')))
        \<and> (\<forall>j u. r_version r = Some (Primary, j) \<longrightarrow> version (peer (primary s') ! j) = Some u \<longrightarrow>
              \<not> needs_watch (req_count (old_reqs u)) (active_req u))) (fini h' v')"
    if h': "version_ok h' v' as'" "preserves (finished (heap s) a nd) (qs ! i) h' as'"
      "completed_requests v' = completed_requests v + 1"
      "\<not> needs_watch (req_count (old_reqs v')) (active_req v')" for h' v' as'
  proof -
    let ?P = "?ps\<lparr>peer := (peer (primary s))[i := (peer (primary s) ! i)\<lparr>version := Some v'\<rparr>]\<rparr>"
    have "find_pt (peer ?P) 0 = find_pt (peer (primary s)) 0"
      using i by (intro find_pt_map) (simp add: map_update, metis list_update_id nth_map)
    moreover have "\<forall>p \<in> set (peer ?P). version p \<noteq> None"
      using vn set_update_subset_insert [of "peer (primary s)" i] by fastforce
    moreover have "\<forall>k. completed_le k (peer (primary s)) \<longrightarrow> completed_le (k + 1) (peer ?P)"
      using h'(3) v(1) i by (fastforce simp: completed_le_def nth_list_update)
    ultimately show ?thesis
      using fin [OF h'(1,2)] mon h'(4) r(1) i
      by (auto simp: fini_def guardR_def custom_system_monitor_capacity_def Let_def)
  qed
  then show ?thesis unfolding eq by (intro outcome_bind [OF outcome_mono [OF cv]]) auto
qed

section \<open>Release\<close>

lemma free_Ok:
  assumes "ngx_http_upstream_free_round_robin_peer tp s r state = Ok (s', r')"
    and "rrp_peers (rrp r) = Primary" and "current (rrp r) = Some i"
  obtains p where "i < length (peer (primary s))" "version p = version (peer (primary s) ! i)"
    "s' = s\<lparr>primary := (primary s)\<lparr>peer := (peer (primary s))[i := p]\<rparr>\<rparr>"
    "\<exists>n. r' = r\<lparr>pc_tries := n\<rparr>"
proof -
  let ?p = "peer (primary s) ! i"
  let ?q = "if and state NGX_PEER_FAILED \<noteq> 0 then free_failed_peer (tp_sec tp) ?p else free_live_peer ?p"
  define p where "p = (if single (primary s) then ?p\<lparr>conns := conns ?p - 1\<rparr> else ?q\<lparr>conns := conns ?q - 1\<rparr>)"
  have i: "i < length (peer (primary s))"
    using assms by (simp add: ngx_http_upstream_free_round_robin_peer_def group_of_def Let_def split: if_splits)
  moreover have "version p = version ?p"
    by (simp add: p_def free_failed_peer_def free_live_peer_def Let_def)
  moreover have "s' = s\<lparr>primary := (primary s)\<lparr>peer := (peer (primary s))[i := p]\<rparr>\<rparr>"
    using assms i by (cases "single (primary s)")
      (simp_all add: ngx_http_upstream_free_round_robin_peer_def group_of_def set_group_def Let_def p_def)
  moreover have "\<exists>n. r' = r\<lparr>pc_tries := n\<rparr>"
    using assms i by (cases "single (primary s)")
      (auto simp: ngx_http_upstream_free_round_robin_peer_def group_of_def Let_def)
  ultimately show thesis by (rule that)
qed

lemma release_inv:
  assumes inv: "sys_inv s (xs @ r # ys)"
    and f: "ngx_http_upstream_free_round_robin_peer tp s r state = Ok (s', r')"
  shows "sys_inv s' (xs @ r' # ys)"
proof -
  obtain qs where q: "queues_ok (heap s) (peer (primary s)) qs"
    and o: "outs_ok (heap s) qs (xs @ r # ys)"
    and bd: "\<forall>q \<in> set qs. \<forall>a \<in> set q. a < next_addr s" using inv by (auto simp: sys_inv_def)
  obtain i where i: "rrp_peers (rrp r) = Primary" "current (rrp r) = Some i"
    using o by (auto simp: outs_ok_def elim: req_okE)
  obtain p n where p: "i < length (peer (primary s))" "version p = version (peer (primary s) ! i)"
    "s' = s\<lparr>primary := (primary s)\<lparr>peer := (peer (primary s))[i := p]\<rparr>\<rparr>" "r' = r\<lparr>pc_tries := n\<rparr>"
    using free_Ok [OF f i] by metis
  have "queues_ok (heap s) ((peer (primary s))[i := p]) qs"
    using p(1,2) by (intro queues_ok_static [OF q]) (auto simp: nth_list_update)
  moreover have "outs_ok (heap s) qs (xs @ r' # ys)"
    using o p(4) by (auto simp: outs_ok_def req_ok_def node_of_def)
  ultimately show ?thesis using inv bd p(3) by (auto simp: sys_inv_def)
qed

lemma release_returns:
  assumes inv: "sys_inv s (xs @ r # ys)"
  shows "\<exists>s' r'. ngx_http_upstream_free_round_robin_peer tp s r state = Ok (s', r')"
proof -
  obtain qs where q: "queues_ok (heap s) (peer (primary s)) qs"
    and o: "outs_ok (heap s) qs (xs @ r # ys)" using inv by (auto simp: sys_inv_def)
  obtain i where "i < length qs" "rrp_peers (rrp r) = Primary" "current (rrp r) = Some i"
    using o by (auto simp: outs_ok_def elim: req_okE)
  then show ?thesis using q
    by (auto simp: ngx_http_upstream_free_round_robin_peer_def group_of_def Let_def queues_ok_def)
qed

lemma complete_length:
  assumes "ngx_http_log_request_time tp s r = Ok s'" and "r_version r = Some (Primary, i)"
    and "rrp_peers (rrp r) = Primary"
  shows "i < length (peer (primary s)) \<and> length (peer (primary s')) = length (peer (primary s))"
  using assms
  by (auto simp: ngx_http_log_request_time_def group_of_def set_group_def start_monitor_def version_of_def
      custom_system_monitor_capacity_def Let_def split: if_splits prod.splits)

section \<open>Reachable states\<close>

text \<open>
  The states of an upstream after arrivals, releases, retries and completions of requests in any
  order.  \<open>outs\<close> are the requests under way, each with the data of its last try.  A retry
  (\<^verbatim>\<open>ngx_http_upstream_next\<close> calls \<^verbatim>\<open>ngx_http_upstream_connect\<close>, which asks for a peer again with the
  same \<^verbatim>\<open>rrp\<close>) enters the request a second time and forgets its earlier node: \<open>lost\<close> has the data of
  the tries that were given up this way.  The number counts arrivals, retries and completions.
\<close>

inductive reach :: "lb \<Rightarrow> nat \<Rightarrow> lb \<Rightarrow> http_request list \<Rightarrow> http_request list \<Rightarrow> bool" for s0 :: lb where
  reach_start: "reach s0 0 s0 [] []"
| reach_arrive: "reach s0 k s outs lost \<Longrightarrow>
    ngx_http_upstream_init_round_robin_peer pal s r0 = (NGX_OK, r) \<Longrightarrow> 0 \<le> start_sec r0 \<Longrightarrow>
    ngx_http_upstream_get_round_robin_peer True tp s r = Ok (NGX_OK, s', r') \<Longrightarrow>
    reach s0 (Suc k) s' (r' # outs) lost"
| reach_release: "reach s0 k s (xs @ r # ys) lost \<Longrightarrow>
    ngx_http_upstream_free_round_robin_peer tp s r state = Ok (s', r') \<Longrightarrow>
    reach s0 k s' (xs @ r' # ys) lost"
| reach_retry: "reach s0 k s (xs @ r # ys) lost \<Longrightarrow>
    ngx_http_upstream_get_round_robin_peer True tp s r = Ok (NGX_OK, s', r') \<Longrightarrow>
    reach s0 (Suc k) s' (xs @ r' # ys) (r # lost)"
| reach_complete: "reach s0 k s (xs @ r # ys) lost \<Longrightarrow> ngx_http_log_request_time tp s r = Ok s' \<Longrightarrow>
    reach s0 (Suc k) s' (xs @ ys) lost"

lemma unat_of_nat64: "k < 2 ^ 32 \<Longrightarrow> unat (of_nat k :: ngx_uint_t) = k"
  by (simp add: unat_of_nat)

lemma tried_words_enough:
  assumes "of_nat k \<le> m" and "k < 2 ^ 32" and "m < 2 ^ 32"
  shows "k \<le> 64 * tried_words m"
proof (cases "m \<le> 64")
  case True
  have "unat (of_nat k :: 64 word) = k" using assms(2) by (rule unat_of_nat64)
  then have "k \<le> 64" using True assms(1) word_le_nat_alt [of "of_nat k" "64 :: 64 word"] by auto
  then show ?thesis using True by (simp add: tried_words_def)
next
  case False
  have "unat (of_nat k :: 64 word) = k" using assms(2) by (rule unat_of_nat64)
  then have km: "k \<le> unat m" using assms(1) by (simp add: word_le_nat_alt)
  have "unat m < 2 ^ 32" using assms(3) by (simp add: word_less_nat_alt)
  then have "unat (m + 63) = unat m + 63" by (subst unat_add_lem [THEN iffD1]) simp_all
  then have "unat ((m + 63) div 64) = (unat m + 63) div 64" by (simp add: unat_div)
  then show ?thesis using False km by (simp add: tried_words_def)
qed

lemma init_peer_req_start:
  assumes inv: "sys_inv s outs"
    and r: "ngx_http_upstream_init_round_robin_peer pal s r0 = (NGX_OK, r)" and t: "0 \<le> start_sec r0"
  shows "req_start s r"
proof -
  let ?n = "number (primary s)" and ?k = "length (peer (primary s))"
  have n: "?n = of_nat ?k" "?k < 2 ^ 32" and b: "\<forall>b. backup s = Some b \<longrightarrow> number b < 2 ^ 32"
    using inv by (auto simp: sys_inv_def)
  have n32: "?n < 2 ^ 32" using n by (simp add: word_less_nat_alt unat_of_nat64)
  let ?m = "case backup s of Some b \<Rightarrow> if number b > ?n then number b else ?n | None \<Rightarrow> ?n"
  have "?n \<le> ?m" "?m < 2 ^ 32" using b n32 by (auto split: option.split)
  then have "?k \<le> 64 * tried_words ?m" using n by (intro tried_words_enough) auto
  then show ?thesis using r t
    by (auto simp: ngx_http_upstream_init_round_robin_peer_def req_start_def Let_def ngx_rc_defs split: if_splits)
qed

lemma completed_le_mono: "completed_le k ps \<Longrightarrow> k \<le> k' \<Longrightarrow> completed_le k' ps"
  by (fastforce simp: completed_le_def)

lemma release_completed:
  assumes inv: "sys_inv s (xs @ r # ys)" and c: "completed_le k (peer (primary s))"
    and f: "ngx_http_upstream_free_round_robin_peer tp s r state = Ok (s', r')"
  shows "completed_le k (peer (primary s'))"
proof -
  obtain i where i: "rrp_peers (rrp r) = Primary" "current (rrp r) = Some i"
    using inv by (auto simp: sys_inv_def outs_ok_def elim: req_okE)
  obtain p where p: "i < length (peer (primary s))" "version p = version (peer (primary s) ! i)"
    "s' = s\<lparr>primary := (primary s)\<lparr>peer := (peer (primary s))[i := p]\<rparr>\<rparr>"
    using free_Ok [OF f i] by metis
  then show ?thesis using c by (simp add: completed_le_def nth_list_update)
qed

text \<open>A request under way may be tried again: its data still fit the group.\<close>

definition run_inv :: "nat \<Rightarrow> lb \<Rightarrow> http_request list \<Rightarrow> http_request list \<Rightarrow> bool" where
  "run_inv k s outs lost \<longleftrightarrow>
    sys_inv s (outs @ lost) \<and> completed_le (int k) (peer (primary s)) \<and> length (outs @ lost) \<le> k
    \<and> (\<forall>r \<in> set outs. req_start s r)"

lemma req_start_keep:
  "length (peer (primary s')) = length (peer (primary s)) \<Longrightarrow> req_start s' r = req_start s r"
  by (simp add: req_start_def)

lemma run_arrive:
  assumes inv: "run_inv k s outs lost" and rs: "req_start s r"
    and g: "ngx_http_upstream_get_round_robin_peer True tp s r = Ok (NGX_OK, s', r')"
  shows "run_inv (Suc k) s' (r' # outs) lost"
proof -
  have si: "sys_inv s (outs @ lost)" and c: "completed_le (int k) (peer (primary s))"
    using inv by (simp_all add: run_inv_def)
  have "completed_le (int (Suc k)) (peer (primary s'))"
    using arrive_completed [OF si rs g c] completed_le_mono by fastforce
  then show ?thesis
    using inv arrive_inv [OF si rs g] arrive_keeps [OF si rs g] req_start_keep [of s' s]
    by (simp add: run_inv_def)
qed

lemma run_retry:
  assumes inv: "run_inv k s (xs @ r # ys) lost"
    and g: "ngx_http_upstream_get_round_robin_peer True tp s r = Ok (NGX_OK, s', r')"
  shows "run_inv (Suc k) s' (xs @ r' # ys) (r # lost)"
proof -
  have "req_start s r" using inv by (simp add: run_inv_def)
  from run_arrive [OF inv this g]
  have *: "run_inv (Suc k) s' (r' # xs @ r # ys) lost" .
  have "sys_inv s' ((xs @ r' # ys) @ r # lost)"
    by (rule sys_inv_mset [of "(r' # xs @ r # ys) @ lost"]) (use * in \<open>simp_all add: run_inv_def\<close>)
  with * show ?thesis by (simp add: run_inv_def)
qed

lemma run_release:
  assumes inv: "run_inv k s (xs @ r # ys) lost"
    and f: "ngx_http_upstream_free_round_robin_peer tp s r state = Ok (s', r')"
  shows "run_inv k s' (xs @ r' # ys) lost"
proof -
  have si: "sys_inv s (xs @ r # ys @ lost)" and c: "completed_le (int k) (peer (primary s))"
    using inv by (simp_all add: run_inv_def)
  obtain i where i: "rrp_peers (rrp r) = Primary" "current (rrp r) = Some i"
    using si by (auto simp: sys_inv_def outs_ok_def elim: req_okE)
  obtain p n where s': "s' = s\<lparr>primary := (primary s)\<lparr>peer := (peer (primary s))[i := p]\<rparr>\<rparr>"
    and r': "r' = r\<lparr>pc_tries := n\<rparr>"
    using free_Ok [OF f i] by metis
  have "\<forall>x \<in> set (xs @ r' # ys). req_start s' x"
    using inv by (auto simp: run_inv_def s' r' req_start_def)
  then show ?thesis
    using release_inv [OF si f] release_completed [OF si c f] inv by (simp add: run_inv_def)
qed

lemma run_complete:
  assumes inv: "run_inv k s (xs @ r # ys) lost" and k: "int k + 1 \<le> INT_MAX - 7"
    and l: "ngx_http_log_request_time tp s r = Ok s'"
  shows "run_inv (Suc k) s' (xs @ ys) lost"
proof -
  have si: "sys_inv s (xs @ r # ys @ lost)" and c: "completed_le (int k) (peer (primary s))"
    and n: "length (xs @ r # ys @ lost) \<le> k"
    using inv by (simp_all add: run_inv_def)
  have nw: "no_wrap (peer (primary s))"
    unfolding no_wrap_def using k by (intro completed_le_mono [OF c]) simp
  have n': "length (xs @ r # ys @ lost) \<le> 2 ^ 53" using n k by (simp add: INT_MAX_def)
  from outcome_Ok [OF complete_outcome [OF si nw n'] l]
  have "sys_inv s' (xs @ ys @ lost)" "completed_le (int k + 1) (peer (primary s'))" using c by blast+
  moreover obtain i where "r_version r = Some (Primary, i)" "rrp_peers (rrp r) = Primary"
    using si by (auto simp: sys_inv_def outs_ok_def elim: req_okE)
  then have "length (peer (primary s')) = length (peer (primary s))" using complete_length [OF l] by simp
  ultimately show ?thesis
    using inv n req_start_keep [of s' s] by (auto simp: run_inv_def add.commute)
qed

lemma reach_inv:
  assumes "reach s0 k s outs lost" and "sys_inv s0 []" and "completed_le 0 (peer (primary s0))"
    and "int k \<le> INT_MAX - 7"
  shows "run_inv k s outs lost"
  using assms
proof (induction rule: reach.induct)
  case (reach_arrive k s outs lost pal r0 r tp s' r')
  then have inv: "run_inv k s outs lost" by simp
  then have "req_start s r"
    using init_peer_req_start [of s "outs @ lost", OF _ reach_arrive.hyps(2,3)] by (simp add: run_inv_def)
  then show ?case using run_arrive [OF inv] reach_arrive.hyps(4) by blast
next
  case (reach_release k s xs r ys lost tp state s' r')
  then show ?case using run_release by simp
next
  case (reach_retry k s xs r ys lost tp s' r')
  then show ?case using run_retry by simp
next
  case (reach_complete k s xs r ys lost tp s')
  then show ?case using run_complete by simp
qed (simp add: run_inv_def)

end
