(* ===== verification/LB_Init.thy ===== *)
theory LB_Init
  imports LB_Reach
begin

text \<open>
  What \<^verbatim>\<open>ngx_http_upstream_init_round_robin\<close> builds: the counters of the groups, the versions of the
  peers, and the invariant of the start state.
\<close>

section \<open>Counting servers\<close>

lemma server_addrs_simps [simp]:
  "server_addrs b [] = []"
  "server_addrs b (s # ss) =
    (if us_backup s = b then map (Pair s) (us_addrs s) @ server_addrs b ss else server_addrs b ss)"
  by (simp_all add: server_addrs_def)

lemma count_servers_spec:
  "count_servers b ss (n, w, t, p) =
    (n + of_nat (length (server_addrs b ss)),
     w + (\<Sum>(s, a) \<leftarrow> server_addrs b ss. us_weight s),
     t + of_nat (length (filter (\<lambda>(s, a). \<not> us_down s) (server_addrs b ss))),
     fold (\<lambda>s p. if us_backup s = b \<and> us_pt s > 0 then us_pt s else p) ss p)"
proof (induction ss arbitrary: n w t p)
  case (Cons s ss)
  have "(\<Sum>(s, a) \<leftarrow> map (Pair s) xs. us_weight s) = of_nat (length xs) * us_weight s" for xs :: "ngx_addr list"
    by (induction xs) (auto simp: algebra_simps)
  moreover have "length (filter (\<lambda>(s, a). \<not> us_down s) (map (Pair s) xs)) = (if us_down s then 0 else length xs)"
    for xs :: "ngx_addr list"
    by (induction xs) auto
  ultimately show ?case
    using Cons.IH by (auto simp: Let_def algebra_simps)
qed simp

lemma count_servers_number:
  "count_servers b ss (0, 0, 0, 0) = (n, w, t, p) \<Longrightarrow> n = of_nat (length (server_addrs b ss))"
  by (simp add: count_servers_spec)

section \<open>The peers\<close>

definition fresh_version :: "custom_versioned_server \<Rightarrow> int \<Rightarrow> bool" where
  "fresh_version v i \<longleftrightarrow> (\<exists>a b. v = (custom_server_init i)\<lparr>ip := a, port := b\<rparr>)"

lemma init_primary_peer_Ok:
  assumes "init_primary_peer mem_ok perf s a = Ok p"
  shows "length (a_name a) < 60" "pt p = perf" "conns p = 0" "fails p = 0" "down p = us_down s"
    "heavy p = (us_weight s = 2)" "light p = (us_weight s \<noteq> 2)" "sockaddr p = a_sockaddr a"
    "weight p = sint (us_weight s)" "effective_weight p = weight p"
    "\<exists>v. version p = Some v \<and> fresh_version v (if us_weight s = 2 then 4 else 2)"
proof -
  have f: "fresh_version (custom_server_init k) k" "fresh_version (custom_server_init k\<lparr>ip := x\<rparr>) k"
    "fresh_version (custom_server_init k\<lparr>ip := x, port := y\<rparr>) k" for k x y
    unfolding fresh_version_def by (auto simp: custom_server_init_def)
  show "length (a_name a) < 60" "pt p = perf" "conns p = 0" "fails p = 0" "down p = us_down s"
    "heavy p = (us_weight s = 2)" "light p = (us_weight s \<noteq> 2)" "sockaddr p = a_sockaddr a"
    "weight p = sint (us_weight s)" "effective_weight p = weight p"
    using assms by (auto simp: init_primary_peer_def Let_def)
  show "\<exists>v. version p = Some v \<and> fresh_version v (if us_weight s = 2 then 4 else 2)"
    using assms f by (auto simp: init_primary_peer_def Let_def split: option.splits)
qed

lemma fresh_version_ok: "fresh_version v i \<Longrightarrow> version_ok h v []"
  by (auto simp: fresh_version_def version_ok_def custom_server_init_def qinv_def watch_ok_def INT_MAX_def)

section \<open>The start state\<close>

lemma init_servers_Ok:
  assumes ss: "servers us = Some ss"
    and i: "ngx_http_upstream_init_round_robin pal mal resolve us = Ok (NGX_OK, Some (g, b))"
  obtains n w t p ps where
    "count_servers False ss (0, 0, 0, 0) = (n, w, t, p)" "n \<noteq> 0"
    "mapR (\<lambda>(i, s, a). init_primary_peer (mal i) p s a) (List.enumerate 0 (server_addrs False ss)) = Ok ps"
    "init_backup pal ss (host us)
       ((new_peers (host us) n w t ps)\<lparr>log_time_sec := - 1, log_time_msec := - 1\<rparr>) = (NGX_OK, Some (g, b))"
  using assms
  by (auto simp: ngx_http_upstream_init_round_robin_def ngx_rc_defs split: prod.splits if_splits intro: that)

lemma init_backup_Ok:
  assumes "init_backup pal ss h g0 = (NGX_OK, Some (g, b))"
  shows "peer g = peer g0" "number g = number g0" "ps_active_req g = ps_active_req g0"
    "\<And>x. b = Some x \<Longrightarrow> number x = of_nat (length (server_addrs True ss))"
  using assms
  by (auto simp: init_backup_def ngx_rc_defs new_peers_def count_servers_spec Let_def split: if_splits)

lemma init_sys_inv:
  assumes ss: "servers us = Some ss"
    and i: "ngx_http_upstream_init_round_robin pal mal resolve us = Ok (NGX_OK, Some (g, b))"
    and len: "length (server_addrs False ss) < 2 ^ 32" "length (server_addrs True ss) < 2 ^ 32"
  shows "sys_inv (start_lb (g, b)) [] \<and> completed_le 0 (peer g)"
proof -
  obtain n w t p ps where c: "count_servers False ss (0, 0, 0, 0) = (n, w, t, p)"
    and ps: "mapR (\<lambda>(i, s, a). init_primary_peer (mal i) p s a)
      (List.enumerate 0 (server_addrs False ss)) = Ok ps"
    and ib: "init_backup pal ss (host us)
       ((new_peers (host us) n w t ps)\<lparr>log_time_sec := - 1, log_time_msec := - 1\<rparr>) = (NGX_OK, Some (g, b))"
    using ss i by (rule init_servers_Ok)
  have pg: "peer g = ps" "number g = n" "ps_active_req g = 0"
    using init_backup_Ok [OF ib] by (simp_all add: new_peers_def)
  have lp: "length ps = length (server_addrs False ss)" using mapR_length [OF ps] by simp
  have fv: "\<exists>v k. version (ps ! j) = Some v \<and> fresh_version v k" if "j < length ps" for j
    using mapR_nth [OF ps, of j] that lp by (force simp: case_prod_beta dest!: init_primary_peer_Ok(11))
  have "queues_ok Map.empty ps (replicate (length ps) [])"
    using fv fresh_version_ok by (fastforce simp: queues_ok_def)
  moreover have "outs_ok Map.empty (replicate (length ps) []) []" by (simp add: outs_ok_def)
  moreover have "\<forall>x. b = Some x \<longrightarrow> number x < 2 ^ 32"
    using init_backup_Ok(4) [OF ib] len(2) by (simp add: word_less_nat_alt unat_of_nat64)
  moreover have "completed_le 0 ps"
    using fv by (fastforce simp: completed_le_def fresh_version_def custom_server_init_def)
  ultimately show ?thesis
    using pg lp len(1) count_servers_number [OF c] by (force simp: sys_inv_def start_lb_def)
qed

end
