(* ===== verification/LB_Live.thy ===== *)
theory LB_Live
  imports LB_Init
begin

text \<open>
  The parts of an arrival: the choice between the versions, the entry of the request and its record.
  They end without touching an invalid node; the only faults left are a null pointer, when no peer can
  be chosen, and the conversion of a \<^verbatim>\<open>float\<close> that is not an integer of 64 bits.
\<close>

lemma choose_best_outcome:
  assumes "sel_inv h ps qs st" and "chosen_ok tp ts ps st" and "picked st"
  shows "outcome {BadConversion} (\<lambda>b. \<exists>i. b = Some i \<and> i < length ps) (choose_best perf st)"
proof -
  have h: "i < length ps \<and> (\<exists>v. version_of (s_peers st) i = Ok v)" if "s_heavy st = Some i" for i
    using assms that sel_inv_version [OF assms(1), of i] by (auto simp: chosen_ok_def eligible_def)
  have l: "i < length ps" if "s_light st = Some i" for i
    using assms that by (auto simp: chosen_ok_def eligible_def)
  show ?thesis
    using assms(3) h l
    by (auto simp: choose_best_def picked_def intro!: outcome_bind [OF avg_oldest_outcome] split: option.split)
qed

lemma enter_version_outcome: "outcome {BadConversion} (\<lambda>_. True) (enter_version tp ld v)"
  by (auto simp: enter_version_def Let_def intro!: outcome_bind [OF f_to_int_outcome])

text \<open>The rest of the function once a peer is chosen.\<close>

lemma select_tail_outcome:
  assumes inv: "sel_inv h ps qs st" and F: "BadConversion \<in> F" and Y: "\<And>b v'. P (Y b v')"
    and m: "outcome F (\<lambda>b. \<forall>i. b = Some i \<longrightarrow> i < length ps) m"
    and n: "NullDeref \<in> F \<or> outcome F (\<lambda>b. b \<noteq> None) m"
  shows "outcome F P (bindR m (\<lambda>best. bindR (derefR NullDeref best) (\<lambda>b.
      bindR (version_of (s_peers st) b) (\<lambda>v. bindR (enter_version tp (X best) v) (\<lambda>v'. Ok (Y b v'))))))"
proof (cases m)
  case (Ok best)
  show ?thesis
  proof (cases best)
    case None
    then show ?thesis using Ok n by auto
  next
    case (Some i)
    then obtain v where "version_of (s_peers st) i = Ok v"
      using m Ok sel_inv_version [OF inv, of i] by auto
    then show ?thesis
      using Ok Some F Y by (auto intro!: outcome_bind [OF outcome_mono [OF enter_version_outcome]])
  qed
qed (use m in simp)

lemma buffer_returns:
  assumes q: "queues_ok (heap s) (peer (primary s)) qs" and b: "\<forall>q \<in> set qs. \<forall>a \<in> set q. a < next_addr s"
    and hn: "heap s (next_addr s) = None" and rs: "req_start s r"
    and g: "ngx_http_upstream_get_peer tp s (rrp r) = Ok (s1, rd, Some i)"
  shows "\<exists>x. get_peer_in_group True tp s r = Ok (Some x)"
proof -
  have rp: "rrp_peers (rrp r) = Primary" "length (peer (primary s)) \<le> 64 * length (tried (rrp r))"
    "start_sec r \<noteq> - 1" using rs by (auto simp: req_start_def)
  obtain h1 ps1 qs1 v v' where q1: "queues_ok h1 ps1 qs1" and rf: "refreshed (heap s) qs h1 qs1"
    and i: "i < length ps1" and v: "version (ps1 ! i) = Some v"
    and v': "req_times v' = req_times v" "req_tail v' = req_tail v" "old_reqs v' = old_reqs v"
      "active_req v' = active_req v + 1" "completed_requests v' = completed_requests v"
      "req_upper_bound v' = req_upper_bound v"
    and s1: "s1 = s\<lparr>heap := h1, primary := (enter_peers (primary s))
            \<lparr>peer := ps1[i := (ps1 ! i)\<lparr>version := Some v', checked := tp_sec tp\<rparr>]\<rparr>\<rparr>"
    and rd: "rd = (rrp r)\<lparr>current := Some i\<rparr>"
    using q b rp(1,2) g by (rule get_peer_inv)
  have "\<forall>j < length qs. next_addr s \<notin> set (qs ! j)" using b by (metis less_irrefl nth_mem)
  then have ha: "h1 (next_addr s) = None" using rf hn by (simp add: refreshed_def)
  have vo: "version_ok h1 v (qs1 ! i)" using queues_okD [OF q1 i] v by auto
  have "\<exists>h' v2. push_req_time x h1 (next_addr s) y = Ok (h', v2)"
    if "start_sec x = start_sec r" "no x = completed_requests v' + active_req v'"
      "req_times y = req_times v'" "req_tail y = req_tail v'" "old_reqs y = old_reqs v'"
      "active_req y = active_req v'" "completed_requests y = completed_requests v'"
      "req_upper_bound y = req_upper_bound v'" for x y
    using arrive_version_ok [OF vo ha, of x y] that v' rp(3) by auto
  then show ?thesis
    using g i rp(1) rd s1
    by (force simp: get_peer_in_group_def group_of_def set_group_def Let_def version_of_def
        ngx_http_upstream_buffer_request_data_def)
qed

section \<open>Memory safety for any configuration\<close>

text \<open>
  With more peers the comparison of loads may divide by a zero count or read a missing heavy peer,
  but no freed node is read and every loop ends.
\<close>

lemma get_peer_outcome_any:
  assumes q: "queues_ok (heap s) (peer (primary s)) qs" and b: "\<forall>q \<in> set qs. \<forall>a \<in> set q. a < next_addr s"
    and pr: "rrp_peers rd = Primary" and ts: "length (peer (primary s)) \<le> 64 * length (tried rd)"
  shows "outcome {NullDeref, BadConversion} (\<lambda>_. True) (ngx_http_upstream_get_peer tp s rd)"
proof -
  let ?ps = "peer (primary s)" and ?st = "sel_start s (primary s)" and ?F = "{NullDeref, BadConversion}"
  have pre: "sel_pre (Suc (next_addr s)) (tried rd) ?ps qs"
    using queue_len_bound [OF q b] q ts by (auto simp: sel_pre_def queues_ok_def intro: le_SucI)
  have sl: "outcome ?F (sel_inv (heap s) ?ps qs)
      (select_loop (Suc (next_addr s)) tp (find_pt ?ps 0) (tried rd) [0..<length ?ps] ?st)"
    by (rule select_loop_outcome [OF pre sel_inv_start [OF q] sel_start_chosen]) simp
  have "outcome ?F (\<lambda>b. \<forall>i. b = Some i \<longrightarrow> i < length ?ps) (choose_best (find_pt ?ps 0) st)"
    if st: "sel_inv (heap s) ?ps qs st" "chosen_ok tp (tried rd) ?ps st" for st
  proof (cases "picked st")
    case True
    then show ?thesis by (intro outcome_mono [OF choose_best_outcome [OF st]]) auto
  next
    case False
    then show ?thesis by (simp add: choose_best_def picked_def)
  qed
  moreover have "chosen_ok tp (tried rd) ?ps st"
    if "select_loop (Suc (next_addr s)) tp (find_pt ?ps 0) (tried rd) [0..<length ?ps] ?st = Ok st" for st
    using select_loop_chosen [OF sel_start_chosen _ that] by simp
  ultimately show ?thesis
    using pr unfolding ngx_http_upstream_get_peer_def Let_def
    by (auto simp: group_of_def sel_start_def [symmetric] intro!: outcome_bind [OF sl] select_tail_outcome)
qed

end
