(* ===== verification/LB_Account.thy ===== *)
theory LB_Account
  imports LB_Live
begin

text \<open>
  The counters of the balancer in terms of the requests under way: \<^verbatim>\<open>active_req\<close> counts them, and the
  set of watched old requests has exactly the oldest of them, with \<^verbatim>\<open>time_sum\<close> the sum of their ages.
\<close>

definition req_age :: "int \<Rightarrow> int \<Rightarrow> http_request \<Rightarrow> int" where
  "req_age s ms r = 1000 * (s - start_sec r) + (ms - start_msec r)"

text \<open>The watched requests of a version: those numbered up to \<^verbatim>\<open>recent_req_num\<close>.\<close>

definition watched_reqs :: "old_requests \<Rightarrow> http_request list \<Rightarrow> http_request list" where
  "watched_reqs od rs = (if recent_req od = None then [] else filter (\<lambda>r. no r \<le> recent_req_num od) rs)"

definition req_node :: "http_request \<Rightarrow> addr" where
  "req_node r = the (enter_time r)"

lemma version_nodes:
  assumes o: "outs_ok h qs outs" and i: "i < length qs" and d: "distinct (qs ! i)"
  shows "mset (filter (live h) (qs ! i)) = mset (map req_node (of_version i outs))"
proof -
  let ?rs = "of_version i outs"
  have rq: "req_node r \<in> set (filter (live h) (qs ! i)) \<and> enter_time r = Some (req_node r)"
    if "r \<in> set ?rs" for r
  proof -
    have "req_ok h qs r" "r_version r = Some (Primary, i)" using o that by (auto simp: outs_ok_def of_version_def)
    then show ?thesis by (auto simp: req_node_def elim!: req_okE)
  qed
  have "distinct (map enter_time ?rs)" using o by (simp add: outs_ok_def of_version_def distinct_map_filter)
  moreover have "map enter_time ?rs = map Some (map req_node ?rs)" using rq by simp
  ultimately have dr: "distinct (map req_node ?rs)" by (metis distinct_map)
  have "set (map req_node ?rs) \<subseteq> set (filter (live h) (qs ! i))" using rq by auto
  moreover have "card (set (map req_node ?rs)) = card (set (filter (live h) (qs ! i)))"
    using o i d dr by (simp only: distinct_card distinct_filter) (simp add: outs_ok_def)
  ultimately have "set (map req_node ?rs) = set (filter (live h) (qs ! i))"
    by (intro card_subset_eq) auto
  then show ?thesis using dr d by (metis distinct_filter set_eq_iff_mset_eq_distinct)
qed

lemma filter_watched:
  assumes "sorted_wrt (\<lambda>x y. nno h x < nno h y) (pre @ c # post)"
  shows "filter (\<lambda>a. nno h a \<le> nno h c) (pre @ c # post) = pre @ [c]"
proof -
  have "filter (\<lambda>a. nno h a \<le> nno h c) pre = pre"
    using assms by (intro filter_True) (auto simp: sorted_wrt_append)
  moreover have "filter (\<lambda>a. nno h a \<le> nno h c) post = []"
    using assms by (intro filter_False) (auto simp: sorted_wrt_append)
  ultimately show ?thesis by simp
qed

lemma sum_list_filter_mset:
  fixes f :: "'a \<Rightarrow> int"
  assumes "mset xs = mset (map g rs)" and "\<And>r. r \<in> set rs \<Longrightarrow> P (g r) = Q r \<and> f (g r) = e r"
  shows "sum_list (map f (filter P xs)) = sum_list (map e (filter Q rs))"
    and "length (filter P xs) = length (filter Q rs)"
proof -
  have "mset (filter P xs) = mset (filter P (map g rs))" using assms(1) by simp
  also have "filter P (map g rs) = map g (filter Q rs)"
    using assms(2) by (induction rs) auto
  finally have m: "mset (filter P xs) = mset (map g (filter Q rs))" .
  then show "length (filter P xs) = length (filter Q rs)" by (metis length_map size_mset)
  from m have "sum_mset (image_mset f (mset (filter P xs))) = sum_mset (image_mset f (mset (map g (filter Q rs))))"
    by (rule arg_cong)
  then have "sum_list (map f (filter P xs)) = sum_list (map f (map g (filter Q rs)))"
    by (simp only: mset_map [symmetric] sum_mset_sum_list)
  also have "map f (map g (filter Q rs)) = map e (filter Q rs)" using assms(2) by simp
  finally show "sum_list (map f (filter P xs)) = sum_list (map e (filter Q rs))" .
qed

lemma watched_account:
  assumes o: "outs_ok h qs outs" and i: "i < length qs" and v: "version_ok h v (qs ! i)"
  shows "req_count (old_reqs v) = int (length (watched_reqs (old_reqs v) (of_version i outs)))"
    and "time_sum (old_reqs v) = (\<Sum>r \<leftarrow> watched_reqs (old_reqs v) (of_version i outs).
           req_age (updated_sec (old_reqs v)) (updated_msec (old_reqs v)) r)"
proof -
  let ?od = "old_reqs v" and ?rs = "of_version i outs" and ?q = "qs ! i"
  have q: "qinv h (req_times v) (req_tail v) ?q ?od" using v by (simp add: version_ok_def)
  note mn = version_nodes [OF o i qinv_distinct [OF q]]
  have nd: "nno h (req_node r) = no r \<and> node_age s ms h (req_node r) = req_age s ms r"
    if "r \<in> set ?rs" for r s ms
  proof -
    have "req_ok h qs r" using o that by (auto simp: outs_ok_def of_version_def)
    then show ?thesis by (auto simp: req_node_def nno_def node_age_def req_age_def elim!: req_okE)
  qed
  have "req_count ?od = int (length (watched_reqs ?od ?rs))
      \<and> time_sum ?od = (\<Sum>r \<leftarrow> watched_reqs ?od ?rs. req_age (updated_sec ?od) (updated_msec ?od) r)"
  proof (cases "recent_req ?od")
    case None
    then show ?thesis using q by (simp add: qinv_def watch_ok_None watched_reqs_def)
  next
    case (Some c)
    then obtain pre post where as: "?q = pre @ c # post" and w: "watched h (pre @ [c]) ?od"
      using q by (auto simp: qinv_def elim: watch_ok_SomeE)
    let ?P = "\<lambda>a. nno h a \<le> recent_req_num ?od"
    have k: "recent_req_num ?od = nno h c" using w by (simp add: watched_def)
    have "filter ?P ?q = pre @ [c]"
      unfolding k as using q as by (intro filter_watched) (simp add: qinv_def)
    then have fl: "filter ?P (filter (live h) ?q) = filter (live h) (pre @ [c])"
      by (metis (no_types, lifting) filter_filter conj_commute filter_cong)
    have "length (filter ?P (filter (live h) ?q)) = length (watched_reqs ?od ?rs)"
      using sum_list_filter_mset(2) [OF mn, of ?P "\<lambda>r. no r \<le> recent_req_num ?od" "\<lambda>_. 0" "\<lambda>_. 0"] nd Some
      by (simp add: watched_reqs_def)
    moreover have "sum_list (map (node_age (updated_sec ?od) (updated_msec ?od) h) (filter ?P (filter (live h) ?q)))
        = (\<Sum>r \<leftarrow> watched_reqs ?od ?rs. req_age (updated_sec ?od) (updated_msec ?od) r)"
      using Some nd unfolding watched_reqs_def by (simp only: option.distinct if_False not_None_eq refl)
        (rule sum_list_filter_mset(1) [OF mn], simp)
    moreover have "req_count ?od = int (length (filter (live h) (pre @ [c])))"
      "time_sum ?od = sum_list (map (node_age (updated_sec ?od) (updated_msec ?od) h) (filter (live h) (pre @ [c])))"
      using w unfolding watched_def ages_def by blast+
    ultimately show ?thesis unfolding fl by argo
  qed
  then show "req_count ?od = int (length (watched_reqs ?od ?rs))"
    "time_sum ?od = (\<Sum>r \<leftarrow> watched_reqs ?od ?rs. req_age (updated_sec ?od) (updated_msec ?od) r)"
    by auto
qed

section \<open>The mean and the oldest\<close>

text \<open>The counters of a version after the loop of an arrival has refreshed it.\<close>

lemma refresh_account:
  assumes inv: "sys_inv s outs" and i: "i < length (peer (primary s))"
    and v: "version (peer (primary s) ! i) = Some v"
    and r: "refresh_version (Suc (next_addr s)) tp perf (heap s) v = Ok (h', v')"
  shows "req_count (old_reqs v') = int (length (watched_reqs (old_reqs v') (of_version i outs)))"
    and "time_sum (old_reqs v') = (\<Sum>r \<leftarrow> watched_reqs (old_reqs v') (of_version i outs).
           req_age (updated_sec (old_reqs v')) (updated_msec (old_reqs v')) r)"
proof -
  obtain qs where q: "queues_ok (heap s) (peer (primary s)) qs" and o: "outs_ok (heap s) qs outs"
    and bd: "\<forall>q \<in> set qs. \<forall>a \<in> set q. a < next_addr s"
    using inv by (auto simp: sys_inv_def)
  have il: "i < length qs" using i q by (simp add: queues_ok_def)
  have vo: "version_ok (heap s) v (qs ! i)" using queues_okD [OF q i] v by auto
  have "length (qs ! i) \<le> Suc (next_addr s)" using queue_len_bound [OF q bd] il by (auto intro: le_SucI)
  from refresh_version_ok [OF vo this, of tp perf] r obtain as'
    where as': "version_ok h' v' as'" "preserves (heap s) (qs ! i) h' as'" by auto
  have "\<forall>j < length qs. j \<noteq> i \<longrightarrow> set (qs ! i) \<inter> set (qs ! j) = {}" using q il by (auto simp: queues_ok_def)
  then have "outs_ok h' (qs[i := as']) outs" using outs_ok_refreshed [OF o refreshed_update [OF as'(2) il]] by blast
  from watched_account [OF this, of i v'] as'(1) il
  show "req_count (old_reqs v') = int (length (watched_reqs (old_reqs v') (of_version i outs)))"
    "time_sum (old_reqs v') = (\<Sum>r \<leftarrow> watched_reqs (old_reqs v') (of_version i outs).
           req_age (updated_sec (old_reqs v')) (updated_msec (old_reqs v')) r)" by simp_all
qed

text \<open>The age of the oldest of some requests.\<close>

definition oldest_age :: "ngx_time \<Rightarrow> http_request list \<Rightarrow> int" where
  "oldest_age tp rs = foldr (\<lambda>r m. max (elapsed_ms tp (start_sec r) (start_msec r)) m) rs 0"

lemma oldest_age_ge: "r \<in> set rs \<Longrightarrow> elapsed_ms tp (start_sec r) (start_msec r) \<le> oldest_age tp rs"
  by (induction rs) (auto simp: oldest_age_def)

lemma oldest_age_nonneg: "0 \<le> oldest_age tp rs"
  by (induction rs) (auto simp: oldest_age_def)

lemma sum_list_le_mult:
  fixes f :: "'a \<Rightarrow> int"
  shows "\<forall>x \<in> set xs. f x \<le> t \<Longrightarrow> sum_list (map f xs) \<le> t * int (length xs)"
  by (induction xs) (auto simp: algebra_simps add_mono)

lemma refresh_updated:
  assumes "refresh_version fuel tp perf h v = Ok (h', v')"
    and "0 \<le> elapsed_ms tp (updated_sec (old_reqs v)) (updated_msec (old_reqs v))"
  shows "0 \<le> elapsed_ms tp (updated_sec (old_reqs v')) (updated_msec (old_reqs v'))"
  using assms
  by (auto simp: refresh_version_def watch_oldest_def elapsed_ms_def split: option.splits)

text \<open>Unless the clock went back, the watched requests are on average no older than the oldest one.\<close>

lemma mean_le_oldest:
  assumes inv: "sys_inv s outs" and i: "i < length (peer (primary s))"
    and v: "version (peer (primary s) ! i) = Some v"
    and r: "refresh_version (Suc (next_addr s)) tp perf (heap s) v = Ok (h', v')"
    and clk: "0 \<le> elapsed_ms tp (updated_sec (old_reqs v)) (updated_msec (old_reqs v))"
  shows "time_sum (old_reqs v') \<le> oldest_age tp (of_version i outs) * req_count (old_reqs v')"
proof -
  let ?w = "watched_reqs (old_reqs v') (of_version i outs)"
  have "req_age (updated_sec (old_reqs v')) (updated_msec (old_reqs v')) x \<le> oldest_age tp (of_version i outs)"
    if "x \<in> set ?w" for x
  proof -
    have "x \<in> set (of_version i outs)" using that by (auto simp: watched_reqs_def split: if_splits)
    then show ?thesis
      using oldest_age_ge [of x _ tp] refresh_updated [OF r clk] by (fastforce simp: req_age_def elapsed_ms_def)
  qed
  then show ?thesis unfolding refresh_account [OF inv i v r] by (intro sum_list_le_mult) blast
qed

end
