(* ===== verification/LB_Serve.thy ===== *)
theory LB_Serve
  imports LB_Live
begin

text \<open>
  Arrivals are served: when the numbers of the balancer are of realistic size, every \<^verbatim>\<open>float\<close> that an
  arrival converts to an integer fits, so with an eligible peer the request is entered into a version.
\<close>

section \<open>Bounded floating-point values\<close>

definition fbound :: "rat \<Rightarrow> cfloat \<Rightarrow> bool" where
  "fbound b a \<longleftrightarrow> (\<exists>r. fval a = Some r \<and> \<bar>r\<bar> \<le> b)"

lemma fbound_mono: "fbound b a \<Longrightarrow> b \<le> c \<Longrightarrow> fbound c a"
  by (force simp: fbound_def)

lemma fbound_round32: "\<bar>r\<bar> \<le> b \<Longrightarrow> b32.representable b \<Longrightarrow> fbound b (round_to binary32 n r)"
  using b32.round_to_between [of "- b" b r n] by (auto simp: fbound_def abs_le_iff)

lemma fbound_round64: "\<bar>r\<bar> \<le> b \<Longrightarrow> b64.representable b \<Longrightarrow> fbound b (round_to binary64 n r)"
  using b64.round_to_between [of "- b" b r n] by (auto simp: fbound_def abs_le_iff)

text \<open>The bounds used below: multiples of powers of two.\<close>

lemma b32_representable_pow: "k < 100 \<Longrightarrow> b32.representable (2 ^ k)"
  using b32_representable_p2 [of "int k"] by (simp add: p2_nat)

lemma b32_representable_three: "b32.representable (3 * 2 ^ 61)" "b64.representable (3 * 2 ^ 61)"
  using b32.representable_scaled [of 3 61] b64.representable_scaled [of 3 61]
  by (simp_all add: binary32_def binary64_def p2_nat)

lemma f32_bound:
  assumes "\<bar>n\<bar> \<le> 2 ^ k" and "k < 100"
  shows "fbound (2 ^ k) (f32 n)"
proof -
  have "of_int \<bar>n\<bar> \<le> (of_int (2 ^ k) :: rat)" using assms(1) by (simp only: of_int_le_iff)
  then show ?thesis
    unfolding f_of_int_def using assms(2) by (intro fbound_round32 b32_representable_pow) simp_all
qed

lemma fmul32_bound:
  assumes "fbound a x" and "fbound b y" and "b32.representable (a * b)"
  shows "fbound (a * b) (fmul binary32 x y)"
proof -
  obtain r s where r: "fval x = Some r" "\<bar>r\<bar> \<le> a" and s: "fval y = Some s" "\<bar>s\<bar> \<le> b"
    using assms(1,2) by (auto simp: fbound_def)
  have "\<bar>r * s\<bar> \<le> a * b" unfolding abs_mult using r(2) s(2) by (intro mult_mono) auto
  then show ?thesis using fmul_fin [OF r(1) s(1)] fbound_round32 assms(3) by simp
qed

lemma f_conv32_bound: "fbound b x \<Longrightarrow> b32.representable b \<Longrightarrow> fbound b (f_conv binary32 x)"
  using fbound_round32 by (cases x) (auto simp: fbound_def [of _ NZero] fbound_def [of _ "Fin _"] fbound_def [of _ NaN]
      fbound_def [of _ PInf] fbound_def [of _ NInf])

lemma trunc_abs: "\<bar>trunc r\<bar> \<le> \<lfloor>\<bar>r\<bar>\<rfloor>"
  by (simp add: trunc_def)

lemma f_to_int_bound:
  assumes "fbound (3 * 2 ^ 61) x"
  shows "\<exists>n. f_to_int x = Ok n"
proof -
  obtain r where r: "fval x = Some r" "\<bar>r\<bar> \<le> 3 * 2 ^ 61" using assms by (auto simp: fbound_def)
  have "\<lfloor>\<bar>r\<bar>\<rfloor> \<le> 3 * 2 ^ 61" using r(2) by (simp add: floor_le_iff)
  then have "\<bar>trunc r\<bar> \<le> 3 * 2 ^ 61" using trunc_abs [of r] by linarith
  then show ?thesis using f_to_int_fin [OF r(1)] by simp
qed

section \<open>Realistic numbers\<close>

text \<open>
  A version whose prediction is a finite number of at most \<open>2 ^ 31\<close> milliseconds, and whose watched
  requests have been waiting for at most \<open>ts\<close> milliseconds in total.
\<close>

definition sane_version :: "int \<Rightarrow> custom_versioned_server \<Rightarrow> bool" where
  "sane_version ts v \<longleftrightarrow> fbound (2 ^ 31) (predicted_avg_rt v) \<and> \<bar>time_sum (old_reqs v)\<bar> \<le> ts"

text \<open>All recorded start times are within \<open>2 ^ 60\<close> milliseconds of the current time.\<close>

definition ages_ok :: "ngx_time \<Rightarrow> heap \<Rightarrow> bool" where
  "ages_ok tp h \<longleftrightarrow> (\<forall>a nd. h a = Some nd \<longrightarrow> \<bar>elapsed_ms tp (rt_sec nd) (rt_msec nd)\<bar> \<le> 2 ^ 60)"

definition sane :: "ngx_time \<Rightarrow> lb \<Rightarrow> bool" where
  "sane tp s \<longleftrightarrow>
    0 \<le> find_pt (peer (primary s)) 0 \<and> find_pt (peer (primary s)) 0 \<le> 2 ^ 31
    \<and> ages_ok tp (heap s)
    \<and> (\<forall>p \<in> set (peer (primary s)). \<forall>v. version p = Some v \<longrightarrow> sane_version (2 ^ 60) v)"

lemma prune_dead_ages:
  "prune_dead fuel h p rq = Ok (h', p', rq') \<Longrightarrow> ages_ok tp h \<Longrightarrow> ages_ok tp h'"
proof (induction fuel h p rq rule: prune_dead.induct)
  case (3 fuel h a rq)
  have "ages_ok tp (h(a := None))" using "3.prems"(2) by (simp add: ages_ok_def)
  then show ?case using "3.prems" "3.IH" by (auto simp: fun_upd_def split: if_splits)
qed simp_all

lemma clamp_sane:
  assumes "sane_version ts v" and "0 \<le> perf" "perf \<le> 2 ^ 31"
  shows "sane_version ts (clamp_prediction perf v)"
proof -
  have "fbound (2 ^ 31) (f32 (perf - 1))" using assms(2,3) by (intro f32_bound) auto
  then show ?thesis using assms(1) by (simp add: clamp_prediction_def sane_version_def)
qed

lemma refresh_sane:
  assumes r: "refresh_version fuel tp perf h v = Ok (h', v')" and a: "ages_ok tp h"
    and v: "sane_version (2 ^ 60) v" and p: "0 \<le> perf" "perf \<le> 2 ^ 31"
  shows "ages_ok tp h'" "sane_version (2 ^ 61) v'"
proof -
  obtain hd_req rq od where pr: "prune_dead fuel h (req_times v) (recent_req (old_reqs v)) = Ok (h', hd_req, rq)"
    and w: "watch_oldest tp h' hd_req ((old_reqs v)\<lparr>recent_req := rq\<rparr>) = Ok od"
    and v': "v' = account_service tp (clamp_prediction perf (v\<lparr>req_times := hd_req, old_reqs := od\<rparr>))"
    using r by (auto simp: refresh_version_def)
  show a': "ages_ok tp h'" by (rule prune_dead_ages [OF pr a])
  have ts: "\<bar>time_sum (old_reqs v)\<bar> \<le> 2 ^ 60" using v by (simp add: sane_version_def)
  have "\<bar>time_sum od\<bar> \<le> 2 ^ 61"
  proof (cases "rq = None \<and> hd_req \<noteq> None")
    case True
    then obtain x nd where x: "hd_req = Some x" "h' x = Some nd" and od: "time_sum od = time_sum (old_reqs v)
        + (1000 * (tp_sec tp - rt_sec nd) + (tp_msec tp - rt_msec nd))"
      using w by (cases hd_req) (auto simp: watch_oldest_def)
    have "\<bar>elapsed_ms tp (rt_sec nd) (rt_msec nd)\<bar> \<le> 2 ^ 60" using a' x(2) by (simp add: ages_ok_def)
    then show ?thesis using ts od by (simp add: elapsed_ms_def)
  next
    case False
    then have "time_sum od = time_sum (old_reqs v)"
      using w by (cases rq; cases hd_req) (auto simp: watch_oldest_def)
    then show ?thesis using ts by simp
  qed
  then have "sane_version (2 ^ 61) (v\<lparr>req_times := hd_req, old_reqs := od\<rparr>)"
    using v by (simp add: sane_version_def)
  from clamp_sane [OF this p] show "sane_version (2 ^ 61) v'"
    unfolding v' account_service_def by (simp add: sane_version_def)
qed

lemma decay_sane:
  assumes "sane_version ts v"
  shows "sane_version ts (decay_prediction v)"
proof -
  obtain p where p: "fval (predicted_avg_rt v) = Some p" "\<bar>p\<bar> \<le> 2 ^ 31"
    using assms by (auto simp: sane_version_def fbound_def)
  have "fbound 1 (f_lit binary64 (995 / 1000))"
    unfolding f_lit_def using b64_representable_int [of 1] by (intro fbound_round64) simp_all
  then obtain l where l: "fval (f_lit binary64 (995 / 1000)) = Some l" "\<bar>l\<bar> \<le> 1" by (auto simp: fbound_def)
  have "\<bar>p * l\<bar> \<le> 2 ^ 31 * 1" unfolding abs_mult using p(2) l(2) by (intro mult_mono) auto
  then have "fbound (2 ^ 31) (fmul binary64 (predicted_avg_rt v) (f_lit binary64 (995 / 1000)))"
    using fmul_fin [OF p(1) l(1), of binary64] fbound_round64 b64_representable_int [of "2 ^ 31"] by simp
  then have "fbound (2 ^ 31) (f_conv binary32 (fmul binary64 (predicted_avg_rt v) (f_lit binary64 (995 / 1000))))"
    by (intro f_conv32_bound b32_representable_pow) simp_all
  then show ?thesis using assms by (simp add: decay_prediction_def sane_version_def)
qed

text \<open>The predicted load fits: at most \<open>2 ^ 31\<close> requests of at most \<open>2 ^ 31\<close> milliseconds, and a
  correction by at most a third.\<close>

lemma base_load_bound:
  assumes "sane_version ts v" and "0 \<le> active_req v" "active_req v < 2 ^ 31"
  shows "fbound (2 ^ 62) (base_load v)"
proof -
  have "fbound (2 ^ 31) (f32 (active_req v + 1))" using assms(2,3) by (intro f32_bound) auto
  then have "fbound (2 ^ 31 * 2 ^ 31) (base_load v)"
    unfolding base_load_def using assms(1) b32_representable_pow [of 62]
    by (intro fmul32_bound) (simp_all add: sane_version_def)
  then show ?thesis by simp
qed

lemma third_bound:
  assumes "fle (f_lit binary64 (- 33 / 100)) bf" and "fle bf (f_lit binary64 (33 / 100))"
  shows "fbound (1 / 2) bf"
proof -
  have l: "f_lit binary64 (33 / 100) = Fin (5944751508129055 / 18014398509481984)"
    "f_lit binary64 (- 33 / 100) = Fin (- 5944751508129055 / 18014398509481984)" by code_simp+
  show ?thesis using assms unfolding l by (cases bf) (auto simp: fbound_def fle.simps)
qed

lemma peer_load_bound:
  assumes "sane_version ts v" and "0 \<le> active_req v" "active_req v < 2 ^ 31"
  shows "fbound (3 * 2 ^ 61) (peer_load v)"
proof -
  have bl: "fbound (2 ^ 62) (base_load v)" using assms by (rule base_load_bound)
  have half: "b64.representable (3 / 2)"
    using b64.representable_scaled [of 3 "- 1"] by (simp add: binary64_def p2_def power_int_def)
  have "fbound (3 * 2 ^ 61) (f_conv binary32 (fmul binary64 (base_load v) (fadd binary64 (f64 1) bf)))"
    if bf: "fbound (1 / 2) bf" for bf
  proof -
    obtain b x where b: "fval bf = Some b" "\<bar>b\<bar> \<le> 1 / 2" and x: "fval (base_load v) = Some x" "\<bar>x\<bar> \<le> 2 ^ 62"
      using bf bl by (auto simp: fbound_def)
    have one: "f64 1 = Fin 1" using f_of_int_exact64 [of 1] by simp
    have "\<bar>1 + b\<bar> \<le> 3 / 2" using b(2) by linarith
    then have "fbound (3 / 2) (fadd binary64 (f64 1) bf)"
      using fadd_fin [of "f64 1" 1 bf b binary64] b(1) fbound_round64 half by (simp add: one)
    then obtain y where y: "fval (fadd binary64 (f64 1) bf) = Some y" "\<bar>y\<bar> \<le> 3 / 2" by (auto simp: fbound_def)
    have "\<bar>x * y\<bar> \<le> 2 ^ 62 * (3 / 2)" unfolding abs_mult using x(2) y(2) by (intro mult_mono) auto
    then have "fbound (3 * 2 ^ 61) (fmul binary64 (base_load v) (fadd binary64 (f64 1) bf))"
      using fmul_fin [OF x(1) y(1)] fbound_round64 b32_representable_three(2) by simp
    then show ?thesis using f_conv32_bound b32_representable_three(1) by blast
  qed
  moreover have "fbound (3 * 2 ^ 61) (base_load v)" using fbound_mono [OF bl] by simp
  ultimately show ?thesis using third_bound by (simp add: peer_load_def Let_def)
qed

lemma avg_oldest_returns:
  assumes "sane_version (2 ^ 61) v"
  shows "\<exists>n. avg_oldest v = Ok n"
proof -
  let ?c = "max 1 (req_count (old_reqs v))"
  have "fbound (2 ^ 61) (f32 (time_sum (old_reqs v)))"
    using assms by (intro f32_bound) (simp_all add: sane_version_def)
  then obtain t where t: "fval (f32 (time_sum (old_reqs v))) = Some t" "\<bar>t\<bar> \<le> 2 ^ 61" by (auto simp: fbound_def)
  have r1: "1 \<le> rnd binary32 (of_int ?c)"
  proof -
    have "rnd binary32 1 \<le> rnd binary32 (of_int ?c)" by (rule b32.rnd_mono) simp
    then show ?thesis using b32_representable_int [of 1] by (simp add: b32.representable_def)
  qed
  show ?thesis
  proof (cases "fval (f32 ?c)")
    case None
    have "f32 ?c = PInf" using None r1 by (auto simp: f_of_int_def round_to_def Let_def split: if_splits)
    moreover have "f32 (time_sum (old_reqs v)) \<noteq> NaN" using t(1) by auto
    ultimately have "fval (fdiv binary32 (f32 (time_sum (old_reqs v))) (f32 ?c)) = Some 0"
      using t(1) by (simp add: fdiv_def fzero_def Let_def)
    then have "fbound (3 * 2 ^ 61) (fdiv binary32 (f32 (time_sum (old_reqs v))) (f32 ?c))" by (simp add: fbound_def)
    then show ?thesis unfolding avg_oldest_def by (rule f_to_int_bound)
  next
    case (Some c)
    then have "c = rnd binary32 (of_int ?c)" by (auto simp: f_of_int_def round_to_def Let_def split: if_splits)
    then have c: "1 \<le> c" using r1 by simp
    have "\<bar>t / c\<bar> \<le> \<bar>t\<bar>" using c mult_left_mono [of 1 c "\<bar>t\<bar>"] by (simp add: abs_divide divide_le_eq)
    then have "\<bar>t / c\<bar> \<le> 2 ^ 61" using t(2) by linarith
    then have "fbound (2 ^ 61) (fdiv binary32 (f32 (time_sum (old_reqs v))) (f32 ?c))"
      using fdiv_fin [OF t(1) Some, of binary32] c fbound_round32 b32_representable_pow [of 61] by simp
    then have "fbound (3 * 2 ^ 61) (fdiv binary32 (f32 (time_sum (old_reqs v))) (f32 ?c))"
      by (rule fbound_mono) simp
    then show ?thesis unfolding avg_oldest_def by (rule f_to_int_bound)
  qed
qed

section \<open>The selection with realistic numbers\<close>

text \<open>The numbers while the loop runs; the peers in \<open>is\<close> have not been looked at.\<close>

definition sel_nums :: "ngx_time \<Rightarrow> nat list \<Rightarrow> sel \<Rightarrow> bool" where
  "sel_nums tp is st \<longleftrightarrow>
    ages_ok tp (s_heap st)
    \<and> (\<forall>j < length (s_peers st). \<forall>v. version (s_peers st ! j) = Some v \<longrightarrow>
          sane_version (if j \<in> set is then 2 ^ 60 else 2 ^ 61) v \<and> 0 \<le> active_req v \<and> active_req v < 2 ^ 31)
    \<and> (s_heavy st \<noteq> None \<longrightarrow> fbound (3 * 2 ^ 61) (heavy_load st))
    \<and> (s_light st \<noteq> None \<longrightarrow> fbound (3 * 2 ^ 61) (light_load st))"

lemma sane_version_mono: "sane_version ts v \<Longrightarrow> ts \<le> ts' \<Longrightarrow> sane_version ts' v"
  by (simp add: sane_version_def)

lemma compare_peer_cases:
  assumes "compare_peer perf i ld st = Ok st'"
  shows "st' = st \<or> st' = st\<lparr>s_heavy := Some i, heavy_load := ld\<rparr> \<or> st' = st\<lparr>s_light := Some i, light_load := ld\<rparr>"
  using assms by (auto simp: compare_peer_def Let_def split: if_splits)

lemma compare_peer_nums:
  assumes "compare_peer perf i ld st = Ok st'" and "sel_nums tp is st" and "fbound (3 * 2 ^ 61) ld"
  shows "sel_nums tp is st'"
  using compare_peer_cases [OF assms(1)] assms(2,3) unfolding sel_nums_def by (elim disjE) simp_all

lemma select_step_length:
  assumes "select_step fuel tp perf ts i st = Ok st'"
  shows "length (s_peers st') = length (s_peers st)"
  using assms by (auto simp: select_step_def split: if_splits dest!: compare_peer_cases)

lemma select_step_nums:
  assumes st: "select_step fuel tp perf ts i st = Ok st'" and nums: "sel_nums tp (i # is) st"
    and d: "i \<notin> set is" and i: "i < length (s_peers st)" and p: "0 \<le> perf" "perf \<le> 2 ^ 31"
  shows "sel_nums tp is st'"
proof -
  have weak: "sel_nums tp is st"
    using nums sane_version_mono unfolding sel_nums_def by (fastforce split: if_splits)
  obtain t where t: "tried_bit ts i = Ok t" using st by (auto simp: select_step_def)
  show ?thesis
  proof (cases "t \<or> \<not> peer_usable (tp_sec tp) (s_peers st ! i)")
    case True
    then have "st' = st" using st t by (simp add: select_step_def)
    then show ?thesis using weak by simp
  next
    case False
    let ?st = "\<lambda>h' v'. st\<lparr>s_heap := h',
        s_peers := (s_peers st)[i := (s_peers st ! i)\<lparr>version := Some (decay_prediction v')\<rparr>]\<rparr>"
    obtain v h' v' where v: "version (s_peers st ! i) = Some v"
      and r: "refresh_version fuel tp perf (s_heap st) v = Ok (h', v')"
      and c: "compare_peer perf i (peer_load v') (?st h' v') = Ok st'"
      using st t False i by (auto simp: select_step_def version_of_def)
    have sv: "sane_version (2 ^ 60) v" "0 \<le> active_req v" "active_req v < 2 ^ 31" and ag: "ages_ok tp (s_heap st)"
      using nums i v by (auto simp: sel_nums_def)
    note rs = refresh_sane [OF r ag sv(1) p]
    have ac: "active_req v' = active_req v"
      using r by (auto simp: refresh_version_def account_service_def clamp_prediction_def)
    have "sel_nums tp is (?st h' v')"
      using weak rs decay_sane [OF rs(2)] ac sv d i unfolding sel_nums_def
      by (auto simp: nth_list_update decay_prediction_def)
    then show ?thesis
      using compare_peer_nums [OF c] peer_load_bound [OF rs(2)] ac sv by simp
  qed
qed

lemma select_loop_nums:
  "select_loop fuel tp perf ts is st = Ok st' \<Longrightarrow> sel_nums tp is st \<Longrightarrow> distinct is \<Longrightarrow>
    \<forall>i \<in> set is. i < length (s_peers st) \<Longrightarrow> 0 \<le> perf \<Longrightarrow> perf \<le> 2 ^ 31 \<Longrightarrow> sel_nums tp [] st'"
proof (induction "is" arbitrary: st)
  case (Cons i "is")
  obtain st1 where s1: "select_step fuel tp perf ts i st = Ok st1"
    and sl: "select_loop fuel tp perf ts is st1 = Ok st'" using Cons.prems(1) by auto
  have "sel_nums tp is st1" using select_step_nums [OF s1 Cons.prems(2)] Cons.prems(3-6) by simp
  moreover have "length (s_peers st1) = length (s_peers st)" by (rule select_step_length [OF s1])
  ultimately show ?case using Cons.IH [OF sl] Cons.prems by simp
qed simp

lemma choose_best_returns:
  assumes inv: "sel_inv h ps qs st" and c: "chosen_ok tp ts ps st" and nums: "sel_nums tp [] st"
  shows "\<exists>b. choose_best perf st = Ok b"
proof (cases "s_heavy st")
  case (Some hi)
  then have "hi < length ps" using c by (auto simp: chosen_ok_def eligible_def)
  then obtain hv where hv: "version_of (s_peers st) hi = Ok hv" using sel_inv_version [OF inv] by blast
  then have "hi < length (s_peers st)" "version (s_peers st ! hi) = Some hv"
    by (auto simp: version_of_def split: if_splits)
  then have "sane_version (2 ^ 61) hv" using nums by (auto simp: sel_nums_def)
  then obtain n where "avg_oldest hv = Ok n" using avg_oldest_returns by blast
  then show ?thesis using Some hv by (simp add: choose_best_def split: option.split)
qed (simp add: choose_best_def)

text \<open>The selection returns a peer.\<close>

lemma get_peer_serves:
  assumes q: "queues_ok (heap s) (peer (primary s)) qs" and b: "\<forall>q \<in> set qs. \<forall>a \<in> set q. a < next_addr s"
    and pr: "rrp_peers rd = Primary" and ts: "length (peer (primary s)) \<le> 64 * length (tried rd)"
    and oe: "one_each (peer (primary s))" and el: "eligible tp (tried rd) (peer (primary s)) j"
    and sn: "sane tp s"
    and ac: "\<forall>p \<in> set (peer (primary s)). \<forall>v. version p = Some v \<longrightarrow> 0 \<le> active_req v \<and> active_req v < 2 ^ 31"
  shows "\<exists>s1 rd1 i. ngx_http_upstream_get_peer tp s rd = Ok (s1, rd1, Some i)"
proof -
  let ?ps = "peer (primary s)" and ?st = "sel_start s (primary s)" and ?pt = "find_pt (peer (primary s)) 0"
  have pre: "sel_pre (Suc (next_addr s)) (tried rd) ?ps qs"
    using queue_len_bound [OF q b] q ts by (auto simp: sel_pre_def queues_ok_def intro: le_SucI)
  have "\<forall>i \<in> set [0..<length ?ps]. i < length ?ps \<and> s_heavy ?st \<noteq> Some i \<and> s_light ?st \<noteq> Some i"
    by (simp add: sel_start_def)
  note sl = select_loop_one_each [OF pre oe sel_inv_start [OF q] sel_start_chosen this distinct_upt, of tp ?pt]
  have "\<exists>i \<in> set [0..<length ?ps]. eligible tp (tried rd) ?ps i" using el by (auto simp: eligible_def)
  with sl obtain st where
    st: "select_loop (Suc (next_addr s)) tp ?pt (tried rd) [0..<length ?ps] ?st = Ok st"
    "sel_inv (heap s) ?ps qs st" "chosen_ok tp (tried rd) ?ps st" "picked st"
    by blast
  have "sel_nums tp [0..<length ?ps] ?st"
    using sn ac by (auto simp: sel_nums_def sel_start_def sane_def)
  then have nums: "sel_nums tp [] st"
    using sn select_loop_nums [OF st(1)] by (simp add: sane_def sel_start_def)
  note cbo = choose_best_outcome [OF st(2-4), of ?pt]
  obtain i where cb: "choose_best ?pt st = Ok (Some i)" and i: "i < length ?ps"
    using choose_best_returns [OF st(2,3) nums, of ?pt] cbo by auto
  obtain v where v: "version_of (s_peers st) i = Ok v" using sel_inv_version [OF st(2) i] by blast
  have "s_heavy st = Some i \<or> s_light st = Some i \<and> s_heavy st \<noteq> Some i"
    using cb by (auto simp: choose_best_def split: option.splits if_splits)
  then have "fbound (3 * 2 ^ 61) (if Some i = s_heavy st then heavy_load st else light_load st)"
    using nums by (auto simp: sel_nums_def)
  then obtain v' where "enter_version tp (if Some i = s_heavy st then heavy_load st else light_load st) v = Ok v'"
    using f_to_int_bound by (fastforce simp: enter_version_def Let_def)
  then show ?thesis
    using st(1) pr cb v unfolding ngx_http_upstream_get_peer_def Let_def sel_start_def
    by (simp add: group_of_def)
qed

lemma arrive_serves:
  assumes inv: "sys_inv s outs" and rs: "req_start s r" and oe: "one_each (peer (primary s))"
    and el: "eligible tp (tried (rrp r)) (peer (primary s)) j"
    and sn: "sane tp s" and n: "length outs < 2 ^ 31"
  shows "\<exists>s' r'. ngx_http_upstream_get_round_robin_peer True tp s r = Ok (NGX_OK, s', r')"
proof -
  obtain qs where q: "queues_ok (heap s) (peer (primary s)) qs" and o: "outs_ok (heap s) qs outs"
    and bd: "\<forall>q \<in> set qs. \<forall>a \<in> set q. a < next_addr s" and hn: "heap s (next_addr s) = None"
    using inv by (auto simp: sys_inv_def)
  have "0 \<le> active_req v \<and> active_req v < 2 ^ 31" if p: "p \<in> set (peer (primary s))" "version p = Some v" for p v
  proof -
    obtain i where i: "i < length (peer (primary s))" "p = peer (primary s) ! i" using p by (metis in_set_conv_nth)
    then have vo: "version_ok (heap s) v (qs ! i)" using queues_okD [OF q i(1)] p(2) by auto
    moreover have "i < length qs" using i q by (simp add: queues_ok_def)
    ultimately have "active_req v \<le> int (length outs)" using active_le_outs [OF o] by blast
    then show ?thesis using vo n by (simp add: version_ok_def)
  qed
  then obtain s1 rd i where "ngx_http_upstream_get_peer tp s (rrp r) = Ok (s1, rd, Some i)"
    using get_peer_serves [OF q bd _ _ oe el sn] rs by (auto simp: req_start_def)
  from buffer_returns [OF q bd hn rs this] obtain s' r' where
    "get_peer_in_group True tp s r = Ok (Some (s', r'))" by auto
  then have "ngx_http_upstream_get_round_robin_peer True tp s r = Ok (NGX_OK, s', r')"
    by (simp add: ngx_http_upstream_get_round_robin_peer_def)
  then show ?thesis by blast
qed

end
