(* ===== verification/LB_Numbers.thy ===== *)
theory LB_Numbers
  imports LB_Complete
begin

text \<open>
  The floating-point tests of the balancer in exact arithmetic: for counters of realistic size the
  conversions through \<^verbatim>\<open>float\<close> and \<^verbatim>\<open>double\<close> decide what the integer formulas would.
\<close>

section \<open>Rounding errors\<close>

lemma rnd_error:
  assumes "0 < x"
  shows "\<bar>rnd F x - x\<bar> \<le> p2 (fexp F x) / 2"
proof -
  let ?e = "p2 (fexp F x)"
  have "rnd F x - x = (of_int (rne (x / ?e)) - x / ?e) * ?e"
    using assms by (simp add: rnd_def field_simps)
  then have "\<bar>rnd F x - x\<bar> = \<bar>of_int (rne (x / ?e)) - x / ?e\<bar> * ?e" by (simp add: abs_mult)
  also have "\<dots> \<le> 1 / 2 * ?e" by (intro mult_right_mono rne_error) simp
  finally show ?thesis by simp
qed

lemma rnd32_error:
  assumes "0 < x" and "p2 (- 100) \<le> x"
  shows "\<bar>rnd binary32 x - x\<bar> \<le> x * p2 (- 24)"
proof -
  have il: "p2 (ilog2 x) \<le> x" and i: "- 100 \<le> ilog2 x" using assms by (simp_all add: ilog2_bounds ilog2_ge)
  have "fexp binary32 x = ilog2 x - 23" using assms(1) i by (simp add: fexp_def binary32_def)
  then have "p2 (fexp binary32 x) / 2 = p2 (ilog2 x) * p2 (- 24)"
    using p2_add [of "ilog2 x" "- 24"] p2_add [of "ilog2 x - 24" 1] p2_nat [of 1] by simp
  also have "\<dots> \<le> x * p2 (- 24)" using il by (intro mult_right_mono) auto
  finally show ?thesis using rnd_error [OF assms(1), of binary32] by simp
qed

lemma rnd64_error:
  assumes "0 < x" and "p2 (- 100) \<le> x"
  shows "\<bar>rnd binary64 x - x\<bar> \<le> x * p2 (- 53)"
proof -
  have il: "p2 (ilog2 x) \<le> x" and i: "- 100 \<le> ilog2 x" using assms by (simp_all add: ilog2_bounds ilog2_ge)
  have "fexp binary64 x = ilog2 x - 52" using assms(1) i by (simp add: fexp_def binary64_def)
  then have "p2 (fexp binary64 x) / 2 = p2 (ilog2 x) * p2 (- 53)"
    using p2_add [of "ilog2 x" "- 53"] p2_add [of "ilog2 x - 53" 1] p2_nat [of 1] by simp
  also have "\<dots> \<le> x * p2 (- 53)" using il by (intro mult_right_mono) auto
  finally show ?thesis using rnd_error [OF assms(1), of binary64] by simp
qed

lemma p2_neg: "0 \<le> k \<Longrightarrow> p2 (- k) = 1 / of_int (2 ^ nat k)"
  using p2_diff [of 0 k] by (simp add: p2_nat)

section \<open>The mean age of the watched requests\<close>

lemma trunc_eqI: "0 \<le> r \<Longrightarrow> of_int n \<le> r \<Longrightarrow> r < of_int n + 1 \<Longrightarrow> trunc r = n"
  by (simp add: trunc_def floor_unique)

lemma div32_exact:
  assumes ts: "0 \<le> t" "t < 2 ^ 24" and c: "1 \<le> c" "c \<le> 2 ^ 24"
  shows "f_to_int (fdiv binary32 (f32 t) (f32 c)) = Ok (t div c)"
proof -
  have ft: "f32 t = Fin (of_int t)" and fc: "f32 c = Fin (of_int c)"
    using assms by (auto intro!: f_of_int_exact32)
  let ?x = "of_int t / of_int c :: rat" and ?n = "t div c"
  have fd: "fdiv binary32 (f32 t) (f32 c) = round_to binary32 (is_neg (f32 t) \<noteq> is_neg (f32 c)) ?x"
    using c by (intro fdiv_fin) (auto simp: ft fc)
  have nc: "?n * c \<le> t" using minus_mod_eq_div_mult [of t c] pos_mod_sign [of c t] c by linarith
  have n0: "0 \<le> ?n" using ts c by (simp add: pos_imp_zdiv_nonneg_iff)
  have "?n * 1 \<le> ?n * c" using n0 c by (intro mult_left_mono) auto
  with nc n0 have n: "0 \<le> ?n" "?n \<le> t" by auto
  have tc: "t * 1 \<le> t * c" using ts c by (intro mult_left_mono) auto
  have c0: "(0 :: rat) < of_int c" using c by simp
  have "(of_int t :: rat) \<le> of_int t * of_int c" using tc by (metis of_int_le_iff of_int_mult mult.right_neutral)
  then have xt: "?x \<le> of_int t" using c0 by (simp add: pos_divide_le_eq)
  have x0: "0 \<le> ?x" "?x \<le> of_int (2 ^ 24)"
    using ts c0 xt order_trans [OF xt, of "of_int (2 ^ 24)"] by (simp_all del: of_int_power)
  obtain s where s: "fval (round_to binary32 (is_neg (f32 t) \<noteq> is_neg (f32 c)) ?x) = Some s" "0 \<le> s"
      "s \<le> of_int (2 ^ 24)"
    using b32.round_to_between [of 0 "of_int (2 ^ 24)" ?x] x0 b32_representable_int [of "2 ^ 24"] by auto
  have sr: "s = rnd binary32 ?x"
    using s(1) by (auto simp: round_to_def Let_def split: if_splits)
  have lo: "of_int ?n \<le> s"
  proof -
    have "of_int ?n * of_int c \<le> (of_int t :: rat)" using nc by (metis of_int_le_iff of_int_mult)
    then have "of_int ?n \<le> ?x" using c0 by (simp add: pos_le_divide_eq)
    then have "rnd binary32 (of_int ?n) \<le> s" unfolding sr by (rule b32.rnd_mono)
    moreover have "rnd binary32 (of_int ?n) = of_int ?n"
      using b32_representable_int [of ?n] n ts(2) by (simp add: b32.representable_def)
    ultimately show ?thesis by simp
  qed
  have hi: "s < of_int ?n + 1"
  proof (cases "t = 0")
    case True
    then show ?thesis using sr by simp
  next
    case False
    have "t + 1 \<le> (?n + 1) * c"
      using c minus_mod_eq_div_mult [of t c] pos_mod_bound [of c t] unfolding distrib_right by linarith
    then have "(of_int t + 1 :: rat) \<le> (of_int ?n + 1) * of_int c"
      by (metis of_int_le_iff of_int_add of_int_mult of_int_1)
    then have a: "?x + 1 / of_int c \<le> of_int ?n + 1" using c by (simp add: field_simps)
    have "p2 (- 100) \<le> p2 (- 24)" by (rule p2_mono) simp
    also have "p2 (- 24) \<le> ?x"
    proof -
      have "c * 1 \<le> 2 ^ 24 * t" using c ts False by (intro mult_mono) auto
      then have "(of_int c :: rat) \<le> of_int (2 ^ 24 * t)" by (simp only: of_int_le_iff)
      then show ?thesis using c0 by (simp add: p2_neg pos_le_divide_eq)
    qed
    finally have "\<bar>s - ?x\<bar> \<le> ?x * p2 (- 24)" unfolding sr using False ts c by (intro rnd32_error) auto
    moreover have "?x * p2 (- 24) < 1 / of_int c"
    proof -
      have "(of_int t :: rat) < of_int (2 ^ 24)" using ts(2) by (simp only: of_int_less_iff)
      then have "of_int t / of_int (2 ^ 24) / of_int c < (1 :: rat) / of_int c"
        using c0 by (intro divide_strict_right_mono) auto
      then show ?thesis by (simp add: p2_neg)
    qed
    ultimately show ?thesis using a by linarith
  qed
  have "trunc s = ?n" using trunc_eqI [OF s(2) lo hi] .
  moreover have "?n < 2 ^ 63" using n ts by simp
  ultimately show ?thesis using s(1) n by (auto simp: fd f_to_int_fin)
qed

lemma avg_oldest_exact:
  assumes "0 \<le> time_sum (old_reqs v)" "time_sum (old_reqs v) < 2 ^ 24" "req_count (old_reqs v) \<le> 2 ^ 24"
  shows "avg_oldest v = Ok (time_sum (old_reqs v) div max 1 (req_count (old_reqs v)))"
  unfolding avg_oldest_def using assms by (intro div32_exact) auto

section \<open>The threshold on the mean age\<close>

lemma three_halves: "f_lit binary64 (3 / 2) = Fin (3 / 2)"
  by code_simp

lemma age_threshold:
  assumes "0 \<le> p" "p < 2 ^ 51" "\<bar>a\<bar> \<le> 2 ^ 53"
  shows "fle (fmul binary64 (f_lit binary64 (3 / 2)) (f64 p)) (f64 a) \<longleftrightarrow> 3 * p \<le> 2 * a"
proof -
  have fp: "f64 p = Fin (of_int p)" and fa: "f64 a = Fin (of_int a)"
    using assms by (auto intro!: f_of_int_exact64)
  have half: "p2 (- 1) = 1 / 2" by (simp add: p2_neg)
  have "b64.representable (of_int (3 * p) * p2 (- 1))"
    using assms by (intro b64.representable_scaled) (auto simp: binary64_def)
  then have "fval (round_to binary64 n (of_int (3 * p) * p2 (- 1))) = Some (of_int (3 * p) * p2 (- 1))" for n
    by (rule b64.round_to_exact)
  then have "fval (fmul binary64 (f_lit binary64 (3 / 2)) (f64 p)) = Some (3 / 2 * of_int p)"
    unfolding three_halves by (subst fmul_fin [where x = "3 / 2" and y = "of_int p"]) (simp_all add: fp half)
  then have "fle (fmul binary64 (f_lit binary64 (3 / 2)) (f64 p)) (f64 a) \<longleftrightarrow> 3 / 2 * of_int p \<le> (of_int a :: rat)"
    by (rule fle_fin) (simp add: fa)
  also have "\<dots> \<longleftrightarrow> of_int (3 * p) \<le> (of_int (2 * a) :: rat)" by auto
  finally show ?thesis by (simp only: of_int_le_iff)
qed

section \<open>The share of watched requests\<close>

lemma rnd64_near_int:
  assumes c: "0 < c" "c < 2 ^ 50" and z: "z = of_int c * (1 + p2 (- 54))"
  shows "rnd binary64 z = of_int c"
proof -
  have zc: "of_int c \<le> z" using c by (simp add: z algebra_simps)
  then have z0: "0 < z" using c by (metis less_le_trans of_int_0_less_iff)
  have "(of_int 1 :: rat) \<le> of_int c" using c by (simp only: of_int_le_iff)
  then have "p2 0 \<le> z" using zc by simp
  then have i0: "0 \<le> ilog2 z" using z0 by (intro ilog2_ge)
  have "z < p2 52"
  proof -
    have "(of_int c :: rat) < of_int (2 ^ 50)" using c by (simp only: of_int_less_iff)
    then have "z < of_int (2 ^ 50) * 2" unfolding z using c by (intro mult_strict_mono') (auto simp: p2_neg)
    then show ?thesis by (simp add: p2_nat)
  qed
  then have i1: "ilog2 z < 52" using z0 by (intro ilog2_less)
  define e where "e = 52 - ilog2 z"
  have fx: "fexp binary64 z = - e" using z0 i0 by (simp add: fexp_def binary64_def e_def)
  define K where "K = c * 2 ^ nat e"
  have e: "0 < e" using i1 by (simp add: e_def)
  have ze: "z / p2 (- e) = of_int K * (1 + p2 (- 54))"
    using e by (simp add: z p2_neg K_def)
  have "z < p2 (ilog2 z + 1)" using ilog2_bounds [OF z0] by simp
  then have "of_int c < p2 (ilog2 z + 1)" using zc by simp
  then have "of_int c * p2 e < p2 (ilog2 z + 1) * p2 e" by simp
  then have "of_int K < p2 53" using e by (simp add: K_def p2_nat e_def flip: p2_add)
  then have "of_int K * p2 (- 54) < p2 53 * p2 (- 54)" by (rule mult_strict_right_mono) simp
  also have "p2 53 * p2 (- 54) = 1 / 2" using p2_add [of 53 "- 54"] by (simp add: p2_neg)
  finally have d: "of_int K * p2 (- 54) < 1 / 2" .
  have K0: "0 \<le> of_int K * p2 (- 54)" using c by (simp add: K_def)
  have fl: "\<lfloor>of_int K * (1 + p2 (- 54))\<rfloor> = K"
    using d K0 by (intro floor_unique) (simp_all add: algebra_simps)
  have "rne (of_int K * (1 + p2 (- 54))) = K"
    unfolding rne_def fl Let_def using d by (simp add: algebra_simps)
  then have "rnd binary64 z = of_int K * p2 (- e)" using z0 by (simp add: rnd_def fx ze)
  then show ?thesis using e by (simp add: K_def p2_neg)
qed

text \<open>\<^verbatim>\<open>oldest->req_count < 0.2 * active_req\<close> holds exactly when less than a fifth is watched.\<close>

lemma fifth_val: "f_lit binary64 (1 / 5) = Fin (1 / 5 * (1 + p2 (- 54)))"
  by code_simp

lemma needs_watch_exact:
  assumes c: "0 \<le> c" "c < 2 ^ 50" and n: "0 \<le> n" "n < 2 ^ 50"
  shows "needs_watch c n \<longleftrightarrow> 5 * c < n"
proof -
  have fc: "f64 c = Fin (of_int c)" and fn: "f64 n = Fin (of_int n)"
    using assms by (auto intro!: f_of_int_exact64)
  let ?q = "1 / 5 * (1 + p2 (- 54))" and ?y = "1 / 5 * (1 + p2 (- 54)) * of_int n"
  have n50: "(of_int n :: rat) < of_int (2 ^ 50)" using n(2) by (simp only: of_int_less_iff)
  have q1: "?q \<le> 1" "1 / 5 \<le> ?q" by (simp_all add: p2_neg)
  have y: "0 \<le> ?y" "?y \<le> of_int n" using n q1(1) mult_right_mono [OF q1(1), of "of_int n"] by simp_all
  obtain s where s: "fval (round_to binary64 (is_neg (f_lit binary64 (1 / 5)) \<noteq> is_neg (f64 n)) ?y) = Some s"
    using b64.round_to_between [of 0 "of_int n" ?y] b64_representable_int [of n] y n by fastforce
  then have sr: "s = rnd binary64 ?y" by (auto simp: round_to_def Let_def split: if_splits)
  have "fval (fmul binary64 (f_lit binary64 (1 / 5)) (f64 n)) = Some s"
    using s by (subst fmul_fin [where x = ?q and y = "of_int n"]) (simp_all add: fifth_val fn)
  then have nw: "needs_watch c n \<longleftrightarrow> of_int c < s"
    using flt_fin [of "f64 c" "of_int c"] by (simp add: needs_watch_def fc)
  show ?thesis
  proof
    assume l: "5 * c < n"
    then have n0: "0 < n" using c by simp
    have "of_int c + 1 / 5 \<le> 1 / 5 * (of_int n :: rat)"
    proof -
      have "of_int (5 * c + 1) \<le> (of_int n :: rat)" using l by (simp only: of_int_le_iff)
      then show ?thesis by simp
    qed
    also have "1 / 5 * of_int n \<le> ?y" using q1(2) n by (intro mult_right_mono) auto
    finally have cy: "of_int c + 1 / 5 \<le> ?y" .
    have "?y * p2 (- 53) \<le> of_int (2 ^ 50) * p2 (- 53)" using y(2) n50 by (intro mult_right_mono) auto
    then have e: "?y * p2 (- 53) \<le> 1 / 8" by (simp add: p2_neg)
    have y0: "1 / 5 \<le> ?y" using cy of_int_nonneg [OF c(1), where 'a = rat] by linarith
    then have "p2 (- 100) \<le> ?y" by (simp add: p2_neg)
    then have "\<bar>s - ?y\<bar> \<le> ?y * p2 (- 53)" unfolding sr using y0 by (intro rnd64_error) auto
    then show "needs_watch c n" unfolding nw using cy e by linarith
  next
    assume w: "needs_watch c n"
    show "5 * c < n"
    proof (rule ccontr)
      assume "\<not> 5 * c < n"
      then have "(of_int n :: rat) \<le> of_int (5 * c)" by (simp only: of_int_le_iff not_less)
      then have "?y \<le> ?q * of_int (5 * c)" using q1(2) by (intro mult_left_mono) auto
      then have "s \<le> rnd binary64 (of_int c * (1 + p2 (- 54)))" unfolding sr
        by (intro b64.rnd_mono) (simp add: algebra_simps)
      also have "\<dots> = of_int c"
        using rnd64_near_int [of c] c by (cases "c = 0") auto
      finally show False using w by (simp add: nw)
    qed
  qed
qed

end
