(* ===== verification/LB_Demo.thy ===== *)
theory LB_Demo
  imports LB_Complete
begin

text \<open>
  A small upstream for concrete runs: a server of weight 2 (the heavy version), a server of weight 1
  (the light version) and a performance target of 500 ms, with a first request.
\<close>

definition demo_server :: "string \<Rightarrow> ngx_uint_t \<Rightarrow> bool \<Rightarrow> upstream_server" where
  "demo_server nm w dn =
    \<lparr>us_name = nm, us_addrs = [\<lparr>a_sockaddr = [2, 0], a_name = nm\<rparr>], us_weight = w,
     us_max_conns = 0, us_max_fails = 1, us_pt = 500, us_fail_timeout = 10, us_down = dn,
     us_backup = False\<rparr>"

definition demo_conf :: "bool \<Rightarrow> srv_conf" where
  "demo_conf dn =
    \<lparr>servers = Some [demo_server ''10.0.0.1:80'' 2 dn, demo_server ''10.0.0.2:81'' 1 dn],
     host = ''app'', us_port = 0\<rparr>"

definition demo_lb :: "bool \<Rightarrow> lb" where
  "demo_lb dn =
    (case ngx_http_upstream_init_round_robin (\<lambda>_. True) (\<lambda>_. True) (\<lambda>_ _. None) (demo_conf dn) of
       Ok (_, Some d) \<Rightarrow> start_lb d
     | _ \<Rightarrow> start_lb (new_peers [] 0 0 0 [], None))"

definition demo_rrp :: rr_peer_data where
  "demo_rrp = \<lparr>rrp_peers = Primary, current = None, tried = [0]\<rparr>"

definition demo_request :: "int \<Rightarrow> int \<Rightarrow> http_request" where
  "demo_request s ms =
    \<lparr>start_sec = s, start_msec = ms, r_version = None, req_finish_before = 0, r_predict = 0, no = 0,
     last_complete = 0, enter_time = None, service_time_record = f32 0, pc_tries = 2, pc_name = [],
     pc_sockaddr = None, rrp = demo_rrp\<rparr>"

definition demo_time :: "int \<Rightarrow> int \<Rightarrow> ngx_time" where
  "demo_time s ms = \<lparr>tp_sec = s, tp_msec = ms\<rparr>"

definition is_Ok :: "'a res \<Rightarrow> bool" where
  "is_Ok r = (case r of Ok _ \<Rightarrow> True | Fault _ \<Rightarrow> False)"

lemma is_Ok_iff: "is_Ok r \<longleftrightarrow> (\<exists>x. r = Ok x)"
  by (cases r) (simp_all add: is_Ok_def)

text \<open>
  The state after the first arrival: the peers are as they were, the numbers are small, and 600 ms
  after its start the request is the only watched one of the heavy version.
\<close>

definition demo_facts :: "lb \<Rightarrow> http_request \<Rightarrow> bool" where
  "demo_facts s r \<longleftrightarrow>
    map heavy (peer (primary s)) = [True, False] \<and> map light (peer (primary s)) = [False, True]
    \<and> map (peer_usable 100) (peer (primary s)) = [True, True] \<and> find_pt (peer (primary s)) 0 = 500
    \<and> rrp_peers (rrp r) = Primary \<and> tried (rrp r) = [0] \<and> next_addr s = 1
    \<and> (case heap s 0 of None \<Rightarrow> True | Some nd \<Rightarrow> rt_sec nd = 100 \<and> rt_msec nd = 0)
    \<and> list_all (\<lambda>p. case version p of None \<Rightarrow> True | Some v \<Rightarrow>
         fval (predicted_avg_rt v) = Some 0 \<and> time_sum (old_reqs v) = 0) (peer (primary s))
    \<and> (case version (peer (primary s) ! 0) of None \<Rightarrow> False | Some hv \<Rightarrow>
         0 \<le> elapsed_ms (demo_time 100 600) (updated_sec (old_reqs hv)) (updated_msec (old_reqs hv))
         \<and> (case refresh_version 2 (demo_time 100 600) 500 (heap s) hv of
              Fault _ \<Rightarrow> False
            | Ok (h1, hv') \<Rightarrow> time_sum (old_reqs hv') = 600 \<and> req_count (old_reqs hv') = 1
                \<and> fval (predicted_avg_rt hv') = Some 0 \<and> \<not> fle (f32 500) (peer_load hv')))"

text \<open>The first request is accepted, and its completion returns.\<close>

lemma demo_runs_Ok:
  "is_Ok (bindR (ngx_http_upstream_get_round_robin_peer True (demo_time 100 5) (demo_lb False) (demo_request 100 0))
            (\<lambda>(rc, s, r). bindR (guardR NullDeref (demo_facts s r)) (\<lambda>_. ngx_http_log_request_time (demo_time 101 0) s r)))"
  by code_simp

lemma demo_run_Ok:
  "is_Ok (bindR (ngx_http_upstream_get_round_robin_peer True (demo_time 100 5) (demo_lb False) (demo_request 100 0))
            (\<lambda>(rc, s, r). ngx_http_log_request_time (demo_time 101 0) s r))"
  using demo_runs_Ok by (auto simp: is_Ok_iff)

lemma demo_arrive_facts:
  assumes "ngx_http_upstream_get_round_robin_peer True (demo_time 100 5) (demo_lb False) (demo_request 100 0)
      = Ok (rc, s, r)"
  shows "demo_facts s r"
  using demo_runs_Ok by (auto simp: is_Ok_iff assms guardR_def split: if_splits)

lemma demo_arrive_Ok:
  "is_Ok (ngx_http_upstream_get_round_robin_peer True (demo_time 100 5) (demo_lb False) (demo_request 100 0))"
  using demo_run_Ok by (auto simp: is_Ok_iff)

lemma demo_get_peer_Ok:
  "\<exists>s' rd' b. ngx_http_upstream_get_peer (demo_time 100 5) (demo_lb False) demo_rrp = Ok (s', rd', b)"
  using demo_arrive_Ok unfolding is_Ok_iff
  by (auto simp: ngx_http_upstream_get_round_robin_peer_def get_peer_in_group_def demo_request_def)

text \<open>The configuration of the demo, and its two peers.\<close>

lemma demo_start: "start_lb (primary (demo_lb dn), backup (demo_lb dn)) = demo_lb dn"
  by (simp add: demo_lb_def start_lb_def split: res.split prod.split option.split)

lemma demo_conf_ok:
  "case ngx_http_upstream_init_round_robin (\<lambda>_. True) (\<lambda>_. True) (\<lambda>_ _. None) (demo_conf False) of
     Ok (rc, Some d) \<Rightarrow> rc = NGX_OK | _ \<Rightarrow> False"
  by code_simp

lemma demo_conf_init:
  "ngx_http_upstream_init_round_robin (\<lambda>_. True) (\<lambda>_. True) (\<lambda>_ _. None) (demo_conf False)
    = Ok (NGX_OK, Some (primary (demo_lb False), backup (demo_lb False)))"
  using demo_conf_ok unfolding demo_lb_def by (auto simp: start_lb_def split: res.splits option.splits)

lemma demo_peers:
  "map heavy (peer (primary (demo_lb False))) = [True, False]"
  "map light (peer (primary (demo_lb False))) = [False, True]"
  "map (peer_usable 100) (peer (primary (demo_lb False))) = [True, True]"
  "map (\<lambda>p. version p \<noteq> None) (peer (primary (demo_lb False))) = [True, True]"
  "find_pt (peer (primary (demo_lb False))) 0 = 500"
  by code_simp+

lemma demo_init_peer:
  "ngx_http_upstream_init_round_robin_peer (\<lambda>_. True) (demo_lb False) (demo_request 100 0)
    = (NGX_OK, demo_request 100 0)"
  by code_simp

end
