(* ===== verification/LB_Theorems.thy ===== *)
theory LB_Theorems
  imports LB_Account LB_Serve LB_Numbers LB_Demo
begin

text \<open>
  The properties of the load balancer: which peer is chosen, what the counters mean in every
  reachable state, and which faults the handlers can run into.
\<close>

section \<open>Configured upstreams\<close>

text \<open>An upstream that \<^verbatim>\<open>ngx_http_upstream_init_round_robin\<close> set up from an \<^verbatim>\<open>upstream\<close> block.\<close>

definition configured :: "srv_conf \<Rightarrow> rr_peers \<times> rr_peers option \<Rightarrow> bool" where
  "configured us d \<longleftrightarrow>
    (\<exists>pal mal resolve ss. servers us = Some ss
      \<and> ngx_http_upstream_init_round_robin pal mal resolve us = Ok (NGX_OK, Some d)
      \<and> length (server_addrs False ss) < 2 ^ 32 \<and> length (server_addrs True ss) < 2 ^ 32)"

lemma running:
  assumes "configured us d" and "reach (start_lb d) k s outs lost" and "int k \<le> INT_MAX - 7"
  shows "run_inv k s outs lost"
proof -
  obtain g b where d: "d = (g, b)" by (cases d)
  have "sys_inv (start_lb d) [] \<and> completed_le 0 (peer g)"
    using assms(1) init_sys_inv unfolding configured_def d by blast
  then have "sys_inv (start_lb d) []" "completed_le 0 (peer (primary (start_lb d)))"
    by (simp_all add: d start_lb_def)
  from reach_inv [OF assms(2) this assms(3)] show ?thesis .
qed

lemma running_inv:
  assumes "configured us d" and "reach (start_lb d) k s outs lost" and "int k \<le> INT_MAX - 7"
  shows "sys_inv s (outs @ lost)" "completed_le (int k) (peer (primary s))" "length (outs @ lost) \<le> k"
  using running [OF assms] by (simp_all add: run_inv_def)

lemma running_no_wrap:
  assumes "configured us d" and "reach (start_lb d) k s outs lost" and "int k \<le> INT_MAX - 7"
  shows "no_wrap (peer (primary s))" "length (outs @ lost) \<le> 2 ^ 53" "length (outs @ lost) < 2 ^ 31"
  using running_inv [OF assms] assms(3) completed_le_mono
  by (auto simp: no_wrap_def INT_MAX_def)

lemma demo_configured: "configured (demo_conf False) (primary (demo_lb False), backup (demo_lb False))"
proof -
  obtain ss where ss: "servers (demo_conf False) = Some ss"
    "length (server_addrs False ss) = 2" "length (server_addrs True ss) = 0"
    by (simp add: demo_conf_def demo_server_def)
  then show ?thesis using demo_conf_init unfolding configured_def by force
qed

text \<open>One request of the demo under way, and the same request at its second try.\<close>

lemma demo_reach:
  assumes g: "ngx_http_upstream_get_round_robin_peer True (demo_time 100 5) (demo_lb False)
      (demo_request 100 0) = Ok (rc, s, r)"
  shows "reach (start_lb (primary (demo_lb False), backup (demo_lb False))) 1 s [r] []"
proof -
  have "rc = NGX_OK" using get_rr_peer_Ok [OF g] by blast
  then have "reach (demo_lb False) (Suc 0) s [r] []"
    using g by (intro reach_arrive [OF reach_start demo_init_peer]) (simp_all add: demo_request_def)
  then show ?thesis by (simp add: demo_start)
qed

lemma demo_reached:
  assumes g: "ngx_http_upstream_get_round_robin_peer True (demo_time 100 5) (demo_lb False)
      (demo_request 100 0) = Ok (rc, s, r)"
    and t: "0 \<le> ms" "ms \<le> 1000"
  obtains hp lp where "peer (primary s) = [hp, lp]" "heavy hp" "\<not> light hp" "light lp" "\<not> heavy lp"
    "eligible (demo_time 100 ms) (tried (rrp r)) (peer (primary s)) 0"
    "eligible (demo_time 100 ms) (tried (rrp r)) (peer (primary s)) 1"
    "sys_inv s [r]" "req_start s r" "one_each (peer (primary s))" "sane (demo_time 100 ms) s"
proof -
  have f: "demo_facts s r" by (rule demo_arrive_facts [OF g])
  have "int 1 \<le> INT_MAX - 7" by (simp add: INT_MAX_def)
  from running [OF demo_configured demo_reach [OF g] this]
  have inv: "sys_inv s [r]" and rs: "req_start s r" by (simp_all add: run_inv_def)
  obtain hp lp where ps: "peer (primary s) = [hp, lp]" and hl: "heavy hp" "\<not> light hp" "light lp" "\<not> heavy lp"
    and us: "peer_usable 100 hp" "peer_usable 100 lp"
    using f by (auto simp: demo_facts_def)
  have "tried_bit (tried (rrp r)) 0 = Ok False" "tried_bit (tried (rrp r)) 1 = Ok False"
    using f by (simp_all add: demo_facts_def tried_bit_def)
  then have el: "eligible (demo_time 100 ms) (tried (rrp r)) (peer (primary s)) 0"
    "eligible (demo_time 100 ms) (tried (rrp r)) (peer (primary s)) 1"
    using us ps by (simp_all add: eligible_def demo_time_def)
  have oe: "one_each (peer (primary s))" using hl unfolding ps by (auto simp: one_each_def less_Suc_eq nth_Cons')
  have "heap s a = None" if "a \<noteq> 0" for a
  proof -
    have "next_addr s \<le> a" using f that by (simp add: demo_facts_def)
    then show ?thesis using inv by (simp add: sys_inv_def)
  qed
  then have "rt_sec nd = 100 \<and> rt_msec nd = 0" if "heap s a = Some nd" for a nd
    using that f by (cases "a = 0") (auto simp: demo_facts_def)
  then have "ages_ok (demo_time 100 ms) (heap s)"
    using t by (auto simp: ages_ok_def elapsed_ms_def demo_time_def)
  then have "sane (demo_time 100 ms) s"
    using f unfolding sane_def sane_version_def fbound_def
    by (auto simp: demo_facts_def list_all_iff split: option.splits)
  with ps hl el inv rs oe show thesis by (rule that)
qed

lemma demo_reach_retry:
  "\<exists>s r r'. reach (start_lb (primary (demo_lb False), backup (demo_lb False))) 2 s [r'] [r]"
proof -
  obtain rc s r where g: "ngx_http_upstream_get_round_robin_peer True (demo_time 100 5) (demo_lb False)
      (demo_request 100 0) = Ok (rc, s, r)"
    using demo_arrive_Ok by (auto simp: is_Ok_iff)
  obtain s' r' where g': "ngx_http_upstream_get_round_robin_peer True (demo_time 100 9) s r = Ok (NGX_OK, s', r')"
    by (rule demo_reached [OF g, of 9]) (use arrive_serves [of s "[r]" r "demo_time 100 9" 0] in auto)
  have "reach (start_lb (primary (demo_lb False), backup (demo_lb False))) 1 s ([] @ r # []) []"
    using demo_reach [OF g] by simp
  from reach_retry [OF this g'] show ?thesis by (auto simp: numeral_2_eq_2)
qed

section \<open>Choosing a peer\<close>

text \<open>C6: every peer that \<^verbatim>\<open>ngx_http_upstream_get_peer\<close> returns was eligible: its bit in the bitmap of
  tried peers is clear, it is not down, not disabled by failures and below its connection limit.\<close>

theorem get_peer_chooses_eligible:
  assumes "ngx_http_upstream_get_peer tp s rd = Ok (s', rd', res)"
    and "group_of s (rrp_peers rd) = Some ps"
  shows "\<exists>b p. res = Some b \<and> current rd' = Some b \<and> b < length (peer ps) \<and> p = peer ps ! b
    \<and> b div 64 < length (tried rd) \<and> \<not> bit (tried rd ! (b div 64)) (b mod 64) \<and> \<not> down p
    \<and> (max_fails p = 0 \<or> fails p < max_fails p \<or> fail_timeout p < tp_sec tp - checked p)
    \<and> (max_conns p = 0 \<or> conns p < max_conns p)"
proof -
  obtain b where b: "res = Some b" "current rd' = Some b"
    using assms(1) by (rule get_peer_Ok) simp
  then have "b < length (peer ps)" "tried_bit (tried rd) b = Ok False" "peer_usable (tp_sec tp) (peer ps ! b)"
    using get_peer_eligible [OF assms] by (simp_all add: eligible_def)
  with b show ?thesis
    by (auto simp: tried_bit_def peer_usable_def peer_failed_def peer_full_def split: if_splits)
qed

theorem get_peer_chooses_eligible_witness:
  "\<exists>s' rd' b. ngx_http_upstream_get_peer (demo_time 100 5) (demo_lb False) demo_rrp = Ok (s', rd', Some b)
    \<and> b < length (peer (primary (demo_lb False))) \<and> \<not> down (peer (primary (demo_lb False)) ! b)"
proof -
  obtain s' rd' res where
    *: "ngx_http_upstream_get_peer (demo_time 100 5) (demo_lb False) demo_rrp = Ok (s', rd', res)"
    using demo_get_peer_Ok by blast
  have "group_of (demo_lb False) (rrp_peers demo_rrp) = Some (primary (demo_lb False))"
    by (simp add: group_of_def demo_rrp_def)
  from * get_peer_chooses_eligible [OF * this] show ?thesis by blast
qed

text \<open>C12: when no peer is eligible the function does not return \<^verbatim>\<open>NULL\<close>: it reads
  \<^verbatim>\<open>best->version\<close> through a null pointer.\<close>

theorem get_peer_no_peer_crashes:
  assumes "group_of s (rrp_peers rd) = Some ps" and "length (peer ps) \<le> 64 * length (tried rd)"
    and "\<forall>i < length (peer ps). \<not> peer_usable (tp_sec tp) (peer ps ! i)"
  shows "ngx_http_upstream_get_peer tp s rd = Fault NullDeref"
  using assms by (intro get_peer_no_eligible) (auto simp: eligible_def)

theorem get_peer_no_peer_crashes_witness:
  "ngx_http_upstream_get_peer (demo_time 100 0) (demo_lb True) demo_rrp = Fault NullDeref"
proof (rule get_peer_no_peer_crashes)
  show "group_of (demo_lb True) (rrp_peers demo_rrp) = Some (primary (demo_lb True))"
    by (simp add: group_of_def demo_rrp_def)
  show "length (peer (primary (demo_lb True))) \<le> 64 * length (tried demo_rrp)" by code_simp
  show "\<forall>i < length (peer (primary (demo_lb True))).
      \<not> peer_usable (tp_sec (demo_time 100 0)) (peer (primary (demo_lb True)) ! i)"
    by code_simp
qed

text \<open>The rule of the code.  With an eligible heavy and an eligible light peer, the light one is
  chosen exactly when the mean age of the watched requests of the heavy version reaches one and a
  half times the performance target or its predicted load reaches the target.  The mean is that of
  integer division, for sums below \<open>2 ^ 24\<close> milliseconds.\<close>

lemma get_peer_rule:
  assumes g: "ngx_http_upstream_get_peer tp s rd = Ok (s', rd', res)"
    and ps: "group_of s (rrp_peers rd) = Some ps" "peer ps = [hp, lp]"
    and hl: "heavy hp" "\<not> light hp" "light lp" "\<not> heavy lp"
    and el: "eligible tp (tried rd) (peer ps) 0" "eligible tp (tried rd) (peer ps) 1"
    and v: "version hp = Some hv"
      "refresh_version (Suc (next_addr s)) tp perf (heap s) hv = Ok (h1, hv')"
    and perf: "perf = find_pt (peer ps) 0" "0 \<le> perf" "perf < 2 ^ 51"
    and sz: "0 \<le> time_sum (old_reqs hv')" "time_sum (old_reqs hv') < 2 ^ 24" "req_count (old_reqs hv') \<le> 2 ^ 24"
  shows "res = Some (if 3 * perf \<le> 2 * (time_sum (old_reqs hv') div max 1 (req_count (old_reqs hv')))
                       \<or> fle (f32 perf) (peer_load hv') then 1 else 0)"
proof -
  obtain st b where
    sl: "select_loop (Suc (next_addr s)) tp perf (tried rd) [0..<length (peer ps)] (sel_start s ps) = Ok st"
    and cb: "choose_best perf st = Ok (Some b)" and res: "res = Some b"
    using g ps(1) perf(1) by (auto elim!: get_peer_Ok)
  let ?a = "time_sum (old_reqs hv') div max 1 (req_count (old_reqs hv'))"
  have e0: "tried_bit (tried rd) 0 = Ok False" "peer_usable (tp_sec tp) hp"
    and e1: "tried_bit (tried rd) 1 = Ok False" "peer_usable (tp_sec tp) lp"
    using el ps(2) by (simp_all add: eligible_def)
  have up: "[0..<length (peer ps)] = [0, 1]" using ps(2) by (simp add: upt_rec)
  have "s_heavy st = Some 0 \<and> s_light st = Some 1 \<and> heavy_load st = peer_load hv'
      \<and> version_of (s_peers st) 0 = Ok (decay_prediction hv')"
    using sl e0 e1 hl v(1) ps(2) v(2)
    by (auto simp: up sel_start_def select_step_def compare_peer_def version_of_def Let_def numeral_2_eq_2)
  then have st: "s_heavy st = Some 0" "s_light st = Some 1" "heavy_load st = peer_load hv'"
    "version_of (s_peers st) 0 = Ok (decay_prediction hv')" by auto
  have "avg_oldest (decay_prediction hv') = Ok ?a" using avg_oldest_exact [of "decay_prediction hv'"] sz by simp
  moreover have "fle (fmul binary64 (f_lit binary64 (3 / 2)) (f64 perf)) (f64 ?a) \<longleftrightarrow> 3 * perf \<le> 2 * ?a"
  proof (rule age_threshold)
    have "0 \<le> ?a" using sz(1) by (simp add: pos_imp_zdiv_nonneg_iff)
    moreover have "?a \<le> time_sum (old_reqs hv')" using zdiv_mono2 [OF sz(1), of 1 "max 1 (req_count (old_reqs hv'))"] by simp
    ultimately show "\<bar>?a\<bar> \<le> 2 ^ 53" using sz(2) by simp
  qed (use perf in auto)
  ultimately show ?thesis using cb res st by (auto simp: choose_best_def split: if_splits)
qed

text \<open>
  The rule of the README (\<^verbatim>\<open>Load Balancing Logic\<close>): a request goes to the light version when its
  predicted response time \<open>ld\<close> on the heavy version reaches the target, or when the age \<open>t\<close> of the oldest
  active request of the heavy version plus the average request load \<open>e\<close> does.
\<close>

definition readme_light :: "int \<Rightarrow> cfloat \<Rightarrow> int \<Rightarrow> rat \<Rightarrow> bool" where
  "readme_light perf ld t e \<longleftrightarrow> fle (f32 perf) ld \<or> of_int perf \<le> of_int t + e"

lemma demo_two_peers:
  obtains hp lp hv h1 hv' where "peer (primary (demo_lb False)) = [hp, lp]" "heavy hp" "\<not> light hp" "light lp"
    "\<not> heavy lp" "version hp = Some hv"
    "refresh_version (Suc (next_addr (demo_lb False))) (demo_time 100 5) 500 (heap (demo_lb False)) hv = Ok (h1, hv')"
    "time_sum (old_reqs hv') = 0" "req_count (old_reqs hv') = 0" "fval (predicted_avg_rt hv') = Some 0"
    "0 \<le> elapsed_ms (demo_time 100 5) (updated_sec (old_reqs hv)) (updated_msec (old_reqs hv))"
    "peer_usable (tp_sec (demo_time 100 5)) hp" "peer_usable (tp_sec (demo_time 100 5)) lp"
proof -
  obtain hp lp where ps: "peer (primary (demo_lb False)) = [hp, lp]" using demo_peers(1) by auto
  have st: "heap (demo_lb False) = Map.empty" "next_addr (demo_lb False) = 0"
    using arg_cong [OF demo_start [of False], of heap] arg_cong [OF demo_start [of False], of next_addr]
    by (simp_all add: start_lb_def)
  have "case version (peer (primary (demo_lb False)) ! 0) of None \<Rightarrow> False
      | Some hv \<Rightarrow> (case refresh_version 1 (demo_time 100 5) 500 Map.empty hv of
          Ok (h1, hv') \<Rightarrow> time_sum (old_reqs hv') = 0 \<and> req_count (old_reqs hv') = 0
            \<and> fval (predicted_avg_rt hv') = Some 0
            \<and> 0 \<le> elapsed_ms (demo_time 100 5) (updated_sec (old_reqs hv)) (updated_msec (old_reqs hv))
        | Fault _ \<Rightarrow> False)"
    by code_simp
  then obtain hv h1 hv' where "version hp = Some hv"
    "refresh_version (Suc (next_addr (demo_lb False))) (demo_time 100 5) 500 (heap (demo_lb False)) hv = Ok (h1, hv')"
    "time_sum (old_reqs hv') = 0" "req_count (old_reqs hv') = 0" "fval (predicted_avg_rt hv') = Some 0"
    "0 \<le> elapsed_ms (demo_time 100 5) (updated_sec (old_reqs hv)) (updated_msec (old_reqs hv))"
    using ps st by (auto split: option.splits res.splits)
  then show thesis using that ps demo_peers by (simp add: demo_time_def)
qed



text \<open>Where the code leaves rule 2 of the README.  When the predicted load is below the target, but the
  oldest active request plus the average load reach it, the README sends the request to the light
  version; as long as the mean age of the watched requests is below one and a half times the target, the
  code sends it to the heavy version.\<close>

theorem readme_rule_two_not_followed:
  assumes g: "ngx_http_upstream_get_peer tp s rd = Ok (s', rd', res)"
    and ps: "rrp_peers rd = Primary" "peer (primary s) = [hp, lp]"
    and hl: "heavy hp" "\<not> light hp" "light lp" "\<not> heavy lp"
    and el: "eligible tp (tried rd) (peer (primary s)) 0" "eligible tp (tried rd) (peer (primary s)) 1"
    and v: "version hp = Some hv"
      "refresh_version (Suc (next_addr s)) tp perf (heap s) hv = Ok (h1, hv')"
    and perf: "perf = find_pt (peer (primary s)) 0" "0 \<le> perf" "perf < 2 ^ 51"
    and sz: "0 \<le> time_sum (old_reqs hv')" "time_sum (old_reqs hv') < 2 ^ 24" "req_count (old_reqs hv') \<le> 2 ^ 24"
    and e: "fval (predicted_avg_rt hv') = Some e"
    and rule2: "of_int perf \<le> of_int (oldest_age tp (of_version 0 rs)) + e"
    and code: "\<not> fle (f32 perf) (peer_load hv')"
      "2 * (time_sum (old_reqs hv') div max 1 (req_count (old_reqs hv'))) < 3 * perf"
  shows "readme_light perf (peer_load hv') (oldest_age tp (of_version 0 rs)) e \<and> res = Some 0"
proof -
  have "group_of s (rrp_peers rd) = Some (primary s)" using ps(1) by (simp add: group_of_def)
  from get_peer_rule [OF g this ps(2) hl el v perf sz] show ?thesis
    using rule2 code by (simp add: readme_light_def)
qed

theorem readme_rule_two_not_followed_witness:
  "\<exists>s r res. reach (start_lb (primary (demo_lb False), backup (demo_lb False))) 1 s [r] []
    \<and> (\<exists>s' rd'. ngx_http_upstream_get_peer (demo_time 100 600) s (rrp r) = Ok (s', rd', res)) \<and> res = Some 0
    \<and> of_int 500 \<le> of_int (oldest_age (demo_time 100 600) (of_version 0 [r])) + (0 :: rat)"
proof -
  obtain rc s r where g: "ngx_http_upstream_get_round_robin_peer True (demo_time 100 5) (demo_lb False)
      (demo_request 100 0) = Ok (rc, s, r)"
    using demo_arrive_Ok by (auto simp: is_Ok_iff)
  have f: "demo_facts s r" by (rule demo_arrive_facts [OF g])
  obtain hp lp where p: "peer (primary s) = [hp, lp]" "heavy hp" "\<not> light hp" "light lp" "\<not> heavy lp"
    and el: "eligible (demo_time 100 600) (tried (rrp r)) (peer (primary s)) 0"
      "eligible (demo_time 100 600) (tried (rrp r)) (peer (primary s)) 1"
    and st: "sys_inv s [r]" "req_start s r" "one_each (peer (primary s))" "sane (demo_time 100 600) s"
    by (rule demo_reached [OF g, of 600]) auto
  obtain s2 r2 where "ngx_http_upstream_get_round_robin_peer True (demo_time 100 600) s r = Ok (NGX_OK, s2, r2)"
    using arrive_serves [OF st(1-3) el(1) st(4)] by auto
  then obtain s' rd' res where g': "ngx_http_upstream_get_peer (demo_time 100 600) s (rrp r) = Ok (s', rd', res)"
    using get_rr_peer_Ok by (metis get_peer_in_group_Ok)
  obtain hv h1 hv' where hv: "version hp = Some hv"
      "refresh_version (Suc (next_addr s)) (demo_time 100 600) 500 (heap s) hv = Ok (h1, hv')"
    and n: "time_sum (old_reqs hv') = 600" "req_count (old_reqs hv') = 1" "fval (predicted_avg_rt hv') = Some 0"
      "\<not> fle (f32 500) (peer_load hv')"
      "0 \<le> elapsed_ms (demo_time 100 600) (updated_sec (old_reqs hv)) (updated_msec (old_reqs hv))"
    using f p(1) by (auto simp: demo_facts_def numeral_2_eq_2 split: option.splits res.splits)
  have v0: "0 < length (peer (primary s))" "version (peer (primary s) ! 0) = Some hv" using p(1) hv(1) by simp_all
  have "600 \<le> oldest_age (demo_time 100 600) (of_version 0 [r])"
    using mean_le_oldest [OF st(1) v0 hv(2) n(5)] n(1,2) by simp
  then have old: "of_int 500 \<le> of_int (oldest_age (demo_time 100 600) (of_version 0 [r])) + (0 :: rat)"
    using of_int_le_iff [of 600 "oldest_age (demo_time 100 600) (of_version 0 [r])", where 'a = rat] by simp
  have pf: "(500 :: int) = find_pt (peer (primary s)) 0" "(0 :: int) \<le> 500" "(500 :: int) < 2 ^ 51"
    and sz: "0 \<le> time_sum (old_reqs hv')" "time_sum (old_reqs hv') < 2 ^ 24" "req_count (old_reqs hv') \<le> 2 ^ 24"
    and mean: "2 * (time_sum (old_reqs hv') div max 1 (req_count (old_reqs hv'))) < 3 * (500 :: int)"
    and pr: "rrp_peers (rrp r) = Primary"
    using f n(1,2) by (simp_all add: demo_facts_def)
  have "res = Some 0"
    using readme_rule_two_not_followed [OF g' pr p el hv pf sz n(3) old n(4) mean] by blast
  with g' old demo_reach [OF g] show ?thesis by blast
qed

section \<open>Reachable states\<close>

text \<open>One more request in the list is one more active request of its version.\<close>

lemma sys_inv_entered:
  assumes inv: "sys_inv s outs" and inv': "sys_inv s' (r # outs)"
    and len: "length (peer (primary s')) = length (peer (primary s))"
  obtains i v v' where "r_version r = Some (Primary, i)" "version (peer (primary s) ! i) = Some v"
    "version (peer (primary s') ! i) = Some v'" "active_req v' = active_req v + 1"
proof -
  obtain qs where q: "queues_ok (heap s) (peer (primary s)) qs" and o: "outs_ok (heap s) qs outs"
    using inv by (auto simp: sys_inv_def)
  obtain qs' where q': "queues_ok (heap s') (peer (primary s')) qs'" and o': "outs_ok (heap s') qs' (r # outs)"
    using inv' by (auto simp: sys_inv_def)
  obtain i where i: "r_version r = Some (Primary, i)" "i < length qs'"
    using o' by (auto simp: outs_ok_def elim: req_okE)
  have l: "length qs = length (peer (primary s))" "length qs' = length (peer (primary s'))"
    using q q' by (simp_all add: queues_ok_def)
  then have il: "i < length (peer (primary s))" "i < length (peer (primary s'))" using i len by simp_all
  obtain v where v: "version (peer (primary s) ! i) = Some v" "version_ok (heap s) v (qs ! i)"
    using queues_okD [OF q il(1)] by blast
  obtain v' where v': "version (peer (primary s') ! i) = Some v'" "version_ok (heap s') v' (qs' ! i)"
    using queues_okD [OF q' il(2)] by blast
  have "active_req v' = active_req v + 1"
    using v(2) v'(2) o o' i il l by (simp add: version_ok_def outs_ok_def)
  with i(1) v(1) v'(1) show thesis by (rule that)
qed

lemma demo_sane: "sane (demo_time 100 5) (demo_lb False)"
proof -
  have h: "heap (demo_lb False) = Map.empty"
    using arg_cong [OF demo_start [of False], of heap] by (simp add: start_lb_def)
  have "list_all (\<lambda>p. case version p of None \<Rightarrow> True | Some v \<Rightarrow>
      fval (predicted_avg_rt v) = Some 0 \<and> time_sum (old_reqs v) = 0) (peer (primary (demo_lb False)))"
    by code_simp
  then show ?thesis
    using demo_peers(5) h
    by (auto simp: sane_def sane_version_def ages_ok_def fbound_def list_all_iff split: option.splits)
qed

text \<open>C1: in every state reached by arrivals, releases, retries and completions (before the counter of
  completed requests wraps), each version's \<^verbatim>\<open>active_req\<close> is the number of its requests under way plus
  the number of tries of requests that were retried since, which are never taken off again; the
  group's counter is the number of all of them.  \<^verbatim>\<open>old_requests\<close> has exactly those numbered up to
  \<^verbatim>\<open>recent_req_num\<close>, and \<^verbatim>\<open>time_sum\<close> is the sum of their ages at the last update.\<close>

theorem reachable_accounting:
  assumes "configured us d" and "reach (start_lb d) k s outs lost" and "int k \<le> INT_MAX - 7"
    and i: "i < length (peer (primary s))" and v: "version (peer (primary s) ! i) = Some v"
  shows "ps_active_req (primary s) = int (length outs) + int (length lost)
    \<and> active_req v = int (length (of_version i outs)) + int (length (of_version i lost))
    \<and> req_count (old_reqs v) = int (length (watched_reqs (old_reqs v) (of_version i (outs @ lost))))
    \<and> time_sum (old_reqs v) = (\<Sum>r \<leftarrow> watched_reqs (old_reqs v) (of_version i (outs @ lost)).
           req_age (updated_sec (old_reqs v)) (updated_msec (old_reqs v)) r)
    \<and> 0 \<le> completed_requests v \<and> completed_requests v \<le> int k"
proof -
  have inv: "sys_inv s (outs @ lost)" and c: "completed_le (int k) (peer (primary s))"
    using running_inv [OF assms(1-3)] by auto
  obtain qs where q: "queues_ok (heap s) (peer (primary s)) qs" and o: "outs_ok (heap s) qs (outs @ lost)"
    using inv by (auto simp: sys_inv_def)
  have vo: "version_ok (heap s) v (qs ! i)" using queues_okD [OF q i] v by auto
  have il: "i < length qs" using i q by (simp add: queues_ok_def)
  have "active_req v = int (length (of_version i outs)) + int (length (of_version i lost))"
    using vo o il by (simp add: version_ok_def outs_ok_def)
  then show ?thesis
    using inv c i v vo watched_account [OF o il vo] by (simp add: sys_inv_def completed_le_def version_ok_def)
qed

theorem reachable_accounting_witness:
  "\<exists>s r r' v. reach (start_lb (primary (demo_lb False), backup (demo_lb False))) 2 s [r'] [r]
    \<and> version (peer (primary s) ! 0) = Some v \<and> ps_active_req (primary s) = 2
    \<and> active_req v = int (length (of_version 0 [r'])) + int (length (of_version 0 [r]))"
proof -
  obtain s r r' where re: "reach (start_lb (primary (demo_lb False), backup (demo_lb False))) 2 s [r'] [r]"
    using demo_reach_retry by blast
  have k: "int 2 \<le> INT_MAX - 7" by (simp add: INT_MAX_def)
  have inv: "sys_inv s ([r'] @ [r])" by (rule running_inv(1) [OF demo_configured re k])
  then obtain qs where q: "queues_ok (heap s) (peer (primary s)) qs" and o: "outs_ok (heap s) qs ([r'] @ [r])"
    by (auto simp: sys_inv_def)
  have "0 < length (peer (primary s))"
    using q o by (auto simp: outs_ok_def req_ok_def queues_ok_def)
  then obtain v where i: "0 < length (peer (primary s))" and v: "version (peer (primary s) ! 0) = Some v"
    using queues_okD [OF q] by blast
  show ?thesis
    using re v reachable_accounting [OF demo_configured re k i v]
    by (intro exI [of _ s] exI [of _ r] exI [of _ r'] exI [of _ v]) simp
qed



text \<open>C4: with at most one heavy and one light peer and an eligible peer, an arriving request is served
  in every reachable state whose numbers are realistic (\<open>sane\<close>: a target and predictions of at most
  \<open>2 ^ 31\<close> milliseconds, recorded times within \<open>2 ^ 60\<close> milliseconds of now): the call returns
  \<^verbatim>\<open>NGX_OK\<close>, the request is entered into a version and counted.\<close>

theorem arrive_safe:
  assumes "configured us d" and "reach (start_lb d) k s outs lost" and "int k \<le> INT_MAX - 7"
    and "ngx_http_upstream_init_round_robin_peer pal s r0 = (NGX_OK, r)" and "0 \<le> start_sec r0"
    and "one_each (peer (primary s))" and "eligible tp (tried (rrp r)) (peer (primary s)) j"
    and "sane tp s"
  shows "\<exists>s' r'. ngx_http_upstream_get_round_robin_peer True tp s r = Ok (NGX_OK, s', r')
    \<and> reach (start_lb d) (Suc k) s' (r' # outs) lost
    \<and> ps_active_req (primary s') = ps_active_req (primary s) + 1
    \<and> (\<exists>i v v'. r_version r' = Some (Primary, i) \<and> version (peer (primary s) ! i) = Some v
         \<and> version (peer (primary s') ! i) = Some v' \<and> active_req v' = active_req v + 1)"
proof -
  have inv: "sys_inv s (outs @ lost)" by (rule running_inv(1) [OF assms(1-3)])
  have rs: "req_start s r" by (rule init_peer_req_start [OF inv assms(4,5)])
  obtain s' r' where g: "ngx_http_upstream_get_round_robin_peer True tp s r = Ok (NGX_OK, s', r')"
    using arrive_serves [OF inv rs assms(6-8) running_no_wrap(3) [OF assms(1-3)]] by blast
  have inv': "sys_inv s' (r' # outs @ lost)" using arrive_inv [OF inv rs g] by simp
  obtain i v v' where "r_version r' = Some (Primary, i)" "version (peer (primary s) ! i) = Some v"
    "version (peer (primary s') ! i) = Some v'" "active_req v' = active_req v + 1"
    using sys_inv_entered [OF inv inv' arrive_keeps(1) [OF inv rs g]] by blast
  then show ?thesis
    using g inv inv' reach_arrive [OF assms(2,4,5) g] by (auto simp: sys_inv_def)
qed

theorem arrive_safe_witness:
  "\<exists>s' r'. ngx_http_upstream_get_round_robin_peer True (demo_time 100 5) (demo_lb False) (demo_request 100 0)
      = Ok (NGX_OK, s', r') \<and> ps_active_req (primary s') = ps_active_req (primary (demo_lb False)) + 1"
proof -
  let ?d = "(primary (demo_lb False), backup (demo_lb False))"
  have re: "reach (start_lb ?d) 0 (demo_lb False) [] []" unfolding demo_start by (rule reach_start)
  have k: "int 0 \<le> INT_MAX - 7" by (simp add: INT_MAX_def)
  have s0: "0 \<le> start_sec (demo_request 100 0)" by (simp add: demo_request_def)
  obtain hp lp where p: "peer (primary (demo_lb False)) = [hp, lp]" "heavy hp" "\<not> light hp" "light lp"
    "\<not> heavy lp" "peer_usable (tp_sec (demo_time 100 5)) hp"
    by (rule demo_two_peers)
  have oe: "one_each (peer (primary (demo_lb False)))"
    using p by (auto simp: one_each_def less_Suc_eq nth_Cons')
  have "tried_bit (tried demo_rrp) 0 = Ok False" by code_simp
  then have el: "eligible (demo_time 100 5) (tried (rrp (demo_request 100 0))) (peer (primary (demo_lb False))) 0"
    using p by (simp add: eligible_def demo_request_def)
  from arrive_safe [OF demo_configured re k demo_init_peer s0 oe el demo_sane] show ?thesis by blast
qed

end
