(* ===== verification/LB_Operations.thy ===== *)
theory LB_Operations
  imports LB_Theorems
begin

text \<open>
  Properties of single operations of the balancer: the effects of an arrival, the disabling of failing
  peers, the bounds of the effective weight, and the arithmetic of the response-time model.
\<close>

section \<open>Arrival\<close>

lemma same_static_conns: "same_static p p' \<Longrightarrow> conns p' = conns p"
  by (simp add: same_static_simps)

text \<open>C8: what a successful \<^verbatim>\<open>ngx_http_upstream_get_round_robin_peer\<close> does to the group: one more active
  request and one more connection of the chosen peer, no other connection count changes, and the bitmap
  of tried peers is left as it was, so a retry may choose the same peer again.\<close>

theorem get_round_robin_peer_effects:
  assumes g: "ngx_http_upstream_get_round_robin_peer True tp s r = Ok (rc, s', r')"
    and pr: "rrp_peers (rrp r) = Primary"
  shows "rc = NGX_OK \<and> ps_active_req (primary s') = ps_active_req (primary s) + 1
    \<and> ps_req_count (primary s') = ps_req_count (primary s) + 1
    \<and> max_req (primary s') = max (ps_active_req (primary s) + 1) (max_req (primary s))
    \<and> tried (rrp r') = tried (rrp r) \<and> backup s' = backup s \<and> next_addr s' = Suc (next_addr s)
    \<and> (\<exists>b < length (peer (primary s)). current (rrp r') = Some b \<and> r_version r' = Some (Primary, b)
        \<and> pc_name r' = pname (peer (primary s) ! b)
        \<and> map conns (peer (primary s')) = (map conns (peer (primary s)))[b := conns (peer (primary s) ! b) + 1])"
proof -
  have rc: "rc = NGX_OK" and gg: "get_peer_in_group True tp s r = Ok (Some (s', r'))"
    using get_rr_peer_Ok [OF g] by auto
  obtain s1 rd b ps where gp: "ngx_http_upstream_get_peer tp s (rrp r) = Ok (s1, rd, Some b)"
    and ps: "group_of s1 (rrp_peers rd) = Some ps"
    and bf: "ngx_http_upstream_buffer_request_data True tp
       (set_group s1 (rrp_peers rd)
         (ps\<lparr>peer := (peer ps)[b := (peer ps ! b)\<lparr>conns := conns (peer ps ! b) + 1\<rparr>]\<rparr>))
       (r\<lparr>rrp := rd, pc_sockaddr := Some (sockaddr (peer ps ! b)), pc_name := pname (peer ps ! b)\<rparr>)
      = Ok (s', r')"
    using gg by (auto elim!: get_peer_in_group_Ok)
  obtain st v' where
    sl: "select_loop (Suc (next_addr s)) tp (find_pt (peer (primary s)) 0) (tried (rrp r))
       [0..<length (peer (primary s))] (sel_start s (primary s)) = Ok st"
    and rd: "rd = (rrp r)\<lparr>current := Some b\<rparr>"
    and s1: "s1 = s\<lparr>heap := s_heap st, primary := (enter_peers (primary s))
            \<lparr>peer := (s_peers st)[b := (s_peers st ! b)\<lparr>version := Some v', checked := tp_sec tp\<rparr>]\<rparr>\<rparr>"
    using gp pr by (auto simp: group_of_def set_group_def elim!: get_peer_Ok)
  have "eligible tp (tried (rrp r)) (peer (primary s)) b"
    using get_peer_eligible [OF gp, of "primary s"] pr by (simp add: group_of_def)
  then have b: "b < length (peer (primary s))" by (simp add: eligible_def)
  have ss: "same_statics (peer (primary s)) (s_peers st)"
    using select_loop_chosen [OF sel_start_chosen _ sl] by (simp add: chosen_ok_def)
  note len = same_statics_length [OF ss] and nth = same_static_simps [OF same_statics_nth [OF ss]]
  have ps': "ps = primary s1" using ps rd pr by (simp add: group_of_def)
  have pb: "pname (peer ps ! b) = pname (peer (primary s) ! b)"
    using b len nth(7) by (simp add: ps' s1)
  define p2 where "p2 = (s_peers st ! b)\<lparr>version := Some v', checked := tp_sec tp, conns := conns (s_peers st ! b) + 1\<rparr>"
  define s2 where "s2 = s\<lparr>heap := s_heap st, primary := (enter_peers (primary s))\<lparr>peer := (s_peers st)[b := p2]\<rparr>\<rparr>"
  have bf': "ngx_http_upstream_buffer_request_data True tp s2
      (r\<lparr>rrp := rd, pc_sockaddr := Some (sockaddr (peer ps ! b)), pc_name := pname (peer ps ! b)\<rparr>) = Ok (s', r')"
    using bf b len pr rd by (simp add: s2_def s1 ps' set_group_def p2_def)
  then obtain h' w where s': "s' = s2\<lparr>heap := h', next_addr := Suc (next_addr s),
        primary := (primary s2)\<lparr>peer := (s_peers st)[b := p2\<lparr>version := w\<rparr>]\<rparr>\<rparr>"
    and r': "rrp r' = rd" "r_version r' = Some (Primary, b)" "pc_name r' = pname (peer ps ! b)"
    using b len pr rd
    by (auto simp: ngx_http_upstream_buffer_request_data_def group_of_def set_group_def Let_def s2_def)
  have "map conns (s_peers st) = map conns (peer (primary s))"
    using len nth(5) by (intro nth_equalityI) simp_all
  then have "map conns (peer (primary s')) = (map conns (peer (primary s)))[b := conns (peer (primary s) ! b) + 1]"
    using b nth(5) len by (simp add: s' p2_def map_update)
  then show ?thesis
    using rc b r' rd pb by (auto simp: s' s2_def enter_peers_def Let_def)
qed

theorem get_round_robin_peer_effects_witness:
  "\<exists>s' r' b. ngx_http_upstream_get_round_robin_peer True (demo_time 100 5) (demo_lb False) (demo_request 100 0)
      = Ok (NGX_OK, s', r') \<and> tried (rrp r') = tried (rrp (demo_request 100 0)) \<and> current (rrp r') = Some b"
proof -
  obtain rc s' r' where g: "ngx_http_upstream_get_round_robin_peer True (demo_time 100 5) (demo_lb False)
      (demo_request 100 0) = Ok (rc, s', r')"
    using demo_arrive_Ok by (auto simp: is_Ok_iff)
  have "rrp_peers (rrp (demo_request 100 0)) = Primary" by (simp add: demo_request_def demo_rrp_def)
  from get_round_robin_peer_effects [OF g this] g show ?thesis by blast
qed

text \<open>C7: in every reachable state, with any number of peers, the selection never reads a freed node,
  never leaves an array and always ends; what can go wrong is a null pointer (no eligible peer, or no
  heavy one) and the conversion of a \<^verbatim>\<open>float\<close>.\<close>

theorem get_peer_memory_safe:
  assumes "configured us d" and "reach (start_lb d) k s outs lost" and "int k \<le> INT_MAX - 7"
    and "ngx_http_upstream_init_round_robin_peer pal s r0 = (NGX_OK, r)" and "0 \<le> start_sec r0"
  shows "outcome {NullDeref, BadConversion} (\<lambda>_. True) (ngx_http_upstream_get_peer tp s (rrp r))"
proof -
  have inv: "sys_inv s (outs @ lost)" by (rule running_inv(1) [OF assms(1-3)])
  have rs: "req_start s r" by (rule init_peer_req_start [OF inv assms(4,5)])
  obtain qs where "queues_ok (heap s) (peer (primary s)) qs" "\<forall>q \<in> set qs. \<forall>a \<in> set q. a < next_addr s"
    using inv by (auto simp: sys_inv_def)
  then show ?thesis using rs by (intro get_peer_outcome_any) (simp_all add: req_start_def)
qed

theorem get_peer_memory_safe_witness:
  "outcome {NullDeref, BadConversion} (\<lambda>_. True)
    (ngx_http_upstream_get_peer (demo_time 100 5) (demo_lb False) (rrp (demo_request 100 0)))"
proof -
  let ?d = "(primary (demo_lb False), backup (demo_lb False))"
  have re: "reach (start_lb ?d) 0 (demo_lb False) [] []" unfolding demo_start by (rule reach_start)
  have k: "int 0 \<le> INT_MAX - 7" by (simp add: INT_MAX_def)
  have s0: "0 \<le> start_sec (demo_request 100 0)" by (simp add: demo_request_def)
  show ?thesis by (rule get_peer_memory_safe [OF demo_configured re k demo_init_peer s0])
qed

section \<open>Releasing a peer\<close>

lemma free_not_single:
  assumes "group_of s (rrp_peers (rrp r)) = Some ps" and "\<not> single ps" and "current (rrp r) = Some i"
    and "i < length (peer ps)"
  shows "ngx_http_upstream_free_round_robin_peer tp s r state =
    (let p = peer ps ! i;
         q = (if and state NGX_PEER_FAILED \<noteq> 0 then free_failed_peer (tp_sec tp) p else free_live_peer p)
     in Ok (set_group s (rrp_peers (rrp r)) (ps\<lparr>peer := (peer ps)[i := q\<lparr>conns := conns q - 1\<rparr>]\<rparr>),
            r\<lparr>pc_tries := (if pc_tries r \<noteq> 0 then pc_tries r - 1 else 0)\<rparr>))"
  using assms by (simp add: ngx_http_upstream_free_round_robin_peer_def Let_def)

text \<open>C9: a failure that brings the count to \<^verbatim>\<open>max_fails\<close> disables the peer for \<^verbatim>\<open>fail_timeout\<close>
  seconds and no longer.\<close>

theorem failed_peer_disabled:
  assumes "group_of s (rrp_peers (rrp r)) = Some ps" and "\<not> single ps" and "current (rrp r) = Some i"
    and "i < length (peer ps)" and "and state NGX_PEER_FAILED \<noteq> 0"
    and mf: "max_fails (peer ps ! i) \<noteq> 0" "fails (peer ps ! i) + 1 \<ge> max_fails (peer ps ! i)"
  shows "\<exists>s' r' ps'. ngx_http_upstream_free_round_robin_peer tp s r state = Ok (s', r')
    \<and> group_of s' (rrp_peers (rrp r)) = Some ps' \<and> conns (peer ps' ! i) = conns (peer ps ! i) - 1
    \<and> (\<forall>now. now \<le> tp_sec tp + fail_timeout (peer ps ! i) \<longrightarrow> \<not> peer_usable now (peer ps' ! i))
    \<and> (\<forall>now. tp_sec tp + fail_timeout (peer ps ! i) < now \<longrightarrow>
         (peer_usable now (peer ps' ! i) \<longleftrightarrow> \<not> down (peer ps ! i) \<and> \<not> peer_full (peer ps' ! i)))"
proof -
  let ?q = "free_failed_peer (tp_sec tp) (peer ps ! i)"
  let ?ps = "ps\<lparr>peer := (peer ps)[i := ?q\<lparr>conns := conns ?q - 1\<rparr>]\<rparr>"
  have f: "ngx_http_upstream_free_round_robin_peer tp s r state
      = Ok (set_group s (rrp_peers (rrp r)) ?ps, r\<lparr>pc_tries := (if pc_tries r \<noteq> 0 then pc_tries r - 1 else 0)\<rparr>)"
    using free_not_single [OF assms(1-4), of tp state] assms(5) by (simp add: Let_def)
  have q: "peer ?ps ! i = ?q\<lparr>conns := conns ?q - 1\<rparr>" using assms(4) by simp
  have "group_of (set_group s (rrp_peers (rrp r)) ?ps) (rrp_peers (rrp r)) = Some ?ps"
    by (simp add: group_of_def set_group_def split: group.split)
  moreover have "conns (peer ?ps ! i) = conns (peer ps ! i) - 1"
    unfolding q by (simp add: free_failed_peer_def Let_def)
  moreover have "\<forall>now. now \<le> tp_sec tp + fail_timeout (peer ps ! i) \<longrightarrow> \<not> peer_usable now (peer ?ps ! i)"
    "\<forall>now. tp_sec tp + fail_timeout (peer ps ! i) < now \<longrightarrow>
         (peer_usable now (peer ?ps ! i) \<longleftrightarrow> \<not> down (peer ps ! i) \<and> \<not> peer_full (peer ?ps ! i))"
    unfolding q using mf by (auto simp: peer_usable_def peer_failed_def free_failed_peer_def Let_def)
  ultimately show ?thesis using f by blast
qed

theorem failed_peer_disabled_witness:
  "\<exists>s' r' ps'. ngx_http_upstream_free_round_robin_peer (demo_time 100 0) (demo_lb False)
      ((demo_request 100 0)\<lparr>rrp := demo_rrp\<lparr>current := Some 0\<rparr>\<rparr>) NGX_PEER_FAILED = Ok (s', r')
    \<and> group_of s' Primary = Some ps' \<and> \<not> peer_usable 110 (peer ps' ! 0)"
proof -
  let ?r = "(demo_request 100 0)\<lparr>rrp := demo_rrp\<lparr>current := Some 0\<rparr>\<rparr>" and ?ps = "primary (demo_lb False)"
  have r: "rrp_peers (rrp ?r) = Primary" "current (rrp ?r) = Some 0" by (simp_all add: demo_rrp_def)
  have g: "group_of (demo_lb False) (rrp_peers (rrp ?r)) = Some ?ps" using r by (simp add: group_of_def)
  have c: "\<not> single ?ps" "0 < length (peer ?ps)" "and NGX_PEER_FAILED NGX_PEER_FAILED \<noteq> 0"
    "max_fails (peer ?ps ! 0) \<noteq> 0" "fails (peer ?ps ! 0) + 1 \<ge> max_fails (peer ?ps ! 0)"
    "fail_timeout (peer ?ps ! 0) = 10" by code_simp+
  have t: "(110 :: int) \<le> tp_sec (demo_time 100 0) + fail_timeout (peer ?ps ! 0)"
    using c(6) by (simp add: demo_time_def)
  from failed_peer_disabled [OF g c(1) r(2) c(2-5), of "demo_time 100 0"] t show ?thesis
    unfolding r by blast
qed

lemma sint_of_int64: "- (2 ^ 63) \<le> x \<Longrightarrow> x < 2 ^ 63 \<Longrightarrow> sint (word_of_int x :: ngx_uint_t) = x"
  by transfer (simp add: signed_take_bit_int_eq_self)

lemma weaken_bounds:
  assumes w: "0 \<le> effective_weight p" "effective_weight p \<le> weight p" "weight p < 2 ^ 63"
  shows "weaken p \<le> effective_weight p"
proof -
  let ?w = "word_of_int (weight p) :: 64 word" and ?e = "word_of_int (effective_weight p) :: 64 word"
  have ui: "uint ?w = weight p" "uint ?e = effective_weight p"
    using w by (simp_all add: uint_word_of_int)
  have "uint (?w div max_fails p) = weight p div uint (max_fails p)" by (simp add: uint_div ui)
  define k where "k = weight p div uint (max_fails p)"
  have w0: "0 \<le> weight p" using w by simp
  have k: "0 \<le> k \<and> k \<le> weight p"
  proof (cases "uint (max_fails p) = 0")
    case True
    then show ?thesis using w0 by (simp add: k_def)
  next
    case False
    then have "0 < uint (max_fails p)" using uint_nonnegative [of "max_fails p"] by linarith
    then show ?thesis
      using w0 zdiv_mono2 [OF w0, of 1 "uint (max_fails p)"] by (simp add: k_def pos_imp_zdiv_nonneg_iff)
  qed
  have e: "?e - ?w div max_fails p = word_of_int (effective_weight p - k)"
    using \<open>uint (?w div max_fails p) = weight p div uint (max_fails p)\<close>
    by (metis k_def wi_hom_sub word_of_int_uint)
  have "weaken p = effective_weight p - k"
    unfolding weaken_def e using w k by (intro sint_of_int64) auto
  then show ?thesis using k by simp
qed

text \<open>Releasing keeps \<open>0 \<le> effective_weight \<le> weight\<close>, whatever the state of the peer.\<close>

theorem free_peer_weight_bounds:
  assumes "0 \<le> effective_weight p" and "effective_weight p \<le> weight p" and "weight p < 2 ^ 63"
  shows "0 \<le> effective_weight (free_failed_peer now p) \<and> effective_weight (free_failed_peer now p) \<le> weight p
    \<and> effective_weight (free_live_peer p) = effective_weight p \<and> weight (free_failed_peer now p) = weight p"
  using assms weaken_bounds [OF assms] by (auto simp: free_failed_peer_def free_live_peer_def Let_def)

theorem free_peer_weight_bounds_witness:
  "effective_weight (free_failed_peer 100 (peer (primary (demo_lb False)) ! 0)) \<le> 2"
proof -
  let ?p = "peer (primary (demo_lb False)) ! 0"
  have "effective_weight ?p = 2" "weight ?p = 2" by code_simp+
  then show ?thesis using free_peer_weight_bounds [of ?p 100] by simp
qed

section \<open>Completion\<close>

lemma response_ms_exact:
  assumes "0 \<le> elapsed_ms tp (start_sec r) (start_msec r)" "elapsed_ms tp (start_sec r) (start_msec r) \<le> 2 ^ 24"
  shows "response_ms tp r = Fin (of_int (elapsed_ms tp (start_sec r) (start_msec r)))"
proof -
  let ?m = "elapsed_ms tp (start_sec r) (start_msec r)"
  have "f32 ?m = Fin (of_int ?m)" "f32 0 = Fin 0"
    using assms f_of_int_exact32 [of ?m] f_of_int_exact32 [of 0] by simp_all
  then show ?thesis using assms(1) by (simp add: response_ms_def ngx_maxf_def flt.simps)
qed

lemma sub32_exact:
  assumes "\<bar>a\<bar> \<le> 2 ^ 23" and "\<bar>b\<bar> \<le> 2 ^ 23"
  shows "f_to_int (fsub binary32 (f32 a) (Fin (of_int b))) = Ok (a - b)"
proof -
  have fa: "f32 a = Fin (of_int a)" using assms by (intro f_of_int_exact32) simp
  have "fsub binary32 (f32 a) (Fin (of_int b)) = round_to binary32 (is_neg (f32 a) \<and> is_neg (fneg (Fin (of_int b)))) (of_int (a - b))"
    using fsub_fin [of "f32 a" "of_int a" "Fin (of_int b)" "of_int b" binary32] by (simp add: fa)
  moreover have "b32.representable (of_int (a - b))" using assms by (intro b32_representable_int) simp
  ultimately have "fval (fsub binary32 (f32 a) (Fin (of_int b))) = Some (of_int (a - b))"
    by (metis b32.round_to_exact)
  moreover have "trunc (of_int (a - b)) = a - b" by (rule trunc_of_int)
  ultimately show ?thesis using assms f_to_int_fin [of "fsub binary32 (f32 a) (Fin (of_int b))" "of_int (a - b)"]
    by simp
qed

text \<open>C11: the running \<^verbatim>\<open>service_time\<close>, which passes through \<^verbatim>\<open>float\<close>, is exact while it stays below
  \<open>2 ^ 23\<close> milliseconds: completion adds the elapsed time of all active requests and takes out the
  response time of the completed one.\<close>

theorem service_time_exact:
  assumes "req_upper_bound v \<noteq> 0"
    and st: "st = service_time v + active_req v
               * elapsed_ms tp (service_time_update_sec v) (service_time_update_msec v)" "\<bar>st\<bar> \<le> 2 ^ 23"
    and ms: "ms = elapsed_ms tp (start_sec r) (start_msec r)" "0 \<le> ms" "ms \<le> 2 ^ 23"
  shows "\<exists>v'. complete_counters tp r v = Ok v' \<and> service_time v' = st - ms
    \<and> active_req v' = active_req v - 1 \<and> latest v' = no r
    \<and> completed_requests v' = (completed_requests v + 1) mod req_upper_bound v"
proof -
  have "response_ms tp r = Fin (of_int ms)" unfolding ms(1) using ms by (intro response_ms_exact) auto
  moreover have "f_to_int (fsub binary32 (f32 st) (Fin (of_int ms))) = Ok (st - ms)"
    using st(2) ms by (intro sub32_exact) auto
  ultimately show ?thesis using assms(1) by (simp add: complete_counters_def guardR_def Let_def st(1) [symmetric])
qed

definition demo_version :: "int \<Rightarrow> int \<Rightarrow> custom_versioned_server" where
  "demo_version st c = (custom_server_init 2)\<lparr>service_time := st, completed_requests := c, active_req := 1,
    service_time_update_sec := 100, service_time_update_msec := 0\<rparr>"

theorem service_time_exact_witness:
  "\<exists>v'. complete_counters (demo_time 100 250) (demo_request 100 0) (demo_version 1000 7) = Ok v'
    \<and> service_time v' = 1000"
  using service_time_exact [of "demo_version 1000 7" 1250 "demo_time 100 250" 250 "demo_request 100 0"]
  by (auto simp: demo_version_def custom_server_init_def demo_time_def demo_request_def elapsed_ms_def INT_MAX_def)

text \<open>Beyond that it drifts: a service time of \<open>2 ^ 24 + 1\<close> milliseconds loses its last bit at the
  next completion, although nothing was added or taken out.\<close>

theorem service_time_drifts:
  "\<exists>v'. complete_counters (demo_time 100 0) (demo_request 100 0) (demo_version (2 ^ 24 + 1) 7) = Ok v'
    \<and> service_time v' = 2 ^ 24"
proof -
  have "case complete_counters (demo_time 100 0) (demo_request 100 0) (demo_version 16777217 7) of
      Ok v' \<Rightarrow> service_time v' = 16777216 | Fault _ \<Rightarrow> False"
    by code_simp
  then show ?thesis by (auto split: res.splits)
qed

text \<open>The prediction starts with the response time of the first completed request, whatever it was
  before.\<close>

theorem first_prediction:
  assumes c: "completed_requests v = 1" and ms: "0 \<le> m" "m \<le> 2 ^ 24"
    and p: "fval (predicted_avg_rt v) = Some p" "0 \<le> p"
  shows "fval (predicted_avg_rt (update_prediction (f32 m) 0 v)) = Some (of_int m)"
proof -
  have fm: "f32 m = Fin (of_int m)" and f1: "f32 1 = Fin 1"
    using ms f_of_int_exact32 [of m] f_of_int_exact32 [of 1] by simp_all
  have rep: "b32.representable (of_int k)" if "\<bar>k\<bar> \<le> 2 ^ 24" for k
    using that by (rule b32_representable_int)
  have d1: "fdiv binary32 (Fin 1) (Fin 1) = Fin 1"
    using fdiv_fin [of "Fin 1" 1 "Fin 1" 1 binary32] b32.round_to_pos [of 1] rep [of 1] by simp
  have b: "fsub binary32 (Fin 1) (Fin 1) = Fin 0"
    using fsub_fin [of "Fin 1" 1 "Fin 1" 1 binary32] by (simp add: round_to_def)
  have b1: "fsub binary32 (Fin 1) (Fin 0) = Fin 1"
    using fsub_fin [of "Fin 1" 1 "Fin 0" 0 binary32] b32.round_to_pos [of 1] rep [of 1] by simp
  have q: "fval (fdiv binary32 (f32 m) (Fin 1)) = Some (of_int m)"
    using fdiv_fin [of "f32 m" "of_int m" "Fin 1" 1 binary32] b32.round_to_exact [OF rep [of m]] ms
    by (simp add: fm)
  have r: "fval (fmul binary32 (Fin 1) (fdiv binary32 (f32 m) (Fin 1))) = Some (of_int m)"
    using fmul_fin [of "Fin 1" 1 _ "of_int m" binary32, OF _ q] b32.round_to_exact [OF rep [of m]] ms by simp
  have l: "fval (fmul binary32 (Fin 0) (predicted_avg_rt v)) = Some 0"
    using fmul_fin [of "Fin 0" 0 _ p binary32, OF _ p(1)] by (simp add: round_to_def)
  have "fval (fadd binary32 (fmul binary32 (Fin 0) (predicted_avg_rt v))
      (fmul binary32 (Fin 1) (fdiv binary32 (f32 m) (Fin 1)))) = Some (of_int m)"
    using fadd_fin [OF l r, of binary32] b32.round_to_exact [OF rep [of m]] ms by simp
  then show ?thesis by (simp add: update_prediction_def Let_def c f1 d1 b b1)
qed

theorem first_prediction_witness:
  "fval (predicted_avg_rt (update_prediction (f32 250) 0 (demo_version 0 1))) = Some 250"
proof -
  have "fval (predicted_avg_rt (demo_version 0 1)) = Some 0" by code_simp
  from first_prediction [of "demo_version 0 1" 250 0, OF _ _ _ this] show ?thesis
    by (simp add: demo_version_def)
qed

lemma fmul_None: "fval x = None \<or> fval y = None \<Longrightarrow> fval (fmul F x y) = None"
  by (cases x; cases y) (simp_all add: fmul_def finf_def Let_def)

lemma fadd_None: "fval x = None \<or> fval y = None \<Longrightarrow> fval (fadd F x y) = None"
  by (cases x; cases y) (simp_all add: fadd_def)

text \<open>An update keeps a prediction that is not finite, and divides by zero after the wrap.\<close>

lemma update_prediction_None:
  assumes "fval (predicted_avg_rt v) = None \<or> completed_requests v = 0"
  shows "fval (predicted_avg_rt (update_prediction ms bef v)) = None"
proof (cases "fval (predicted_avg_rt v) = None")
  case True
  then show ?thesis by (simp add: update_prediction_def Let_def fadd_None fmul_None)
next
  case False
  with assms have c: "completed_requests v = 0" by blast
  have one: "f32 1 = Fin 1" "f32 0 = Fin 0" using f_of_int_exact32 [of 1] f_of_int_exact32 [of 0] by simp_all
  have "fval (fsub binary32 (f32 1) (fdiv binary32 (f32 1) (f32 0))) = None"
    by (simp add: one fdiv_def finf_def fsub_def fadd_def Let_def)
  then show ?thesis by (simp add: update_prediction_def Let_def c fadd_None fmul_None)
qed

text \<open>C13: the completion at which the counter of completed requests wraps to 0 divides by it: the
  prediction of the version is infinite or not a number afterwards, and no later update by a completion
  makes it finite again.\<close>

theorem wrap_breaks_prediction:
  assumes "complete_version fuel tp r h v = Ok (h', v')"
    and "completed_requests v + 1 = req_upper_bound v"
  shows "completed_requests v' = 0 \<and> fval (predicted_avg_rt v') = None
    \<and> (\<forall>w ms bef. predicted_avg_rt w = predicted_avg_rt v' \<longrightarrow>
         fval (predicted_avg_rt (update_prediction ms bef w)) = None)"
proof -
  obtain h1 v2 h2 hd_req od where cc: "complete_counters tp r v = Ok v2"
    and v': "v' = update_prediction (response_ms tp r) (req_finish_before r) (v2\<lparr>req_times := hd_req, old_reqs := od\<rparr>)"
    using assms(1) by (auto simp: complete_version_def Let_def)
  have "completed_requests v2 = 0"
    using cc assms(2) by (auto simp: complete_counters_def Let_def)
  then have "completed_requests v' = 0" "fval (predicted_avg_rt v') = None"
    using update_prediction_None [of "v2\<lparr>req_times := hd_req, old_reqs := od\<rparr>"]
    by (simp_all add: v' update_prediction_def Let_def)
  then show ?thesis using update_prediction_None by simp
qed

theorem wrap_breaks_prediction_witness:
  "\<exists>h' v'. complete_version 2 (demo_time 100 250) ((demo_request 100 0)\<lparr>enter_time := Some 0, req_finish_before := 7\<rparr>)
      [0 \<mapsto> \<lparr>rt_sec = 100, rt_msec = 0, rt_no = 0, rt_next = None, rt_tail = None\<rparr>]
      ((demo_version 250 (INT_MAX - 6))\<lparr>req_times := Some 0, req_tail := Some 0\<rparr>) = Ok (h', v')
    \<and> fval (predicted_avg_rt v') = None"
proof -
  let ?r = "(demo_request 100 0)\<lparr>enter_time := Some 0, req_finish_before := 7\<rparr>"
  let ?h = "[0 \<mapsto> \<lparr>rt_sec = 100, rt_msec = 0, rt_no = 0, rt_next = None, rt_tail = None\<rparr>]"
  let ?v = "(demo_version 250 (INT_MAX - 6))\<lparr>req_times := Some 0, req_tail := Some 0\<rparr>"
  have "is_Ok (complete_version 2 (demo_time 100 250) ?r ?h ?v)" by code_simp
  then obtain h' v' where c: "complete_version 2 (demo_time 100 250) ?r ?h ?v = Ok (h', v')"
    by (auto simp: is_Ok_iff)
  have "completed_requests ?v + 1 = req_upper_bound ?v" by code_simp
  from wrap_breaks_prediction [OF c this] c show ?thesis by blast
qed

text \<open>C5: after a completion at least a fifth of the active requests of its version are watched.\<close>

theorem complete_watches_fifth:
  assumes "configured us d" and "reach (start_lb d) k s (xs @ r # ys) lost" and "int k \<le> INT_MAX - 8"
    and "ngx_http_log_request_time tp s r = Ok s'"
    and "r_version r = Some (Primary, i)" and "version (peer (primary s') ! i) = Some v"
  shows "active_req v \<le> 5 * req_count (old_reqs v)"
proof -
  let ?o = "xs @ ys @ lost"
  have k: "int k \<le> INT_MAX - 7" "int (Suc k) \<le> INT_MAX - 7" using assms(3) by simp_all
  have inv0: "sys_inv s (xs @ r # ys @ lost)" "length (xs @ r # ys @ lost) \<le> 2 ^ 53"
    using running_inv(1) [OF assms(1,2) k(1)] running_no_wrap(2) [OF assms(1,2) k(1)] by simp_all
  from outcome_Ok [OF complete_outcome [OF inv0(1) running_no_wrap(1) [OF assms(1,2) k(1)] inv0(2)] assms(4)]
  have nw: "\<not> needs_watch (req_count (old_reqs v)) (active_req v)" using assms(5,6) by blast
  have "rrp_peers (rrp r) = Primary" using inv0 by (auto simp: sys_inv_def outs_ok_def req_ok_def)
  then have ip: "i < length (peer (primary s'))" using complete_length [OF assms(4,5)] by simp
  have re: "reach (start_lb d) (Suc k) s' (xs @ ys) lost" by (rule reach_complete [OF assms(2,4)])
  have inv: "sys_inv s' ?o" "length ?o \<le> Suc k"
    using running_inv [OF assms(1) re k(2)] by simp_all
  obtain qs where q: "queues_ok (heap s') (peer (primary s')) qs" and o: "outs_ok (heap s') qs ?o"
    using inv(1) by (auto simp: sys_inv_def)
  have vo: "version_ok (heap s') v (qs ! i)" using queues_okD [OF q ip] assms(6) by auto
  have il: "i < length qs" using ip q by (simp add: queues_ok_def)
  have "active_req v \<le> int (length ?o)" by (rule active_le_outs [OF o il vo])
  then have a: "active_req v < 2 ^ 50" using inv(2) k(2) by (simp add: INT_MAX_def)
  have rc: "0 \<le> req_count (old_reqs v)" "req_count (old_reqs v) \<le> active_req v" "0 \<le> active_req v"
  proof -
    have "length (watched_reqs (old_reqs v) (of_version i ?o)) \<le> length (of_version i ?o)"
      by (simp add: watched_reqs_def del: of_version_simps)
    moreover have "active_req v = int (length (of_version i ?o))"
      using vo o il unfolding version_ok_def outs_ok_def by metis
    ultimately show "0 \<le> req_count (old_reqs v)" "req_count (old_reqs v) \<le> active_req v" "0 \<le> active_req v"
      using watched_account(1) [OF o il vo] by auto
  qed
  then show ?thesis using needs_watch_exact [of "req_count (old_reqs v)" "active_req v"] nw a by simp
qed

theorem complete_watches_fifth_witness:
  "\<exists>s r s' i v. reach (start_lb (primary (demo_lb False), backup (demo_lb False))) 1 s [r] []
    \<and> ngx_http_log_request_time (demo_time 101 0) s r = Ok s' \<and> r_version r = Some (Primary, i)
    \<and> version (peer (primary s') ! i) = Some v \<and> active_req v \<le> 5 * req_count (old_reqs v)"
proof -
  obtain rc s r s' where g: "ngx_http_upstream_get_round_robin_peer True (demo_time 100 5) (demo_lb False)
      (demo_request 100 0) = Ok (rc, s, r)" and l: "ngx_http_log_request_time (demo_time 101 0) s r = Ok s'"
    using demo_run_Ok by (auto simp: is_Ok_iff)
  have re1: "reach (start_lb (primary (demo_lb False), backup (demo_lb False))) 1 s [r] []"
    by (rule demo_reach [OF g])
  then have re: "reach (start_lb (primary (demo_lb False), backup (demo_lb False))) 1 s ([] @ r # []) []" by simp
  have k: "int 1 \<le> INT_MAX - 8" "int 1 \<le> INT_MAX - 7" "int (Suc 1) \<le> INT_MAX - 7" by (simp_all add: INT_MAX_def)
  have inv: "sys_inv s [r]" using running_inv(1) [OF demo_configured re k(2)] by simp
  then obtain i where i: "r_version r = Some (Primary, i)" by (auto simp: sys_inv_def outs_ok_def req_ok_def)
  have n: "i < length (peer (primary s'))"
    using complete_length [OF l i] inv by (auto simp: sys_inv_def outs_ok_def req_ok_def)
  have "sys_inv s' []" using running_inv(1) [OF demo_configured reach_complete [OF re l] k(3)] by simp
  then obtain v where v: "version (peer (primary s') ! i) = Some v"
    using n by (auto simp: sys_inv_def elim!: queues_okD)
  from complete_watches_fifth [OF demo_configured re k(1) l i v] re1 l i v show ?thesis by blast
qed

section \<open>Initialisation\<close>

lemma init_backup_group:
  assumes "init_backup pal ss h g0 = (NGX_OK, Some (g, b))" and "length (server_addrs True ss) < 2 ^ 32"
  shows "log_time_sec g = log_time_sec g0" "total_weight g = total_weight g0" "ptries g = ptries g0"
    "b = None \<longleftrightarrow> server_addrs True ss = []"
    "\<And>x. b = Some x \<Longrightarrow> peer x = map (\<lambda>(s, a). init_backup_peer s a) (server_addrs True ss)"
proof -
  have z: "(of_nat (length (server_addrs True ss)) = (0 :: ngx_uint_t)) \<longleftrightarrow> server_addrs True ss = []"
    unfolding unat_eq_zero [symmetric] unat_of_nat64 [OF assms(2)] by simp
  show "log_time_sec g = log_time_sec g0" "total_weight g = total_weight g0" "ptries g = ptries g0"
    "b = None \<longleftrightarrow> server_addrs True ss = []"
    "\<And>x. b = Some x \<Longrightarrow> peer x = map (\<lambda>(s, a). init_backup_peer s a) (server_addrs True ss)"
    using assms(1) z
    by (auto simp: init_backup_def ngx_rc_defs new_peers_def count_servers_spec Let_def split: if_splits)
qed

text \<open>C10: what \<^verbatim>\<open>ngx_http_upstream_init_round_robin\<close> builds from the servers: one peer per address in
  configuration order, weight 2 meaning the heavy version (id 4) and any other weight the light one
  (id 2), all with the last positive performance target, with the number, weight and tries of the group; and
  a backup group, without versions, exactly when there are backup servers.\<close>

theorem init_round_robin_groups:
  assumes ss: "servers us = Some ss"
    and i: "ngx_http_upstream_init_round_robin pal mal resolve us = Ok (NGX_OK, Some (g, b))"
    and len: "length (server_addrs True ss) < 2 ^ 32"
  shows "length (peer g) = length (server_addrs False ss)
    \<and> number g = of_nat (length (server_addrs False ss))
    \<and> total_weight g = (\<Sum>(s, a) \<leftarrow> server_addrs False ss. us_weight s)
    \<and> ptries g = of_nat (length (filter (\<lambda>(s, a). \<not> us_down s) (server_addrs False ss)))
    \<and> log_time_sec g = - 1
    \<and> (\<forall>j < length (peer g). \<forall>s a. server_addrs False ss ! j = (s, a) \<longrightarrow>
         sockaddr (peer g ! j) = a_sockaddr a \<and> length (a_name a) < 60
         \<and> heavy (peer g ! j) = (us_weight s = 2) \<and> light (peer g ! j) = (us_weight s \<noteq> 2)
         \<and> pt (peer g ! j) = fold (\<lambda>s p. if \<not> us_backup s \<and> us_pt s > 0 then us_pt s else p) ss 0
         \<and> (\<exists>v. version (peer g ! j) = Some v \<and> vid v = (if us_weight s = 2 then 4 else 2)
              \<and> active_req v = 0 \<and> completed_requests v = 0 \<and> req_times v = None))
    \<and> (b = None \<longleftrightarrow> server_addrs True ss = [])
    \<and> (\<forall>x. b = Some x \<longrightarrow> (\<forall>p \<in> set (peer x). version p = None \<and> \<not> heavy p \<and> \<not> light p))"
proof -
  obtain n w t p ps where c: "count_servers False ss (0, 0, 0, 0) = (n, w, t, p)"
    and ps: "mapR (\<lambda>(i, s, a). init_primary_peer (mal i) p s a)
      (List.enumerate 0 (server_addrs False ss)) = Ok ps"
    and ib: "init_backup pal ss (host us)
       ((new_peers (host us) n w t ps)\<lparr>log_time_sec := - 1, log_time_msec := - 1\<rparr>) = (NGX_OK, Some (g, b))"
    using ss i by (rule init_servers_Ok)
  have cs: "n = of_nat (length (server_addrs False ss))" "w = (\<Sum>(s, a) \<leftarrow> server_addrs False ss. us_weight s)"
    "t = of_nat (length (filter (\<lambda>(s, a). \<not> us_down s) (server_addrs False ss)))"
    "p = fold (\<lambda>s p. if \<not> us_backup s \<and> us_pt s > 0 then us_pt s else p) ss 0"
    using c by (simp_all add: count_servers_spec)
  have g: "peer g = ps" "number g = n" using init_backup_Ok [OF ib] by (simp_all add: new_peers_def)
  have lp: "length ps = length (server_addrs False ss)" using mapR_length [OF ps] by simp
  have pe: "init_primary_peer (mal j) p s a = Ok (ps ! j)"
    if "j < length ps" "server_addrs False ss ! j = (s, a)" for j s a
    using mapR_nth [OF ps, of j] that lp by (simp add: nth_enumerate_eq)
  have "\<exists>v. version (ps ! j) = Some v \<and> vid v = (if us_weight s = 2 then 4 else 2)
      \<and> active_req v = 0 \<and> completed_requests v = 0 \<and> req_times v = None"
    if "j < length ps" "server_addrs False ss ! j = (s, a)" for j s a
    using init_primary_peer_Ok(11) [OF pe [OF that]]
    by (auto simp: fresh_version_def custom_server_init_def)
  moreover have "\<forall>x. b = Some x \<longrightarrow> (\<forall>p \<in> set (peer x). version p = None \<and> \<not> heavy p \<and> \<not> light p)"
    using init_backup_group(5) [OF ib len] by (auto simp: init_backup_peer_def)
  ultimately show ?thesis
    using g lp cs init_backup_group(1-4) [OF ib len] init_primary_peer_Ok(1,2,6,7,8) [OF pe]
    by (simp add: new_peers_def)
qed

theorem init_round_robin_groups_witness:
  "length (peer (primary (demo_lb False))) = 2 \<and> number (primary (demo_lb False)) = 2
    \<and> total_weight (primary (demo_lb False)) = 3 \<and> backup (demo_lb False) = None"
proof -
  let ?ss = "[demo_server ''10.0.0.1:80'' 2 False, demo_server ''10.0.0.2:81'' 1 False]"
  have s: "servers (demo_conf False) = Some ?ss" by (simp add: demo_conf_def)
  have "length (server_addrs True ?ss) < 2 ^ 32" by (simp add: demo_server_def)
  from init_round_robin_groups [OF s demo_conf_init this] show ?thesis by (simp add: demo_server_def)
qed

end
