(* ===== verification/Ngx_Number.thy ===== *)
theory Ngx_Number
  imports Ngx_Prelude
begin

text \<open>
  Conversions between numbers and text: \<^verbatim>\<open>ngx_atoi\<close>, \<^verbatim>\<open>ngx_atosz\<close>, \<^verbatim>\<open>ngx_atoof\<close>, \<^verbatim>\<open>ngx_atotm\<close>,
  \<^verbatim>\<open>ngx_atofp\<close>, \<^verbatim>\<open>ngx_hextoi\<close>, \<^verbatim>\<open>ngx_hex_dump\<close> and \<^verbatim>\<open>ngx_sprintf_num\<close> of \<^verbatim>\<open>src/core/ngx_string.c\<close>,
  and \<^verbatim>\<open>ngx_parse_size\<close>, \<^verbatim>\<open>ngx_parse_offset\<close> of \<^verbatim>\<open>src/core/ngx_parse.c\<close>.  A line is the list of its
  bytes.  The decimal conversions share a contract, the locale \<open>decimal_conv\<close>.
\<close>

definition bytes :: "string \<Rightarrow> u_char list" where
  "bytes s = map of_char s"

definition NGX_MAX_SIZE_T_VALUE :: int where "NGX_MAX_SIZE_T_VALUE = 9223372036854775807"
definition NGX_MAX_OFF_T_VALUE :: int where "NGX_MAX_OFF_T_VALUE = 9223372036854775807"
definition NGX_MAX_TIME_T_VALUE :: int where "NGX_MAX_TIME_T_VALUE = 9223372036854775807"

section \<open>The conversions of the code\<close>

text \<open>The test that one more digit would exceed \<open>mx\<close> (\<^verbatim>\<open>cutoff\<close> and \<^verbatim>\<open>cutlim\<close>).\<close>

definition cut :: "int \<Rightarrow> int \<Rightarrow> u_char \<Rightarrow> bool" where
  "cut mx v c \<longleftrightarrow> v \<ge> mx div 10 \<and> (v > mx div 10 \<or> digit_val c > mx mod 10)"

fun ato_loop :: "int \<Rightarrow> int \<Rightarrow> u_char list \<Rightarrow> int" where
  "ato_loop mx v [] = v"
| "ato_loop mx v (c # cs) =
    (if \<not> is_digit c then NGX_ERROR
     else if cut mx v c then NGX_ERROR
     else ato_loop mx (v * 10 + digit_val c) cs)"

definition ngx_atoi :: "u_char list \<Rightarrow> int" where
  "ngx_atoi line = (if line = [] then NGX_ERROR else ato_loop NGX_MAX_INT_T_VALUE 0 line)"

definition ngx_atosz :: "u_char list \<Rightarrow> int" where
  "ngx_atosz line = (if line = [] then NGX_ERROR else ato_loop NGX_MAX_SIZE_T_VALUE 0 line)"

definition ngx_atoof :: "u_char list \<Rightarrow> int" where
  "ngx_atoof line = (if line = [] then NGX_ERROR else ato_loop NGX_MAX_OFF_T_VALUE 0 line)"

definition ngx_atotm :: "u_char list \<Rightarrow> int" where
  "ngx_atotm line = (if line = [] then NGX_ERROR else ato_loop NGX_MAX_TIME_T_VALUE 0 line)"

text \<open>Fixed point numbers: \<open>dot\<close> says that the point was seen, \<open>point\<close> how many more digits follow it.\<close>

fun atofp_scale :: "nat \<Rightarrow> int \<Rightarrow> int" where
  "atofp_scale 0 v = v"
| "atofp_scale (Suc point) v =
    (if v > NGX_MAX_INT_T_VALUE div 10 then NGX_ERROR else atofp_scale point (v * 10))"

fun atofp_loop :: "bool \<Rightarrow> nat \<Rightarrow> int \<Rightarrow> u_char list \<Rightarrow> int" where
  "atofp_loop dot point v [] = atofp_scale point v"
| "atofp_loop dot point v (c # cs) =
    (if point = 0 then NGX_ERROR
     else if c = 0x2E then (if dot then NGX_ERROR else atofp_loop True point v cs)
     else if \<not> is_digit c then NGX_ERROR
     else if cut NGX_MAX_INT_T_VALUE v c then NGX_ERROR
     else atofp_loop dot (if dot then point - 1 else point) (v * 10 + digit_val c) cs)"

definition ngx_atofp :: "u_char list \<Rightarrow> nat \<Rightarrow> int" where
  "ngx_atofp line point = (if line = [] then NGX_ERROR else atofp_loop False point 0 line)"

definition hex_val :: "u_char \<Rightarrow> int option" where
  "hex_val ch =
    (if is_digit ch then Some (uint ch - 48)
     else let c = or ch 0x20
          in if 0x61 \<le> c \<and> c \<le> 0x66 then Some (uint c - 97 + 10) else None)"

fun hextoi_loop :: "int \<Rightarrow> u_char list \<Rightarrow> int" where
  "hextoi_loop v [] = v"
| "hextoi_loop v (ch # cs) =
    (if v > NGX_MAX_INT_T_VALUE div 16 then NGX_ERROR
     else case hex_val ch of
       Some d \<Rightarrow> hextoi_loop (v * 16 + d) cs
     | None \<Rightarrow> NGX_ERROR)"

definition ngx_hextoi :: "u_char list \<Rightarrow> int" where
  "ngx_hextoi line = (if line = [] then NGX_ERROR else hextoi_loop 0 line)"

definition hex_digits :: "u_char list" where "hex_digits = bytes ''0123456789abcdef''"
definition HEX_digits :: "u_char list" where "HEX_digits = bytes ''0123456789ABCDEF''"

definition ngx_hex_dump :: "u_char list \<Rightarrow> u_char list" where
  "ngx_hex_dump src =
    concat (map (\<lambda>c. [hex_digits ! unat (drop_bit 4 c), hex_digits ! unat (and c 0xF)]) src)"

text \<open>The digits of \<^verbatim>\<open>ngx_sprintf_num\<close>, written backwards from the end of \<^verbatim>\<open>temp\<close>.\<close>

function num_loop :: "64 word \<Rightarrow> u_char list \<Rightarrow> u_char list" where
  "num_loop ui p =
    (let p' = (ucast (ui mod 10) + 0x30) # p
     in if ui div 10 \<noteq> 0 then num_loop (ui div 10) p' else p')"
  by auto

lemma word_div_less:
  fixes n :: "64 word"
  assumes "n div d \<noteq> 0" and "1 < unat d"
  shows "unat (n div d) < unat n"
proof -
  have "unat (n div d) = unat n div unat d" by (simp add: unat_div)
  moreover have "unat n \<noteq> 0" using assms(1) by (metis div_0 unat_eq_zero)
  ultimately show ?thesis using assms(2) by simp
qed

termination num_loop
  by (relation "measure (\<lambda>(ui, p). unat ui)") (auto intro: word_div_less)

declare num_loop.simps [simp del]

text \<open>Numbers below 2 to the 32 are divided as \<^verbatim>\<open>uint32_t\<close>.\<close>

function num_loop32 :: "32 word \<Rightarrow> u_char list \<Rightarrow> u_char list" where
  "num_loop32 ui p =
    (let p' = (ucast (ui mod 10) + 0x30) # p
     in if ui div 10 \<noteq> 0 then num_loop32 (ui div 10) p' else p')"
  by auto

lemma word32_div_less:
  fixes n :: "32 word"
  assumes "n div 10 \<noteq> 0"
  shows "unat (n div 10) < unat n"
proof -
  have "unat (n div 10) = unat n div 10" by (simp add: unat_div)
  moreover have "unat n \<noteq> 0" using assms by (metis div_0 unat_eq_zero)
  ultimately show ?thesis by simp
qed

termination num_loop32
  by (relation "measure (\<lambda>(ui, p). unat ui)") (auto intro: word32_div_less)

declare num_loop32.simps [simp del]

function hex_loop :: "u_char list \<Rightarrow> 64 word \<Rightarrow> u_char list \<Rightarrow> u_char list" where
  "hex_loop tbl ui p =
    (let p' = tbl ! unat (and ui 0xF) # p
     in if drop_bit 4 ui \<noteq> 0 then hex_loop tbl (drop_bit 4 ui) p' else p')"
  by auto

lemma drop_bit4_div: "drop_bit 4 (n :: 64 word) = n div 16"
  by (simp add: drop_bit_eq_div)

termination hex_loop
  by (relation "measure (\<lambda>(tbl, ui, p). unat ui)") (auto simp: drop_bit4_div intro: word_div_less)

declare hex_loop.simps [simp del]

text \<open>\<open>room\<close> is \<^verbatim>\<open>last - buf\<close>; the result is what is written.\<close>

definition ngx_sprintf_num :: "nat \<Rightarrow> 64 word \<Rightarrow> u_char \<Rightarrow> nat \<Rightarrow> nat \<Rightarrow> u_char list" where
  "ngx_sprintf_num room ui64 zero hexadecimal width =
    (let ds = (if hexadecimal = 0
               then if ui64 \<le> 0xFFFFFFFF then num_loop32 (ucast ui64) [] else num_loop ui64 []
               else if hexadecimal = 1 then hex_loop hex_digits ui64 []
               else hex_loop HEX_digits ui64 []);
         pad = replicate (min (width - length ds) room) zero
     in pad @ take (room - length pad) ds)"

text \<open>A number with a unit: the unit letter, if any, is dropped from the line.\<close>

definition size_unit :: "u_char list \<Rightarrow> u_char list \<times> int" where
  "size_unit line =
    (let u = last line
     in if u = 0x4B \<or> u = 0x6B then (butlast line, 1024)
        else if u = 0x4D \<or> u = 0x6D then (butlast line, 1024 * 1024)
        else (line, 1))"

definition ngx_parse_size :: "u_char list \<Rightarrow> int" where
  "ngx_parse_size line =
    (if line = [] then NGX_ERROR
     else let (ds, scale) = size_unit line;
              size = ngx_atosz ds
          in if size = NGX_ERROR \<or> size > NGX_MAX_SIZE_T_VALUE div scale then NGX_ERROR
             else size * scale)"

definition offset_unit :: "u_char list \<Rightarrow> u_char list \<times> int" where
  "offset_unit line =
    (let u = last line
     in if u = 0x47 \<or> u = 0x67 then (butlast line, 1024 * 1024 * 1024) else size_unit line)"

definition ngx_parse_offset :: "u_char list \<Rightarrow> int" where
  "ngx_parse_offset line =
    (if line = [] then NGX_ERROR
     else let (ds, scale) = offset_unit line;
              offset = ngx_atoof ds
          in if offset = NGX_ERROR \<or> offset > NGX_MAX_OFF_T_VALUE div scale then NGX_ERROR
             else offset * scale)"

section \<open>The contract of a decimal conversion\<close>

definition dec_from :: "int \<Rightarrow> u_char list \<Rightarrow> int" where
  "dec_from v ds = foldl (\<lambda>v c. v * 10 + digit_val c) v ds"

abbreviation dec :: "u_char list \<Rightarrow> int" where
  "dec ds \<equiv> dec_from 0 ds"

lemma dec_from_simps [simp]:
  "dec_from v [] = v" "dec_from v (c # cs) = dec_from (v * 10 + digit_val c) cs"
  "dec_from v (xs @ ys) = dec_from (dec_from v xs) ys"
  by (simp_all add: dec_from_def)

definition decimal :: "u_char list \<Rightarrow> bool" where
  "decimal ds \<longleftrightarrow> ds \<noteq> [] \<and> list_all is_digit ds"

lemma dec_from_ge: "list_all is_digit ds \<Longrightarrow> 0 \<le> v \<Longrightarrow> v \<le> dec_from v ds"
proof (induction ds arbitrary: v)
  case (Cons c ds)
  have "0 \<le> digit_val c" using Cons.prems digit_val_range by simp
  then have "v \<le> v * 10 + digit_val c" "0 \<le> v * 10 + digit_val c" using Cons.prems by auto
  then show ?case using Cons.IH [of "v * 10 + digit_val c"] Cons.prems by simp
qed simp

lemma cut_iff:
  assumes "is_digit c"
  shows "cut mx v c \<longleftrightarrow> v * 10 + digit_val c > mx"
proof -
  have d: "0 \<le> digit_val c" "digit_val c \<le> 9" using digit_val_range [OF assms] by auto
  have m: "mx = 10 * (mx div 10) + mx mod 10" "0 \<le> mx mod 10" "mx mod 10 < 10" by simp_all
  show ?thesis unfolding cut_def using d m by presburger
qed

lemma ato_loop_spec:
  "0 \<le> v \<Longrightarrow> v \<le> mx \<Longrightarrow>
    ato_loop mx v ds = (if list_all is_digit ds \<and> dec_from v ds \<le> mx then dec_from v ds else NGX_ERROR)"
proof (induction ds arbitrary: v)
  case (Cons c ds)
  show ?case
  proof (cases "is_digit c")
    case True
    have d: "0 \<le> digit_val c" using digit_val_range [OF True] by simp
    show ?thesis
    proof (cases "v * 10 + digit_val c > mx")
      case big: True
      have "list_all is_digit ds \<Longrightarrow> mx < dec_from (v * 10 + digit_val c) ds"
        using big d Cons.prems dec_from_ge [of ds "v * 10 + digit_val c"] by linarith
      then show ?thesis using True big by (auto simp: cut_iff)
    next
      case False
      then show ?thesis using True d Cons by (simp add: cut_iff)
    qed
  qed simp
qed simp

locale decimal_conv =
  fixes conv :: "u_char list \<Rightarrow> int" and mx :: int
  assumes conv_spec: "conv ds = (if decimal ds \<and> dec ds \<le> mx then dec ds else NGX_ERROR)"
    and mx_nonneg: "0 \<le> mx"
begin

lemma dec_nonneg: "decimal ds \<Longrightarrow> 0 \<le> dec ds"
  using dec_from_ge [of ds 0] by (simp add: decimal_def)

lemma conv_error_iff: "conv ds = NGX_ERROR \<longleftrightarrow> \<not> (decimal ds \<and> dec ds \<le> mx)"
  using dec_nonneg [of ds] by (auto simp: conv_spec NGX_ERROR_def)

lemma conv_range: "conv ds = NGX_ERROR \<or> 0 \<le> conv ds \<and> conv ds \<le> mx"
  using dec_nonneg [of ds] by (auto simp: conv_spec)

text \<open>The clients scale the number by a unit after comparing it with \<open>mx div scale\<close>.\<close>

lemma scaled:
  assumes "0 < scale"
  shows "(if conv ds = NGX_ERROR \<or> conv ds > mx div scale then NGX_ERROR else conv ds * scale)
    = (if decimal ds \<and> dec ds * scale \<le> mx then dec ds * scale else NGX_ERROR)"
proof (cases "decimal ds")
  case True
  have n: "0 \<le> dec ds" by (rule dec_nonneg [OF True])
  have iff: "dec ds \<le> mx div scale \<longleftrightarrow> dec ds * scale \<le> mx"
  proof
    assume "dec ds \<le> mx div scale"
    then have "dec ds * scale \<le> mx div scale * scale" using assms by (intro mult_right_mono) auto
    also have "\<dots> \<le> mx" using minus_mod_eq_div_mult [of mx scale] pos_mod_sign [OF assms, of mx] by linarith
    finally show "dec ds * scale \<le> mx" .
  next
    assume "dec ds * scale \<le> mx"
    then show "dec ds \<le> mx div scale" using zdiv_mono1 [of "dec ds * scale" mx scale] assms by simp
  qed
  have "dec ds * 1 \<le> dec ds * scale" using n assms by (intro mult_left_mono) auto
  then have "dec ds * scale \<le> mx \<Longrightarrow> dec ds \<le> mx" by simp
  then show ?thesis using True iff n by (auto simp: conv_spec NGX_ERROR_def not_less)
next
  case False
  then show ?thesis by (simp add: conv_spec)
qed

end

lemma ato_spec:
  assumes "0 \<le> mx"
  shows "(if ds = [] then NGX_ERROR else ato_loop mx 0 ds)
    = (if decimal ds \<and> dec ds \<le> mx then dec ds else NGX_ERROR)"
  using ato_loop_spec [of 0 mx ds] assms by (simp add: decimal_def)

interpretation atoi: decimal_conv ngx_atoi NGX_MAX_INT_T_VALUE
  by unfold_locales (simp_all add: ngx_atoi_def ato_spec NGX_MAX_INT_T_VALUE_def)

interpretation atosz: decimal_conv ngx_atosz NGX_MAX_SIZE_T_VALUE
  by unfold_locales (simp_all add: ngx_atosz_def ato_spec NGX_MAX_SIZE_T_VALUE_def)

interpretation atoof: decimal_conv ngx_atoof NGX_MAX_OFF_T_VALUE
  by unfold_locales (simp_all add: ngx_atoof_def ato_spec NGX_MAX_OFF_T_VALUE_def)

interpretation atotm: decimal_conv ngx_atotm NGX_MAX_TIME_T_VALUE
  by unfold_locales (simp_all add: ngx_atotm_def ato_spec NGX_MAX_TIME_T_VALUE_def)

section \<open>Printing a number\<close>

lemma num_loop_append: "num_loop ui p = num_loop ui [] @ p"
proof (induction "unat ui" arbitrary: ui p rule: less_induct)
  case less
  let ?d = "ucast (ui mod 10) + 0x30 :: u_char"
  show ?case
  proof (cases "ui div 10 = 0")
    case True
    then show ?thesis by (simp add: num_loop.simps [of ui])
  next
    case False
    then have lt: "unat (ui div 10) < unat ui" by (rule word_div_less) simp
    show ?thesis
      using False less [OF lt, of "?d # p"] less [OF lt, of "[?d]"] by (simp add: num_loop.simps [of ui])
  qed
qed

lemma num_loop_unfold:
  "num_loop ui [] = (if ui div 10 \<noteq> 0 then num_loop (ui div 10) [] else []) @ [ucast (ui mod 10) + 0x30]"
  using num_loop_append [of "ui div 10" "[ucast (ui mod 10) + 0x30]"] by (simp add: num_loop.simps [of ui])

lemma num_loop32_eq: "num_loop32 ui p = num_loop (ucast ui) p"
proof (induction "unat ui" arbitrary: ui p rule: less_induct)
  case less
  have u: "uint (ucast ui :: 64 word) = uint ui"
    using uint_lt2p [of ui] by (simp add: unsigned_ucast_eq take_bit_int_eq_self)
  have "uint ui div 10 < 2 ^ 64" "0 \<le> uint ui div 10" using uint_lt2p [of ui] uint_nonnegative [of ui] pos_imp_zdiv_nonneg_iff [of 10 "uint ui"]
    by (simp_all add: div_less_iff_less_mult)
  then have dv: "ucast (ui div 10) = (ucast ui :: 64 word) div 10"
    using u by (intro word_uint_eqI) (simp add: unsigned_ucast_eq uint_div take_bit_int_eq_self)
  have md: "ucast (ui mod 10) = (ucast ((ucast ui :: 64 word) mod 10) :: u_char)"
    by (intro word_uint_eqI) (use u in \<open>simp add: unsigned_ucast_eq uint_mod\<close>)
  have z: "ui div 10 = 0 \<longleftrightarrow> (ucast ui :: 64 word) div 10 = 0"
    unfolding dv [symmetric] using uint_lt2p [of "ui div 10"]
    by (simp add: uint_0_iff [symmetric] unsigned_ucast_eq take_bit_int_eq_self)
  show ?case
  proof (cases "ui div 10 = 0")
    case True
    then show ?thesis using z md by (simp add: num_loop32.simps [of ui] num_loop.simps [of "ucast ui"])
  next
    case False
    then show ?thesis using less [OF word32_div_less [OF False]] z md dv
      by (simp add: num_loop32.simps [of ui] num_loop.simps [of "ucast ui"])
  qed
qed

lemma num_digits_eq: "(if n \<le> 0xFFFFFFFF then num_loop32 (ucast n) [] else num_loop n []) = num_loop n []"
proof (cases "n \<le> 0xFFFFFFFF")
  case True
  then have "uint n < 2 ^ 32" by (simp add: word_le_def)
  then have "ucast (ucast n :: 32 word) = n"
    by (intro word_uint_eqI) (simp only: unsigned_ucast_eq, simp add: unsigned_ucast_eq unsigned_take_bit_eq take_bit_int_eq_self)
  then show ?thesis using True by (simp add: num_loop32_eq)
qed simp

lemma last_digit:
  fixes n :: "64 word"
  shows "is_digit (ucast (n mod 10) + 0x30)" "digit_val (ucast (n mod 10) + 0x30) = uint n mod 10"
proof -
  have r: "uint (n mod 10) = uint n mod 10" by (simp add: uint_mod)
  have "uint (ucast (n mod 10) :: u_char) = uint n mod 10"
    by (simp add: unsigned_ucast_eq r take_bit_int_eq_self)
  then have "uint (ucast (n mod 10) + 0x30 :: u_char) = uint n mod 10 + 48"
    by (subst uint_add_lem [THEN iffD1]) simp_all
  then show "is_digit (ucast (n mod 10) + 0x30)" "digit_val (ucast (n mod 10) + 0x30) = uint n mod 10"
    by (simp_all add: is_digit_uint digit_val_def)
qed

lemma num_loop_decimal: "decimal (num_loop ui []) \<and> dec (num_loop ui []) = uint ui"
proof (induction "unat ui" arbitrary: ui rule: less_induct)
  case less
  show ?case
  proof (cases "ui div 10 = 0")
    case True
    then have "uint (ui div 10) = 0" by simp
    then have "uint ui div 10 = 0" by (simp add: uint_div)
    then have "uint ui mod 10 = uint ui" by simp
    with True show ?thesis by (simp add: num_loop_unfold [of ui] decimal_def last_digit)
  next
    case False
    then have "unat (ui div 10) < unat ui" by (rule word_div_less) simp
    from less [OF this] have "decimal (num_loop (ui div 10) [])" "dec (num_loop (ui div 10) []) = uint ui div 10"
      by (auto simp: uint_div)
    with False show ?thesis by (simp add: num_loop_unfold [of ui] decimal_def last_digit)
  qed
qed

lemma num_loop_length:
  "uint ui < 10 ^ k \<Longrightarrow> 0 < k \<Longrightarrow> length (num_loop ui []) \<le> k"
proof (induction k arbitrary: ui)
  case (Suc k)
  show ?case
  proof (cases "ui div 10 = 0")
    case True
    then show ?thesis by (simp add: num_loop_unfold [of ui])
  next
    case False
    have "uint (ui div 10) = uint ui div 10" by (simp add: uint_div)
    then have lt: "uint (ui div 10) < 10 ^ k" using Suc.prems by (simp add: div_less_iff_less_mult mult.commute)
    have "k \<noteq> 0"
    proof
      assume "k = 0"
      then have "uint (ui div 10) < 1" using lt by simp
      moreover have "0 \<le> uint (ui div 10)" by simp
      ultimately have "uint (ui div 10) = 0" by linarith
      then show False using False by (simp add: uint_0_iff)
    qed
    then show ?thesis using False Suc.IH [OF lt] by (simp add: num_loop_unfold [of ui])
  qed
qed simp

text \<open>A hexadecimal digit of either table.\<close>

lemma hex_table:
  assumes "k < 16"
  shows "hex_val (hex_digits ! k) = Some (int k)" "hex_val (HEX_digits ! k) = Some (int k)"
proof -
  have "\<forall>k < 16. hex_val (hex_digits ! k) = Some (int k) \<and> hex_val (HEX_digits ! k) = Some (int k)"
    by code_simp
  then show "hex_val (hex_digits ! k) = Some (int k)" "hex_val (HEX_digits ! k) = Some (int k)"
    using assms by auto
qed

lemma hex_loop_append: "hex_loop tbl ui p = hex_loop tbl ui [] @ p"
proof (induction "unat ui" arbitrary: ui p rule: less_induct)
  case less
  let ?d = "tbl ! unat (and ui 0xF)"
  show ?case
  proof (cases "drop_bit 4 ui = 0")
    case True
    then show ?thesis by (simp add: hex_loop.simps [of tbl ui])
  next
    case False
    then have lt: "unat (drop_bit 4 ui) < unat ui" unfolding drop_bit4_div by (intro word_div_less) simp_all
    show ?thesis
      using False less [OF lt, of "?d # p"] less [OF lt, of "[?d]"] by (simp add: hex_loop.simps [of tbl ui])
  qed
qed

lemma hex_loop_unfold:
  "hex_loop tbl ui [] = (if drop_bit 4 ui \<noteq> 0 then hex_loop tbl (drop_bit 4 ui) [] else []) @ [tbl ! unat (and ui 0xF)]"
  using hex_loop_append [of tbl "drop_bit 4 ui" "[tbl ! unat (and ui 0xF)]"] by (simp add: hex_loop.simps [of tbl ui])

lemma hextoi_append:
  "hextoi_loop v xs = w \<Longrightarrow> w \<noteq> NGX_ERROR \<Longrightarrow> hextoi_loop v (xs @ ys) = hextoi_loop w ys"
  by (induction xs arbitrary: v) (auto split: if_splits option.splits)

lemma low_nibble: "unat (and (n :: 64 word) 0xF) = unat n mod 16"
proof -
  have "and n 0xF = take_bit 4 n" by (simp add: take_bit_eq_mask mask_eq_exp_minus_1)
  then show ?thesis by (simp add: take_bit_eq_mod unat_mod)
qed

lemma hex_loop_hextoi:
  assumes t: "\<And>k. k < 16 \<Longrightarrow> hex_val (tbl ! k) = Some (int k)" and "uint ui \<le> NGX_MAX_INT_T_VALUE"
  shows "hextoi_loop 0 (hex_loop tbl ui []) = uint ui"
  using assms(2)
proof (induction "unat ui" arbitrary: ui rule: less_induct)
  case less
  have n: "hex_val (tbl ! unat (and ui 0xF)) = Some (uint ui mod 16)"
  proof -
    have "int (unat ui mod 16) = uint ui mod 16" by (simp only: uint_nat zmod_int of_nat_numeral)
    then show ?thesis using t [of "unat ui mod 16"] by (simp add: low_nibble)
  qed
  have q: "uint (drop_bit 4 ui) = uint ui div 16" by (simp add: drop_bit4_div uint_div)
  show ?case
  proof (cases "drop_bit 4 ui = 0")
    case True
    then have "uint ui div 16 = 0" using q by simp
    then have "uint ui mod 16 = uint ui" by simp
    with True n show ?thesis by (simp add: hex_loop_unfold [of tbl ui] NGX_MAX_INT_T_VALUE_def)
  next
    case False
    then have lt: "unat (drop_bit 4 ui) < unat ui" unfolding drop_bit4_div by (intro word_div_less) simp_all
    have le: "uint (drop_bit 4 ui) \<le> NGX_MAX_INT_T_VALUE div 16"
      using less.prems q zdiv_mono1 by simp
    then have "uint (drop_bit 4 ui) \<le> NGX_MAX_INT_T_VALUE" by (simp add: NGX_MAX_INT_T_VALUE_def)
    from less.hyps [OF lt this] have "hextoi_loop 0 (hex_loop tbl (drop_bit 4 ui) []) = uint (drop_bit 4 ui)" .
    moreover have "0 \<le> uint (drop_bit 4 ui)" by simp
    then have "uint (drop_bit 4 ui) \<noteq> NGX_ERROR" unfolding NGX_ERROR_def by linarith
    ultimately have "hextoi_loop 0 (hex_loop tbl ui []) = hextoi_loop (uint (drop_bit 4 ui)) [tbl ! unat (and ui 0xF)]"
      using False hextoi_append by (simp add: hex_loop_unfold [of tbl ui])
    also have "\<dots> = uint (drop_bit 4 ui) * 16 + uint ui mod 16" using le n by simp
    finally show ?thesis using q by simp
  qed
qed

lemma hex_loop_length:
  "uint ui < 16 ^ k \<Longrightarrow> 0 < k \<Longrightarrow> length (hex_loop tbl ui []) \<le> k"
proof (induction k arbitrary: ui)
  case (Suc k)
  show ?case
  proof (cases "drop_bit 4 ui = 0")
    case True
    then show ?thesis by (simp add: hex_loop_unfold [of tbl ui])
  next
    case False
    have "uint (drop_bit 4 ui) = uint ui div 16" by (simp add: drop_bit4_div uint_div)
    then have lt: "uint (drop_bit 4 ui) < 16 ^ k" using Suc.prems by (simp add: div_less_iff_less_mult mult.commute)
    have "k \<noteq> 0"
    proof
      assume "k = 0"
      then have "uint (drop_bit 4 ui) < 1" using lt by simp
      moreover have "0 \<le> uint (drop_bit 4 ui)" by simp
      ultimately have "uint (drop_bit 4 ui) = 0" by linarith
      then show False using False by (simp add: uint_0_iff)
    qed
    then show ?thesis using False Suc.IH [OF lt] by (simp add: hex_loop_unfold [of tbl ui])
  qed
qed simp

lemma num_digits_fit: "length (num_loop ui []) \<le> 20" "length (hex_loop tbl ui []) \<le> 16"
proof -
  have "uint ui < 2 ^ 64" using uint_lt2p [of ui] by simp
  then show "length (num_loop ui []) \<le> 20" "length (hex_loop tbl ui []) \<le> 16"
    by (auto intro!: num_loop_length hex_loop_length)
qed

section \<open>Properties\<close>

text \<open>C14: the decimal conversions accept exactly the non-empty strings of digits whose value fits the
  type, return that value, and \<^verbatim>\<open>NGX_ERROR\<close> otherwise: the \<^verbatim>\<open>cutoff\<close>/\<^verbatim>\<open>cutlim\<close> test is the
  overflow test.\<close>

theorem ngx_ato_spec:
  "ngx_atoi ds = (if decimal ds \<and> dec ds \<le> NGX_MAX_INT_T_VALUE then dec ds else NGX_ERROR)
    \<and> ngx_atosz ds = (if decimal ds \<and> dec ds \<le> NGX_MAX_SIZE_T_VALUE then dec ds else NGX_ERROR)
    \<and> ngx_atoof ds = (if decimal ds \<and> dec ds \<le> NGX_MAX_OFF_T_VALUE then dec ds else NGX_ERROR)
    \<and> ngx_atotm ds = (if decimal ds \<and> dec ds \<le> NGX_MAX_TIME_T_VALUE then dec ds else NGX_ERROR)"
  using atoi.conv_spec atosz.conv_spec atoof.conv_spec atotm.conv_spec by auto

lemma unit_scale_pos: "size_unit line = (ds, sc) \<Longrightarrow> 0 < sc" "offset_unit line = (ds, sc) \<Longrightarrow> 0 < sc"
  by (auto simp: size_unit_def offset_unit_def Let_def split: if_splits)

text \<open>\<^verbatim>\<open>ngx_parse_size\<close> and \<^verbatim>\<open>ngx_parse_offset\<close> return the number times its unit exactly when the
  product fits; no product overflows.\<close>

theorem ngx_parse_size_spec:
  "ngx_parse_size line =
      (if line = [] then NGX_ERROR
       else let (ds, sc) = size_unit line
            in if decimal ds \<and> dec ds * sc \<le> NGX_MAX_SIZE_T_VALUE then dec ds * sc else NGX_ERROR)
    \<and> ngx_parse_offset line =
      (if line = [] then NGX_ERROR
       else let (ds, sc) = offset_unit line
            in if decimal ds \<and> dec ds * sc \<le> NGX_MAX_OFF_T_VALUE then dec ds * sc else NGX_ERROR)"
  using atosz.scaled atoof.scaled unit_scale_pos
  by (cases "size_unit line"; cases "offset_unit line")
    (fastforce simp: ngx_parse_size_def ngx_parse_offset_def Let_def)

text \<open>What \<^verbatim>\<open>ngx_sprintf_num\<close> prints is read back by \<^verbatim>\<open>ngx_atoi\<close> and \<^verbatim>\<open>ngx_hextoi\<close>.\<close>

theorem sprintf_num_roundtrip:
  assumes "uint n \<le> NGX_MAX_INT_T_VALUE" and "20 \<le> room"
  shows "ngx_atoi (ngx_sprintf_num room n z 0 0) = uint n
    \<and> ngx_hextoi (ngx_sprintf_num room n z 1 0) = uint n \<and> ngx_hextoi (ngx_sprintf_num room n z 2 0) = uint n"
proof -
  have d: "ngx_sprintf_num room n z 0 0 = num_loop n []"
    using num_digits_fit(1) [of n] assms(2) by (simp add: ngx_sprintf_num_def num_digits_eq)
  have h: "ngx_sprintf_num room n z 1 0 = hex_loop hex_digits n []"
    "ngx_sprintf_num room n z 2 0 = hex_loop HEX_digits n []"
    using num_digits_fit(2) [of _ n] assms(2) by (simp_all add: ngx_sprintf_num_def order_trans [of _ 16])
  have ne: "hex_loop t n [] \<noteq> []" for t using hex_loop_unfold [of t n] by simp
  show ?thesis
    using d h ne num_loop_decimal [of n] assms(1) hex_table hex_loop_hextoi [of hex_digits n]
      hex_loop_hextoi [of HEX_digits n]
    by (simp add: atoi.conv_spec ngx_hextoi_def)
qed

theorem sprintf_num_roundtrip_witness:
  "ngx_atoi (ngx_sprintf_num 20 1700 0x30 0 0) = 1700 \<and> ngx_hextoi (ngx_sprintf_num 20 1700 0x30 1 0) = 1700"
  using sprintf_num_roundtrip [of 1700 20 "0x30"] by (simp add: NGX_MAX_INT_T_VALUE_def)

text \<open>\<^verbatim>\<open>ngx_sprintf_num\<close> never writes more than the room it is given, nor past its buffer of
  \<^verbatim>\<open>NGX_INT64_LEN\<close> (20) digits.\<close>

theorem sprintf_num_fits:
  "length (ngx_sprintf_num room n z hexadecimal width) \<le> room
    \<and> length (num_loop n []) \<le> 20 \<and> length (hex_loop hex_digits n []) \<le> 20 \<and> length (hex_loop HEX_digits n []) \<le> 20"
  using num_digits_fit(1) [of n] num_digits_fit(2) [of hex_digits n] num_digits_fit(2) [of HEX_digits n]
  by (simp add: ngx_sprintf_num_def Let_def)

end
