(* ===== verification/Ngx_Parse_Time.thy ===== *)
theory Ngx_Parse_Time
  imports Ngx_Number
begin

text \<open>
  \<^verbatim>\<open>ngx_parse_time\<close> of \<^verbatim>\<open>src/core/ngx_parse.c\<close>: durations such as \<^verbatim>\<open>1h 30m\<close>, in seconds or
  milliseconds.  The steps of the enumeration are numbers in the order of the code.
\<close>

abbreviation st_start :: nat where "st_start \<equiv> 0"
abbreviation st_year :: nat where "st_year \<equiv> 1"
abbreviation st_month :: nat where "st_month \<equiv> 2"
abbreviation st_week :: nat where "st_week \<equiv> 3"
abbreviation st_day :: nat where "st_day \<equiv> 4"
abbreviation st_hour :: nat where "st_hour \<equiv> 5"
abbreviation st_min :: nat where "st_min \<equiv> 6"
abbreviation st_sec :: nat where "st_sec \<equiv> 7"
abbreviation st_msec :: nat where "st_msec \<equiv> 8"
abbreviation st_last :: nat where "st_last \<equiv> 9"

text \<open>The \<^verbatim>\<open>switch\<close> on the unit: the new step, \<^verbatim>\<open>scale\<close> (\<^verbatim>\<open>max\<close> is the largest number divided by
  it) and the rest of the line; \<open>None\<close> is the error.\<close>

definition time_unit :: "bool \<Rightarrow> nat \<Rightarrow> u_char \<Rightarrow> u_char list \<Rightarrow> (nat \<times> int \<times> u_char list) option" where
  "time_unit is_sec step c p =
    (if c = 0x79 then (if step > st_start then None else Some (st_year, 60 * 60 * 24 * 365, p))
     else if c = 0x4D then (if step \<ge> st_month then None else Some (st_month, 60 * 60 * 24 * 30, p))
     else if c = 0x77 then (if step \<ge> st_week then None else Some (st_week, 60 * 60 * 24 * 7, p))
     else if c = 0x64 then (if step \<ge> st_day then None else Some (st_day, 60 * 60 * 24, p))
     else if c = 0x68 then (if step \<ge> st_hour then None else Some (st_hour, 60 * 60, p))
     else if c = 0x6D then
       (if p \<noteq> [] \<and> hd p = 0x73
        then if is_sec \<or> step \<ge> st_msec then None else Some (st_msec, 1, tl p)
        else if step \<ge> st_min then None else Some (st_min, 60, p))
     else if c = 0x73 then (if step \<ge> st_sec then None else Some (st_sec, 1, p))
     else if c = 0x20 then (if step \<ge> st_sec then None else Some (st_last, 1, p))
     else None)"

definition scale_of :: "bool \<Rightarrow> nat \<Rightarrow> int \<Rightarrow> int" where
  "scale_of is_sec step scale = (if step \<noteq> st_msec \<and> \<not> is_sec then scale * 1000 else scale)"

definition max_of :: "bool \<Rightarrow> nat \<Rightarrow> int \<Rightarrow> int" where
  "max_of is_sec step scale =
    (let mx = NGX_MAX_INT_T_VALUE div scale in if step \<noteq> st_msec \<and> \<not> is_sec then mx div 1000 else mx)"

lemma time_unit_length: "time_unit is_sec step c p = Some (st', sc, q) \<Longrightarrow> length q \<le> length p"
  by (auto simp: time_unit_def split: if_splits)

text \<open>The main loop; \<open>valid\<close> says that a digit was seen.\<close>

function time_loop :: "bool \<Rightarrow> nat \<Rightarrow> bool \<Rightarrow> int \<Rightarrow> int \<Rightarrow> u_char list \<Rightarrow> int" where
  "time_loop is_sec step valid v tot [] =
    (if \<not> valid then NGX_ERROR
     else if \<not> is_sec \<and> v > NGX_MAX_INT_T_VALUE div 1000 then NGX_ERROR
     else let v' = (if is_sec then v else v * 1000)
          in if tot > NGX_MAX_INT_T_VALUE - v' then NGX_ERROR else tot + v')"
| "time_loop is_sec step valid v tot (c # p) =
    (if is_digit c then
       if cut NGX_MAX_INT_T_VALUE v c then NGX_ERROR
       else time_loop is_sec step True (v * 10 + digit_val c) tot p
     else
       case time_unit is_sec step c p of
         None \<Rightarrow> NGX_ERROR
       | Some (step', sc, q) \<Rightarrow>
           if v > max_of is_sec step' sc then NGX_ERROR
           else let v' = v * scale_of is_sec step' sc
                in if tot > NGX_MAX_INT_T_VALUE - v' then NGX_ERROR
                   else time_loop is_sec step' valid 0 (tot + v') (dropWhile (\<lambda>x. x = 0x20) q))"
  by pat_completeness auto
termination
  by (relation "measure (\<lambda>(is_sec, step, valid, v, tot, p). length p)")
    (auto dest!: time_unit_length intro: le_less_trans [OF length_dropWhile_le])

definition ngx_parse_time :: "u_char list \<Rightarrow> bool \<Rightarrow> int" where
  "ngx_parse_time line is_sec = time_loop is_sec (if is_sec then st_start else st_month) False 0 0 line"

section \<open>The result fits\<close>

lemma time_unit_scale: "time_unit is_sec step c p = Some (step', sc, q) \<Longrightarrow> 1 \<le> sc"
  by (auto simp: time_unit_def split: if_splits)

lemma scaled_bound:
  assumes "1 \<le> sc" and "0 \<le> v" and "v \<le> max_of is_sec step sc"
  shows "0 \<le> v * scale_of is_sec step sc \<and> v * scale_of is_sec step sc \<le> NGX_MAX_INT_T_VALUE"
proof -
  let ?k = "scale_of is_sec step sc"
  have k: "0 < ?k" using assms(1) by (simp add: scale_of_def)
  have "max_of is_sec step sc = NGX_MAX_INT_T_VALUE div ?k"
    using assms(1) by (simp add: max_of_def scale_of_def Let_def zdiv_zmult2_eq)
  then have "v * ?k \<le> NGX_MAX_INT_T_VALUE div ?k * ?k" using assms(3) k by (simp add: mult_right_mono)
  also have "\<dots> \<le> NGX_MAX_INT_T_VALUE"
    using minus_mod_eq_div_mult [of NGX_MAX_INT_T_VALUE ?k] pos_mod_sign [OF k, of NGX_MAX_INT_T_VALUE] by linarith
  finally show ?thesis using assms(2) k by simp
qed

lemma time_loop_range:
  "0 \<le> v \<Longrightarrow> 0 \<le> tot \<Longrightarrow> tot \<le> NGX_MAX_INT_T_VALUE \<Longrightarrow>
    time_loop is_sec step valid v tot p = NGX_ERROR
    \<or> 0 \<le> time_loop is_sec step valid v tot p \<and> time_loop is_sec step valid v tot p \<le> NGX_MAX_INT_T_VALUE"
proof (induction is_sec step valid v tot p rule: time_loop.induct)
  case (2 is_sec step valid v tot c p)
  show ?case
  proof (cases "is_digit c")
    case True
    then have "0 \<le> digit_val c" using digit_val_range by blast
    then show ?thesis using True 2 by auto
  next
    case False
    show ?thesis
    proof (cases "time_unit is_sec step c p")
      case None
      then show ?thesis using False by simp
    next
      case (Some x)
      then obtain step' sc q where x: "time_unit is_sec step c p = Some (step', sc, q)" by (cases x) auto
      show ?thesis
      proof (cases "v > max_of is_sec step' sc")
        case big: False
        have b: "0 \<le> v * scale_of is_sec step' sc"
          using scaled_bound [OF time_unit_scale [OF x] "2.prems"(1)] big by simp
        then show ?thesis
          using False x big "2.IH"(2) [OF False x refl refl big refl] "2.prems" by (auto simp: Let_def)
      qed (use False x in simp)
    qed
  qed
qed (auto simp: Let_def)

section \<open>Durations written with units\<close>

definition unit_bytes :: "nat \<Rightarrow> u_char list" where
  "unit_bytes st =
    (if st = st_year then [0x79] else if st = st_month then [0x4D] else if st = st_week then [0x77]
     else if st = st_day then [0x64] else if st = st_hour then [0x68] else if st = st_min then [0x6D]
     else if st = st_sec then [0x73] else [0x6D, 0x73])"

definition unit_scale :: "nat \<Rightarrow> int" where
  "unit_scale st =
    (if st = st_year then 60 * 60 * 24 * 365 else if st = st_month then 60 * 60 * 24 * 30
     else if st = st_week then 60 * 60 * 24 * 7 else if st = st_day then 60 * 60 * 24
     else if st = st_hour then 60 * 60 else if st = st_min then 60 else 1)"

text \<open>The text of a list of numbers and units, and the duration it means.\<close>

fun print_time :: "(64 word \<times> nat) list \<Rightarrow> u_char list" where
  "print_time [] = []"
| "print_time ((n, st) # xs) = num_loop n [] @ unit_bytes st @ print_time xs"

fun time_value :: "bool \<Rightarrow> (64 word \<times> nat) list \<Rightarrow> int" where
  "time_value is_sec [] = 0"
| "time_value is_sec ((n, st) # xs) = uint n * scale_of is_sec st (unit_scale st) + time_value is_sec xs"

text \<open>Units in descending order, after \<open>step\<close>.\<close>

fun units_ok :: "bool \<Rightarrow> nat \<Rightarrow> (64 word \<times> nat) list \<Rightarrow> bool" where
  "units_ok is_sec step [] = True"
| "units_ok is_sec step ((n, st) # xs) \<longleftrightarrow>
    step < st \<and> st \<le> (if is_sec then st_sec else st_msec) \<and> units_ok is_sec st xs"

lemma time_loop_digits:
  assumes "list_all is_digit ds" and "ds \<noteq> []" and "0 \<le> v" and "dec_from v ds \<le> NGX_MAX_INT_T_VALUE"
  shows "time_loop is_sec step valid v tot (ds @ p) = time_loop is_sec step True (dec_from v ds) tot p"
  using assms
proof (induction ds arbitrary: v valid)
  case (Cons c ds)
  have c: "is_digit c" and d: "0 \<le> digit_val c" using Cons.prems digit_val_range by auto
  have "v * 10 + digit_val c \<le> dec_from v (c # ds)"
    using dec_from_ge [of ds "v * 10 + digit_val c"] Cons.prems d by simp
  then have nc: "\<not> cut NGX_MAX_INT_T_VALUE v c" using Cons.prems(4) c by (simp add: cut_iff)
  show ?case
  proof (cases "ds = []")
    case True
    then show ?thesis using c nc by simp
  next
    case False
    then show ?thesis using c nc d Cons.IH [of "v * 10 + digit_val c" True] Cons.prems by simp
  qed
qed simp

lemma not_digit_unit: "st \<noteq> 0 \<Longrightarrow> \<exists>c cs. unit_bytes st = c # cs \<and> \<not> is_digit c"
  by (auto simp: unit_bytes_def is_digit_def)

lemma print_time_hd:
  "print_time xs = [] \<or> (\<exists>c cs. print_time xs = c # cs \<and> is_digit c)"
proof (cases xs)
  case (Cons x ys)
  obtain n st where x: "x = (n, st)" by (cases x)
  obtain c cs where "num_loop n [] = c # cs" "is_digit c"
    using num_loop_decimal [of n] by (cases "num_loop n []") (auto simp: decimal_def)
  then show ?thesis by (simp add: Cons x)
qed simp

lemma time_unit_print:
  assumes "step < st" and "st \<le> (if is_sec then st_sec else st_msec)" and "unit_bytes st = c # cs"
    and "p = [] \<or> (\<exists>d ds. p = d # ds \<and> is_digit d)"
  shows "time_unit is_sec step c (cs @ p) = Some (st, unit_scale st, p)"
proof -
  have "p = [] \<or> hd p \<noteq> 0x73" using assms(4) by (auto simp: is_digit_def)
  moreover have "st = 1 \<or> st = 2 \<or> st = 3 \<or> st = 4 \<or> st = 5 \<or> st = 6 \<or> st = 7 \<or> (st = 8 \<and> \<not> is_sec)"
    using assms(1,2) by (auto split: if_splits)
  ultimately show ?thesis
    using assms(1,3) by (elim disjE) (auto simp: unit_bytes_def unit_scale_def time_unit_def)
qed

lemma time_loop_print:
  "units_ok is_sec step xs \<Longrightarrow> xs \<noteq> [] \<or> valid \<Longrightarrow> 0 \<le> tot \<Longrightarrow>
    tot + time_value is_sec xs \<le> NGX_MAX_INT_T_VALUE \<Longrightarrow>
    time_loop is_sec step valid 0 tot (print_time xs) = tot + time_value is_sec xs"
proof (induction xs arbitrary: step valid tot)
  case Nil
  then show ?case by (simp add: NGX_MAX_INT_T_VALUE_def)
next
  case (Cons x xs)
  obtain n st where x: "x = (n, st)" by (cases x)
  let ?v = "uint n * scale_of is_sec st (unit_scale st)"
  have st: "step < st" "st \<le> (if is_sec then st_sec else st_msec)" "units_ok is_sec st xs"
    using Cons.prems(1) x by auto
  have sc: "1 \<le> unit_scale st" by (simp add: unit_scale_def)
  have tv: "0 \<le> time_value is_sec ys" for ys
    by (induction is_sec ys rule: time_value.induct) (auto simp: scale_of_def unit_scale_def)
  have vle: "tot + ?v \<le> NGX_MAX_INT_T_VALUE" "tot + ?v + time_value is_sec xs \<le> NGX_MAX_INT_T_VALUE"
    using Cons.prems(4) tv [of xs] x by simp_all
  have k: "1 \<le> scale_of is_sec st (unit_scale st)" using sc by (simp add: scale_of_def)
  have "uint n * 1 \<le> ?v" using k by (intro mult_left_mono) auto
  then have nle: "uint n \<le> NGX_MAX_INT_T_VALUE" using vle Cons.prems(3) by linarith
  obtain c cs where u: "unit_bytes st = c # cs" "\<not> is_digit c" using not_digit_unit [of st] st(1) by auto
  have "max_of is_sec st (unit_scale st) = NGX_MAX_INT_T_VALUE div scale_of is_sec st (unit_scale st)"
    using sc by (simp add: max_of_def scale_of_def Let_def zdiv_zmult2_eq)
  moreover have "?v div scale_of is_sec st (unit_scale st) \<le> NGX_MAX_INT_T_VALUE div scale_of is_sec st (unit_scale st)"
    using vle(1) Cons.prems(3) k by (intro zdiv_mono1) auto
  ultimately have mx: "\<not> uint n > max_of is_sec st (unit_scale st)" using k by simp
  have dw: "dropWhile (\<lambda>x. x = 0x20) (print_time xs) = print_time xs"
    using print_time_hd [of xs] by (auto simp: is_digit_def)
  have "time_loop is_sec step valid 0 tot (print_time (x # xs))
      = time_loop is_sec step True (uint n) tot (c # cs @ print_time xs)"
    using time_loop_digits [of "num_loop n []" 0] num_loop_decimal [of n] nle
    by (simp add: x u decimal_def)
  also have "\<dots> = time_loop is_sec st True 0 (tot + ?v) (print_time xs)"
    using u(2) time_unit_print [OF st(1,2) u(1) print_time_hd [of xs]] mx vle(1) dw by (simp add: Let_def)
  also have "\<dots> = tot + ?v + time_value is_sec xs"
    using Cons.IH [OF st(3), of True "tot + ?v"] Cons.prems(3) vle(2) k by simp
  finally show ?case by (simp add: x)
qed

section \<open>Properties\<close>

text \<open>A duration written with units in descending order, each once, is read as the sum of its
  parts, in seconds or in milliseconds.\<close>

theorem parse_time_print:
  assumes "xs \<noteq> []" and "units_ok is_sec (if is_sec then st_start else st_month) xs"
    and "time_value is_sec xs \<le> NGX_MAX_INT_T_VALUE"
  shows "ngx_parse_time (print_time xs) is_sec = time_value is_sec xs"
  using time_loop_print [OF assms(2), of False 0] assms(1,3) by (simp add: ngx_parse_time_def)

theorem parse_time_print_witness:
  "ngx_parse_time (print_time [(1, st_hour), (30, st_min)]) True = 5400
    \<and> ngx_parse_time (print_time [(1, st_min), (500, st_msec)]) False = 60500"
  using parse_time_print [of "[(1, st_hour), (30, st_min)]" True] parse_time_print [of "[(1, st_min), (500, st_msec)]" False]
  by (simp add: scale_of_def unit_scale_def NGX_MAX_INT_T_VALUE_def)

text \<open>For every line \<^verbatim>\<open>ngx_parse_time\<close> returns an error or a number from 0 to the largest
  \<^verbatim>\<open>ngx_int_t\<close>: none of its products and sums overflows.\<close>

theorem parse_time_range:
  "ngx_parse_time line is_sec = NGX_ERROR
    \<or> 0 \<le> ngx_parse_time line is_sec \<and> ngx_parse_time line is_sec \<le> NGX_MAX_INT_T_VALUE"
  using time_loop_range [of 0 0 is_sec _ False line]
  by (simp add: ngx_parse_time_def NGX_MAX_INT_T_VALUE_def)

end
