(* ===== verification/Http_Machine.thy ===== *)
theory Http_Machine
  imports Ngx_Number
begin

text \<open>
  The parsers of \<^verbatim>\<open>src/http/ngx_http_parse.c\<close> are loops over the bytes of a buffer around a
  \<^verbatim>\<open>switch\<close> on the state and the byte.  \<open>run\<close> is that loop: the body either goes on in a new
  state or leaves the loop (a \<^verbatim>\<open>goto\<close> or \<^verbatim>\<open>return\<close>), and at the end of the buffer the parser keeps
  its state for the next one.  The locale \<open>resumable\<close> is what the callers rely on: however the
  network cuts the bytes, the outcome is that of the bytes in one piece.
\<close>

abbreviation CR :: u_char where "CR \<equiv> 0x0D"
abbreviation LF :: u_char where "LF \<equiv> 0x0A"

text \<open>Status codes the handlers return.\<close>

definition NGX_HTTP_BAD_REQUEST :: int where "NGX_HTTP_BAD_REQUEST = 400"
definition NGX_HTTP_REQUEST_ENTITY_TOO_LARGE :: int where "NGX_HTTP_REQUEST_ENTITY_TOO_LARGE = 413"
definition NGX_HTTP_INTERNAL_SERVER_ERROR :: int where "NGX_HTTP_INTERNAL_SERVER_ERROR = 500"

lemmas http_rc_defs = NGX_HTTP_BAD_REQUEST_def NGX_HTTP_REQUEST_ENTITY_TOO_LARGE_def
  NGX_HTTP_INTERNAL_SERVER_ERROR_def

datatype ('s, 'r) bstep = Next 's | Stop 'r 's

text \<open>\<open>Halt r s rest\<close>: the loop was left at the first byte of \<open>rest\<close>.\<close>

datatype ('s, 'r) mres = More 's | Halt 'r 's "u_char list"

fun run :: "('s \<Rightarrow> u_char \<Rightarrow> ('s, 'r) bstep) \<Rightarrow> 's \<Rightarrow> u_char list \<Rightarrow> ('s, 'r) mres" where
  "run f s [] = More s"
| "run f s (c # cs) =
    (case f s c of Next s' \<Rightarrow> run f s' cs | Stop r s' \<Rightarrow> Halt r s' (c # cs))"

lemma run_append:
  "run f s (xs @ ys) =
    (case run f s xs of More s' \<Rightarrow> run f s' ys | Halt r s' rest \<Rightarrow> Halt r s' (rest @ ys))"
  by (induction xs arbitrary: s) (auto split: bstep.split)

lemma run_Halt_rest:
  "run f s xs = Halt r s' rest \<Longrightarrow> rest \<noteq> [] \<and> (\<exists>pre. xs = pre @ rest)"
proof (induction xs arbitrary: s)
  case (Cons c cs)
  show ?case
  proof (cases "f s c")
    case (Next s1)
    then have "rest \<noteq> []" "\<exists>pre. cs = pre @ rest" using Cons by auto
    then show ?thesis by (metis append_Cons)
  next
    case (Stop q s1)
    then show ?thesis using Cons.prems by auto
  qed
qed simp

text \<open>An invariant of the body is an invariant of the loop.\<close>

lemma run_invariant:
  assumes "I s" and "\<And>s c s'. I s \<Longrightarrow> f s c = Next s' \<Longrightarrow> I s'"
    and "\<And>s c r s'. I s \<Longrightarrow> f s c = Stop r s' \<Longrightarrow> J r s'"
  shows "case run f s xs of More s' \<Rightarrow> I s' | Halt r s' rest \<Rightarrow> J r s'"
  using assms(1) by (induction xs arbitrary: s) (auto split: bstep.split dest: assms(2,3))

text \<open>Feeding a parser with the pieces of a stream until it answers something else than
  \<open>again\<close>.\<close>

fun feed :: "('c \<Rightarrow> u_char list \<Rightarrow> 'v \<times> 'c \<times> u_char list) \<Rightarrow> 'v \<Rightarrow> 'c \<Rightarrow> u_char list list
    \<Rightarrow> 'v \<times> 'c \<times> u_char list" where
  "feed parse again c [] = (again, c, [])"
| "feed parse again c (f # fs) =
    (case parse c f of (v, c', r) \<Rightarrow>
       if v = again then feed parse again c' fs else (v, c', r @ concat fs))"

text \<open>Two answers a caller cannot tell apart: the same code and, when it is no error, the same rest
  of the bytes and the same visible part \<open>obs\<close> of the context.\<close>

definition same_answer :: "('v \<Rightarrow> bool) \<Rightarrow> ('v \<Rightarrow> 'c \<Rightarrow> 'o) \<Rightarrow> 'v \<times> 'c \<times> u_char list
    \<Rightarrow> 'v \<times> 'c \<times> u_char list \<Rightarrow> bool" where
  "same_answer err obs a b \<longleftrightarrow>
    fst a = fst b
    \<and> (\<not> err (fst a) \<longrightarrow> snd (snd a) = snd (snd b) \<and> obs (fst a) (fst (snd a)) = obs (fst a) (fst (snd b)))"

lemma same_answer_refl [simp]: "same_answer err obs a a"
  by (simp add: same_answer_def)

lemma same_answer_sym: "same_answer err obs a b \<Longrightarrow> same_answer err obs b a"
  unfolding same_answer_def by force

lemma same_answer_trans: "same_answer err obs a b \<Longrightarrow> same_answer err obs b c \<Longrightarrow> same_answer err obs a c"
  unfolding same_answer_def by force

locale resumable =
  fixes parse :: "'c \<Rightarrow> u_char list \<Rightarrow> 'v \<times> 'c \<times> u_char list"
    and again :: 'v and err :: "'v \<Rightarrow> bool" and obs :: "'v \<Rightarrow> 'c \<Rightarrow> 'o" and wf :: "'c \<Rightarrow> bool"
  assumes again_ok: "\<not> err again"
    and again_rest: "wf c \<Longrightarrow> parse c xs = (again, c', r) \<Longrightarrow> wf c' \<and> r = []"
    and again_append: "wf c \<Longrightarrow> parse c xs = (again, c', r) \<Longrightarrow>
      same_answer err obs (parse c' ys) (parse c (xs @ ys))"
    and stop_append: "wf c \<Longrightarrow> parse c xs = (v, c', r) \<Longrightarrow> v \<noteq> again \<Longrightarrow>
      same_answer err obs (v, c', r @ ys) (parse c (xs @ ys))"
begin

lemma feed_concat:
  assumes "wf c" and "fs \<noteq> []"
  shows "same_answer err obs (feed parse again c fs) (parse c (concat fs))"
  using assms
proof (induction fs arbitrary: c)
  case (Cons f fs)
  obtain v c' r where p: "parse c f = (v, c', r)" by (cases "parse c f")
  show ?case
  proof (cases "v = again")
    case True
    note p = p [unfolded True]
    have w: "wf c'" "r = []" using again_rest [OF Cons.prems(1) p] by auto
    show ?thesis
    proof (cases "fs = []")
      case True
      then show ?thesis using p w by simp
    next
      case False
      have "feed parse again c (f # fs) = feed parse again c' fs" using p by simp
      moreover note Cons.IH [OF w(1) False]
      moreover have "same_answer err obs (parse c' (concat fs)) (parse c (concat (f # fs)))"
        using again_append [OF Cons.prems(1) p, of "concat fs"] by simp
      ultimately show ?thesis by (metis same_answer_trans)
    qed
  next
    case False
    then show ?thesis using p stop_append [OF Cons.prems(1) p False, of "concat fs"] by simp
  qed
qed simp

text \<open>A proper prefix of a stream that is parsed to its last byte is answered with \<open>again\<close>.\<close>

lemma prefix_again:
  assumes "wf c" and "parse c (xs @ ys) = (v, c', [])" and "\<not> err v" and "ys \<noteq> []"
  shows "fst (parse c xs) = again"
proof -
  obtain w c1 r where p: "parse c xs = (w, c1, r)" by (cases "parse c xs")
  show ?thesis
  proof (rule ccontr)
    assume "\<not> ?thesis"
    then have "same_answer err obs (w, c1, r @ ys) (v, c', [])"
      using stop_append [OF assms(1) p, of ys] p assms(2) by simp
    then show False using assms(3,4) by (auto simp: same_answer_def)
  qed
qed

end

section \<open>Parsers that keep their state in the request\<close>

text \<open>The loop, then either the code before \<^verbatim>\<open>return NGX_AGAIN\<close> or the code \<open>fin\<close> at the label the loop was
  left for (given the request before, the label, the request, the buffer and its rest).  While the loop
  runs, the fields that are kept between two calls stand for the local variables; \<open>save\<close> gives the
  request after \<^verbatim>\<open>NGX_AGAIN\<close> from the one before the call (whose fields hold what was stored last) and the
  one at the end of the loop (whose fields hold the local variables): a variable that is not stored
  falls back to its old value.\<close>

definition mach_parse :: "('c \<Rightarrow> u_char \<Rightarrow> ('c, 'r) bstep)
    \<Rightarrow> ('c \<Rightarrow> 'r \<Rightarrow> 'c \<Rightarrow> u_char list \<Rightarrow> u_char list \<Rightarrow> 'v \<times> 'c \<times> u_char list)
    \<Rightarrow> ('c \<Rightarrow> 'c \<Rightarrow> 'c) \<Rightarrow> 'v \<Rightarrow> 'c \<Rightarrow> u_char list \<Rightarrow> 'v \<times> 'c \<times> u_char list" where
  "mach_parse f fin save again c b =
    (case run f c b of More s \<Rightarrow> (again, save c s, []) | Halt r s rest \<Rightarrow> fin c r s b rest)"

locale byte_parser =
  fixes f :: "'c \<Rightarrow> u_char \<Rightarrow> ('c, 'r) bstep"
    and fin :: "'c \<Rightarrow> 'r \<Rightarrow> 'c \<Rightarrow> u_char list \<Rightarrow> u_char list \<Rightarrow> 'v \<times> 'c \<times> u_char list"
    and save :: "'c \<Rightarrow> 'c \<Rightarrow> 'c"
    and again :: 'v and err :: "'v \<Rightarrow> bool" and obs :: "'v \<Rightarrow> 'c \<Rightarrow> 'o"
  assumes again_not_err: "\<not> err again"
    and save_all: "save c s = s"
    and fin_not_again: "fst (fin c r s b rest) \<noteq> again"
    and fin_same: "same_answer err obs (fin c r s b rest) (fin c' r s b' rest)"
    and fin_append: "rest \<noteq> [] \<Longrightarrow> fin c r s b rest = (v, c', q) \<Longrightarrow>
      same_answer err obs (v, c', q @ ys) (fin c r s (b @ ys) (rest @ ys))"
begin

lemma parse_again: "mach_parse f fin save again c xs = (again, c', r) \<Longrightarrow> run f c xs = More c' \<and> r = []"
  using fin_not_again save_all by (auto simp: mach_parse_def split: mres.splits) (metis fst_conv)+

end

sublocale byte_parser \<subseteq> resumable "mach_parse f fin save again" again err obs "\<lambda>_. True"
proof unfold_locales
  show "\<not> err again" by (rule again_not_err)
  show "True \<and> r = []" if "mach_parse f fin save again c xs = (again, c', r)" for c xs c' r
    using parse_again [OF that] by simp
  show "same_answer err obs (mach_parse f fin save again c' ys) (mach_parse f fin save again c (xs @ ys))"
    if "mach_parse f fin save again c xs = (again, c', r)" for c xs c' r ys
    using parse_again [OF that] fin_same save_all by (auto simp: mach_parse_def run_append split: mres.split)
  show "same_answer err obs (v, c', r @ ys) (mach_parse f fin save again c (xs @ ys))"
    if p: "mach_parse f fin save again c xs = (v, c', r)" and "v \<noteq> again" for c xs v c' r ys
  proof (cases "run f c xs")
    case (More s)
    then show ?thesis using that by (simp add: mach_parse_def)
  next
    case (Halt q s rest)
    then have "rest \<noteq> []" "fin c q s xs rest = (v, c', r)"
      using run_Halt_rest [OF Halt] p by (simp_all add: mach_parse_def)
    from fin_append [OF this, of ys] show ?thesis using Halt by (simp add: mach_parse_def run_append)
  qed
qed

end
