(* ===== verification/Http_Chunked.thy ===== *)
theory Http_Chunked
  imports Http_Machine
begin

text \<open>
  The chunked transfer coding: the parser \<^verbatim>\<open>ngx_http_parse_chunked\<close> of
  \<^verbatim>\<open>src/http/ngx_http_parse.c\<close> as a byte machine, and that it can be resumed at any byte.
  \<open>size\<close> is an \<^verbatim>\<open>off_t\<close> that is only set to hexadecimal digits and decreased by at most itself:
  a natural number.
\<close>

datatype chunked_state =
    sw_chunk_start | sw_chunk_size | sw_chunk_extension | sw_chunk_extension_almost_done
  | sw_chunk_data | sw_after_data | sw_after_data_almost_done | sw_last_chunk_extension
  | sw_last_chunk_extension_almost_done | sw_trailer | sw_trailer_almost_done | sw_trailer_header
  | sw_trailer_header_almost_done

record ngx_http_chunked =
  chunk_state :: chunked_state
  chunk_size :: nat
  chunk_length :: nat

text \<open>The labels the loop jumps to.\<close>

datatype chunk_label = Ldata | Ldone | Linvalid

type_synonym chunk_mach = "chunked_state \<times> nat"

text \<open>The body of the loop, a \<^verbatim>\<open>switch\<close> on the state.\<close>

fun chunk_step :: "chunk_mach \<Rightarrow> u_char \<Rightarrow> (chunk_mach, chunk_label) bstep" where
  "chunk_step (sw_chunk_start, sz) ch =
    (case hex_val ch of
       Some d \<Rightarrow> Next (sw_chunk_size, nat d)
     | None \<Rightarrow> Stop Linvalid (sw_chunk_start, sz))"
| "chunk_step (sw_chunk_size, sz) ch =
    (if int sz > NGX_MAX_OFF_T_VALUE div 16 then Stop Linvalid (sw_chunk_size, sz)
     else case hex_val ch of
       Some d \<Rightarrow> Next (sw_chunk_size, sz * 16 + nat d)
     | None \<Rightarrow>
         if sz = 0 then
           if ch = CR then Next (sw_last_chunk_extension_almost_done, sz)
           else if ch = LF then Next (sw_trailer, sz)
           else if ch = 0x3B \<or> ch = 0x20 \<or> ch = 0x09 then Next (sw_last_chunk_extension, sz)
           else Stop Linvalid (sw_chunk_size, sz)
         else if ch = CR then Next (sw_chunk_extension_almost_done, sz)
         else if ch = LF then Next (sw_chunk_data, sz)
         else if ch = 0x3B \<or> ch = 0x20 \<or> ch = 0x09 then Next (sw_chunk_extension, sz)
         else Stop Linvalid (sw_chunk_size, sz))"
| "chunk_step (sw_chunk_extension, sz) ch =
    (if ch = CR then Next (sw_chunk_extension_almost_done, sz)
     else if ch = LF then Next (sw_chunk_data, sz)
     else Next (sw_chunk_extension, sz))"
| "chunk_step (sw_chunk_extension_almost_done, sz) ch =
    (if ch = LF then Next (sw_chunk_data, sz) else Stop Linvalid (sw_chunk_extension_almost_done, sz))"
| "chunk_step (sw_chunk_data, sz) ch = Stop Ldata (sw_chunk_data, sz)"
| "chunk_step (sw_after_data, sz) ch =
    (if ch = CR then Next (sw_after_data_almost_done, sz)
     else if ch = LF then Next (sw_chunk_start, sz)
     else Stop Linvalid (sw_after_data, sz))"
| "chunk_step (sw_after_data_almost_done, sz) ch =
    (if ch = LF then Next (sw_chunk_start, sz) else Stop Linvalid (sw_after_data_almost_done, sz))"
| "chunk_step (sw_last_chunk_extension, sz) ch =
    (if ch = CR then Next (sw_last_chunk_extension_almost_done, sz)
     else if ch = LF then Next (sw_trailer, sz)
     else Next (sw_last_chunk_extension, sz))"
| "chunk_step (sw_last_chunk_extension_almost_done, sz) ch =
    (if ch = LF then Next (sw_trailer, sz) else Stop Linvalid (sw_last_chunk_extension_almost_done, sz))"
| "chunk_step (sw_trailer, sz) ch =
    (if ch = CR then Next (sw_trailer_almost_done, sz)
     else if ch = LF then Stop Ldone (sw_trailer, sz)
     else Next (sw_trailer_header, sz))"
| "chunk_step (sw_trailer_almost_done, sz) ch =
    (if ch = LF then Stop Ldone (sw_trailer_almost_done, sz) else Stop Linvalid (sw_trailer_almost_done, sz))"
| "chunk_step (sw_trailer_header, sz) ch =
    (if ch = CR then Next (sw_trailer_header_almost_done, sz)
     else if ch = LF then Next (sw_trailer, sz)
     else Next (sw_trailer_header, sz))"
| "chunk_step (sw_trailer_header_almost_done, sz) ch =
    (if ch = LF then Next (sw_trailer, sz) else Stop Linvalid (sw_trailer_header_almost_done, sz))"

text \<open>The least number of bytes that can follow (the \<^verbatim>\<open>switch\<close> at the label \<^verbatim>\<open>data\<close>).\<close>

fun chunk_min_length :: "chunked_state \<Rightarrow> nat \<Rightarrow> nat" where
  "chunk_min_length sw_chunk_start sz = 3"
| "chunk_min_length sw_chunk_size sz = 1 + (if sz \<noteq> 0 then sz + 4 else 1)"
| "chunk_min_length sw_chunk_extension sz = 1 + sz + 4"
| "chunk_min_length sw_chunk_extension_almost_done sz = 1 + sz + 4"
| "chunk_min_length sw_chunk_data sz = sz + 4"
| "chunk_min_length sw_after_data sz = 4"
| "chunk_min_length sw_after_data_almost_done sz = 4"
| "chunk_min_length sw_last_chunk_extension sz = 2"
| "chunk_min_length sw_last_chunk_extension_almost_done sz = 2"
| "chunk_min_length sw_trailer sz = 1"
| "chunk_min_length sw_trailer_almost_done sz = 1"
| "chunk_min_length sw_trailer_header sz = 2"
| "chunk_min_length sw_trailer_header_almost_done sz = 2"

text \<open>The result: the return code, the context, and the bytes from \<^verbatim>\<open>b->pos\<close> on.\<close>

definition chunk_data :: "int \<Rightarrow> ngx_http_chunked \<Rightarrow> chunk_mach \<Rightarrow> u_char list
    \<Rightarrow> int \<times> ngx_http_chunked \<times> u_char list" where
  "chunk_data rc ctx m rest =
    (let ctx' = ctx\<lparr>chunk_state := fst m, chunk_size := snd m\<rparr>
     in if int (snd m) > NGX_MAX_OFF_T_VALUE - 5 then (NGX_ERROR, ctx', rest)
        else (rc, ctx'\<lparr>chunk_length := chunk_min_length (fst m) (snd m)\<rparr>, rest))"

definition chunk_enter :: "ngx_http_chunked \<Rightarrow> chunk_mach" where
  "chunk_enter ctx =
    (if chunk_state ctx = sw_chunk_data \<and> chunk_size ctx = 0 then sw_after_data else chunk_state ctx,
     chunk_size ctx)"

definition ngx_http_parse_chunked :: "ngx_http_chunked \<Rightarrow> u_char list
    \<Rightarrow> int \<times> ngx_http_chunked \<times> u_char list" where
  "ngx_http_parse_chunked ctx b =
    (case run chunk_step (chunk_enter ctx) b of
       More m \<Rightarrow> chunk_data NGX_AGAIN ctx m []
     | Halt Ldata m rest \<Rightarrow> chunk_data NGX_OK ctx m rest
     | Halt Ldone m rest \<Rightarrow>
         (NGX_DONE, ctx\<lparr>chunk_state := sw_chunk_start, chunk_size := snd m\<rparr>, tl rest)
     | Halt Linvalid m rest \<Rightarrow> (NGX_ERROR, ctx\<lparr>chunk_size := snd m\<rparr>, b))"

section \<open>Invariants of the machine\<close>

text \<open>Past the size line of a chunk with data the size is not 0, and between chunks it is 0.\<close>

definition chunk_mach_wf :: "chunk_mach \<Rightarrow> bool" where
  "chunk_mach_wf m \<longleftrightarrow>
    (fst m \<in> {sw_chunk_extension, sw_chunk_extension_almost_done, sw_chunk_data} \<longrightarrow> snd m \<noteq> 0)
    \<and> (fst m \<notin> {sw_chunk_size, sw_chunk_extension, sw_chunk_extension_almost_done, sw_chunk_data} \<longrightarrow> snd m = 0)"

definition chunk_wf :: "ngx_http_chunked \<Rightarrow> bool" where
  "chunk_wf ctx \<longleftrightarrow> chunk_mach_wf (chunk_enter ctx)"

lemma chunk_step_wf:
  "chunk_mach_wf m \<Longrightarrow> chunk_step m ch = Next m' \<Longrightarrow> chunk_mach_wf m'"
  "chunk_mach_wf m \<Longrightarrow> chunk_step m ch = Stop l m' \<Longrightarrow> m' = m"
  by (induction m ch rule: chunk_step.induct)
    (auto simp: chunk_mach_wf_def split: if_splits option.splits)

lemma chunk_run_wf:
  "chunk_mach_wf m \<Longrightarrow>
    (case run chunk_step m b of More m' \<Rightarrow> chunk_mach_wf m' | Halt l m' rest \<Rightarrow> chunk_mach_wf m')"
  by (rule run_invariant) (auto dest: chunk_step_wf)

text \<open>A size that is too large stays, and every end of the buffer refuses it.\<close>

definition too_big :: "chunk_mach \<Rightarrow> bool" where
  "too_big m \<longleftrightarrow> fst m \<in> {sw_chunk_size, sw_chunk_extension, sw_chunk_extension_almost_done, sw_chunk_data}
    \<and> int (snd m) > NGX_MAX_OFF_T_VALUE - 5"

lemma too_big_step:
  "too_big m \<Longrightarrow> chunk_step m ch = Next m' \<Longrightarrow> too_big m'"
  "too_big m \<Longrightarrow> chunk_step m ch = Stop l m' \<Longrightarrow> too_big m' \<and> l \<noteq> Ldone"
  by (induction m ch rule: chunk_step.induct)
    (auto simp: too_big_def NGX_MAX_OFF_T_VALUE_def split: if_splits option.splits)

lemma too_big_run:
  "too_big m \<Longrightarrow>
    (case run chunk_step m b of More m' \<Rightarrow> too_big m' | Halt l m' rest \<Rightarrow> too_big m' \<and> l \<noteq> Ldone)"
  by (rule run_invariant) (auto dest: too_big_step)

lemma too_bigI: "chunk_mach_wf m \<Longrightarrow> int (snd m) > NGX_MAX_OFF_T_VALUE - 5 \<Longrightarrow> too_big m"
  by (auto simp: chunk_mach_wf_def too_big_def NGX_MAX_OFF_T_VALUE_def)

section \<open>The parser can be resumed\<close>

definition chunk_obs :: "int \<Rightarrow> ngx_http_chunked \<Rightarrow> chunked_state \<times> nat \<times> nat" where
  "chunk_obs rc ctx =
    (chunk_state ctx, chunk_size ctx, if rc = NGX_DONE then 0 else chunk_length ctx)"

lemmas parse_chunked_defs = ngx_http_parse_chunked_def chunk_data_def

lemma chunk_again:
  assumes "chunk_wf ctx" and "ngx_http_parse_chunked ctx xs = (NGX_AGAIN, ctx', r)"
  shows "run chunk_step (chunk_enter ctx) xs = More (chunk_enter ctx')" and "r = []"
    and "chunk_mach_wf (chunk_enter ctx')" and "\<not> int (chunk_size ctx') > NGX_MAX_OFF_T_VALUE - 5"
proof -
  have "\<exists>m. run chunk_step (chunk_enter ctx) xs = More m \<and> \<not> int (snd m) > NGX_MAX_OFF_T_VALUE - 5
      \<and> chunk_state ctx' = fst m \<and> chunk_size ctx' = snd m \<and> r = []"
    using assms(2)
    by (auto simp: parse_chunked_defs Let_def ngx_rc_defs split: mres.splits chunk_label.splits if_splits)
  then obtain m where m: "run chunk_step (chunk_enter ctx) xs = More m" "\<not> int (snd m) > NGX_MAX_OFF_T_VALUE - 5"
    "chunk_state ctx' = fst m" "chunk_size ctx' = snd m" "r = []" by blast
  have wf: "chunk_mach_wf m" using chunk_run_wf [of "chunk_enter ctx" xs] assms(1) m(1) by (simp add: chunk_wf_def)
  then have "chunk_enter ctx' = m" using m(3,4) by (auto simp: chunk_enter_def chunk_mach_wf_def prod_eq_iff)
  then show "run chunk_step (chunk_enter ctx) xs = More (chunk_enter ctx')" "r = []"
    "chunk_mach_wf (chunk_enter ctx')" "\<not> int (chunk_size ctx') > NGX_MAX_OFF_T_VALUE - 5"
    using m wf by simp_all
qed

lemma chunk_again_append:
  assumes "chunk_wf ctx" and "ngx_http_parse_chunked ctx xs = (NGX_AGAIN, ctx', r)"
  shows "same_answer (\<lambda>v. v = NGX_ERROR) chunk_obs
    (ngx_http_parse_chunked ctx' ys) (ngx_http_parse_chunked ctx (xs @ ys))"
  using chunk_again(1) [OF assms]
  by (auto simp: parse_chunked_defs Let_def run_append same_answer_def chunk_obs_def ngx_rc_defs
      split: mres.split chunk_label.split)

lemma chunk_error_append:
  assumes "chunk_wf ctx" and "fst (ngx_http_parse_chunked ctx xs) = NGX_ERROR"
  shows "fst (ngx_http_parse_chunked ctx (xs @ ys)) = NGX_ERROR"
proof (cases "run chunk_step (chunk_enter ctx) xs")
  case (More m)
  then have "chunk_mach_wf m" using chunk_run_wf [of "chunk_enter ctx" xs] assms(1) by (simp add: chunk_wf_def)
  moreover have "int (snd m) > NGX_MAX_OFF_T_VALUE - 5"
    using assms(2) More by (auto simp: parse_chunked_defs Let_def ngx_rc_defs split: if_splits)
  ultimately have "too_big m" by (rule too_bigI)
  from too_big_run [OF this, of ys] More show ?thesis
    by (auto simp: parse_chunked_defs Let_def run_append too_big_def split: mres.splits chunk_label.splits)
next
  case (Halt l m rest)
  then show ?thesis using assms(2)
    by (cases l) (auto simp: parse_chunked_defs Let_def run_append ngx_rc_defs split: if_splits)
qed

lemma chunk_stop_append:
  assumes "chunk_wf ctx" and "ngx_http_parse_chunked ctx xs = (v, ctx', r)" and "v \<noteq> NGX_AGAIN"
  shows "same_answer (\<lambda>v. v = NGX_ERROR) chunk_obs (v, ctx', r @ ys) (ngx_http_parse_chunked ctx (xs @ ys))"
proof (cases "v = NGX_ERROR")
  case True
  then show ?thesis using chunk_error_append [of ctx xs ys] assms(1,2) by (simp add: same_answer_def)
next
  case False
  then show ?thesis
    using assms(2,3) run_Halt_rest [of chunk_step "chunk_enter ctx" xs]
    by (auto simp: parse_chunked_defs Let_def run_append same_answer_def ngx_rc_defs
        split: mres.splits chunk_label.splits if_splits)
qed

interpretation chunked: resumable ngx_http_parse_chunked NGX_AGAIN "\<lambda>v. v = NGX_ERROR" chunk_obs chunk_wf
proof unfold_locales
  show "NGX_AGAIN \<noteq> NGX_ERROR" by (simp add: ngx_rc_defs)
  show "chunk_wf c' \<and> r = []" if "chunk_wf c" "ngx_http_parse_chunked c xs = (NGX_AGAIN, c', r)" for c xs c' r
    using chunk_again(2,3) [OF that] by (simp add: chunk_wf_def)
qed (fact chunk_again_append chunk_stop_append)+

end
