(* ===== verification/Http_Body.thy ===== *)
theory Http_Body
  imports Http_Chunked
begin

text \<open>
  \<^verbatim>\<open>ngx_http_request_body_chunked_filter\<close> of \<^verbatim>\<open>src/http/ngx_http_request_body.c\<close>: the decoder of a
  chunked request body, and its abstract specification \<open>dstep\<close>, a machine that takes one byte at a
  time.  The buffers the filter passes on are kept as the bytes they show: the code copies small
  chunks to the end of the previous one inside the same buffer, over bytes that were already
  consumed.  \<^verbatim>\<open>ngx_chain_update_chains\<close> recycles the buffers after the call and is left out.
\<close>

record body_conf =
  client_max_body_size :: int
  large_client_header_buffers_size :: int

record body_buf =
  buf_data :: "u_char list"
  buf_last :: bool

record request_body =
  body_rest :: int
  body_chunked :: ngx_http_chunked
  content_length_n :: int
  lingering_close :: bool

definition zero_chunked :: ngx_http_chunked where
  "zero_chunked = \<lparr>chunk_state = sw_chunk_start, chunk_size = 0, chunk_length = 0\<rparr>"

text \<open>The small chunk is moved behind the data of the last buffer.\<close>

definition extend_last :: "body_buf list \<Rightarrow> u_char list \<Rightarrow> body_buf list" where
  "extend_last out d = butlast out @ [(last out)\<lparr>buf_data := buf_data (last out) @ d\<rparr>]"

definition take_chunk :: "request_body \<Rightarrow> nat \<Rightarrow> request_body" where
  "take_chunk rb k = rb\<lparr>content_length_n := content_length_n rb + int k,
     body_chunked := (body_chunked rb)\<lparr>chunk_size := chunk_size (body_chunked rb) - k\<rparr>\<rparr>"

lemma parse_chunked_OK:
  assumes "ngx_http_parse_chunked ctx buf = (NGX_OK, ctx', pos)"
  shows "run chunk_step (chunk_enter ctx) buf = Halt Ldata (sw_chunk_data, chunk_size ctx') pos"
    and "chunk_state ctx' = sw_chunk_data" and "\<not> int (chunk_size ctx') > NGX_MAX_OFF_T_VALUE - 5"
    and "ctx' = \<lparr>chunk_state = sw_chunk_data, chunk_size = chunk_size ctx', chunk_length = chunk_size ctx' + 4\<rparr>"
proof -
  have dat: "chunk_step m ch = Stop Ldata m' \<Longrightarrow> fst m' = sw_chunk_data" for m ch m'
    by (induction m ch rule: chunk_step.induct) (auto split: if_splits option.splits)
  have "case run chunk_step (chunk_enter ctx) buf of More m' \<Rightarrow> True | Halt l m' r \<Rightarrow> l = Ldata \<longrightarrow> fst m' = sw_chunk_data"
    by (rule run_invariant) (auto dest: dat)
  then show "run chunk_step (chunk_enter ctx) buf = Halt Ldata (sw_chunk_data, chunk_size ctx') pos"
    "chunk_state ctx' = sw_chunk_data" "\<not> int (chunk_size ctx') > NGX_MAX_OFF_T_VALUE - 5"
    "ctx' = \<lparr>chunk_state = sw_chunk_data, chunk_size = chunk_size ctx', chunk_length = chunk_size ctx' + 4\<rparr>"
    using assms
    by (auto simp: parse_chunked_defs Let_def ngx_rc_defs split: mres.splits chunk_label.splits if_splits)
qed

lemma parse_chunked_progress:
  assumes "ngx_http_parse_chunked ctx buf = (NGX_OK, ctx', pos)"
  shows "pos \<noteq> [] \<and> length pos \<le> length buf \<and> (chunk_size ctx' = 0 \<longrightarrow> length pos < length buf)"
proof -
  note r = parse_chunked_OK(1) [OF assms]
  have pos: "pos \<noteq> []" "\<exists>pre. buf = pre @ pos" using run_Halt_rest [OF r] by auto
  moreover have "length pos \<noteq> length buf" if z: "chunk_size ctx' = 0"
  proof
    assume l: "length pos = length buf"
    then have "buf = pos" using pos by auto
    then have "run chunk_step (chunk_enter ctx) buf = Halt Ldata (sw_chunk_data, 0) buf" using r z by simp
    then obtain c cs where s: "buf = c # cs" "chunk_step (chunk_enter ctx) c = Stop Ldata (sw_chunk_data, 0)"
      using pos \<open>buf = pos\<close> run_Halt_rest [of chunk_step _ "tl buf"]
      by (cases buf) (fastforce split: bstep.splits)+
    then have "chunk_enter ctx = (sw_chunk_data, 0)"
      by (cases "(chunk_enter ctx, c)" rule: chunk_step.cases) (auto split: if_splits option.splits)
    then show False by (auto simp: chunk_enter_def split: if_splits)
  qed
  ultimately show ?thesis by (fastforce simp: le_neq_implies_less)
qed

lemma body_progress:
  "(NGX_OK, ctx', pos) = ngx_http_parse_chunked ctx buf \<Longrightarrow>
    length pos - chunk_size ctx' < length buf \<and> buf \<noteq> []"
  using parse_chunked_progress [of ctx buf ctx' pos] by (cases "chunk_size ctx' = 0"; cases pos) fastforce+

text \<open>The inner loop over one buffer; \<open>b\<close> tells that the last buffer of \<open>out\<close> was made in this loop
  (\<^verbatim>\<open>b != NULL\<close>) and \<open>alloc n\<close> that the allocation of the \<open>n\<close>-th buffer succeeds.\<close>

function body_loop :: "body_conf \<Rightarrow> (nat \<Rightarrow> bool) \<Rightarrow> request_body \<Rightarrow> body_buf list \<Rightarrow> bool \<Rightarrow> u_char list
    \<Rightarrow> int \<times> request_body \<times> body_buf list \<times> u_char list" where
  "body_loop cf alloc rb out b buf =
    (case ngx_http_parse_chunked (body_chunked rb) buf of (rc, ctx, pos) \<Rightarrow>
       let rb1 = rb\<lparr>body_chunked := ctx\<rparr>; sz = chunk_size ctx
       in if rc = NGX_OK then
            if client_max_body_size cf \<noteq> 0 \<and> client_max_body_size cf - content_length_n rb1 < int sz
            then (NGX_HTTP_REQUEST_ENTITY_TOO_LARGE, rb1\<lparr>lingering_close := True\<rparr>, out, pos)
            else if b \<and> sz \<le> 128 \<and> length pos \<ge> sz
            then body_loop cf alloc (take_chunk rb1 sz) (extend_last out (take sz pos)) b (drop sz pos)
            else if \<not> alloc (length out) then (NGX_HTTP_INTERNAL_SERVER_ERROR, rb1, out, pos)
            else if length pos > sz
            then body_loop cf alloc (take_chunk rb1 sz)
                   (out @ [\<lparr>buf_data = take sz pos, buf_last = False\<rparr>]) True (drop sz pos)
            else body_loop cf alloc (take_chunk rb1 (length pos))
                   (out @ [\<lparr>buf_data = pos, buf_last = False\<rparr>]) True []
          else if rc = NGX_DONE then
            if \<not> alloc (length out) then (NGX_HTTP_INTERNAL_SERVER_ERROR, rb1\<lparr>body_rest := 0\<rparr>, out, pos)
            else (NGX_OK, rb1\<lparr>body_rest := 0\<rparr>, out @ [\<lparr>buf_data = [], buf_last = True\<rparr>], pos)
          else if rc = NGX_AGAIN then
            (NGX_OK, rb1\<lparr>body_rest := max (int (chunk_length ctx)) (large_client_header_buffers_size cf)\<rparr>, out, pos)
          else (NGX_HTTP_BAD_REQUEST, rb1, out, pos))"
  by auto
termination
  by (relation "measure (\<lambda>(cf, alloc, rb, out, b, buf). length buf)") (auto dest!: body_progress)

declare body_loop.simps [simp del]

text \<open>The loop over the chain of buffers; the last component is what is left in each of them.\<close>

fun body_chain :: "body_conf \<Rightarrow> (nat \<Rightarrow> bool) \<Rightarrow> request_body \<Rightarrow> body_buf list \<Rightarrow> u_char list list
    \<Rightarrow> int \<times> request_body \<times> body_buf list \<times> u_char list list" where
  "body_chain cf alloc rb out [] = (NGX_OK, rb, out, [])"
| "body_chain cf alloc rb out (buf # bufs) =
    (case body_loop cf alloc rb out False buf of (rc, rb', out', pos) \<Rightarrow>
       if rc \<noteq> NGX_OK then (rc, rb', out', pos # bufs)
       else case body_chain cf alloc rb' out' bufs of (rc', rb'', out'', ps) \<Rightarrow> (rc', rb'', out'', pos # ps))"

text \<open>\<open>next_filter\<close> is \<^verbatim>\<open>ngx_http_top_request_body_filter\<close>, a function pointer; \<open>pcalloc\<close> tells whether the
  context could be allocated.\<close>

definition ngx_http_request_body_chunked_filter :: "body_conf \<Rightarrow> bool \<Rightarrow> (nat \<Rightarrow> bool) \<Rightarrow> (body_buf list \<Rightarrow> int)
    \<Rightarrow> request_body \<Rightarrow> u_char list list \<Rightarrow> int \<times> request_body \<times> body_buf list \<times> u_char list list" where
  "ngx_http_request_body_chunked_filter cf pcalloc alloc next_filter rb bufs =
    (if body_rest rb = - 1 \<and> \<not> pcalloc then (NGX_HTTP_INTERNAL_SERVER_ERROR, rb, [], bufs)
     else let rb0 = (if body_rest rb = - 1
                     then rb\<lparr>body_chunked := zero_chunked, content_length_n := 0,
                            body_rest := large_client_header_buffers_size cf\<rparr>
                     else rb)
          in case body_chain cf alloc rb0 [] bufs of (rc, rb', out, ps) \<Rightarrow>
               if rc \<noteq> NGX_OK then (rc, rb', out, ps) else (next_filter out, rb', out, ps))"

end
