(* ===== verification/Http_Decode.thy ===== *)
theory Http_Decode
  imports Http_Body
begin

text \<open>
  The abstract specification of the body decoder: one byte at a time, without buffers.  The filter
  of \<^verbatim>\<open>ngx_http_request_body.c\<close> refines it on every buffer, so the cut of the body into buffers does
  not matter.
\<close>

datatype dec_label = Ddone | Dinvalid | Dtoolarge

text \<open>The state, the bytes the chunk still has, the length and the bytes of the body so far.\<close>

type_synonym dec_mach = "chunked_state \<times> nat \<times> int \<times> u_char list"

fun dstep :: "int \<Rightarrow> dec_mach \<Rightarrow> u_char \<Rightarrow> (dec_mach, dec_label) bstep" where
  "dstep mx (st, sz, n, d) ch =
    (if st = sw_chunk_data then
       if int sz > NGX_MAX_OFF_T_VALUE - 5 then Stop Dinvalid (st, sz, n, d)
       else if mx \<noteq> 0 \<and> mx - n < int sz then Stop Dtoolarge (st, sz, n, d)
       else Next (if sz = 1 then sw_after_data else sw_chunk_data, sz - 1, n + 1, d @ [ch])
     else case chunk_step (st, sz) ch of
       Next (st', sz') \<Rightarrow> Next (st', sz', n, d)
     | Stop Ldone m \<Rightarrow> Stop Ddone (st, sz, n, d)
     | Stop _ m \<Rightarrow> Stop Dinvalid (st, sz, n, d))"

lemma chunk_step_Stop:
  "chunk_step m ch = Stop l m' \<Longrightarrow> m' = m \<and> (l = Ldata \<longrightarrow> fst m = sw_chunk_data)"
  by (induction m ch rule: chunk_step.induct) (auto split: if_splits option.splits)

lemma dstep_control:
  "run (dstep mx) (st, sz, n, d) buf =
    (case run chunk_step (st, sz) buf of
       More (st', sz') \<Rightarrow> More (st', sz', n, d)
     | Halt Ldata (st', sz') rest \<Rightarrow> run (dstep mx) (st', sz', n, d) rest
     | Halt Ldone (st', sz') rest \<Rightarrow> Halt Ddone (st', sz', n, d) rest
     | Halt Linvalid (st', sz') rest \<Rightarrow> Halt Dinvalid (st', sz', n, d) rest)"
proof (induction buf arbitrary: st sz)
  case (Cons ch buf)
  show ?case
  proof (cases "st = sw_chunk_data")
    case False
    show ?thesis
    proof (cases "chunk_step (st, sz) ch")
      case (Next m)
      then show ?thesis using False Cons.IH by (cases m) simp
    next
      case (Stop l m)
      then show ?thesis using False chunk_step_Stop [OF Stop] by (cases l) auto
    qed
  qed simp
qed simp

lemma dstep_data:
  assumes "p \<noteq> []" and "length p \<le> sz" and "\<not> int sz > NGX_MAX_OFF_T_VALUE - 5"
    and "\<not> (mx \<noteq> 0 \<and> mx - n < int sz)"
  shows "run (dstep mx) (sw_chunk_data, sz, n, d) (p @ q) =
    run (dstep mx) (if length p = sz then sw_after_data else sw_chunk_data, sz - length p, n + int (length p), d @ p) q"
  using assms
proof (induction p arbitrary: sz n d)
  case (Cons c p)
  show ?case
  proof (cases "p = []")
    case True
    then show ?thesis using Cons.prems by auto
  next
    case False
    then have "0 < length p" by simp
    then have "sz \<noteq> 1" "1 \<le> sz" using Cons.prems(2) by auto
    then show ?thesis using Cons.prems Cons.IH [OF False, of "sz - 1" "n + 1" "d @ [c]"]
      by (auto simp: algebra_simps of_nat_diff)
  qed
qed simp

section \<open>The filter refines it\<close>

definition body_abs :: "request_body \<Rightarrow> body_buf list \<Rightarrow> dec_mach" where
  "body_abs rb out = (fst (chunk_enter (body_chunked rb)), chunk_size (body_chunked rb), content_length_n rb,
     concat (map buf_data out))"

definition body_answer :: "body_conf \<Rightarrow> (dec_mach, dec_label) mres
    \<Rightarrow> int \<times> request_body \<times> body_buf list \<times> u_char list \<Rightarrow> bool" where
  "body_answer cf res a \<longleftrightarrow>
    (case (res, a) of
       (More (st, sz, n, d), (rc, rb, out, pos)) \<Rightarrow>
         if int sz > NGX_MAX_OFF_T_VALUE - 5 then rc = NGX_HTTP_BAD_REQUEST
         else rc = NGX_OK \<and> pos = [] \<and> body_abs rb out = (st, sz, n, d) \<and> chunk_wf (body_chunked rb)
              \<and> body_rest rb = max (int (chunk_min_length st sz)) (large_client_header_buffers_size cf)
     | (Halt Ddone (st, sz, n, d) r, (rc, rb, out, pos)) \<Rightarrow>
         rc = NGX_OK \<and> pos = tl r \<and> body_abs rb out = (sw_chunk_start, sz, n, d) \<and> body_rest rb = 0
         \<and> out \<noteq> [] \<and> buf_last (last out)
     | (Halt Dinvalid m r, (rc, rb, out, pos)) \<Rightarrow> rc = NGX_HTTP_BAD_REQUEST
     | (Halt Dtoolarge m r, (rc, rb, out, pos)) \<Rightarrow> rc = NGX_HTTP_REQUEST_ENTITY_TOO_LARGE \<and> lingering_close rb)"

lemma extend_last_concat: "out \<noteq> [] \<Longrightarrow> concat (map buf_data (extend_last out d)) = concat (map buf_data out) @ d"
  by (cases out rule: rev_cases) (auto simp: extend_last_def)

lemma body_abs_take:
  assumes "chunk_state ctx = sw_chunk_data" and "k \<le> chunk_size ctx"
    and "concat (map buf_data out') = concat (map buf_data out) @ p" and "length p = k"
  shows "body_abs (take_chunk (rb\<lparr>body_chunked := ctx\<rparr>) k) out' =
    (if length p = chunk_size ctx then sw_after_data else sw_chunk_data, chunk_size ctx - length p,
     content_length_n rb + int (length p), concat (map buf_data out) @ p)"
  using assms by (auto simp: body_abs_def take_chunk_def chunk_enter_def)

lemma take_chunk_wf:
  assumes "chunk_state ctx = sw_chunk_data" and "k \<le> chunk_size ctx"
  shows "chunk_wf (body_chunked (take_chunk (rb\<lparr>body_chunked := ctx\<rparr>) k))"
  using assms by (auto simp: chunk_wf_def chunk_mach_wf_def take_chunk_def chunk_enter_def)

text \<open>One round of the loop that takes \<open>p\<close> from the chunk.\<close>

lemma body_round:
  assumes "ngx_http_parse_chunked (body_chunked rb) buf = (NGX_OK, ctx, p @ q)" and "p \<noteq> []"
    and "\<not> (mx \<noteq> 0 \<and> mx - content_length_n rb < int (chunk_size ctx))" and "length p \<le> chunk_size ctx"
    and "concat (map buf_data out') = concat (map buf_data out) @ p"
  shows "run (dstep mx) (body_abs rb out) buf
      = run (dstep mx) (body_abs (take_chunk (rb\<lparr>body_chunked := ctx\<rparr>) (length p)) out') q"
    and "chunk_wf (body_chunked (take_chunk (rb\<lparr>body_chunked := ctx\<rparr>) (length p)))"
proof -
  note ok = parse_chunked_OK [OF assms(1)]
  have "run (dstep mx) (body_abs rb out) buf =
      run (dstep mx) (sw_chunk_data, chunk_size ctx, content_length_n rb, concat (map buf_data out)) (p @ q)"
    using ok(1) by (simp add: body_abs_def dstep_control [of mx _ _ _ _ buf] chunk_enter_def)
  also have "\<dots> = run (dstep mx) (body_abs (take_chunk (rb\<lparr>body_chunked := ctx\<rparr>) (length p)) out') q"
    by (simp only: dstep_data [OF assms(2,4) ok(3) assms(3)] body_abs_take [OF ok(2) assms(4,5) refl])
  finally show "run (dstep mx) (body_abs rb out) buf
      = run (dstep mx) (body_abs (take_chunk (rb\<lparr>body_chunked := ctx\<rparr>) (length p)) out') q" .
  show "chunk_wf (body_chunked (take_chunk (rb\<lparr>body_chunked := ctx\<rparr>) (length p)))"
    by (rule take_chunk_wf [OF ok(2) assms(4)])
qed

text \<open>The rounds that leave the loop.\<close>

lemma body_exit:
  assumes "chunk_wf (body_chunked rb)"
    and "ngx_http_parse_chunked (body_chunked rb) buf = (rc, ctx, pos)" and "rc \<noteq> NGX_OK" and "\<forall>n. alloc n"
  shows "body_answer cf (run (dstep mx) (body_abs rb out) buf) (body_loop cf alloc rb out b buf)"
proof -
  have run: "run (dstep mx) (body_abs rb out) buf =
    (case run chunk_step (chunk_enter (body_chunked rb)) buf of
       More (st', sz') \<Rightarrow> More (st', sz', content_length_n rb, concat (map buf_data out))
     | Halt Ldata (st', sz') rest \<Rightarrow> run (dstep mx) (st', sz', content_length_n rb, concat (map buf_data out)) rest
     | Halt Ldone (st', sz') rest \<Rightarrow> Halt Ddone (st', sz', content_length_n rb, concat (map buf_data out)) rest
     | Halt Linvalid (st', sz') rest \<Rightarrow> Halt Dinvalid (st', sz', content_length_n rb, concat (map buf_data out)) rest)"
    by (simp add: body_abs_def dstep_control [of mx _ _ _ _ buf] chunk_enter_def)
  show ?thesis
  proof (cases "run chunk_step (chunk_enter (body_chunked rb)) buf")
    case (More m)
    show ?thesis
    proof (cases "int (snd m) > NGX_MAX_OFF_T_VALUE - 5")
      case True
      then show ?thesis using More run
        by (cases m) (simp add: body_answer_def body_loop.simps [of cf alloc rb] parse_chunked_defs Let_def ngx_rc_defs)
    next
      case False
      then have "rc = NGX_AGAIN" using assms(2) More by (simp add: parse_chunked_defs Let_def)
      note ag = chunk_again [OF assms(1) assms(2) [unfolded this]]
      have "chunk_length ctx = chunk_min_length (fst m) (snd m)"
        using assms(2) More False by (auto simp: parse_chunked_defs Let_def)
      then show ?thesis using More run ag assms(2) False \<open>rc = NGX_AGAIN\<close>
        by (cases m) (auto simp: body_answer_def body_loop.simps [of cf alloc rb] body_abs_def chunk_wf_def
            parse_chunked_defs Let_def ngx_rc_defs chunk_enter_def)
    qed
  next
    case (Halt l m r)
    obtain st sz where m: "m = (st, sz)" by (cases m)
    show ?thesis
    proof (cases l)
      case Ldata
      then have "int sz > NGX_MAX_OFF_T_VALUE - 5"
        using Halt m assms(2,3) by (simp add: parse_chunked_defs Let_def split: if_splits)
      moreover have "st = sw_chunk_data \<and> r \<noteq> []"
        using Halt m Ldata run_invariant [of "\<lambda>m. True" "chunk_enter (body_chunked rb)" chunk_step
            "\<lambda>l m. l = Ldata \<longrightarrow> fst m = sw_chunk_data" buf] chunk_step_Stop run_Halt_rest [OF Halt] by fastforce
      ultimately show ?thesis using run Halt m Ldata
        by (cases r) (simp_all add: body_answer_def body_loop.simps [of cf alloc rb] parse_chunked_defs Let_def ngx_rc_defs)
    next
      case Ldone
      then show ?thesis using run Halt m assms(4)
        by (simp add: body_answer_def body_loop.simps [of cf alloc rb] parse_chunked_defs Let_def ngx_rc_defs
            body_abs_def chunk_enter_def)
    next
      case Linvalid
      then show ?thesis using run Halt m
        by (simp add: body_answer_def body_loop.simps [of cf alloc rb] parse_chunked_defs Let_def ngx_rc_defs)
    qed
  qed
qed

lemma body_loop_OK:
  assumes "ngx_http_parse_chunked (body_chunked rb) buf = (NGX_OK, ctx, pos)"
    and "\<not> (client_max_body_size cf \<noteq> 0 \<and> client_max_body_size cf - content_length_n rb < int (chunk_size ctx))"
    and "\<forall>n. alloc n"
  shows "body_loop cf alloc rb out b buf =
    (if b \<and> chunk_size ctx \<le> 128 \<and> chunk_size ctx \<le> length pos
     then body_loop cf alloc (take_chunk (rb\<lparr>body_chunked := ctx\<rparr>) (chunk_size ctx))
            (extend_last out (take (chunk_size ctx) pos)) b (drop (chunk_size ctx) pos)
     else if chunk_size ctx < length pos
     then body_loop cf alloc (take_chunk (rb\<lparr>body_chunked := ctx\<rparr>) (chunk_size ctx))
            (out @ [\<lparr>buf_data = take (chunk_size ctx) pos, buf_last = False\<rparr>]) True (drop (chunk_size ctx) pos)
     else body_loop cf alloc (take_chunk (rb\<lparr>body_chunked := ctx\<rparr>) (length pos))
            (out @ [\<lparr>buf_data = pos, buf_last = False\<rparr>]) True [])"
  using assms by (subst body_loop.simps) (auto simp: Let_def)

lemma body_loop_refines:
  "chunk_wf (body_chunked rb) \<Longrightarrow> (b \<Longrightarrow> out \<noteq> []) \<Longrightarrow> \<forall>n. alloc n \<Longrightarrow>
    body_answer cf (run (dstep (client_max_body_size cf)) (body_abs rb out) buf) (body_loop cf alloc rb out b buf)"
proof (induction cf alloc rb out b buf rule: body_loop.induct)
  case (1 cf alloc rb out b buf)
  obtain rc ctx pos where p: "ngx_http_parse_chunked (body_chunked rb) buf = (rc, ctx, pos)"
    by (cases "ngx_http_parse_chunked (body_chunked rb) buf")
  let ?mx = "client_max_body_size cf" and ?sz = "chunk_size ctx" and ?rb1 = "rb\<lparr>body_chunked := ctx\<rparr>"
  show ?case
  proof (cases "rc = NGX_OK")
    case False
    from body_exit [OF 1(4) p False 1(6)] show ?thesis .
  next
    case True
    note p = p [unfolded True]
    note IH = 1(1-3) [OF p [symmetric] refl refl refl refl]
    have pos: "pos \<noteq> []" using parse_chunked_progress [OF p] by blast
    have mach: "body_abs rb out = (fst (chunk_enter (body_chunked rb)), snd (chunk_enter (body_chunked rb)),
        content_length_n rb, concat (map buf_data out))"
      by (simp add: body_abs_def chunk_enter_def)
    show ?thesis
    proof (cases "?mx \<noteq> 0 \<and> ?mx - content_length_n rb < int ?sz")
      case big: True
      then show ?thesis using p pos parse_chunked_OK(1,3) [OF p]
        by (cases pos) (auto simp: mach body_answer_def body_loop.simps [of cf alloc rb] dstep_control [of _ _ _ _ _ buf])
    next
      case fits: False
      have sz: "?sz \<noteq> 0" using chunk_run_wf [of "chunk_enter (body_chunked rb)" buf] 1(4) parse_chunked_OK(1) [OF p]
        by (simp add: chunk_wf_def chunk_mach_wf_def)
      note round = body_round [where rb = rb and buf = buf and ctx = ctx and mx = ?mx and out = out, OF _ _ fits]
      consider (small) "b" "?sz \<le> 128" "?sz \<le> length pos" | (more) "\<not> (b \<and> ?sz \<le> 128 \<and> ?sz \<le> length pos)" "?sz < length pos"
        | (all) "\<not> (b \<and> ?sz \<le> 128 \<and> ?sz \<le> length pos)" "\<not> ?sz < length pos" by blast
      then show ?thesis
      proof cases
        case small
        have eq: "body_loop cf alloc rb out b buf
            = body_loop cf alloc (take_chunk ?rb1 ?sz) (extend_last out (take ?sz pos)) b (drop ?sz pos)"
          using body_loop_OK [OF p fits 1(6)] small by simp
        have l: "length (take ?sz pos) = ?sz" "take ?sz pos \<noteq> []" using small sz pos by auto
        have c: "concat (map buf_data (extend_last out (take ?sz pos))) = concat (map buf_data out) @ take ?sz pos"
          using 1(5) small by (simp add: extend_last_concat)
        note r = round [of "take ?sz pos" "drop ?sz pos", OF _ l(2) _ c, unfolded l append_take_drop_id, OF p order_refl]
        show ?thesis
          unfolding eq r(1) using IH(1) [OF _ _ r(2) _ 1(6)] fits small by (simp add: extend_last_def)
      next
        case more
        have eq: "body_loop cf alloc rb out b buf
            = body_loop cf alloc (take_chunk ?rb1 ?sz) (out @ [\<lparr>buf_data = take ?sz pos, buf_last = False\<rparr>]) True (drop ?sz pos)"
          unfolding body_loop_OK [OF p fits 1(6), of out b] if_not_P [OF more(1)] if_P [OF more(2)] ..
        have l: "length (take ?sz pos) = ?sz" "take ?sz pos \<noteq> []" using more sz pos by auto
        have c: "concat (map buf_data (out @ [\<lparr>buf_data = take ?sz pos, buf_last = False\<rparr>]))
            = concat (map buf_data out) @ take ?sz pos" by simp
        note r = round [of "take ?sz pos" "drop ?sz pos", OF _ l(2) _ c, unfolded l append_take_drop_id, OF p order_refl]
        show ?thesis
          unfolding eq r(1) by (rule IH(2) [OF _ _ _ _ r(2) _ 1(6)]) (use fits more 1(6) in auto)
      next
        case all
        have eq: "body_loop cf alloc rb out b buf
            = body_loop cf alloc (take_chunk ?rb1 (length pos)) (out @ [\<lparr>buf_data = pos, buf_last = False\<rparr>]) True []"
          unfolding body_loop_OK [OF p fits 1(6), of out b] if_not_P [OF all(1)] if_not_P [OF all(2)] ..
        have l: "length pos \<le> ?sz" using all by simp
        have c: "concat (map buf_data (out @ [\<lparr>buf_data = pos, buf_last = False\<rparr>]))
            = concat (map buf_data out) @ pos" by simp
        note r = round [of pos "[]", OF _ pos l c, unfolded append_Nil2, OF p]
        show ?thesis
          unfolding eq r(1) by (rule IH(3) [OF _ _ _ _ r(2) _ 1(6)]) (use fits all 1(6) in auto)
      qed
    qed
  qed
qed

section \<open>The chain of buffers\<close>

lemma dstep_wf:
  assumes "chunk_mach_wf (fst m, fst (snd m))" and "dstep mx m ch = Next m'"
  shows "chunk_mach_wf (fst m', fst (snd m'))"
proof (cases m)
  case (fields st sz n d)
  show ?thesis
  proof (cases "st = sw_chunk_data")
    case True
    then show ?thesis using assms fields by (auto simp: chunk_mach_wf_def split: if_splits)
  next
    case False
    then obtain m1 where "chunk_step (st, sz) ch = Next m1" "m' = (fst m1, snd m1, n, d)"
      using assms(2) fields by (auto split: bstep.splits chunk_label.splits)
    then show ?thesis using assms(1) fields chunk_step_wf(1) [of "(st, sz)" ch m1] by simp
  qed
qed

lemma dstep_too_big:
  assumes "too_big (fst m, fst (snd m))"
  shows "dstep mx m ch = Next m' \<Longrightarrow> too_big (fst m', fst (snd m'))"
    and "dstep mx m ch = Stop l m' \<Longrightarrow> l \<noteq> Ddone"
proof -
  obtain st sz n d where m: "m = (st, sz, n, d)" by (cases m)
  show "dstep mx m ch = Next m' \<Longrightarrow> too_big (fst m', fst (snd m'))"
    using assms m too_big_step(1) [of "(st, sz)" ch] by (auto simp: too_big_def split: if_splits bstep.splits chunk_label.splits)
  show "dstep mx m ch = Stop l m' \<Longrightarrow> l \<noteq> Ddone"
    using assms m too_big_step(2) [of "(st, sz)" ch] by (auto split: if_splits bstep.splits chunk_label.splits)
qed

lemma too_big_not_done:
  assumes "too_big (fst m, fst (snd m))"
  shows "run (dstep mx) m buf \<noteq> Halt Ddone m' r"
proof -
  have "case run (dstep mx) m buf of More m' \<Rightarrow> too_big (fst m', fst (snd m')) | Halt l m' r \<Rightarrow> l \<noteq> Ddone"
    by (rule run_invariant [where I = "\<lambda>m. too_big (fst m, fst (snd m))"]) (use assms dstep_too_big in blast)+
  then show ?thesis by auto
qed

text \<open>A prefix of a stream that ends with its last byte leaves the decoder waiting.\<close>

lemma prefix_More:
  assumes "run (dstep mx) m (xs @ ys) = Halt Ddone m' [c]" and "ys \<noteq> []" and "chunk_mach_wf (fst m, fst (snd m))"
  shows "\<exists>m1. run (dstep mx) m xs = More m1 \<and> run (dstep mx) m1 ys = Halt Ddone m' [c]
    \<and> \<not> int (fst (snd m1)) > NGX_MAX_OFF_T_VALUE - 5"
proof (cases "run (dstep mx) m xs")
  case (More m1)
  then have r: "run (dstep mx) m1 ys = Halt Ddone m' [c]" using assms(1) by (simp add: run_append)
  have "chunk_mach_wf (fst m1, fst (snd m1))"
  proof -
    have "case run (dstep mx) m xs of More m' \<Rightarrow> chunk_mach_wf (fst m', fst (snd m')) | Halt l m' r \<Rightarrow> True"
      by (rule run_invariant [where I = "\<lambda>m. chunk_mach_wf (fst m, fst (snd m))"]) (use assms(3) dstep_wf in blast)+
    then show ?thesis using More by simp
  qed
  then have "\<not> int (fst (snd m1)) > NGX_MAX_OFF_T_VALUE - 5"
    using too_bigI [of "(fst m1, fst (snd m1))"] too_big_not_done [of m1 mx ys m' "[c]"] r by auto
  then show ?thesis using More r by blast
next
  case (Halt l m1 r)
  then have "r @ ys = [c]" "r \<noteq> []" using assms(1) run_Halt_rest [OF Halt] by (auto simp: run_append)
  then show ?thesis using assms(2) by (cases r) auto
qed

lemma body_abs_wf: "chunk_wf (body_chunked rb) \<Longrightarrow> chunk_mach_wf (fst (body_abs rb out), fst (snd (body_abs rb out)))"
  by (simp add: chunk_wf_def body_abs_def chunk_enter_def)

lemma body_chain_done:
  assumes "chunk_wf (body_chunked rb)" and "\<forall>n. alloc n" and "[] \<notin> set fs" and "fs \<noteq> []"
    and "run (dstep (client_max_body_size cf)) (body_abs rb out) (concat fs) = Halt Ddone (st, sz, n, d) [c]"
  shows "\<exists>rb' out'. body_chain cf alloc rb out fs = (NGX_OK, rb', out', map (\<lambda>_. []) fs)
    \<and> body_abs rb' out' = (sw_chunk_start, sz, n, d) \<and> body_rest rb' = 0 \<and> buf_last (last out')"
  using assms(1,3-5)
proof (induction fs arbitrary: rb out)
  case (Cons f fs)
  obtain rc rb1 out1 pos where l: "body_loop cf alloc rb out False f = (rc, rb1, out1, pos)"
    by (cases "body_loop cf alloc rb out False f")
  have ans: "body_answer cf (run (dstep (client_max_body_size cf)) (body_abs rb out) f) (rc, rb1, out1, pos)"
    using body_loop_refines [of rb False out alloc cf f] Cons.prems(1) assms(2) l by simp
  show ?case
  proof (cases "fs = []")
    case True
    then show ?thesis using Cons.prems(4) ans l by (auto simp: body_answer_def)
  next
    case False
    then have "concat fs \<noteq> []" using Cons.prems(2) by (cases fs) auto
    then obtain m1 where m1: "run (dstep (client_max_body_size cf)) (body_abs rb out) f = More m1"
        "run (dstep (client_max_body_size cf)) m1 (concat fs) = Halt Ddone (st, sz, n, d) [c]"
        "\<not> int (fst (snd m1)) > NGX_MAX_OFF_T_VALUE - 5"
      using prefix_More [OF Cons.prems(4) [unfolded concat.simps] _ body_abs_wf [OF Cons.prems(1)]] by blast
    then have a: "rc = NGX_OK" "pos = []" "body_abs rb1 out1 = m1" "chunk_wf (body_chunked rb1)"
      using ans by (auto simp: body_answer_def split: prod.splits)
    have "[] \<notin> set fs" using Cons.prems(2) by simp
    from Cons.IH [OF a(4) this False m1(2) [folded a(3)]] a l show ?thesis by auto
  qed
qed simp

end
