(* ===== verification/Http_Encode.thy ===== *)
theory Http_Encode
  imports Http_Decode
begin

text \<open>
  \<^verbatim>\<open>ngx_http_chunked_body_filter\<close> and \<^verbatim>\<open>ngx_http_chunked_create_trailers\<close> of
  \<^verbatim>\<open>src/http/modules/ngx_http_chunked_filter_module.c\<close>: the encoder of a chunked response body, and
  that the decoder of request bodies undoes it, however the stream is cut.
\<close>

record chain_buf =
  cb_data :: "u_char list"
  cb_flush :: bool
  cb_sync :: bool
  cb_in_memory :: bool
  cb_in_file :: bool
  cb_last_buf :: bool

text \<open>The hash (0 marks a deleted header), key and value.\<close>

type_synonym trailer = "nat \<times> u_char list \<times> u_char list"

definition trailer_len :: "trailer \<Rightarrow> nat" where
  "trailer_len h = (case h of (hash, key, v) \<Rightarrow> if hash = 0 then 0 else length key + 2 + length v + 2)"

definition trailer_line :: "trailer \<Rightarrow> u_char list" where
  "trailer_line h = (case h of (hash, key, v) \<Rightarrow> if hash = 0 then [] else key @ [0x3A, 0x20] @ v @ [CR, LF])"

definition memory_buf :: "u_char list \<Rightarrow> chain_buf" where
  "memory_buf d = \<lparr>cb_data = d, cb_flush = False, cb_sync = False, cb_in_memory = True, cb_in_file = False, cb_last_buf = False\<rparr>"

text \<open>\<open>alloc n\<close> tells whether the \<open>n\<close>-th allocation of the call succeeds; \<open>None\<close> is the null pointer.\<close>

definition ngx_http_chunked_create_trailers :: "(nat \<Rightarrow> bool) \<Rightarrow> nat \<Rightarrow> trailer list \<Rightarrow> chain_buf option" where
  "ngx_http_chunked_create_trailers alloc n trailers =
    (let len = sum_list (map trailer_len trailers)
     in if \<not> alloc n then None
        else if len = 0 then Some ((memory_buf ([CR, LF, 0x30, CR, LF] @ [CR, LF]))\<lparr>cb_last_buf := True\<rparr>)
        else if \<not> alloc (n + 1) then None
        else Some ((memory_buf ([CR, LF, 0x30, CR, LF] @ concat (map trailer_line trailers) @ [CR, LF]))\<lparr>cb_last_buf := True\<rparr>))"

definition chunk_keep :: "chain_buf \<Rightarrow> bool" where
  "chunk_keep b \<longleftrightarrow> cb_flush b \<or> cb_sync b \<or> cb_in_memory b \<or> cb_in_file b"

text \<open>The loop over the input chain: a link for every buffer that is kept.\<close>

fun chunk_links :: "(nat \<Rightarrow> bool) \<Rightarrow> nat \<Rightarrow> chain_buf list \<Rightarrow> chain_buf list option" where
  "chunk_links alloc n [] = Some []"
| "chunk_links alloc n (b # bs) =
    (if chunk_keep b
     then if alloc n then map_option (\<lambda>out. b # out) (chunk_links alloc (n + 1) bs) else None
     else chunk_links alloc n bs)"

definition chunk_total :: "chain_buf list \<Rightarrow> nat" where
  "chunk_total bs = sum_list (map (\<lambda>b. length (cb_data b)) bs)"

text \<open>\<^verbatim>\<open>ngx_sprintf(chunk, "%xO" CRLF, size)\<close>: the end of the buffer is the last address.\<close>

definition chunk_head :: "nat \<Rightarrow> u_char list" where
  "chunk_head sz = ngx_sprintf_num (2 ^ 64 - 1) (of_nat sz) 0x20 1 0 @ [CR, LF]"

definition clear_last_buf :: "chain_buf list \<Rightarrow> chain_buf list" where
  "clear_last_buf bs = butlast bs @ [(last bs)\<lparr>cb_last_buf := False\<rparr>]"

text \<open>The answer: the chain for the next filter, or \<^verbatim>\<open>NGX_ERROR\<close> when an allocation fails.  \<open>fresh\<close>
  tells that the buffer for the size line has no memory yet.\<close>

definition ngx_http_chunked_body_filter :: "(nat \<Rightarrow> bool) \<Rightarrow> bool \<Rightarrow> bool \<Rightarrow> bool \<Rightarrow> trailer list
    \<Rightarrow> chain_buf list \<Rightarrow> int + chain_buf list" where
  "ngx_http_chunked_body_filter alloc fresh chunked header_only trailers bufs =
    (if bufs = [] \<or> \<not> chunked \<or> header_only then Inr bufs
     else let sz = chunk_total bufs; n = length (filter chunk_keep bufs); lst = cb_last_buf (last bufs)
          in case chunk_links alloc 0 (if lst then clear_last_buf bufs else bufs) of
               None \<Rightarrow> Inl NGX_ERROR
             | Some links \<Rightarrow>
                 if sz \<noteq> 0 \<and> \<not> (alloc n \<and> (fresh \<longrightarrow> alloc (n + 1))) then Inl NGX_ERROR
                 else let out = (if sz \<noteq> 0 then memory_buf (chunk_head sz) # links else links)
                      in if lst then
                           case ngx_http_chunked_create_trailers alloc (n + 2) trailers of
                             None \<Rightarrow> Inl NGX_ERROR
                           | Some tr \<Rightarrow> Inr (out @ [if sz = 0 then tr\<lparr>cb_data := drop 2 (cb_data tr)\<rparr> else tr])
                         else if sz > 0 then
                           if \<not> alloc (n + 2) then Inl NGX_ERROR else Inr (out @ [memory_buf [CR, LF]])
                         else Inr out)"

section \<open>Decoding a size line and a trailer\<close>

lemma hex_val_nonneg: "hex_val c = Some d \<Longrightarrow> 0 \<le> d"
  by (auto simp: hex_val_def Let_def is_digit_uint word_le_def split: if_splits)

lemma hex_digits_run:
  "hextoi_loop (int sz) ds = int v \<Longrightarrow>
    run (dstep mx) (sw_chunk_size, sz, n, d) (ds @ rest) = run (dstep mx) (sw_chunk_size, v, n, d) rest"
proof (induction ds arbitrary: sz)
  case (Cons c ds)
  then obtain h where h: "hex_val c = Some h" "\<not> int sz > NGX_MAX_INT_T_VALUE div 16"
      "hextoi_loop (int sz * 16 + h) ds = int v"
    by (auto simp: NGX_ERROR_def split: if_splits option.splits)
  have "int (sz * 16 + nat h) = int sz * 16 + h" using hex_val_nonneg [OF h(1)] by simp
  then have "hextoi_loop (int (sz * 16 + nat h)) ds = int v" using h(3) by metis
  from Cons.IH [OF this] h show ?case
    by (simp add: NGX_MAX_INT_T_VALUE_def NGX_MAX_OFF_T_VALUE_def)
qed simp

lemma chunk_head_eq: "chunk_head sz = hex_loop hex_digits (of_nat sz) [] @ [CR, LF]"
  using num_digits_fit(2) [of hex_digits "of_nat sz"] by (simp add: chunk_head_def ngx_sprintf_num_def)

lemma size_line_run:
  assumes "0 < sz" and "int sz \<le> NGX_MAX_OFF_T_VALUE div 16"
  shows "run (dstep mx) (sw_chunk_start, 0, n, d) (chunk_head sz @ rest)
    = run (dstep mx) (sw_chunk_data, sz, n, d) rest"
proof -
  let ?w = "of_nat sz :: 64 word" and ?ds = "hex_loop hex_digits (of_nat sz :: 64 word) []"
  have "uint ?w = int sz" using assms(2) by (simp add: NGX_MAX_OFF_T_VALUE_def take_bit_int_eq_self unsigned_of_nat take_bit_nat_eq_self)
  moreover have "int sz \<le> NGX_MAX_INT_T_VALUE" using assms(2) by (simp add: NGX_MAX_INT_T_VALUE_def NGX_MAX_OFF_T_VALUE_def)
  ultimately have v: "hextoi_loop 0 ?ds = int sz" using hex_loop_hextoi [of hex_digits ?w] hex_table by simp
  have "?ds \<noteq> []" using hex_loop_unfold [of hex_digits ?w] by simp
  then obtain c cs where ds: "?ds = c # cs" by (cases ?ds) auto
  then obtain h where h: "hex_val c = Some h" using v by (auto simp: NGX_ERROR_def split: if_splits option.splits)
  have hv: "hex_val CR = None" by (simp add: hex_val_def is_digit_uint Let_def)
  have "run (dstep mx) (sw_chunk_start, 0, n, d) (?ds @ [CR, LF] @ rest)
      = run (dstep mx) (sw_chunk_size, 0, n, d) (?ds @ [CR, LF] @ rest)"
    using h by (simp add: ds NGX_MAX_OFF_T_VALUE_def)
  also have "\<dots> = run (dstep mx) (sw_chunk_size, sz, n, d) ([CR, LF] @ rest)"
    by (rule hex_digits_run) (use v in simp)
  also have "\<dots> = run (dstep mx) (sw_chunk_data, sz, n, d) rest" using assms hv by simp
  finally show ?thesis by (simp add: chunk_head_eq)
qed

definition line_bytes :: "u_char list \<Rightarrow> bool" where
  "line_bytes s \<longleftrightarrow> CR \<notin> set s \<and> LF \<notin> set s"

lemma header_run:
  "line_bytes s \<Longrightarrow>
    run (dstep mx) (sw_trailer_header, 0, n, d) (s @ CR # LF # rest) = run (dstep mx) (sw_trailer, 0, n, d) rest"
  by (induction s) (auto simp: line_bytes_def)

definition trailer_ok :: "trailer \<Rightarrow> bool" where
  "trailer_ok h \<longleftrightarrow> line_bytes (fst (snd h)) \<and> line_bytes (snd (snd h))"

lemma trailer_run:
  assumes "trailer_ok h"
  shows "run (dstep mx) (sw_trailer, 0, n, d) (trailer_line h @ rest) = run (dstep mx) (sw_trailer, 0, n, d) rest"
proof -
  obtain hash key v where h: "h = (hash, key, v)" by (cases h)
  have l: "line_bytes (key @ [0x3A, 0x20] @ v)" using assms by (auto simp: h trailer_ok_def line_bytes_def)
  obtain c cs where c: "key @ [0x3A, 0x20] @ v = c # cs" by (cases "key @ [0x3A, 0x20] @ v") auto
  then have "line_bytes cs" "c \<noteq> CR" "c \<noteq> LF" using l by (auto simp: line_bytes_def)
  moreover have "trailer_line h = (if hash = 0 then [] else (c # cs) @ [CR, LF])"
    by (simp add: h trailer_line_def c [symmetric])
  ultimately show ?thesis using header_run by (simp split: if_splits)
qed

lemma trailers_run:
  "list_all trailer_ok hs \<Longrightarrow>
    run (dstep mx) (sw_trailer, 0, n, d) (concat (map trailer_line hs) @ rest) = run (dstep mx) (sw_trailer, 0, n, d) rest"
  by (induction hs) (simp_all add: trailer_run)

section \<open>The stream of a call\<close>

definition body_of :: "chain_buf list \<Rightarrow> u_char list" where
  "body_of bufs = concat (map cb_data bufs)"

text \<open>A special buffer (neither data nor a flag that keeps it) is empty.\<close>

definition chain_ok :: "chain_buf list \<Rightarrow> bool" where
  "chain_ok bufs \<longleftrightarrow> bufs \<noteq> [] \<and> list_all (\<lambda>b. chunk_keep b \<or> cb_data b = []) bufs"

definition trailer_bytes :: "trailer list \<Rightarrow> u_char list" where
  "trailer_bytes trailers = [0x30, CR, LF] @ concat (map trailer_line trailers) @ [CR, LF]"

lemma chunk_links_Some:
  assumes "\<forall>n. alloc n"
  shows "chunk_links alloc n bs = Some (filter chunk_keep bs)"
  using assms by (induction bs arbitrary: n) auto

lemma body_of_filter: "list_all (\<lambda>b. chunk_keep b \<or> cb_data b = []) bs \<Longrightarrow> body_of (filter chunk_keep bs) = body_of bs"
  by (induction bs) (auto simp: body_of_def)

lemma clear_last_buf_simps:
  assumes "bs \<noteq> []"
  shows "body_of (clear_last_buf bs) = body_of bs"
    "list_all (\<lambda>b. chunk_keep b \<or> cb_data b = []) (clear_last_buf bs) = list_all (\<lambda>b. chunk_keep b \<or> cb_data b = []) bs"
  using assms by (cases bs rule: rev_cases; simp add: clear_last_buf_def body_of_def chunk_keep_def)+

lemma trailers_empty: "sum_list (map trailer_len hs) = 0 \<Longrightarrow> concat (map trailer_line hs) = []"
  by (auto simp: trailer_len_def trailer_line_def split: if_splits)

lemma create_trailers:
  assumes "\<forall>n. alloc n"
  shows "\<exists>b. ngx_http_chunked_create_trailers alloc n hs = Some b \<and> cb_data b = [CR, LF] @ trailer_bytes hs"
  using assms trailers_empty [of hs]
  by (auto simp: ngx_http_chunked_create_trailers_def Let_def memory_buf_def trailer_bytes_def)

lemma chunk_total_length: "chunk_total bs = length (body_of bs)"
  by (simp add: chunk_total_def body_of_def length_concat o_def)

lemma encode_call:
  assumes "\<forall>n. alloc n" and "chain_ok bufs"
  shows "\<exists>out. ngx_http_chunked_body_filter alloc fresh True False trailers bufs = Inr out \<and>
    body_of out = (if body_of bufs \<noteq> [] then chunk_head (length (body_of bufs)) @ body_of bufs @ [CR, LF] else [])
      @ (if cb_last_buf (last bufs) then trailer_bytes trailers else [])"
proof -
  have ne: "bufs \<noteq> []" using assms(2) by (simp add: chain_ok_def)
  let ?bs = "if cb_last_buf (last bufs) then clear_last_buf bufs else bufs"
  have links: "chunk_links alloc 0 ?bs = Some (filter chunk_keep ?bs)" by (rule chunk_links_Some [OF assms(1)])
  have body: "body_of (filter chunk_keep ?bs) = body_of bufs"
    using assms(2) ne clear_last_buf_simps [OF ne] by (simp add: body_of_filter chain_ok_def)
  obtain tr where tr: "ngx_http_chunked_create_trailers alloc (length (filter chunk_keep bufs) + 2) trailers = Some tr"
      "cb_data tr = [CR, LF] @ trailer_bytes trailers"
    using create_trailers [OF assms(1)] by blast
  have app: "body_of (xs @ ys) = body_of xs @ body_of ys" "body_of (b # xs) = cb_data b @ body_of xs" "body_of [] = []" for xs ys b
    by (simp_all add: body_of_def)
  have mb: "cb_data (memory_buf d) = d" for d by (simp add: memory_buf_def)
  show ?thesis
    using assms(1) ne links body tr unfolding ngx_http_chunked_body_filter_def Let_def chunk_total_length
    by (auto simp: app mb)
qed

section \<open>Decoding the stream\<close>

lemma call_run:
  assumes "int (length (body_of bufs)) \<le> NGX_MAX_OFF_T_VALUE div 16"
    and "mx \<noteq> 0 \<Longrightarrow> n + int (length (body_of bufs)) \<le> mx"
  shows "run (dstep mx) (sw_chunk_start, 0, n, d)
      ((if body_of bufs \<noteq> [] then chunk_head (length (body_of bufs)) @ body_of bufs @ [CR, LF] else []) @ rest)
    = run (dstep mx) (sw_chunk_start, 0, n + int (length (body_of bufs)), d @ body_of bufs) rest"
proof (cases "body_of bufs = []")
  case False
  let ?b = "body_of bufs"
  have "run (dstep mx) (sw_chunk_start, 0, n, d) (chunk_head (length ?b) @ ?b @ [CR, LF] @ rest)
      = run (dstep mx) (sw_chunk_data, length ?b, n, d) (?b @ [CR, LF] @ rest)"
    using size_line_run [of "length ?b"] assms(1) False by simp
  also have "\<dots> = run (dstep mx) (sw_after_data, 0, n + int (length ?b), d @ ?b) ([CR, LF] @ rest)"
  proof -
    have "\<not> (mx \<noteq> 0 \<and> mx - n < int (length ?b))" using assms(2) by force
    moreover have "\<not> int (length ?b) > NGX_MAX_OFF_T_VALUE - 5" using assms(1) by (simp add: NGX_MAX_OFF_T_VALUE_def)
    ultimately show ?thesis using dstep_data [OF False order_refl, of mx n d "[CR, LF] @ rest"] by simp
  qed
  finally show ?thesis using False by simp
qed simp

lemma trailer_bytes_run:
  assumes "list_all trailer_ok hs"
  shows "run (dstep mx) (sw_chunk_start, 0, n, d) (trailer_bytes hs) = Halt Ddone (sw_trailer_almost_done, 0, n, d) [LF]"
proof -
  have hv: "hex_val 0x30 = Some 0" "hex_val CR = None" by (simp_all add: hex_val_def is_digit_uint Let_def)
  have "run (dstep mx) (sw_chunk_start, 0, n, d) (trailer_bytes hs)
      = run (dstep mx) (sw_trailer, 0, n, d) (concat (map trailer_line hs) @ [CR, LF])"
    by (simp add: trailer_bytes_def hv NGX_MAX_OFF_T_VALUE_def)
  then show ?thesis by (simp add: trailers_run [OF assms])
qed

end
