(* ===== verification/Http_Chunked_Theorems.thy ===== *)
theory Http_Chunked_Theorems
  imports Http_Encode
begin

text \<open>The properties of the chunked coding.\<close>

text \<open>C17: parsing a chunked body piece by piece gives the answer of parsing it whole: the same code and,
  unless it is an error, the same context and the same unread bytes.\<close>

theorem chunked_resumable:
  assumes "chunk_wf ctx" and "fs \<noteq> []"
  shows "same_answer (\<lambda>v. v = NGX_ERROR) chunk_obs
    (feed ngx_http_parse_chunked NGX_AGAIN ctx fs) (ngx_http_parse_chunked ctx (concat fs))"
  using assms by (rule chunked.feed_concat)

lemma zero_chunked_wf [simp]: "chunk_wf zero_chunked"
  by (simp add: chunk_wf_def chunk_mach_wf_def zero_chunked_def chunk_enter_def)

theorem chunked_resumable_witness:
  "chunk_wf zero_chunked \<and> same_answer (\<lambda>v. v = NGX_ERROR) chunk_obs
    (feed ngx_http_parse_chunked NGX_AGAIN zero_chunked [bytes ''1'', bytes ''0;x'', [CR], [LF] @ bytes ''ab''])
    (ngx_http_parse_chunked zero_chunked (concat [bytes ''1'', bytes ''0;x'', [CR], [LF] @ bytes ''ab'']))"
  using chunked_resumable [of zero_chunked "[bytes ''1'', bytes ''0;x'', [CR], [LF] @ bytes ''ab'']"] by simp

text \<open>C16: the request body filter refines the byte-wise decoder on a buffer: it waits for more, ends, or
  fails with 400 or 413 exactly when the decoder does, with the same length and the same bytes of the
  body, and \<^verbatim>\<open>rb->rest\<close> is the number of bytes it needs at least.\<close>

theorem body_filter_refines:
  assumes "chunk_wf (body_chunked rb)" and "b \<longrightarrow> out \<noteq> []" and "\<forall>n. alloc n"
  shows "body_answer cf (run (dstep (client_max_body_size cf)) (body_abs rb out) buf) (body_loop cf alloc rb out b buf)"
  using assms by (intro body_loop_refines) auto

definition demo_conf :: body_conf where
  "demo_conf = \<lparr>client_max_body_size = 16, large_client_header_buffers_size = 8192\<rparr>"

definition demo_body :: request_body where
  "demo_body = \<lparr>body_rest = - 1, body_chunked = zero_chunked, content_length_n = 0, lingering_close = False\<rparr>"

definition demo_stream :: "u_char list" where
  "demo_stream = bytes ''5'' @ [CR, LF] @ bytes ''hello'' @ [CR, LF] @ bytes ''6'' @ [CR, LF] @ bytes '' world'' @ [CR, LF]
    @ bytes ''0'' @ [CR, LF, CR, LF]"

theorem body_filter_refines_witness:
  "body_answer demo_conf (run (dstep 16) (body_abs demo_body []) demo_stream)
     (body_loop demo_conf (\<lambda>_. True) demo_body [] False demo_stream)
   \<and> run (dstep 16) (body_abs demo_body []) demo_stream
     = Halt Ddone (sw_trailer_almost_done, 0, 11, bytes ''hello world'') [LF]"
proof
  show "body_answer demo_conf (run (dstep 16) (body_abs demo_body []) demo_stream)
     (body_loop demo_conf (\<lambda>_. True) demo_body [] False demo_stream)"
    using body_filter_refines [of demo_body False "[]" "\<lambda>_. True" demo_conf demo_stream]
    by (simp add: demo_conf_def demo_body_def)
  show "run (dstep 16) (body_abs demo_body []) demo_stream
     = Halt Ddone (sw_trailer_almost_done, 0, 11, bytes ''hello world'') [LF]"
    by code_simp
qed

text \<open>An answer of the chunk parser that is no error has a size below \<^verbatim>\<open>NGX_MAX_OFF_T_VALUE - 4\<close>, so
  that the length it computes does not overflow, and \<^verbatim>\<open>NGX_OK\<close> is only returned at a byte of data.\<close>

theorem parse_chunked_bounds:
  "case ngx_http_parse_chunked ctx buf of (rc, ctx', pos) \<Rightarrow>
     (rc = NGX_OK \<or> rc = NGX_AGAIN \<longrightarrow>
       int (chunk_size ctx') \<le> NGX_MAX_OFF_T_VALUE - 5 \<and> int (chunk_length ctx') \<le> NGX_MAX_OFF_T_VALUE)
     \<and> (rc = NGX_OK \<longrightarrow> pos \<noteq> [] \<and> chunk_state ctx' = sw_chunk_data)"
proof -
  have len: "int (chunk_min_length st sz) \<le> NGX_MAX_OFF_T_VALUE" if "int sz \<le> NGX_MAX_OFF_T_VALUE - 5" for st sz
    using that by (cases st) (auto simp: NGX_MAX_OFF_T_VALUE_def)
  obtain rc ctx' pos where p: "ngx_http_parse_chunked ctx buf = (rc, ctx', pos)"
    by (cases "ngx_http_parse_chunked ctx buf")
  have "rc = NGX_OK \<or> rc = NGX_AGAIN \<Longrightarrow>
      int (chunk_size ctx') \<le> NGX_MAX_OFF_T_VALUE - 5 \<and> int (chunk_length ctx') \<le> NGX_MAX_OFF_T_VALUE"
    using p len by (auto simp: parse_chunked_defs Let_def ngx_rc_defs split: mres.splits chunk_label.splits if_splits)
  moreover have "rc = NGX_OK \<Longrightarrow> pos \<noteq> [] \<and> chunk_state ctx' = sw_chunk_data"
    using p parse_chunked_OK(2) parse_chunked_progress by blast
  ultimately show ?thesis using p by simp
qed

theorem parse_chunked_bounds_witness:
  "case ngx_http_parse_chunked zero_chunked (bytes ''ff'' @ [CR, LF] @ bytes ''ab'') of (rc, ctx', pos) \<Rightarrow>
     rc = NGX_OK \<and> int (chunk_length ctx') \<le> NGX_MAX_OFF_T_VALUE \<and> pos \<noteq> []"
proof -
  have "fst (ngx_http_parse_chunked zero_chunked (bytes ''ff'' @ [CR, LF] @ bytes ''ab'')) = NGX_OK" by code_simp
  then show ?thesis
    using parse_chunked_bounds [of zero_chunked "bytes ''ff'' @ [CR, LF] @ bytes ''ab''"] by (auto split: prod.splits)
qed

section \<open>Encoding and decoding\<close>

lemma stream_run:
  assumes "\<forall>n. alloc n" and "list_all chain_ok calls" and "calls \<noteq> []"
    and "list_all2 (\<lambda>c out. ngx_http_chunked_body_filter alloc fresh True False trailers c = Inr out) calls outs"
    and "\<forall>c \<in> set (butlast calls). \<not> cb_last_buf (last c)" and "cb_last_buf (last (last calls))"
    and "list_all trailer_ok trailers"
    and "int (length (concat (map body_of calls))) \<le> NGX_MAX_OFF_T_VALUE div 16"
    and "mx \<noteq> 0 \<Longrightarrow> n + int (length (concat (map body_of calls))) \<le> mx"
  shows "run (dstep mx) (sw_chunk_start, 0, n, d) (concat (map body_of outs))
    = Halt Ddone (sw_trailer_almost_done, 0, n + int (length (concat (map body_of calls))), d @ concat (map body_of calls)) [LF]"
  using assms(2-6,8,9)
proof (induction calls arbitrary: outs n d)
  case (Cons c calls)
  obtain out outs' where outs: "outs = out # outs'" and
      r: "ngx_http_chunked_body_filter alloc fresh True False trailers c = Inr out"
      "list_all2 (\<lambda>c out. ngx_http_chunked_body_filter alloc fresh True False trailers c = Inr out) calls outs'"
    using Cons.prems(3) by (cases outs) auto
  have enc: "body_of out = (if body_of c \<noteq> [] then chunk_head (length (body_of c)) @ body_of c @ [CR, LF] else [])
      @ (if cb_last_buf (last c) then trailer_bytes trailers else [])"
    using encode_call [OF assms(1), of c fresh trailers] Cons.prems(1) r(1) by auto
  have lim: "int (length (body_of c)) \<le> NGX_MAX_OFF_T_VALUE div 16"
      "mx \<noteq> 0 \<Longrightarrow> n + int (length (body_of c)) \<le> mx" using Cons.prems(6,7) by (auto simp del: length_concat)
  note call = call_run [OF lim, of d]
  show ?case
  proof (cases "calls = []")
    case True
    then have "outs' = []" "cb_last_buf (last c)" using r(2) Cons.prems(5) by auto
    then show ?thesis using True outs enc call trailer_bytes_run [OF assms(7)] by simp
  next
    case False
    then have "\<not> cb_last_buf (last c)" using Cons.prems(4) by simp
    then have "run (dstep mx) (sw_chunk_start, 0, n, d) (concat (map body_of outs))
        = run (dstep mx) (sw_chunk_start, 0, n + int (length (body_of c)), d @ body_of c) (concat (map body_of outs'))"
      using outs enc call by simp
    moreover have "\<forall>c\<in>set (butlast calls). \<not> cb_last_buf (last c)" "cb_last_buf (last (last calls))"
      "list_all chain_ok calls" using Cons.prems(1,4,5) False by auto
    moreover have "int (length (concat (map body_of calls))) \<le> NGX_MAX_OFF_T_VALUE div 16"
      "mx \<noteq> 0 \<Longrightarrow> n + int (length (body_of c)) + int (length (concat (map body_of calls))) \<le> mx"
      using Cons.prems(6,7) by (auto simp del: length_concat)
    ultimately show ?thesis
      using Cons.IH [of outs' "n + int (length (body_of c))" "d @ body_of c"] r(2) False
      by (simp add: algebra_simps del: length_concat)
  qed
qed simp

text \<open>C15: a body that was encoded by the chunked filter, in any number of calls and with any trailers,
  is decoded by the request body filter to the same bytes, however the stream is cut into non-empty
  buffers: it ends with \<^verbatim>\<open>rb->rest = 0\<close>, the right length, and nothing left unread.\<close>

theorem chunked_roundtrip:
  assumes "\<forall>n. alloc n" and "list_all chain_ok calls" and "calls \<noteq> []"
    and "list_all2 (\<lambda>c out. ngx_http_chunked_body_filter alloc fresh True False trailers c = Inr out) calls outs"
    and "\<forall>c \<in> set (butlast calls). \<not> cb_last_buf (last c)" and "cb_last_buf (last (last calls))"
    and "list_all trailer_ok trailers"
    and "int (length (concat (map body_of calls))) \<le> NGX_MAX_OFF_T_VALUE div 16"
    and "client_max_body_size cf \<noteq> 0 \<longrightarrow> int (length (concat (map body_of calls))) \<le> client_max_body_size cf"
    and "concat fs = concat (map body_of outs)" and "[] \<notin> set fs" and "body_rest rb = - 1"
  shows "\<exists>rb' out. ngx_http_request_body_chunked_filter cf True alloc next_filter rb fs
      = (next_filter out, rb', out, map (\<lambda>_. []) fs)
    \<and> concat (map buf_data out) = concat (map body_of calls) \<and> buf_last (last out)
    \<and> body_rest rb' = 0 \<and> content_length_n rb' = int (length (concat (map body_of calls)))"
proof -
  let ?rb = "rb\<lparr>body_chunked := zero_chunked, content_length_n := 0, body_rest := large_client_header_buffers_size cf\<rparr>"
  have abs: "body_abs ?rb [] = (sw_chunk_start, 0, 0, [])"
    by (simp add: body_abs_def zero_chunked_def chunk_enter_def)
  have run: "run (dstep (client_max_body_size cf)) (body_abs ?rb []) (concat fs)
    = Halt Ddone (sw_trailer_almost_done, 0, int (length (concat (map body_of calls))), concat (map body_of calls)) [LF]"
    using stream_run [OF assms(1-8), of "client_max_body_size cf" 0 "[]"] assms(9) unfolding abs assms(10) by simp
  then have "fs \<noteq> []" by (cases fs) auto
  from body_chain_done [OF _ assms(1,11) this run]
  obtain rb' out where c: "body_chain cf alloc ?rb [] fs = (NGX_OK, rb', out, map (\<lambda>_. []) fs)"
    "body_abs rb' out = (sw_chunk_start, 0, int (length (concat (map body_of calls))), concat (map body_of calls))"
    "body_rest rb' = 0" "buf_last (last out)" by auto
  then have "ngx_http_request_body_chunked_filter cf True alloc next_filter rb fs = (next_filter out, rb', out, map (\<lambda>_. []) fs)"
    using assms(12) by (simp add: ngx_http_request_body_chunked_filter_def)
  then show ?thesis using c by (auto simp: body_abs_def)
qed

definition demo_calls :: "chain_buf list list" where
  "demo_calls = [[memory_buf (bytes ''hello'')], [(memory_buf (bytes '' world''))\<lparr>cb_last_buf := True\<rparr>]]"

theorem chunked_roundtrip_witness:
  "\<exists>rb' out. ngx_http_request_body_chunked_filter demo_conf True (\<lambda>_. True) (\<lambda>_. NGX_OK) demo_body
      [take 7 demo_stream, drop 7 demo_stream] = (NGX_OK, rb', out, [[], []])
    \<and> concat (map buf_data out) = bytes ''hello world'' \<and> content_length_n rb' = 11"
proof -
  have body: "concat (map body_of demo_calls) = bytes ''hello world''" by code_simp
  have len: "int (length (bytes ''hello world'')) = 11" by code_simp
  have ok: "list_all chain_ok demo_calls" "\<forall>c \<in> set (butlast demo_calls). \<not> cb_last_buf (last c)"
    "cb_last_buf (last (last demo_calls))" "demo_calls \<noteq> []" by code_simp+
  have head: "chunk_head 5 = bytes ''5'' @ [CR, LF]" "chunk_head 6 = bytes ''6'' @ [CR, LF]"
    unfolding chunk_head_eq by code_simp+
  have "\<forall>c \<in> set demo_calls. \<exists>out. ngx_http_chunked_body_filter (\<lambda>_. True) True True False [] c = Inr out \<and>
      body_of out = (if body_of c \<noteq> [] then chunk_head (length (body_of c)) @ body_of c @ [CR, LF] else [])
        @ (if cb_last_buf (last c) then trailer_bytes [] else [])"
    by (intro ballI encode_call) (use ok(1) in \<open>simp_all add: list_all_iff\<close>)
  then obtain o1 o2 where
    outs: "list_all2 (\<lambda>c out. ngx_http_chunked_body_filter (\<lambda>_. True) True True False [] c = Inr out) demo_calls [o1, o2]"
    and "body_of o1 = chunk_head 5 @ bytes ''hello'' @ [CR, LF]"
      "body_of o2 = chunk_head 6 @ bytes '' world'' @ [CR, LF] @ trailer_bytes []"
    by (auto simp: demo_calls_def body_of_def memory_buf_def bytes_def eval_nat_numeral)
  moreover have "trailer_bytes [] = bytes ''0'' @ [CR, LF, CR, LF]" by code_simp
  ultimately have s: "concat (map body_of [o1, o2]) = demo_stream" by (simp add: head demo_stream_def)
  have t: "take 7 demo_stream \<noteq> []" "drop 7 demo_stream \<noteq> []" by code_simp+
  show ?thesis
    using chunked_roundtrip [OF _ ok(1,4) outs ok(2,3), of demo_conf "[take 7 demo_stream, drop 7 demo_stream]" demo_body "\<lambda>_. NGX_OK"]
    unfolding body len s using t by (simp add: demo_conf_def demo_body_def NGX_MAX_OFF_T_VALUE_def) blast
qed

end
