(* ===== verification/Http_Request_Line.thy ===== *)
theory Http_Request_Line
  imports Http_Machine
begin

text \<open>
  \<^verbatim>\<open>ngx_http_parse_request_line\<close> of \<^verbatim>\<open>src/http/ngx_http_parse.c\<close> (without the \<^verbatim>\<open>NGX_WIN32\<close>
  branches).  A pointer is the number of bytes of the buffer before it, \<open>None\<close> is \<^verbatim>\<open>NULL\<close>; \<open>rl_seen\<close>
  holds the bytes before \<^verbatim>\<open>p\<close>.
\<close>

definition NGX_HTTP_PARSE_INVALID_METHOD :: int where "NGX_HTTP_PARSE_INVALID_METHOD = 10"
definition NGX_HTTP_PARSE_INVALID_REQUEST :: int where "NGX_HTTP_PARSE_INVALID_REQUEST = 11"
definition NGX_HTTP_PARSE_INVALID_VERSION :: int where "NGX_HTTP_PARSE_INVALID_VERSION = 12"
definition NGX_HTTP_PARSE_INVALID_09_METHOD :: int where "NGX_HTTP_PARSE_INVALID_09_METHOD = 13"

lemmas request_rc_defs = NGX_HTTP_PARSE_INVALID_METHOD_def NGX_HTTP_PARSE_INVALID_REQUEST_def
  NGX_HTTP_PARSE_INVALID_VERSION_def NGX_HTTP_PARSE_INVALID_09_METHOD_def

text \<open>The bitmap of the bytes that need no attention inside a URI.\<close>

definition usual :: "32 word list" where
  "usual = [0x00000000, 0x7fff37d6, 0xffffffff, 0x7fffffff, 0xffffffff, 0xffffffff, 0xffffffff, 0xffffffff]"

definition is_usual :: "u_char \<Rightarrow> bool" where
  "is_usual ch = bit (usual ! unat (drop_bit 5 ch)) (unat (and ch 0x1F))"

lemma not_usual: "\<not> is_usual 0x2E" "\<not> is_usual 0x2F" "\<not> is_usual 0x23" "\<not> is_usual 0x25" "\<not> is_usual 0x3F" "\<not> is_usual 0x2B"
  by (simp_all add: is_usual_def usual_def)

datatype http_method =
    NGX_HTTP_UNKNOWN | NGX_HTTP_GET | NGX_HTTP_HEAD | NGX_HTTP_POST | NGX_HTTP_PUT | NGX_HTTP_DELETE
  | NGX_HTTP_MKCOL | NGX_HTTP_COPY | NGX_HTTP_MOVE | NGX_HTTP_OPTIONS | NGX_HTTP_PROPFIND
  | NGX_HTTP_PROPPATCH | NGX_HTTP_LOCK | NGX_HTTP_UNLOCK | NGX_HTTP_PATCH | NGX_HTTP_TRACE
  | NGX_HTTP_CONNECT

datatype request_state =
    rsw_start | rsw_method | rsw_spaces_before_uri | rsw_schema | rsw_schema_slash
  | rsw_schema_slash_slash | rsw_host_start | rsw_host | rsw_host_end | rsw_host_ip_literal | rsw_port
  | rsw_after_slash_in_uri | rsw_check_uri | rsw_uri | rsw_http_09 | rsw_http_H | rsw_http_HT
  | rsw_http_HTT | rsw_http_HTTP | rsw_first_major_digit | rsw_major_digit | rsw_first_minor_digit
  | rsw_minor_digit | rsw_spaces_after_digit | rsw_almost_done

record request_line =
  rl_state :: request_state
  rl_method :: http_method
  request_start :: nat
  method_end :: nat
  uri_start :: "nat option"
  uri_end :: "nat option"
  uri_ext :: "nat option"
  args_start :: "nat option"
  schema_start :: "nat option"
  schema_end :: nat
  host_start :: "nat option"
  host_end :: "nat option"
  port_end :: "nat option"
  http_protocol :: "nat option"
  request_end :: "nat option"
  complex_uri :: bool
  quoted_uri :: bool
  plus_in_uri :: bool
  empty_path_in_uri :: bool
  rl_major :: nat
  rl_minor :: nat
  rl_version :: nat
  rl_seen :: "u_char list"

datatype request_label = Rdone | Rinvalid_method | Rinvalid_request | Rinvalid_version

type_synonym request_out = "(request_line, request_label) bstep"

abbreviation rl_pos :: "request_line \<Rightarrow> nat" where
  "rl_pos r \<equiv> length (rl_seen r)"

abbreviation goto :: "request_state \<Rightarrow> request_line \<Rightarrow> request_out" where
  "goto st r \<equiv> Next (r\<lparr>rl_state := st\<rparr>)"

text \<open>The methods, by their length.  An unknown name leaves \<^verbatim>\<open>r->method\<close> as it is.\<close>

definition method_of :: "http_method \<Rightarrow> u_char list \<Rightarrow> http_method" where
  "method_of old s =
    (if length s = 3 then
       if s = bytes ''GET'' then NGX_HTTP_GET else if s = bytes ''PUT'' then NGX_HTTP_PUT else old
     else if length s = 4 then
       if s ! 1 = 0x4F then
         if s = bytes ''POST'' then NGX_HTTP_POST
         else if s = bytes ''COPY'' then NGX_HTTP_COPY
         else if s = bytes ''MOVE'' then NGX_HTTP_MOVE
         else if s = bytes ''LOCK'' then NGX_HTTP_LOCK
         else old
       else if s = bytes ''HEAD'' then NGX_HTTP_HEAD else old
     else if length s = 5 then
       if s = bytes ''MKCOL'' then NGX_HTTP_MKCOL
       else if s = bytes ''PATCH'' then NGX_HTTP_PATCH
       else if s = bytes ''TRACE'' then NGX_HTTP_TRACE
       else old
     else if length s = 6 then
       if s = bytes ''DELETE'' then NGX_HTTP_DELETE
       else if s = bytes ''UNLOCK'' then NGX_HTTP_UNLOCK
       else old
     else if length s = 7 then
       if s = bytes ''OPTIONS'' then NGX_HTTP_OPTIONS
       else if s = bytes ''CONNECT'' then NGX_HTTP_CONNECT
       else old
     else if length s = 8 then if s = bytes ''PROPFIND'' then NGX_HTTP_PROPFIND else old
     else if length s = 9 then if s = bytes ''PROPPATCH'' then NGX_HTTP_PROPPATCH else old
     else old)"

definition method_char :: "u_char \<Rightarrow> bool" where
  "method_char ch \<longleftrightarrow> 0x41 \<le> ch \<and> ch \<le> 0x5A \<or> ch = 0x5F \<or> ch = 0x2D"

definition is_letter :: "u_char \<Rightarrow> bool" where
  "is_letter ch \<longleftrightarrow> (let c = or ch 0x20 in 0x61 \<le> c \<and> c \<le> 0x7A)"

text \<open>\<^verbatim>\<open>sw_start\<close> and \<^verbatim>\<open>sw_method\<close>.\<close>

definition switch_method :: "request_line \<Rightarrow> u_char \<Rightarrow> request_out" where
  "switch_method r ch =
    (if rl_state r = rsw_start then
       let r1 = r\<lparr>request_start := rl_pos r\<rparr>
       in if ch = CR \<or> ch = LF then Next r1
          else if \<not> method_char ch then Stop Rinvalid_method r1
          else goto rsw_method r1
     else
       if ch = 0x20 then
         goto rsw_spaces_before_uri (r\<lparr>method_end := rl_pos r - 1, rl_method := method_of (rl_method r) (drop (request_start r) (rl_seen r))\<rparr>)
       else if \<not> method_char ch then Stop Rinvalid_method r
       else Next r)"

text \<open>The absolute form of the request target, up to the start of the path.\<close>

definition host_ip_char :: "u_char \<Rightarrow> bool" where
  "host_ip_char ch \<longleftrightarrow> is_digit ch \<or> is_letter ch \<or> ch = 0x3A
    \<or> ch \<in> set [0x2D, 0x2E, 0x5F, 0x7E]
    \<or> ch \<in> set [0x21, 0x24, 0x26, 0x27, 0x28, 0x29, 0x2A, 0x2B, 0x2C, 0x3B, 0x3D]"

text \<open>A target without a path: the \<^verbatim>\<open>"/"\<close> of the schema stands for it.\<close>

definition no_path :: "request_line \<Rightarrow> request_out" where
  "no_path r = goto rsw_http_09 (r\<lparr>uri_start := Some (schema_end r + 1), uri_end := Some (schema_end r + 2)\<rparr>)"

definition path_only_args :: "request_line \<Rightarrow> request_out" where
  "path_only_args r =
    goto rsw_uri (r\<lparr>uri_start := Some (rl_pos r), args_start := Some (rl_pos r + 1), empty_path_in_uri := True\<rparr>)"

definition switch_host_end :: "request_line \<Rightarrow> u_char \<Rightarrow> request_out" where
  "switch_host_end r0 ch =
    (let r = r0\<lparr>host_end := Some (rl_pos r0)\<rparr>
     in if ch = 0x3A then goto rsw_port r
        else if ch = 0x2F then goto rsw_after_slash_in_uri (r\<lparr>uri_start := Some (rl_pos r)\<rparr>)
        else if ch = 0x3F then path_only_args r
        else if ch = 0x20 then no_path r
        else Stop Rinvalid_request r)"

definition switch_host :: "request_line \<Rightarrow> u_char \<Rightarrow> request_out" where
  "switch_host r ch =
    (case rl_state r of
       rsw_spaces_before_uri \<Rightarrow>
         if ch = 0x2F then goto rsw_after_slash_in_uri (r\<lparr>uri_start := Some (rl_pos r)\<rparr>)
         else if is_letter ch then goto rsw_schema (r\<lparr>schema_start := Some (rl_pos r)\<rparr>)
         else if ch = 0x20 then Next r
         else Stop Rinvalid_request r
     | rsw_schema \<Rightarrow>
         if is_letter ch \<or> is_digit ch \<or> ch = 0x2B \<or> ch = 0x2D \<or> ch = 0x2E then Next r
         else if ch = 0x3A then goto rsw_schema_slash (r\<lparr>schema_end := rl_pos r\<rparr>)
         else Stop Rinvalid_request r
     | rsw_schema_slash \<Rightarrow>
         if ch = 0x2F then goto rsw_schema_slash_slash r else Stop Rinvalid_request r
     | rsw_schema_slash_slash \<Rightarrow>
         if ch = 0x2F then goto rsw_host_start r else Stop Rinvalid_request r
     | rsw_host_start \<Rightarrow>
         let r1 = r\<lparr>host_start := Some (rl_pos r)\<rparr>
         in if ch = 0x5B then goto rsw_host_ip_literal r1
            else if is_letter ch \<or> is_digit ch \<or> ch = 0x2E \<or> ch = 0x2D then goto rsw_host r1
            else switch_host_end (r1\<lparr>rl_state := rsw_host\<rparr>) ch
     | rsw_host \<Rightarrow>
         if is_letter ch \<or> is_digit ch \<or> ch = 0x2E \<or> ch = 0x2D then Next r else switch_host_end r ch
     | rsw_host_end \<Rightarrow> switch_host_end r ch
     | rsw_host_ip_literal \<Rightarrow>
         if host_ip_char ch then Next r
         else if ch = 0x5D then goto rsw_host_end r
         else Stop Rinvalid_request r
     | _ \<Rightarrow>
         if is_digit ch then Next r
         else let r1 = r\<lparr>port_end := Some (rl_pos r)\<rparr>
              in if ch = 0x2F then goto rsw_after_slash_in_uri (r1\<lparr>uri_start := Some (rl_pos r)\<rparr>)
                 else if ch = 0x3F then path_only_args r1
                 else if ch = 0x20 then no_path r1
                 else Stop Rinvalid_request r)"

text \<open>The path and the arguments.  The bytes that end a URI in all three states are not usual ones.\<close>

definition uri_stop :: "request_line \<Rightarrow> u_char \<Rightarrow> request_out option" where
  "uri_stop r ch =
    (let r1 = r\<lparr>uri_end := Some (rl_pos r)\<rparr>
     in if ch = 0x20 then Some (goto rsw_http_09 r1)
        else if ch = CR then Some (goto rsw_almost_done (r1\<lparr>rl_minor := 9\<rparr>))
        else if ch = LF then Some (Stop Rdone (r1\<lparr>rl_minor := 9\<rparr>))
        else None)"

definition switch_uri :: "request_line \<Rightarrow> u_char \<Rightarrow> request_out" where
  "switch_uri r ch =
    (case uri_stop r ch of
       Some out \<Rightarrow> out
     | None \<Rightarrow>
        case rl_state r of
          rsw_after_slash_in_uri \<Rightarrow>
            if is_usual ch then goto rsw_check_uri r
            else if ch = 0x2E \<or> ch = 0x2F \<or> ch = 0x23 then goto rsw_uri (r\<lparr>complex_uri := True\<rparr>)
            else if ch = 0x25 then goto rsw_uri (r\<lparr>quoted_uri := True\<rparr>)
            else if ch = 0x3F then goto rsw_uri (r\<lparr>args_start := Some (rl_pos r + 1)\<rparr>)
            else if ch = 0x2B then Next (r\<lparr>plus_in_uri := True\<rparr>)
            else if ch < 0x20 \<or> ch = 0x7F then Stop Rinvalid_request r
            else goto rsw_check_uri r
        | rsw_check_uri \<Rightarrow>
            if is_usual ch then Next r
            else if ch = 0x2F then goto rsw_after_slash_in_uri (r\<lparr>uri_ext := None\<rparr>)
            else if ch = 0x2E then Next (r\<lparr>uri_ext := Some (rl_pos r + 1)\<rparr>)
            else if ch = 0x25 then goto rsw_uri (r\<lparr>quoted_uri := True\<rparr>)
            else if ch = 0x3F then goto rsw_uri (r\<lparr>args_start := Some (rl_pos r + 1)\<rparr>)
            else if ch = 0x23 then goto rsw_uri (r\<lparr>complex_uri := True\<rparr>)
            else if ch = 0x2B then Next (r\<lparr>plus_in_uri := True\<rparr>)
            else if ch < 0x20 \<or> ch = 0x7F then Stop Rinvalid_request r
            else Next r
        | _ \<Rightarrow>
            if is_usual ch then Next r
            else if ch = 0x23 then Next (r\<lparr>complex_uri := True\<rparr>)
            else if ch < 0x20 \<or> ch = 0x7F then Stop Rinvalid_request r
            else Next r)"

text \<open>The protocol and the end of the line.\<close>

definition must :: "request_line \<Rightarrow> u_char \<Rightarrow> u_char \<Rightarrow> request_state \<Rightarrow> request_out" where
  "must r ch c st = (if ch = c then goto st r else Stop Rinvalid_request r)"

definition rdig :: "u_char \<Rightarrow> nat" where
  "rdig ch = unat (ch - 0x30)"

definition switch_version :: "request_line \<Rightarrow> u_char \<Rightarrow> request_out" where
  "switch_version r ch =
    (case rl_state r of
       rsw_http_09 \<Rightarrow>
         if ch = 0x20 then Next r
         else if ch = CR then goto rsw_almost_done (r\<lparr>rl_minor := 9\<rparr>)
         else if ch = LF then Stop Rdone (r\<lparr>rl_minor := 9\<rparr>)
         else if ch = 0x48 then goto rsw_http_H (r\<lparr>http_protocol := Some (rl_pos r)\<rparr>)
         else Stop Rinvalid_request r
     | rsw_http_H \<Rightarrow> must r ch 0x54 rsw_http_HT
     | rsw_http_HT \<Rightarrow> must r ch 0x54 rsw_http_HTT
     | rsw_http_HTT \<Rightarrow> must r ch 0x50 rsw_http_HTTP
     | rsw_http_HTTP \<Rightarrow> must r ch 0x2F rsw_first_major_digit
     | rsw_first_major_digit \<Rightarrow>
         if ch < 0x31 \<or> ch > 0x39 then Stop Rinvalid_request r
         else let r1 = r\<lparr>rl_major := rdig ch\<rparr>
              in if rl_major r1 > 1 then Stop Rinvalid_version r1 else goto rsw_major_digit r1
     | rsw_major_digit \<Rightarrow>
         if ch = 0x2E then goto rsw_first_minor_digit r
         else if \<not> is_digit ch then Stop Rinvalid_request r
         else let r1 = r\<lparr>rl_major := rl_major r * 10 + rdig ch\<rparr>
              in if rl_major r1 > 1 then Stop Rinvalid_version r1 else Next r1
     | rsw_first_minor_digit \<Rightarrow>
         if \<not> is_digit ch then Stop Rinvalid_request r
         else goto rsw_minor_digit (r\<lparr>rl_minor := rdig ch\<rparr>)
     | rsw_minor_digit \<Rightarrow>
         if ch = CR then goto rsw_almost_done r
         else if ch = LF then Stop Rdone r
         else if ch = 0x20 then goto rsw_spaces_after_digit r
         else if \<not> is_digit ch then Stop Rinvalid_request r
         else if rl_minor r > 99 then Stop Rinvalid_request r
         else Next (r\<lparr>rl_minor := rl_minor r * 10 + rdig ch\<rparr>)
     | rsw_spaces_after_digit \<Rightarrow>
         if ch = 0x20 then Next r
         else if ch = CR then goto rsw_almost_done r
         else if ch = LF then Stop Rdone r
         else Stop Rinvalid_request r
     | _ \<Rightarrow>
         let r1 = r\<lparr>request_end := Some (rl_pos r - 1)\<rparr>
         in if ch = LF then Stop Rdone r1 else Stop Rinvalid_request r1)"

definition request_switch :: "request_line \<Rightarrow> u_char \<Rightarrow> request_out" where
  "request_switch r ch =
    (if rl_state r \<in> {rsw_start, rsw_method} then switch_method r ch
     else if rl_state r \<in> {rsw_spaces_before_uri, rsw_schema, rsw_schema_slash, rsw_schema_slash_slash,
       rsw_host_start, rsw_host, rsw_host_end, rsw_host_ip_literal, rsw_port} then switch_host r ch
     else if rl_state r \<in> {rsw_after_slash_in_uri, rsw_check_uri, rsw_uri} then switch_uri r ch
     else switch_version r ch)"

definition request_step :: "request_line \<Rightarrow> u_char \<Rightarrow> request_out" where
  "request_step r ch =
    (case request_switch r ch of
       Next r' \<Rightarrow> Next (r'\<lparr>rl_seen := rl_seen r @ [ch]\<rparr>)
     | Stop l r' \<Rightarrow> Stop l r')"

text \<open>At the end of the buffer: \<^verbatim>\<open>b->pos = p; r->state = state\<close>.\<close>

definition request_again :: "request_line \<Rightarrow> request_line \<Rightarrow> request_line" where
  "request_again r0 r =
    (r\<lparr>rl_state := rl_state r0, rl_seen := rl_seen r0\<rparr>)\<lparr>rl_seen := rl_seen r, rl_state := rl_state r\<rparr>"

text \<open>The label \<^verbatim>\<open>done\<close> and the error returns, which store neither the state nor \<^verbatim>\<open>b->pos\<close>.\<close>

definition request_fail :: "int \<Rightarrow> request_line \<Rightarrow> request_line \<Rightarrow> u_char list \<Rightarrow> int \<times> request_line \<times> u_char list" where
  "request_fail rc r0 r b = (rc, r\<lparr>rl_state := rl_state r0, rl_seen := rl_seen r0\<rparr>, b)"

fun request_fin :: "request_line \<Rightarrow> request_label \<Rightarrow> request_line \<Rightarrow> u_char list \<Rightarrow> u_char list
    \<Rightarrow> int \<times> request_line \<times> u_char list" where
  "request_fin r0 Rdone r b rest =
    (let r1 = r\<lparr>request_end := (if request_end r = None then Some (rl_pos r) else request_end r),
                rl_version := rl_major r * 1000 + rl_minor r, rl_state := rsw_start, rl_seen := rl_seen r @ [hd rest]\<rparr>
     in (if rl_version r1 = 9 \<and> rl_method r1 \<noteq> NGX_HTTP_GET then NGX_HTTP_PARSE_INVALID_09_METHOD else NGX_OK, r1, tl rest))"
| "request_fin r0 Rinvalid_method r b rest = request_fail NGX_HTTP_PARSE_INVALID_METHOD r0 r b"
| "request_fin r0 Rinvalid_request r b rest = request_fail NGX_HTTP_PARSE_INVALID_REQUEST r0 r b"
| "request_fin r0 Rinvalid_version r b rest = request_fail NGX_HTTP_PARSE_INVALID_VERSION r0 r b"

definition ngx_http_parse_request_line :: "request_line \<Rightarrow> u_char list \<Rightarrow> int \<times> request_line \<times> u_char list" where
  "ngx_http_parse_request_line = mach_parse request_step request_fin request_again NGX_AGAIN"

lemma request_again_eq [simp]: "request_again r0 r = r"
  by (simp add: request_again_def)

section \<open>The parser can be resumed\<close>

definition request_err :: "int \<Rightarrow> bool" where
  "request_err rc \<longleftrightarrow> rc \<in> {NGX_HTTP_PARSE_INVALID_METHOD, NGX_HTTP_PARSE_INVALID_REQUEST, NGX_HTTP_PARSE_INVALID_VERSION}"

interpretation request: byte_parser request_step request_fin request_again NGX_AGAIN request_err "\<lambda>v r. r"
  rewrites "mach_parse request_step request_fin request_again NGX_AGAIN = ngx_http_parse_request_line"
proof -
  show "byte_parser request_fin request_again NGX_AGAIN request_err (\<lambda>v r. r)"
  proof unfold_locales
    show "fst (request_fin c r s b rest) \<noteq> NGX_AGAIN" for c r s b rest
      by (cases r) (simp_all add: ngx_rc_defs request_rc_defs request_fail_def Let_def)
    show "same_answer request_err (\<lambda>v r. r) (request_fin c r s b rest) (request_fin c' r s b' rest)" for c r s b rest c' b'
      by (cases r) (simp_all add: same_answer_def request_fail_def request_err_def)
    show "same_answer request_err (\<lambda>v r. r) (v, c', q @ ys) (request_fin c r s (b @ ys) (rest @ ys))"
      if "rest \<noteq> []" "request_fin c r s b rest = (v, c', q)" for rest c r s b v c' q ys
      using that by (cases r) (auto simp: same_answer_def request_fail_def request_err_def Let_def)
  qed (simp_all add: ngx_rc_defs request_rc_defs request_err_def)
qed (simp add: ngx_http_parse_request_line_def)

end
