(* ===== verification/Http_Header.thy ===== *)
theory Http_Header
  imports Http_Machine
begin

text \<open>
  \<^verbatim>\<open>ngx_http_parse_header_line\<close> of \<^verbatim>\<open>src/http/ngx_http_parse.c\<close>.  A pointer into the buffer is the
  number of bytes before it; \<open>seen\<close> holds the bytes of the buffer before \<^verbatim>\<open>b->pos\<close>, so that the
  parser can look back at the name.
\<close>

definition NGX_HTTP_PARSE_HEADER_DONE :: int where "NGX_HTTP_PARSE_HEADER_DONE = 1"
definition NGX_HTTP_PARSE_INVALID_HEADER :: int where "NGX_HTTP_PARSE_INVALID_HEADER = 14"
definition NGX_HTTP_LC_HEADER_LEN :: nat where "NGX_HTTP_LC_HEADER_LEN = 32"

lemmas header_rc_defs = NGX_HTTP_PARSE_HEADER_DONE_def NGX_HTTP_PARSE_INVALID_HEADER_def

definition ngx_hash :: "64 word \<Rightarrow> u_char \<Rightarrow> 64 word" where
  "ngx_hash key c = key * 31 + ucast c"

text \<open>The table \<^verbatim>\<open>lowcase\<close>: 0 for the bytes that are not valid in a name.\<close>

definition lowcase :: "u_char \<Rightarrow> u_char" where
  "lowcase ch =
    (if ch = 0x2D \<or> is_digit ch then ch
     else if 0x41 \<le> ch \<and> ch \<le> 0x5A then ch + 0x20
     else if 0x61 \<le> ch \<and> ch \<le> 0x7A then ch
     else 0)"

datatype header_state =
    hsw_start | hsw_name | hsw_space_before_value | hsw_value | hsw_space_after_value
  | hsw_ignore_line | hsw_almost_done | hsw_header_almost_done

text \<open>The fields of the request the parser uses.  While the loop runs, \<open>state\<close>, \<open>header_hash\<close> and
  \<open>lowcase_index\<close> are the local variables \<^verbatim>\<open>state\<close>, \<^verbatim>\<open>hash\<close> and \<^verbatim>\<open>i\<close>.\<close>

record header_req =
  state :: header_state
  header_hash :: "64 word"
  lowcase_index :: nat
  lowcase_header :: "u_char list"
  header_name_start :: nat
  header_name_end :: nat
  header_start :: nat
  header_end :: nat
  invalid_header :: bool
  upstream :: bool
  seen :: "u_char list"

datatype header_label = Hdone | Hheader_done | Hinvalid

abbreviation pos :: "header_req \<Rightarrow> nat" where
  "pos r \<equiv> length (seen r)"

definition add_name_char :: "header_req \<Rightarrow> u_char \<Rightarrow> header_req" where
  "add_name_char r c = r\<lparr>header_hash := ngx_hash (header_hash r) c,
     lowcase_header := (lowcase_header r)[lowcase_index r := c],
     lowcase_index := (lowcase_index r + 1) mod NGX_HTTP_LC_HEADER_LEN\<rparr>"

definition first_name_char :: "header_req \<Rightarrow> u_char \<Rightarrow> header_req" where
  "first_name_char r c = r\<lparr>header_hash := ngx_hash 0 c, lowcase_header := (lowcase_header r)[0 := c], lowcase_index := 1\<rparr>"

definition header_at_start :: "bool \<Rightarrow> header_req \<Rightarrow> u_char \<Rightarrow> (header_req, header_label) bstep" where
  "header_at_start allow_underscores r0 ch =
    (let r = r0\<lparr>header_name_start := pos r0, invalid_header := False\<rparr>; p = pos r0; c = lowcase ch;
         r1 = r\<lparr>state := hsw_name\<rparr>
     in if ch = CR then Next (r\<lparr>header_end := p, state := hsw_header_almost_done\<rparr>)
        else if ch = LF then Stop Hheader_done (r\<lparr>header_end := p\<rparr>)
        else if c \<noteq> 0 then Next (first_name_char r1 c)
        else if ch = 0x5F then
          Next (if allow_underscores then first_name_char r1 ch
                else r1\<lparr>header_hash := 0, lowcase_index := 0, invalid_header := True\<rparr>)
        else if ch \<le> 0x20 \<or> ch = 0x7F \<or> ch = 0x3A then Stop Hinvalid (r1\<lparr>header_end := p\<rparr>)
        else Next (r1\<lparr>header_hash := 0, lowcase_index := 0, invalid_header := True\<rparr>))"

definition header_in_name :: "bool \<Rightarrow> header_req \<Rightarrow> u_char \<Rightarrow> (header_req, header_label) bstep" where
  "header_in_name allow_underscores r ch =
    (let p = pos r; c = lowcase ch
     in if c \<noteq> 0 then Next (add_name_char r c)
        else if ch = 0x5F then
          Next (if allow_underscores then add_name_char r ch else r\<lparr>invalid_header := True\<rparr>)
        else if ch = 0x3A then Next (r\<lparr>header_name_end := p, state := hsw_space_before_value\<rparr>)
        else if ch = CR then
          Next (r\<lparr>header_name_end := p, header_start := p, header_end := p, state := hsw_almost_done\<rparr>)
        else if ch = LF then Stop Hdone (r\<lparr>header_name_end := p, header_start := p, header_end := p\<rparr>)
        else if ch = 0x2F \<and> upstream r \<and> p - header_name_start r = 4
          \<and> take 4 (drop (header_name_start r) (seen r)) = bytes ''HTTP''
        then Next (r\<lparr>state := hsw_ignore_line\<rparr>)
        else if ch \<le> 0x20 \<or> ch = 0x7F then Stop Hinvalid (r\<lparr>header_end := p\<rparr>)
        else Next (r\<lparr>invalid_header := True\<rparr>))"

definition header_switch :: "bool \<Rightarrow> header_req \<Rightarrow> u_char \<Rightarrow> (header_req, header_label) bstep" where
  "header_switch allow_underscores r ch =
    (let p = pos r
     in case state r of
       hsw_start \<Rightarrow> header_at_start allow_underscores r ch
     | hsw_name \<Rightarrow> header_in_name allow_underscores r ch
     | hsw_space_before_value \<Rightarrow>
         if ch = 0x20 then Next r
         else if ch = CR then Next (r\<lparr>header_start := p, header_end := p, state := hsw_almost_done\<rparr>)
         else if ch = LF then Stop Hdone (r\<lparr>header_start := p, header_end := p\<rparr>)
         else if ch = 0 then Stop Hinvalid (r\<lparr>header_end := p\<rparr>)
         else Next (r\<lparr>header_start := p, state := hsw_value\<rparr>)
     | hsw_value \<Rightarrow>
         if ch = 0x20 then Next (r\<lparr>header_end := p, state := hsw_space_after_value\<rparr>)
         else if ch = CR then Next (r\<lparr>header_end := p, state := hsw_almost_done\<rparr>)
         else if ch = LF then Stop Hdone (r\<lparr>header_end := p\<rparr>)
         else if ch = 0 then Stop Hinvalid (r\<lparr>header_end := p\<rparr>)
         else Next r
     | hsw_space_after_value \<Rightarrow>
         if ch = 0x20 then Next r
         else if ch = CR then Next (r\<lparr>state := hsw_almost_done\<rparr>)
         else if ch = LF then Stop Hdone r
         else if ch = 0 then Stop Hinvalid (r\<lparr>header_end := p\<rparr>)
         else Next (r\<lparr>state := hsw_value\<rparr>)
     | hsw_ignore_line \<Rightarrow> if ch = LF then Next (r\<lparr>state := hsw_start\<rparr>) else Next r
     | hsw_almost_done \<Rightarrow>
         if ch = LF then Stop Hdone r else if ch = CR then Next r else Stop Hinvalid r
     | hsw_header_almost_done \<Rightarrow> if ch = LF then Stop Hheader_done r else Stop Hinvalid r)"

text \<open>The loop advances \<^verbatim>\<open>p\<close> after the \<^verbatim>\<open>switch\<close>.\<close>

definition header_step :: "bool \<Rightarrow> header_req \<Rightarrow> u_char \<Rightarrow> (header_req, header_label) bstep" where
  "header_step allow_underscores r ch =
    (case header_switch allow_underscores r ch of
       Next r' \<Rightarrow> Next (r'\<lparr>seen := seen r @ [ch]\<rparr>)
     | Stop l r' \<Rightarrow> Stop l r')"

text \<open>What is left of the request when the local variables are gone, and the stores before
  \<^verbatim>\<open>return NGX_AGAIN\<close>: \<^verbatim>\<open>b->pos\<close>, the state, the hash and the index.\<close>

definition header_stored :: "header_req \<Rightarrow> header_req \<Rightarrow> header_req" where
  "header_stored r0 r = r\<lparr>state := state r0, header_hash := header_hash r0, lowcase_index := lowcase_index r0, seen := seen r0\<rparr>"

definition header_again :: "header_req \<Rightarrow> header_req \<Rightarrow> header_req" where
  "header_again r0 r = (header_stored r0 r)
    \<lparr>seen := seen r, state := state r, header_hash := header_hash r, lowcase_index := lowcase_index r\<rparr>"

lemma header_again_eq [simp]: "header_again r0 r = r"
  by (simp add: header_again_def header_stored_def)

text \<open>The labels.  On an error nothing is stored, and after the last header the hash and the
  index are not.\<close>

fun header_fin :: "header_req \<Rightarrow> header_label \<Rightarrow> header_req \<Rightarrow> u_char list \<Rightarrow> u_char list
    \<Rightarrow> int \<times> header_req \<times> u_char list" where
  "header_fin r0 Hdone r b rest =
    (NGX_OK,
     (header_stored r0 r)\<lparr>seen := seen r @ [hd rest], state := hsw_start, header_hash := header_hash r,
       lowcase_index := lowcase_index r\<rparr>,
     tl rest)"
| "header_fin r0 Hheader_done r b rest =
    (NGX_HTTP_PARSE_HEADER_DONE, (header_stored r0 r)\<lparr>seen := seen r @ [hd rest], state := hsw_start\<rparr>, tl rest)"
| "header_fin r0 Hinvalid r b rest = (NGX_HTTP_PARSE_INVALID_HEADER, header_stored r0 r, b)"

declare header_stored_def [simp]

definition ngx_http_parse_header_line :: "bool \<Rightarrow> header_req \<Rightarrow> u_char list \<Rightarrow> int \<times> header_req \<times> u_char list" where
  "ngx_http_parse_header_line allow_underscores = mach_parse (header_step allow_underscores) header_fin header_again NGX_AGAIN"

section \<open>The parser can be resumed\<close>

definition header_obs :: "int \<Rightarrow> header_req \<Rightarrow> header_req" where
  "header_obs rc r =
    (if rc = NGX_HTTP_PARSE_HEADER_DONE then r\<lparr>header_hash := 0, lowcase_index := 0\<rparr> else r)"

interpretation header: byte_parser "header_step allow_underscores" header_fin header_again NGX_AGAIN
    "\<lambda>v. v = NGX_HTTP_PARSE_INVALID_HEADER" header_obs
  rewrites "mach_parse (header_step allow_underscores) header_fin header_again NGX_AGAIN = ngx_http_parse_header_line allow_underscores"
  for allow_underscores
proof -
  show "byte_parser header_fin header_again NGX_AGAIN (\<lambda>v. v = NGX_HTTP_PARSE_INVALID_HEADER) header_obs"
  proof unfold_locales
    show "fst (header_fin c r s b rest) \<noteq> NGX_AGAIN" for c r s b rest
      by (cases r) (simp_all add: ngx_rc_defs header_rc_defs)
    show "same_answer (\<lambda>v. v = NGX_HTTP_PARSE_INVALID_HEADER) header_obs (header_fin c r s b rest) (header_fin c' r s b' rest)"
      for c r s b rest c' b'
      by (cases r) (simp_all add: same_answer_def header_obs_def)
    show "same_answer (\<lambda>v. v = NGX_HTTP_PARSE_INVALID_HEADER) header_obs (v, c', q @ ys) (header_fin c r s (b @ ys) (rest @ ys))"
      if "rest \<noteq> []" "header_fin c r s b rest = (v, c', q)" for rest c r s b v c' q ys
      using that by (cases r) (auto simp: same_answer_def)
  qed (simp_all add: ngx_rc_defs header_rc_defs)
qed (simp add: ngx_http_parse_header_line_def)

section \<open>A well-formed header line\<close>

definition name_char :: "u_char \<Rightarrow> bool" where
  "name_char c \<longleftrightarrow> lowcase c \<noteq> 0"

definition value_char :: "u_char \<Rightarrow> bool" where
  "value_char c \<longleftrightarrow> c \<noteq> CR \<and> c \<noteq> LF \<and> c \<noteq> 0"

lemma lowcase_special [simp]: "lowcase CR = 0" "lowcase LF = 0" "lowcase 0x3A = 0" "lowcase 0x5F = 0"
  by (simp_all add: lowcase_def is_digit_uint)

lemma header_stepI:
  "header_switch allow r ch = Next r' \<Longrightarrow> header_step allow r ch = Next (r'\<lparr>seen := seen r @ [ch]\<rparr>)"
  by (simp add: header_step_def)

text \<open>The effect of the rest of a name.\<close>

fun name_loop :: "header_req \<Rightarrow> u_char list \<Rightarrow> header_req" where
  "name_loop r [] = r"
| "name_loop r (c # cs) = name_loop ((add_name_char r (lowcase c))\<lparr>seen := seen r @ [c]\<rparr>) cs"

lemma name_run:
  "state r = hsw_name \<Longrightarrow> list_all name_char name \<Longrightarrow>
    run (header_step allow) r (name @ rest) = run (header_step allow) (name_loop r name) rest"
proof (induction name arbitrary: r)
  case (Cons c name)
  then have "header_step allow r c = Next ((add_name_char r (lowcase c))\<lparr>seen := seen r @ [c]\<rparr>)"
    by (simp add: header_step_def header_switch_def header_in_name_def name_char_def)
  then show ?case using Cons by (simp add: add_name_char_def)
qed simp

lemma name_loop_fields:
  "state (name_loop r name) = state r \<and> seen (name_loop r name) = seen r @ name
    \<and> header_name_start (name_loop r name) = header_name_start r \<and> header_end (name_loop r name) = header_end r
    \<and> invalid_header (name_loop r name) = invalid_header r \<and> upstream (name_loop r name) = upstream r
    \<and> header_hash (name_loop r name) = foldl ngx_hash (header_hash r) (map lowcase name)
    \<and> length (lowcase_header (name_loop r name)) = length (lowcase_header r)"
  by (induction name arbitrary: r) (simp_all add: add_name_char_def)

lemma name_loop_lowcase:
  assumes "lowcase_index r + length name \<le> 32" and "length (lowcase_header r) = 32"
  shows "take (lowcase_index r + length name) (lowcase_header (name_loop r name))
      = take (lowcase_index r) (lowcase_header r) @ map lowcase name
    \<and> lowcase_index (name_loop r name) = (lowcase_index r + length name) mod 32 \<or> name = []"
  using assms
proof (induction name arbitrary: r)
  case (Cons c name)
  let ?r = "(add_name_char r (lowcase c))\<lparr>seen := seen r @ [c]\<rparr>"
  have i: "lowcase_index r < 32" using Cons.prems(1) by simp
  show ?case
  proof (cases "name = []")
    case True
    then show ?thesis using Cons.prems i
      by (simp add: add_name_char_def NGX_HTTP_LC_HEADER_LEN_def take_Suc_conv_app_nth)
  next
    case False
    then have "lowcase_index r + 1 < 32" using Cons.prems(1) by (cases name) auto
    then have j: "lowcase_index ?r = lowcase_index r + 1" by (simp add: add_name_char_def NGX_HTTP_LC_HEADER_LEN_def)
    have "lowcase_header ?r = (lowcase_header r)[lowcase_index r := lowcase c]" by (simp add: add_name_char_def)
    then have "take (lowcase_index ?r) (lowcase_header ?r) = take (lowcase_index r) (lowcase_header r) @ [lowcase c]"
      using i Cons.prems(2) j by (simp add: take_Suc_conv_app_nth)
    then show ?thesis using Cons.IH [of ?r] Cons.prems False j by (simp add: add_name_char_def)
  qed
qed simp

text \<open>The effect of a value, spaces included.\<close>

lemma value_run:
  assumes "state r = hsw_value \<or> state r = hsw_space_after_value" and "list_all value_char v"
  shows "\<exists>e. run (header_step allow) r (v @ rest) = run (header_step allow) (r\<lparr>header_end := e,
    state := (if v = [] then state r else if last v = 0x20 then hsw_space_after_value else hsw_value), seen := seen r @ v\<rparr>) rest"
  using assms
proof (induction v arbitrary: r)
  case Nil
  show ?case by (rule exI [of _ "header_end r"]) simp
next
  case (Cons c v)
  let ?s = "if c = 0x20 then hsw_space_after_value else hsw_value"
  let ?e = "if c = 0x20 \<and> state r = hsw_value then pos r else header_end r"
  let ?r = "r\<lparr>header_end := ?e, state := ?s, seen := seen r @ [c]\<rparr>"
  have "header_step allow r c = Next ?r"
    using Cons.prems by (auto simp: header_step_def header_switch_def value_char_def Let_def)
  moreover have st: "state ?r = hsw_value \<or> state ?r = hsw_space_after_value" by simp
  have "list_all value_char v" using Cons.prems(2) by simp
  from Cons.IH [OF st this] obtain e where "run (header_step allow) ?r (v @ rest) = run (header_step allow) (?r\<lparr>header_end := e,
    state := (if v = [] then state ?r else if last v = 0x20 then hsw_space_after_value else hsw_value), seen := seen ?r @ v\<rparr>) rest"
    by blast
  ultimately show ?case by (intro exI [of _ e]) (simp add: if_distrib cong: if_cong)
qed

lemma spaces_before_run:
  "state r = hsw_space_before_value \<Longrightarrow>
    run (header_step allow) r (replicate k 0x20 @ rest) = run (header_step allow) (r\<lparr>seen := seen r @ replicate k 0x20\<rparr>) rest"
  by (induction k arbitrary: r) (simp_all add: header_step_def header_switch_def)

text \<open>The name and value of the header as the caller reads them.\<close>

definition header_name :: "header_req \<Rightarrow> u_char list" where
  "header_name r = take (header_name_end r - header_name_start r) (drop (header_name_start r) (seen r))"

definition header_value :: "header_req \<Rightarrow> u_char list" where
  "header_value r = take (header_end r - header_start r) (drop (header_start r) (seen r))"

lemma header_line_run:
  assumes "state r = hsw_start" and "name \<noteq> []" and "list_all name_char name"
    and "v \<noteq> []" and "hd v \<noteq> 0x20" and "last v \<noteq> 0x20" and "list_all value_char v"
    and "length (lowcase_header r) = 32"
  shows "\<exists>r1. run (header_step allow) r (name @ [0x3A] @ replicate k 0x20 @ v @ CR # LF # rest) = Halt Hdone r1 (LF # rest)
    \<and> seen r1 = seen r @ name @ [0x3A] @ replicate k 0x20 @ v @ [CR] \<and> \<not> invalid_header r1
    \<and> header_name_start r1 = pos r \<and> header_name_end r1 = pos r + length name
    \<and> header_start r1 = pos r + length name + 1 + k \<and> header_end r1 = pos r + length name + 1 + k + length v
    \<and> header_hash r1 = foldl ngx_hash 0 (map lowcase name)
    \<and> (length name \<le> 32 \<longrightarrow> take (length name) (lowcase_header r1) = map lowcase name)"
proof -
  obtain c cs where n: "name = c # cs" using assms(2) by (cases name) auto
  obtain d ds where v: "v = d # ds" using assms(4) by (cases v) auto
  have lc: "lowcase c \<noteq> 0" "list_all name_char cs" using assms(3) n by (auto simp: name_char_def)
  have cc: "c \<noteq> CR" "c \<noteq> LF" using lc(1) lowcase_special by metis+
  let ?r1 = "(first_name_char (r\<lparr>header_name_start := pos r, invalid_header := False, state := hsw_name\<rparr>) (lowcase c))\<lparr>seen := seen r @ [c]\<rparr>"
  let ?r2 = "name_loop ?r1 cs"
  let ?r3 = "?r2\<lparr>header_name_end := pos ?r2, state := hsw_space_before_value, seen := seen ?r2 @ [0x3A]\<rparr>"
  let ?r4 = "?r3\<lparr>seen := seen ?r3 @ replicate k 0x20\<rparr>"
  let ?r5 = "?r4\<lparr>header_start := pos ?r4, state := hsw_value, seen := seen ?r4 @ [d]\<rparr>"
  have s1: "header_step allow r c = Next ?r1"
    using assms(1) lc cc by (simp add: header_step_def header_switch_def header_at_start_def Let_def)
  have st2: "state ?r2 = hsw_name" using name_loop_fields [of ?r1 cs] by (simp add: first_name_char_def)
  have s3: "header_step allow ?r2 0x3A = Next ?r3"
    using st2 by (simp add: header_step_def header_switch_def header_in_name_def Let_def)
  have "d \<noteq> CR" "d \<noteq> LF" "d \<noteq> 0" "d \<noteq> 0x20" using assms(5,7) v by (auto simp: value_char_def)
  then have s5: "header_step allow ?r4 d = Next ?r5"
    by (simp add: header_step_def header_switch_def Let_def)
  obtain e where s6: "run (header_step allow) ?r5 (ds @ CR # LF # rest) = run (header_step allow) (?r5\<lparr>header_end := e,
      state := hsw_value, seen := seen ?r5 @ ds\<rparr>) (CR # LF # rest)"
    using value_run [of ?r5 ds allow "CR # LF # rest"] assms(6,7) v by (auto split: if_splits)
  let ?r6 = "?r5\<lparr>header_end := e, state := hsw_value, seen := seen ?r5 @ ds\<rparr>"
  let ?r7 = "?r6\<lparr>header_end := pos ?r6, state := hsw_almost_done, seen := seen ?r6 @ [CR]\<rparr>"
  have s7: "header_step allow ?r6 CR = Next ?r7" "header_step allow ?r7 LF = Stop Hdone ?r7"
    by (simp_all add: header_step_def header_switch_def Let_def)
  have "run (header_step allow) r (name @ [0x3A] @ replicate k 0x20 @ v @ CR # LF # rest)
      = run (header_step allow) ?r1 (cs @ 0x3A # replicate k 0x20 @ v @ CR # LF # rest)"
    by (simp only: n append_Cons append_Nil run.simps s1 bstep.case)
  also have "\<dots> = run (header_step allow) ?r2 (0x3A # replicate k 0x20 @ v @ CR # LF # rest)"
    by (rule name_run [OF _ lc(2)]) (simp add: first_name_char_def)
  also have "\<dots> = run (header_step allow) ?r3 (replicate k 0x20 @ v @ CR # LF # rest)"
    by (simp only: run.simps s3 bstep.case)
  also have "\<dots> = run (header_step allow) ?r4 (v @ CR # LF # rest)" by (rule spaces_before_run) simp
  also have "\<dots> = run (header_step allow) ?r5 (ds @ CR # LF # rest)"
    by (simp only: v append_Cons run.simps s5 bstep.case)
  also have "\<dots> = Halt Hdone ?r7 (LF # rest)" by (simp only: s6 run.simps s7 bstep.case)
  finally have run: "run (header_step allow) r (name @ [0x3A] @ replicate k 0x20 @ v @ CR # LF # rest) = Halt Hdone ?r7 (LF # rest)" .
  have lcase: "length name \<le> 32 \<longrightarrow> take (length name) (lowcase_header ?r2) = map lowcase name"
    using name_loop_lowcase [of ?r1 cs] assms(8) n by (cases "cs = []") (auto simp: first_name_char_def take_Suc_conv_app_nth)
  note f = name_loop_fields [of ?r1 cs]
  show ?thesis
    by (rule exI [of _ ?r7]) (use run f lcase n v in \<open>simp add: first_name_char_def\<close>)
qed

section \<open>Indexes and pointers\<close>

definition header_ptrs :: "header_req \<Rightarrow> bool" where
  "header_ptrs r \<longleftrightarrow> header_name_start r \<le> header_name_end r \<and> header_name_end r \<le> header_start r
    \<and> header_start r \<le> header_end r \<and> header_end r \<le> pos r"

definition header_inv :: "header_req \<Rightarrow> bool" where
  "header_inv r \<longleftrightarrow> lowcase_index r < 32 \<and> length (lowcase_header r) = 32 \<and>
    (case state r of
       hsw_name \<Rightarrow> header_name_start r \<le> pos r
     | hsw_space_before_value \<Rightarrow> header_name_start r \<le> header_name_end r \<and> header_name_end r \<le> pos r
     | hsw_value \<Rightarrow> header_name_start r \<le> header_name_end r \<and> header_name_end r \<le> header_start r \<and> header_start r \<le> pos r
     | hsw_space_after_value \<Rightarrow> header_ptrs r
     | hsw_almost_done \<Rightarrow> header_ptrs r
     | _ \<Rightarrow> True)"

lemma header_switch_inv:
  assumes "header_inv r" and "header_switch allow r ch = Next r'"
  shows "header_inv (r'\<lparr>seen := seen r @ [ch]\<rparr>)"
  using assms
  by (cases "state r")
    (auto simp: header_inv_def header_ptrs_def header_switch_def header_at_start_def header_in_name_def Let_def
      first_name_char_def add_name_char_def NGX_HTTP_LC_HEADER_LEN_def split: if_splits)

lemma header_switch_stop:
  assumes "header_inv r" and "header_switch allow r ch = Stop l r'"
  shows "(l = Hdone \<longrightarrow> header_ptrs r') \<and> lowcase_index r' < 32 \<and> length (lowcase_header r') = 32"
  using assms
  by (cases "state r")
    (auto simp: header_inv_def header_ptrs_def header_switch_def header_at_start_def header_in_name_def Let_def
      split: if_splits)

lemma header_run_inv:
  assumes "header_inv r"
  shows "case run (header_step allow) r b of More r' \<Rightarrow> header_inv r'
    | Halt l r' rest \<Rightarrow> (l = Hdone \<longrightarrow> header_ptrs r') \<and> lowcase_index r' < 32 \<and> length (lowcase_header r') = 32"
  by (rule run_invariant [where I = header_inv, OF assms])
    (auto simp: header_step_def split: bstep.splits dest: header_switch_inv header_switch_stop)

section \<open>Properties\<close>

text \<open>C21: a well-formed header line, in whatever case and with any number of spaces before its value, is
  parsed to its name and value, to the hash of the lower-case name and, for a name of at most 32 bytes,
  to the lower-case name.\<close>

theorem header_line_parsed:
  assumes "state r = hsw_start" and "length (lowcase_header r) = 32"
    and "name \<noteq> []" and "list_all name_char name"
    and "v \<noteq> []" and "hd v \<noteq> 0x20" and "last v \<noteq> 0x20" and "list_all value_char v"
  shows "\<exists>r1. ngx_http_parse_header_line allow r (name @ [0x3A] @ replicate k 0x20 @ v @ [CR, LF] @ rest) = (NGX_OK, r1, rest)
    \<and> header_name r1 = name \<and> header_value r1 = v \<and> \<not> invalid_header r1
    \<and> header_hash r1 = foldl ngx_hash 0 (map lowcase name)
    \<and> (length name \<le> 32 \<longrightarrow> take (length name) (lowcase_header r1) = map lowcase name)
    \<and> state r1 = hsw_start \<and> seen r1 = seen r @ name @ [0x3A] @ replicate k 0x20 @ v @ [CR, LF]"
proof -
  obtain r1 where run: "run (header_step allow) r (name @ [0x3A] @ replicate k 0x20 @ v @ CR # LF # rest) = Halt Hdone r1 (LF # rest)"
    and f: "seen r1 = seen r @ name @ [0x3A] @ replicate k 0x20 @ v @ [CR]" "\<not> invalid_header r1"
    "header_name_start r1 = pos r" "header_name_end r1 = pos r + length name"
    "header_start r1 = pos r + length name + 1 + k" "header_end r1 = pos r + length name + 1 + k + length v"
    "header_hash r1 = foldl ngx_hash 0 (map lowcase name)"
    "length name \<le> 32 \<longrightarrow> take (length name) (lowcase_header r1) = map lowcase name"
    using header_line_run [OF assms(1,3-8,2)] by blast
  let ?r = "r1\<lparr>state := hsw_start, seen := seen r1 @ [LF]\<rparr>"
  have "ngx_http_parse_header_line allow r (name @ [0x3A] @ replicate k 0x20 @ v @ [CR, LF] @ rest) = (NGX_OK, ?r, rest)"
    using run by (simp add: ngx_http_parse_header_line_def mach_parse_def)
  moreover have "header_name ?r = name" "header_value ?r = v"
    using f(1,3-6) by (simp_all add: header_name_def header_value_def)
  ultimately show ?thesis using f by auto
qed

definition demo_header_req :: header_req where
  "demo_header_req = \<lparr>state = hsw_start, header_hash = 0, lowcase_index = 0, lowcase_header = replicate 32 0,
     header_name_start = 0, header_name_end = 0, header_start = 0, header_end = 0, invalid_header = False,
     upstream = False, seen = []\<rparr>"

theorem header_line_parsed_witness:
  "\<exists>r1. ngx_http_parse_header_line False demo_header_req (bytes ''Host'' @ [0x3A] @ replicate 2 0x20 @ bytes ''a b'' @ [CR, LF] @ [LF])
    = (NGX_OK, r1, [LF]) \<and> header_name r1 = bytes ''Host'' \<and> header_value r1 = bytes ''a b''
    \<and> take 4 (lowcase_header r1) = bytes ''host''"
proof -
  have c: "list_all name_char (bytes ''Host'')" "list_all value_char (bytes ''a b'')" "hd (bytes ''a b'') \<noteq> 0x20"
    "last (bytes ''a b'') \<noteq> 0x20" "map lowcase (bytes ''Host'') = bytes ''host''" by code_simp+
  have n: "bytes ''Host'' \<noteq> []" "bytes ''a b'' \<noteq> []" "length (bytes ''Host'') = 4" by (simp_all add: bytes_def)
  show ?thesis
    using header_line_parsed [of demo_header_req "bytes ''Host''" "bytes ''a b''" False 2 "[LF]"] c n
    by (auto simp: demo_header_req_def)
qed

text \<open>C22: whatever bytes arrive, the header parser writes \<^verbatim>\<open>lowcase_header\<close> inside its 32 bytes, and the
  header it returns has its pointers in order and inside the bytes that were read; the parser's state
  stays sound for the next buffer.\<close>

theorem header_line_safe:
  assumes "header_inv r"
  shows "case ngx_http_parse_header_line allow r b of (rc, r', rest) \<Rightarrow>
    (rc = NGX_AGAIN \<or> rc = NGX_OK \<longrightarrow> header_inv r') \<and> (rc = NGX_OK \<longrightarrow> header_ptrs r')
    \<and> length (lowcase_header r') = 32 \<and> lowcase_index r' < 32"
proof (cases "run (header_step allow) r b")
  case (More r')
  then show ?thesis using header_run_inv [OF assms, of allow b]
    by (auto simp: ngx_http_parse_header_line_def mach_parse_def header_inv_def ngx_rc_defs)
next
  case (Halt l r' rest)
  then show ?thesis using header_run_inv [OF assms, of allow b] assms
    by (cases l) (auto simp: ngx_http_parse_header_line_def mach_parse_def header_inv_def header_ptrs_def ngx_rc_defs header_rc_defs)
qed

theorem header_line_safe_witness:
  "header_inv demo_header_req \<and> fst (ngx_http_parse_header_line True demo_header_req (bytes ''a_b:'' @ [LF])) = NGX_OK
    \<and> header_ptrs (fst (snd (ngx_http_parse_header_line True demo_header_req (bytes ''a_b:'' @ [LF]))))"
proof -
  have i: "header_inv demo_header_req" by code_simp
  moreover have "fst (ngx_http_parse_header_line True demo_header_req (bytes ''a_b:'' @ [LF])) = NGX_OK" by code_simp
  ultimately show ?thesis
    using header_line_safe [OF i, of True "bytes ''a_b:'' @ [LF]"] by (auto split: prod.splits)
qed

end
