(* ===== verification/Http_Status.thy ===== *)
theory Http_Status
  imports Http_Machine
begin

text \<open>
  \<^verbatim>\<open>ngx_http_parse_status_line\<close> of \<^verbatim>\<open>src/http/ngx_http_parse.c\<close>: the status line of an upstream's
  response.  The counters are \<^verbatim>\<open>ngx_uint_t\<close>; the theorems bound them, so they are natural numbers.
  \<open>sl_pos\<close> is \<^verbatim>\<open>p\<close>, counted from the start of the buffer.
\<close>

datatype status_state =
    ssw_start | ssw_H | ssw_HT | ssw_HTT | ssw_HTTP | ssw_first_major_digit | ssw_major_digit
  | ssw_first_minor_digit | ssw_minor_digit | ssw_status | ssw_space_after_status | ssw_status_text
  | ssw_almost_done

record status_req =
  sl_state :: status_state
  http_major :: nat
  http_minor :: nat
  st_code :: nat
  st_count :: nat
  st_start :: "nat option"
  st_end :: "nat option"
  http_version :: nat
  sl_pos :: nat

datatype status_label = Sdone | Serror

definition dig :: "u_char \<Rightarrow> nat" where
  "dig ch = unat (ch - 0x30)"

definition expect :: "status_req \<Rightarrow> u_char \<Rightarrow> u_char \<Rightarrow> status_state \<Rightarrow> (status_req, status_label) bstep" where
  "expect r ch c st = (if ch = c then Next (r\<lparr>sl_state := st\<rparr>) else Stop Serror r)"

definition status_switch :: "status_req \<Rightarrow> u_char \<Rightarrow> (status_req, status_label) bstep" where
  "status_switch r ch =
    (case sl_state r of
       ssw_start \<Rightarrow> expect r ch 0x48 ssw_H
     | ssw_H \<Rightarrow> expect r ch 0x54 ssw_HT
     | ssw_HT \<Rightarrow> expect r ch 0x54 ssw_HTT
     | ssw_HTT \<Rightarrow> expect r ch 0x50 ssw_HTTP
     | ssw_HTTP \<Rightarrow> expect r ch 0x2F ssw_first_major_digit
     | ssw_first_major_digit \<Rightarrow>
         if ch < 0x31 \<or> ch > 0x39 then Stop Serror r
         else Next (r\<lparr>http_major := dig ch, sl_state := ssw_major_digit\<rparr>)
     | ssw_major_digit \<Rightarrow>
         if ch = 0x2E then Next (r\<lparr>sl_state := ssw_first_minor_digit\<rparr>)
         else if \<not> is_digit ch then Stop Serror r
         else if http_major r > 99 then Stop Serror r
         else Next (r\<lparr>http_major := http_major r * 10 + dig ch\<rparr>)
     | ssw_first_minor_digit \<Rightarrow>
         if \<not> is_digit ch then Stop Serror r
         else Next (r\<lparr>http_minor := dig ch, sl_state := ssw_minor_digit\<rparr>)
     | ssw_minor_digit \<Rightarrow>
         if ch = 0x20 then Next (r\<lparr>sl_state := ssw_status\<rparr>)
         else if \<not> is_digit ch then Stop Serror r
         else if http_minor r > 99 then Stop Serror r
         else Next (r\<lparr>http_minor := http_minor r * 10 + dig ch\<rparr>)
     | ssw_status \<Rightarrow>
         if ch = 0x20 then Next r
         else if \<not> is_digit ch then Stop Serror r
         else let r1 = r\<lparr>st_code := st_code r * 10 + dig ch, st_count := st_count r + 1\<rparr>
              in if st_count r1 = 3
                 then Next (r1\<lparr>sl_state := ssw_space_after_status, st_start := Some (sl_pos r - 2)\<rparr>)
                 else Next r1
     | ssw_space_after_status \<Rightarrow>
         if ch = 0x20 \<or> ch = 0x2E then Next (r\<lparr>sl_state := ssw_status_text\<rparr>)
         else if ch = CR then Next (r\<lparr>sl_state := ssw_almost_done\<rparr>)
         else if ch = LF then Stop Sdone r
         else Stop Serror r
     | ssw_status_text \<Rightarrow>
         if ch = CR then Next (r\<lparr>sl_state := ssw_almost_done\<rparr>)
         else if ch = LF then Stop Sdone r
         else Next r
     | ssw_almost_done \<Rightarrow>
         let r1 = r\<lparr>st_end := Some (sl_pos r - 1)\<rparr>
         in if ch = LF then Stop Sdone r1 else Stop Serror r1)"

definition status_step :: "status_req \<Rightarrow> u_char \<Rightarrow> (status_req, status_label) bstep" where
  "status_step r ch =
    (case status_switch r ch of
       Next r' \<Rightarrow> Next (r'\<lparr>sl_pos := sl_pos r + 1\<rparr>)
     | Stop l r' \<Rightarrow> Stop l r')"

text \<open>At the end of the buffer: \<^verbatim>\<open>b->pos = p; r->state = state\<close>.\<close>

definition status_again :: "status_req \<Rightarrow> status_req \<Rightarrow> status_req" where
  "status_again r0 r =
    (r\<lparr>sl_state := sl_state r0, sl_pos := sl_pos r0\<rparr>)\<lparr>sl_pos := sl_pos r, sl_state := sl_state r\<rparr>"

lemma status_again_eq [simp]: "status_again r0 r = r"
  by (simp add: status_again_def)

fun status_fin :: "status_req \<Rightarrow> status_label \<Rightarrow> status_req \<Rightarrow> u_char list \<Rightarrow> u_char list
    \<Rightarrow> int \<times> status_req \<times> u_char list" where
  "status_fin r0 Sdone r b rest =
    (NGX_OK,
     r\<lparr>sl_pos := sl_pos r + 1, st_end := (if st_end r = None then Some (sl_pos r) else st_end r),
       http_version := http_major r * 1000 + http_minor r, sl_state := ssw_start\<rparr>, tl rest)"
| "status_fin r0 Serror r b rest = (NGX_ERROR, r\<lparr>sl_state := sl_state r0, sl_pos := sl_pos r0\<rparr>, b)"

definition ngx_http_parse_status_line :: "status_req \<Rightarrow> u_char list \<Rightarrow> int \<times> status_req \<times> u_char list" where
  "ngx_http_parse_status_line = mach_parse status_step status_fin status_again NGX_AGAIN"

interpretation status: byte_parser status_step status_fin status_again NGX_AGAIN "\<lambda>v. v = NGX_ERROR" "\<lambda>v r. r"
  rewrites "mach_parse status_step status_fin status_again NGX_AGAIN = ngx_http_parse_status_line"
proof -
  show "byte_parser status_fin status_again NGX_AGAIN (\<lambda>v. v = NGX_ERROR) (\<lambda>v r. r)"
  proof unfold_locales
    show "fst (status_fin c r s b rest) \<noteq> NGX_AGAIN" for c r s b rest
      by (cases r) (simp_all add: ngx_rc_defs)
    show "same_answer (\<lambda>v. v = NGX_ERROR) (\<lambda>v r. r) (status_fin c r s b rest) (status_fin c' r s b' rest)"
      for c r s b rest c' b'
      by (cases r) (simp_all add: same_answer_def)
    show "same_answer (\<lambda>v. v = NGX_ERROR) (\<lambda>v r. r) (v, c', q @ ys) (status_fin c r s (b @ ys) (rest @ ys))"
      if "rest \<noteq> []" "status_fin c r s b rest = (v, c', q)" for rest c r s b v c' q ys
      using that by (cases r) (auto simp: same_answer_def)
  qed (simp_all add: ngx_rc_defs)
qed (simp add: ngx_http_parse_status_line_def)

section \<open>Bounds\<close>

definition status_inv :: "status_req \<Rightarrow> bool" where
  "status_inv r \<longleftrightarrow> http_major r \<le> 999 \<and> http_minor r \<le> 999 \<and> st_code r < 10 ^ st_count r
    \<and> st_count r \<le> 3 \<and> (sl_state r = ssw_status \<longrightarrow> st_count r < 3 \<and> st_count r \<le> sl_pos r)
    \<and> (sl_state r \<in> {ssw_space_after_status, ssw_status_text, ssw_almost_done} \<longrightarrow> st_count r = 3)
    \<and> (sl_state r \<in> {ssw_start, ssw_H, ssw_HT, ssw_HTT, ssw_HTTP, ssw_first_major_digit, ssw_major_digit,
        ssw_first_minor_digit, ssw_minor_digit} \<longrightarrow> st_count r = 0)"

lemma dig_le: "is_digit ch \<Longrightarrow> dig ch \<le> 9"
proof -
  assume d: "is_digit ch"
  have "int (dig ch) = uint (ch - 0x30)" by (simp add: dig_def)
  also have "\<dots> = uint ch - 48" using d by (simp add: is_digit_uint uint_sub_if')
  finally show ?thesis using d by (simp add: is_digit_uint)
qed

lemma not_range_digit: "\<not> (ch < 0x31 \<or> ch > 0x39) \<Longrightarrow> is_digit ch"
  by (auto simp: is_digit_uint word_less_def not_less word_le_def)

lemma status_switch_inv:
  assumes "status_inv r" and "status_switch r ch = Next r'"
  shows "status_inv (r'\<lparr>sl_pos := sl_pos r + 1\<rparr>)"
proof -
  have code: "st_code r * 10 + dig ch < 10 ^ (st_count r + 1)" if "is_digit ch"
    using assms(1) dig_le [OF that] by (simp add: status_inv_def)
  show ?thesis
    using assms dig_le [of ch] code not_range_digit [of ch]
    by (cases "sl_state r") (auto simp: status_inv_def status_switch_def expect_def Let_def split: if_splits)
qed

lemma status_switch_stop:
  assumes "status_inv r" and "status_switch r ch = Stop l r'"
  shows "http_major r' \<le> 999 \<and> http_minor r' \<le> 999 \<and> st_code r' < 10 ^ st_count r' \<and> st_count r' \<le> 3
    \<and> (l = Sdone \<longrightarrow> st_count r' = 3)"
  using assms
  by (cases "sl_state r") (auto simp: status_inv_def status_switch_def expect_def Let_def split: if_splits)

lemma status_run_inv:
  assumes "status_inv r"
  shows "case run status_step r b of More r' \<Rightarrow> status_inv r'
    | Halt l r' rest \<Rightarrow> http_major r' \<le> 999 \<and> http_minor r' \<le> 999 \<and> st_code r' < 10 ^ st_count r' \<and> st_count r' \<le> 3
        \<and> (l = Sdone \<longrightarrow> st_count r' = 3)"
  by (rule run_invariant [where I = status_inv, OF assms])
    (auto simp: status_step_def split: bstep.splits dest: status_switch_inv status_switch_stop)

lemma status_text_run:
  "sl_state r = ssw_status_text \<Longrightarrow> CR \<notin> set reason \<Longrightarrow> LF \<notin> set reason \<Longrightarrow>
    run status_step r (reason @ rest) = run status_step (r\<lparr>sl_pos := sl_pos r + length reason\<rparr>) rest"
proof (induction reason arbitrary: r)
  case (Cons c reason)
  then have "status_step r c = Next (r\<lparr>sl_pos := sl_pos r + 1\<rparr>)"
    by (auto simp: status_step_def status_switch_def)
  then show ?case using Cons by simp
qed simp

section \<open>Properties\<close>

definition status_start :: "status_req \<Rightarrow> bool" where
  "status_start r \<longleftrightarrow> sl_state r = ssw_start \<and> st_code r = 0 \<and> st_count r = 0 \<and> st_end r = None"

text \<open>The status line of an HTTP/1.x response is parsed to its version and its three-digit code, and
  \<^verbatim>\<open>start\<close> and \<^verbatim>\<open>end\<close> delimit the code and the text.\<close>

theorem status_line_parsed:
  assumes "status_start r" and "is_digit v" and "is_digit d1" and "is_digit d2" and "is_digit d3"
    and "CR \<notin> set reason" and "LF \<notin> set reason"
  shows "\<exists>r1. ngx_http_parse_status_line r (bytes ''HTTP/1.'' @ [v, 0x20, d1, d2, d3, 0x20] @ reason @ [CR, LF] @ rest) = (NGX_OK, r1, rest)
    \<and> http_version r1 = 1000 + dig v \<and> st_code r1 = 100 * dig d1 + 10 * dig d2 + dig d3
    \<and> st_start r1 = Some (sl_pos r + 9) \<and> st_end r1 = Some (sl_pos r + 13 + length reason)
    \<and> sl_pos r1 = sl_pos r + 15 + length reason"
proof -
  have one: "dig 0x31 = 1" by (simp add: dig_def)
  have d: "d \<noteq> 0x20" "d \<noteq> 0x2E" if "is_digit d" for d
    using that by (auto simp: is_digit_uint)
  let ?r1 = "r\<lparr>http_major := 1, http_minor := dig v, st_code := 100 * dig d1 + dig d2 * 10 + dig d3, st_count := Suc (Suc (Suc 0)),
     st_start := Some (Suc (Suc (Suc (Suc (Suc (Suc (Suc (Suc (Suc (sl_pos r)))))))))),
     sl_state := ssw_status_text, sl_pos := Suc (Suc (Suc (Suc (Suc (Suc (Suc (Suc (Suc (Suc (Suc (Suc (Suc (sl_pos r)))))))))))))\<rparr>"
  let ?r2 = "r\<lparr>http_major := 1, http_minor := dig v, st_code := 100 * dig d1 + dig d2 * 10 + dig d3, st_count := 3,
     st_start := Some (sl_pos r + 9), sl_state := ssw_status_text, sl_pos := sl_pos r + 13\<rparr>"
  have "run status_step r (bytes ''HTTP/1.'' @ [v, 0x20, d1, d2, d3, 0x20] @ reason @ [CR, LF] @ rest)
      = run status_step ?r1 (reason @ [CR, LF] @ rest)"
    using assms(1-5) d one
    by (simp add: bytes_def status_step_def status_switch_def expect_def status_start_def Let_def)
  also have "?r1 = ?r2"
  proof -
    have "Suc (Suc (Suc 0)) = (3 :: nat)" "Suc (Suc (Suc (Suc (Suc (Suc (Suc (Suc (Suc (sl_pos r))))))))) = sl_pos r + 9" "Suc (Suc (Suc (Suc (Suc (Suc (Suc (Suc (Suc (Suc (Suc (Suc (Suc (sl_pos r))))))))))))) = sl_pos r + 13" by simp_all
    then show ?thesis by (simp only:)
  qed
  also have "run status_step ?r2 (reason @ [CR, LF] @ rest)
      = run status_step (?r2\<lparr>sl_pos := sl_pos r + 13 + length reason\<rparr>) ([CR, LF] @ rest)"
    using status_text_run [of ?r2 reason "[CR, LF] @ rest"] assms(6,7) by simp
  also have "\<dots> = Halt Sdone (?r2\<lparr>sl_state := ssw_almost_done, sl_pos := sl_pos r + 14 + length reason,
      st_end := Some (sl_pos r + 13 + length reason)\<rparr>) (LF # rest)"
    by (simp add: status_step_def status_switch_def Let_def)
  finally show ?thesis by (simp add: ngx_http_parse_status_line_def mach_parse_def)
qed

definition demo_status_req :: status_req where
  "demo_status_req = \<lparr>sl_state = ssw_start, http_major = 0, http_minor = 0, st_code = 0, st_count = 0, st_start = None,
     st_end = None, http_version = 0, sl_pos = 0\<rparr>"

theorem status_line_parsed_witness:
  "\<exists>r1. ngx_http_parse_status_line demo_status_req (bytes ''HTTP/1.'' @ [0x31, 0x20, 0x32, 0x30, 0x30, 0x20] @ bytes ''OK'' @ [CR, LF] @ []) = (NGX_OK, r1, [])
    \<and> http_version r1 = 1001 \<and> st_code r1 = 200 \<and> st_end r1 = Some 15"
proof -
  have "dig 0x31 = 1" "dig 0x32 = 2" "dig 0x30 = 0" "length (bytes ''OK'') = 2" "CR \<notin> set (bytes ''OK'')" "LF \<notin> set (bytes ''OK'')"
    by (simp_all add: dig_def bytes_def)
  then show ?thesis
    using status_line_parsed [where r = demo_status_req and reason = "bytes ''OK''" and rest = "[]" and v = "0x31" and ?d1.0 = "0x32" and ?d2.0 = "0x30" and ?d3.0 = "0x30"]
    by (simp add: demo_status_req_def status_start_def is_digit_uint) blast
qed

text \<open>Whatever an upstream sends, the version and the code stay small: no counter of the status
  parser can overflow, and an accepted line has a code of three digits.\<close>

theorem status_line_bounds:
  assumes "status_inv r"
  shows "case ngx_http_parse_status_line r b of (rc, r', rest) \<Rightarrow>
    http_major r' \<le> 999 \<and> http_minor r' \<le> 999 \<and> st_code r' \<le> 999
    \<and> (rc = NGX_AGAIN \<longrightarrow> status_inv r' \<and> rest = [])
    \<and> (rc = NGX_OK \<longrightarrow> st_count r' = 3 \<and> http_version r' = http_major r' * 1000 + http_minor r')"
proof -
  have lim: "c \<le> 999" if "c < 10 ^ k" "k \<le> 3" for c k :: nat
  proof -
    have "(10::nat) ^ k \<le> 10 ^ 3" using that(2) by (intro power_increasing) auto
    then show ?thesis using that(1) by simp
  qed
  show ?thesis
  proof (cases "run status_step r b")
    case (More r')
    then have i: "status_inv r'" using status_run_inv [OF assms, of b] by simp
    then have "st_code r' \<le> 999" using lim [of "st_code r'" "st_count r'"] by (simp add: status_inv_def)
    then show ?thesis using More i
      by (simp add: ngx_http_parse_status_line_def mach_parse_def status_inv_def [of r'] ngx_rc_defs)
  next
    case (Halt l r' rest)
    then have i: "http_major r' \<le> 999" "http_minor r' \<le> 999" "st_code r' < 10 ^ st_count r'" "st_count r' \<le> 3"
        "l = Sdone \<longrightarrow> st_count r' = 3" using status_run_inv [OF assms, of b] by simp_all
    then have "st_code r' \<le> 999" using lim by blast
    then show ?thesis using Halt i
      by (cases l) (simp_all add: ngx_http_parse_status_line_def mach_parse_def ngx_rc_defs)
  qed
qed

theorem status_line_bounds_witness:
  "status_inv demo_status_req \<and> st_code (fst (snd (ngx_http_parse_status_line demo_status_req (bytes ''HTTP/1.1 20'')))) \<le> 999"
proof -
  have i: "status_inv demo_status_req" by (simp add: status_inv_def demo_status_req_def)
  then show ?thesis using status_line_bounds [OF i, of "bytes ''HTTP/1.1 20''"] by (auto split: prod.splits)
qed

end
