(* ===== verification/Http_Request_Theorems.thy ===== *)
theory Http_Request_Theorems
  imports Http_Request_Line Http_Header Http_Status
begin

text \<open>The properties of the request line parser, and that all three line parsers can be resumed.\<close>

section \<open>The parts of a request line\<close>

definition uri_char :: "u_char \<Rightarrow> bool" where
  "uri_char c \<longleftrightarrow> 0x20 < c \<and> c \<noteq> 0x7F"

lemma uri_char_simps:
  assumes "uri_char c"
  shows "c \<noteq> 0x20" "c \<noteq> CR" "c \<noteq> LF" "c \<noteq> 0x7F" "\<not> c < 0x20"
  using assms by (auto simp: uri_char_def word_less_def)

text \<open>A path the server may use as it is: no escapes, no empty or dot segments, and no fragment.\<close>

fun clean :: "bool \<Rightarrow> u_char list \<Rightarrow> bool" where
  "clean slash [] = True"
| "clean slash (c # cs) =
    (if c = 0x3F then 0x23 \<notin> set cs
     else c \<noteq> 0x25 \<and> c \<noteq> 0x23 \<and> \<not> (slash \<and> (c = 0x2F \<or> c = 0x2E)) \<and> clean (c = 0x2F) cs)"

lemma clean_weaken: "clean True u \<Longrightarrow> clean b u"
  by (cases u) (auto split: if_splits)

definition uri_states :: "request_state set" where
  "uri_states = {rsw_after_slash_in_uri, rsw_check_uri, rsw_uri}"

definition clean_from :: "request_state \<Rightarrow> u_char list \<Rightarrow> bool" where
  "clean_from st u \<longleftrightarrow> (if st = rsw_after_slash_in_uri then clean True u
    else if st = rsw_check_uri then clean False u else 0x23 \<notin> set u)"

text \<open>What the bytes of a URI leave alone.\<close>

definition uri_core :: "request_line \<Rightarrow> request_line" where
  "uri_core r = r\<lparr>rl_state := rsw_uri, complex_uri := False, quoted_uri := False, plus_in_uri := False,
     uri_ext := None, args_start := None, rl_seen := []\<rparr>"

definition uri_progress :: "request_line \<Rightarrow> u_char list \<Rightarrow> request_line \<Rightarrow> bool" where
  "uri_progress r u r' \<longleftrightarrow> uri_core r' = uri_core r \<and> rl_seen r' = rl_seen r @ u \<and> rl_state r' \<in> uri_states
    \<and> (complex_uri r \<longrightarrow> complex_uri r') \<and> (quoted_uri r \<longrightarrow> quoted_uri r')
    \<and> (\<not> complex_uri r' \<and> \<not> quoted_uri r' \<longrightarrow>
        (\<forall>w. clean_from (rl_state r') w \<longrightarrow> clean_from (rl_state r) (u @ w)))"

lemma uri_step:
  assumes "rl_state r \<in> uri_states" and "uri_char c"
  shows "\<exists>r'. request_step r c = Next r' \<and> uri_progress r [c] r'"
proof -
  note s = uri_char_simps [OF assms(2)]
  have stop: "uri_stop r c = None" using s by (simp add: uri_stop_def Let_def)
  have sw: "request_switch r c = switch_uri r c" using assms(1) by (auto simp: request_switch_def uri_states_def)
  consider "rl_state r = rsw_after_slash_in_uri" | "rl_state r = rsw_check_uri" | "rl_state r = rsw_uri"
    using assms(1) by (auto simp: uri_states_def)
  then show ?thesis
  proof cases
    case 1
    then show ?thesis using s stop sw not_usual clean_weaken
      by (auto simp: request_step_def switch_uri_def clean_from_def uri_states_def uri_progress_def uri_core_def)
  next
    case 2
    then show ?thesis using s stop sw not_usual
      by (auto simp: request_step_def switch_uri_def clean_from_def uri_states_def uri_progress_def uri_core_def)
  next
    case 3
    then show ?thesis using s stop sw not_usual
      by (auto simp: request_step_def switch_uri_def clean_from_def uri_states_def uri_progress_def uri_core_def)
  qed
qed

lemma uri_run:
  assumes "rl_state r \<in> uri_states" and "list_all uri_char u"
  shows "\<exists>r'. run request_step r (u @ rest) = run request_step r' rest \<and> uri_progress r u r'"
  using assms
proof (induction u arbitrary: r)
  case Nil
  then show ?case by (auto simp: uri_progress_def)
next
  case (Cons c u)
  then obtain r1 where r1: "request_step r c = Next r1" "uri_progress r [c] r1" using uri_step [of r c] by auto
  then have "rl_state r1 \<in> uri_states" "list_all uri_char u" using Cons.prems(2) by (auto simp: uri_progress_def)
  then obtain r' where r': "run request_step r1 (u @ rest) = run request_step r' rest" "uri_progress r1 u r'"
    using Cons.IH by blast
  have "uri_progress r (c # u) r'" using r1(2) r'(2) unfolding uri_progress_def by auto
  then show ?case using r1(1) r'(1) by auto
qed

lemma method_char_simps: "method_char c \<Longrightarrow> c \<noteq> 0x20 \<and> c \<noteq> CR \<and> c \<noteq> LF"
  by (auto simp: method_char_def)

lemma method_run:
  "rl_state r = rsw_method \<Longrightarrow> list_all method_char m \<Longrightarrow>
    run request_step r (m @ rest) = run request_step (r\<lparr>rl_seen := rl_seen r @ m\<rparr>) rest"
proof (induction m arbitrary: r)
  case (Cons c m)
  then have "request_step r c = Next (r\<lparr>rl_seen := rl_seen r @ [c]\<rparr>)"
    using method_char_simps [of c] by (auto simp: request_step_def request_switch_def switch_method_def)
  then show ?case using Cons by simp
qed simp

lemma version_run:
  assumes "rl_state r = rsw_http_09" and "is_digit d"
  shows "run request_step r (bytes ''HTTP/1.'' @ [d, CR, LF] @ rest)
    = Halt Rdone (r\<lparr>http_protocol := Some (rl_pos r), rl_major := 1, rl_minor := rdig d, rl_state := rsw_almost_done,
        request_end := Some (length (rl_seen r @ bytes ''HTTP/1.'' @ [d])), rl_seen := rl_seen r @ bytes ''HTTP/1.'' @ [d, CR]\<rparr>) (LF # rest)"
proof -
  have one: "rdig 0x31 = 1" by (simp add: rdig_def)
  show ?thesis
    using assms one by (simp add: bytes_def request_step_def request_switch_def switch_version_def must_def Let_def)
qed

definition request_uri :: "request_line \<Rightarrow> u_char list" where
  "request_uri r = take (the (uri_end r) - the (uri_start r)) (drop (the (uri_start r)) (rl_seen r))"

lemma request_line_run:
  assumes "rl_state r = rsw_start" and "m \<noteq> []" and "list_all method_char m" and "list_all uri_char u" and "is_digit d"
  shows "\<exists>r1. run request_step r (m @ [0x20, 0x2F] @ u @ [0x20] @ bytes ''HTTP/1.'' @ [d, CR, LF] @ rest) = Halt Rdone r1 (LF # rest)
    \<and> rl_seen r1 = rl_seen r @ m @ [0x20, 0x2F] @ u @ [0x20] @ bytes ''HTTP/1.'' @ [d, CR]
    \<and> rl_method r1 = method_of (rl_method r) m \<and> rl_major r1 = 1 \<and> rl_minor r1 = rdig d
    \<and> request_start r1 = rl_pos r \<and> uri_start r1 = Some (rl_pos r + length m + 1)
    \<and> uri_end r1 = Some (rl_pos r + length m + 2 + length u)
    \<and> (\<not> complex_uri r1 \<and> \<not> quoted_uri r1 \<longrightarrow> clean True u)"
proof -
  obtain c cs where m: "m = c # cs" using assms(2) by (cases m) auto
  have c: "method_char c" "list_all method_char cs" using assms(3) m by auto
  let ?r1 = "r\<lparr>request_start := rl_pos r, rl_state := rsw_method, rl_seen := rl_seen r @ [c]\<rparr>"
  let ?r2 = "?r1\<lparr>rl_seen := rl_seen r @ m\<rparr>"
  let ?r3 = "?r2\<lparr>method_end := rl_pos ?r2 - 1, rl_method := method_of (rl_method r) m, rl_state := rsw_spaces_before_uri, rl_seen := rl_seen ?r2 @ [0x20]\<rparr>"
  let ?r4 = "?r3\<lparr>uri_start := Some (rl_pos ?r3), rl_state := rsw_after_slash_in_uri, rl_seen := rl_seen ?r3 @ [0x2F]\<rparr>"
  have s1: "request_step r c = Next ?r1"
    using assms(1) c(1) method_char_simps [OF c(1)] by (simp add: request_step_def request_switch_def switch_method_def Let_def)
  have s3: "request_step ?r2 0x20 = Next ?r3" by (simp add: request_step_def request_switch_def switch_method_def)
  have s4: "request_step ?r3 0x2F = Next ?r4" by (simp add: request_step_def request_switch_def switch_host_def)
  let ?tail = "[0x20] @ bytes ''HTTP/1.'' @ [d, CR, LF] @ rest"
  obtain r5 where s5: "run request_step ?r4 (u @ ?tail) = run request_step r5 ?tail" and p: "uri_progress ?r4 u r5"
    using uri_run [of ?r4 u ?tail] assms(4) by (auto simp: uri_states_def)
  let ?r6 = "r5\<lparr>uri_end := Some (rl_pos r5), rl_state := rsw_http_09, rl_seen := rl_seen r5 @ [0x20]\<rparr>"
  have "rl_state r5 \<in> uri_states" using p by (simp add: uri_progress_def)
  then have s6: "request_step r5 0x20 = Next ?r6"
    by (auto simp: uri_states_def request_step_def request_switch_def switch_uri_def uri_stop_def Let_def)
  have "run request_step r (m @ [0x20, 0x2F] @ u @ ?tail) = run request_step ?r1 (cs @ [0x20, 0x2F] @ u @ ?tail)"
    by (simp only: m append_Cons run.simps s1 bstep.case)
  also have "\<dots> = run request_step ?r2 ([0x20, 0x2F] @ u @ ?tail)"
    using method_run [of ?r1 cs "[0x20, 0x2F] @ u @ ?tail"] c(2) m by simp
  also have "\<dots> = run request_step ?r4 (u @ ?tail)" by (simp only: append_Cons append_Nil run.simps s3 s4 bstep.case)
  also have "\<dots> = run request_step ?r6 (bytes ''HTTP/1.'' @ [d, CR, LF] @ rest)"
    unfolding s5 by (simp only: append_Cons append_Nil run.simps s6 bstep.case)
  also note version_run [OF _ assms(5), of ?r6 rest]
  finally have run: "run request_step r (m @ [0x20, 0x2F] @ u @ ?tail) = Halt Rdone (?r6\<lparr>http_protocol := Some (rl_pos ?r6), rl_major := 1,
      rl_minor := rdig d, rl_state := rsw_almost_done, request_end := Some (length (rl_seen ?r6 @ bytes ''HTTP/1.'' @ [d])),
      rl_seen := rl_seen ?r6 @ bytes ''HTTP/1.'' @ [d, CR]\<rparr>) (LF # rest)" by simp
  have core: "uri_core r5 = uri_core ?r4" "rl_seen r5 = rl_seen r @ m @ [0x20, 0x2F] @ u"
    and cl: "\<not> complex_uri r5 \<and> \<not> quoted_uri r5 \<Longrightarrow> clean True u"
  proof -
    show "uri_core r5 = uri_core ?r4" "rl_seen r5 = rl_seen r @ m @ [0x20, 0x2F] @ u" using p by (simp_all add: uri_progress_def)
    have "clean_from (rl_state r5) []" by (simp add: clean_from_def)
    then show "\<not> complex_uri r5 \<and> \<not> quoted_uri r5 \<Longrightarrow> clean True u"
      using p by (auto simp: uri_progress_def clean_from_def [of rsw_after_slash_in_uri])
  qed
  have f: "rl_method r5 = method_of (rl_method r) m" "request_start r5 = rl_pos r" "uri_start r5 = Some (rl_pos r + length m + 1)"
    using arg_cong [OF core(1), of rl_method] arg_cong [OF core(1), of request_start] arg_cong [OF core(1), of uri_start]
    by (simp_all add: uri_core_def)
  show ?thesis by (rule exI, intro conjI, rule run) (use f core(2) cl in simp_all)
qed

section \<open>Pointers\<close>






















section \<open>The method and the authority\<close>

definition no_authority :: "request_line \<Rightarrow> bool" where
  "no_authority r \<longleftrightarrow> schema_start r = None \<and> host_start r = None \<and> host_end r = None \<and> port_end r = None"

definition schema_ptrs :: "request_line \<Rightarrow> bool" where
  "schema_ptrs r \<longleftrightarrow> (case schema_start r of None \<Rightarrow> False | Some s \<Rightarrow> method_end r + 1 < s \<and> s < schema_end r)"

text \<open>The host starts three bytes after the end of the schema, and the port follows the host.\<close>

definition authority_ptrs :: "request_line \<Rightarrow> bool" where
  "authority_ptrs r \<longleftrightarrow> schema_ptrs r \<and> host_start r = Some (schema_end r + 3)
    \<and> (case host_end r of None \<Rightarrow> False
       | Some h \<Rightarrow> schema_end r + 3 \<le> h \<and> (case port_end r of None \<Rightarrow> True | Some q \<Rightarrow> h < q))"

definition front_end :: "request_line \<Rightarrow> nat" where
  "front_end r = (case port_end r of Some q \<Rightarrow> q | None \<Rightarrow> (case host_end r of Some h \<Rightarrow> h | None \<Rightarrow> method_end r + 2))"

text \<open>The path follows the authority, or is the first \<^verbatim>\<open>"/"\<close> after the schema when there is none.\<close>

definition path_place :: "request_line \<Rightarrow> bool" where
  "path_place r \<longleftrightarrow> (case uri_start r of None \<Rightarrow> False
     | Some a \<Rightarrow> front_end r \<le> a
        \<or> authority_ptrs r \<and> a = schema_end r + 1 \<and> uri_end r = Some (schema_end r + 2) \<and> args_start r = None)"

definition front_ptrs :: "request_line \<Rightarrow> nat \<Rightarrow> bool" where
  "front_ptrs r n \<longleftrightarrow> request_start r \<le> method_end r \<and> method_end r + 1 < n
    \<and> (no_authority r \<or> authority_ptrs r) \<and> front_end r \<le> n \<and> path_place r"












lemma front_frame [simp]:
  "front_ptrs (r\<lparr>rl_state := q\<rparr>) n = front_ptrs r n" "front_ptrs (r\<lparr>http_protocol := h\<rparr>) n = front_ptrs r n"
  "front_ptrs (r\<lparr>rl_major := x\<rparr>) n = front_ptrs r n" "front_ptrs (r\<lparr>rl_minor := y\<rparr>) n = front_ptrs r n"
  "front_ptrs (r\<lparr>request_end := e\<rparr>) n = front_ptrs r n" "front_ptrs (r\<lparr>rl_version := v\<rparr>) n = front_ptrs r n"
  "front_ptrs (r\<lparr>rl_seen := s\<rparr>) n = front_ptrs r n"
  by (simp_all add: front_ptrs_def path_place_def authority_ptrs_def schema_ptrs_def no_authority_def front_end_def
      split: option.split)





section \<open>The protocol and the end of the line\<close>













section \<open>The whole line\<close>







section \<open>Properties\<close>

definition demo_request_line :: request_line where
  "demo_request_line = \<lparr>rl_state = rsw_start, rl_method = NGX_HTTP_UNKNOWN, request_start = 0, method_end = 0, uri_start = None,
     uri_end = None, uri_ext = None, args_start = None, schema_start = None, schema_end = 0, host_start = None, host_end = None,
     port_end = None, http_protocol = None, request_end = None, complex_uri = False, quoted_uri = False, plus_in_uri = False,
     empty_path_in_uri = False, rl_major = 0, rl_minor = 0, rl_version = 0, rl_seen = []\<rparr>"

text \<open>C18: the request line, header line and status line parsers can be fed with any pieces of their input:
  the answer, the fields and the unread bytes are those of the input in one piece.  Every variable of
  the loops that is needed later is stored before \<^verbatim>\<open>NGX_AGAIN\<close> (the state and the position, and for header
  lines the hash and the index into \<^verbatim>\<open>lowcase_header\<close>).\<close>

theorem http_parsers_resumable:
  assumes "fs \<noteq> []"
  shows "same_answer request_err (\<lambda>v r. r) (feed ngx_http_parse_request_line NGX_AGAIN rl fs) (ngx_http_parse_request_line rl (concat fs))
    \<and> same_answer (\<lambda>v. v = NGX_HTTP_PARSE_INVALID_HEADER) header_obs
        (feed (ngx_http_parse_header_line allow) NGX_AGAIN rh fs) (ngx_http_parse_header_line allow rh (concat fs))
    \<and> same_answer (\<lambda>v. v = NGX_ERROR) (\<lambda>v r. r) (feed ngx_http_parse_status_line NGX_AGAIN rs fs) (ngx_http_parse_status_line rs (concat fs))"
  using request.feed_concat [OF TrueI assms] header.feed_concat [OF TrueI assms] status.feed_concat [OF TrueI assms] by blast

theorem http_parsers_resumable_witness:
  "same_answer request_err (\<lambda>v r. r)
    (feed ngx_http_parse_request_line NGX_AGAIN demo_request_line [bytes ''GE'', bytes ''T /a'', bytes '' HTTP/1.1'', [CR], [LF]])
    (ngx_http_parse_request_line demo_request_line (concat [bytes ''GE'', bytes ''T /a'', bytes '' HTTP/1.1'', [CR], [LF]]))"
  using http_parsers_resumable [of "[bytes ''GE'', bytes ''T /a'', bytes '' HTTP/1.1'', [CR], [LF]]" demo_request_line False demo_header_req demo_status_req]
  by blast

text \<open>C19: an HTTP/1.x request line with any method name and any path of visible bytes is accepted; the
  method is looked up by its name, the URI pointers delimit the target, and when neither \<^verbatim>\<open>complex_uri\<close>
  nor \<^verbatim>\<open>quoted_uri\<close> is set the path has no escape, no empty or dot segment and no fragment, so the
  server may use it as it is.\<close>

theorem request_line_parsed:
  assumes "rl_state r = rsw_start" and "m \<noteq> []" and "list_all method_char m" and "list_all uri_char u" and "is_digit d"
  shows "\<exists>r1. ngx_http_parse_request_line r (m @ [0x20, 0x2F] @ u @ [0x20] @ bytes ''HTTP/1.'' @ [d, CR, LF] @ rest) = (NGX_OK, r1, rest)
    \<and> rl_method r1 = method_of (rl_method r) m \<and> request_uri r1 = 0x2F # u \<and> rl_version r1 = 1000 + rdig d
    \<and> (\<not> complex_uri r1 \<and> \<not> quoted_uri r1 \<longrightarrow> clean True u)
    \<and> rl_seen r1 = rl_seen r @ m @ [0x20, 0x2F] @ u @ [0x20] @ bytes ''HTTP/1.'' @ [d, CR, LF]"
proof -
  obtain r1 where run: "run request_step r (m @ [0x20, 0x2F] @ u @ [0x20] @ bytes ''HTTP/1.'' @ [d, CR, LF] @ rest) = Halt Rdone r1 (LF # rest)"
    and f: "rl_seen r1 = rl_seen r @ m @ [0x20, 0x2F] @ u @ [0x20] @ bytes ''HTTP/1.'' @ [d, CR]"
      "rl_method r1 = method_of (rl_method r) m" "rl_major r1 = 1" "rl_minor r1 = rdig d"
      "uri_start r1 = Some (rl_pos r + length m + 1)" "uri_end r1 = Some (rl_pos r + length m + 2 + length u)"
      "\<not> complex_uri r1 \<and> \<not> quoted_uri r1 \<longrightarrow> clean True u"
    using request_line_run [OF assms, of rest] by blast
  let ?r = "r1\<lparr>request_end := (if request_end r1 = None then Some (rl_pos r1) else request_end r1),
                rl_version := rl_major r1 * 1000 + rl_minor r1, rl_state := rsw_start, rl_seen := rl_seen r1 @ [LF]\<rparr>"
  have "ngx_http_parse_request_line r (m @ [0x20, 0x2F] @ u @ [0x20] @ bytes ''HTTP/1.'' @ [d, CR, LF] @ rest) = (NGX_OK, ?r, rest)"
    unfolding ngx_http_parse_request_line_def mach_parse_def run using f(3) by (simp add: Let_def)
  moreover have "request_uri ?r = 0x2F # u" using f(1,5,6) by (simp add: request_uri_def)
  ultimately show ?thesis using f by (intro exI [of _ ?r]) auto
qed

theorem request_line_parsed_witness:
  "\<exists>r1. ngx_http_parse_request_line demo_request_line (bytes ''POST'' @ [0x20, 0x2F] @ bytes ''a/b?x=1'' @ [0x20] @ bytes ''HTTP/1.'' @ [0x31, CR, LF] @ []) = (NGX_OK, r1, [])
    \<and> rl_method r1 = NGX_HTTP_POST \<and> request_uri r1 = 0x2F # bytes ''a/b?x=1'' \<and> rl_version r1 = 1001"
proof -
  have c: "list_all method_char (bytes ''POST'')" "list_all uri_char (bytes ''a/b?x=1'')" "bytes ''POST'' \<noteq> []"
    "method_of NGX_HTTP_UNKNOWN (bytes ''POST'') = NGX_HTTP_POST" "is_digit 0x31" "rdig 0x31 = 1" by code_simp+
  have "rl_state demo_request_line = rsw_start" "rl_method demo_request_line = NGX_HTTP_UNKNOWN" by (simp_all add: demo_request_line_def)
  then show ?thesis
    using request_line_parsed [OF _ c(3,1,2,5), of demo_request_line "[]"] c(4,6) by auto
qed



end
