(* ===== verification/Http_Uri.thy ===== *)
theory Http_Uri
  imports Http_Request_Line
begin

text \<open>
  The normalisation of a request target: \<^verbatim>\<open>ngx_http_parse_uri\<close> and \<^verbatim>\<open>ngx_http_parse_complex_uri\<close> of
  \<^verbatim>\<open>src/http/ngx_http_parse.c\<close> (without the \<^verbatim>\<open>NGX_WIN32\<close> branches).  \<open>cu_out\<close> holds the bytes that
  were written from \<^verbatim>\<open>r->uri.data\<close> to \<^verbatim>\<open>u\<close>; the input is the list from the current byte \<^verbatim>\<open>ch\<close> to
  \<^verbatim>\<open>r->uri_end\<close>, so that \<open>[]\<close> is the end of the loop.
\<close>

section \<open>The state of the parser\<close>

datatype uri_state = usw_usual | usw_slash | usw_dot | usw_dot_dot | usw_quoted | usw_quoted_second

record complex_req =
  cu_state :: uri_state
  cu_quoted_state :: uri_state
  cu_decoded :: u_char
  cu_out :: "u_char list"
  cu_ext :: "nat option"
  cu_args_start :: "u_char list option"
  cu_args :: "u_char list option"
  cu_exten :: "u_char list option"
  cu_plus :: bool
  cu_quoted :: bool

text \<open>How an iteration ends: with the next one, at a label, or with
  \<^verbatim>\<open>NGX_HTTP_PARSE_INVALID_REQUEST\<close>.\<close>

datatype uri_exit = Uloop complex_req "u_char list" | Uargs complex_req "u_char list" | Udone complex_req | Uinvalid complex_req

abbreviation put :: "u_char \<Rightarrow> complex_req \<Rightarrow> complex_req" where
  "put c r \<equiv> r\<lparr>cu_out := cu_out r @ [c]\<rparr>"

abbreviation unput :: "complex_req \<Rightarrow> complex_req" where
  "unput r \<equiv> r\<lparr>cu_out := butlast (cu_out r)\<rparr>"

abbreviation ust :: "uri_state \<Rightarrow> complex_req \<Rightarrow> complex_req" where
  "ust s r \<equiv> r\<lparr>cu_state := s\<rparr>"

text \<open>\<^verbatim>\<open>u -= 4\<close> and the loop back to the previous slash, which is kept; \<open>None\<close> when \<^verbatim>\<open>u\<close> runs before the
  data.\<close>

definition back_up :: "u_char list \<Rightarrow> u_char list option" where
  "back_up out =
    (let q = dropWhile (\<lambda>c. c \<noteq> 0x2F) (rev (take (length out - 3) out))
     in if q = [] then None else Some (rev q))"

text \<open>The cases that the states share: \<open>+\<close> and the ordinary bytes.\<close>

definition ordinary :: "complex_req \<Rightarrow> u_char \<Rightarrow> complex_req" where
  "ordinary r ch = put ch (ust usw_usual (if ch = 0x2B then r\<lparr>cu_plus := True\<rparr> else r))"

definition quoted_start :: "complex_req \<Rightarrow> complex_req" where
  "quoted_start r = r\<lparr>cu_quoted_state := cu_state r, cu_state := usw_quoted\<rparr>"

definition in_usual :: "complex_req \<Rightarrow> u_char \<Rightarrow> u_char list \<Rightarrow> uri_exit" where
  "in_usual r ch p =
    (if is_usual ch then Uloop (put ch r) p
     else if ch = 0x2F then Uloop (put ch (r\<lparr>cu_ext := None, cu_state := usw_slash\<rparr>)) p
     else if ch = 0x25 then Uloop (quoted_start r) p
     else if ch = 0x3F then Uargs (r\<lparr>cu_args_start := Some p\<rparr>) p
     else if ch = 0x23 then Udone r
     else if ch = 0x2E then Uloop (put ch (r\<lparr>cu_ext := Some (length (cu_out r) + 1)\<rparr>)) p
     else Uloop (ordinary r ch) p)"

definition in_slash :: "bool \<Rightarrow> complex_req \<Rightarrow> u_char \<Rightarrow> u_char list \<Rightarrow> uri_exit" where
  "in_slash merge_slashes r ch p =
    (if is_usual ch then Uloop (put ch (ust usw_usual r)) p
     else if ch = 0x2F then Uloop (if merge_slashes then r else put ch r) p
     else if ch = 0x2E then Uloop (put ch (ust usw_dot r)) p
     else if ch = 0x25 then Uloop (quoted_start r) p
     else if ch = 0x3F then Uargs (r\<lparr>cu_args_start := Some p\<rparr>) p
     else if ch = 0x23 then Udone r
     else Uloop (ordinary r ch) p)"

definition in_dot :: "complex_req \<Rightarrow> u_char \<Rightarrow> u_char list \<Rightarrow> uri_exit" where
  "in_dot r ch p =
    (if is_usual ch then Uloop (put ch (ust usw_usual r)) p
     else if ch = 0x2F then Uloop (unput (ust usw_slash r)) p
     else if ch = 0x2E then Uloop (put ch (ust usw_dot_dot r)) p
     else if ch = 0x25 then Uloop (quoted_start r) p
     else if ch = 0x3F then Uargs ((unput r)\<lparr>cu_args_start := Some p\<rparr>) p
     else if ch = 0x23 then Udone (unput r)
     else Uloop (ordinary r ch) p)"

definition in_dot_dot :: "complex_req \<Rightarrow> u_char \<Rightarrow> u_char list \<Rightarrow> uri_exit" where
  "in_dot_dot r ch p =
    (if is_usual ch then Uloop (put ch (ust usw_usual r)) p
     else if ch = 0x2F \<or> ch = 0x3F \<or> ch = 0x23 then
       case back_up (cu_out r) of
         None \<Rightarrow> Uinvalid r
       | Some out \<Rightarrow>
           let r1 = r\<lparr>cu_out := out\<rparr>
           in if ch = 0x3F then Uargs (r1\<lparr>cu_args_start := Some p\<rparr>) p
              else if ch = 0x23 then Udone r1
              else Uloop (ust usw_slash r1) p
     else if ch = 0x25 then Uloop (quoted_start r) p
     else Uloop (ordinary r ch) p)"

definition in_quoted :: "complex_req \<Rightarrow> u_char \<Rightarrow> u_char list \<Rightarrow> uri_exit" where
  "in_quoted r0 ch p =
    (let r = r0\<lparr>cu_quoted := True\<rparr>
     in case hex_val ch of
          Some d \<Rightarrow> Uloop (r\<lparr>cu_decoded := of_int d, cu_state := usw_quoted_second\<rparr>) p
        | None \<Rightarrow> Uinvalid r)"

text \<open>The decoded byte is handled in the state before the escape, except for the bytes that would be
  taken for syntax.\<close>

definition in_quoted_second :: "complex_req \<Rightarrow> u_char \<Rightarrow> u_char list \<Rightarrow> uri_exit" where
  "in_quoted_second r ch p =
    (case hex_val ch of
       None \<Rightarrow> Uinvalid r
     | Some d \<Rightarrow>
         let c = push_bit 4 (cu_decoded r) + of_int d
         in if is_digit ch then
              if c = 0x25 \<or> c = 0x23 then Uloop (put c (ust usw_usual r)) p
              else if c = 0 then Uinvalid r
              else Uloop (ust (cu_quoted_state r) r) (c # p)
            else
              if c = 0x3F then Uloop (put c (ust usw_usual r)) p
              else Uloop (ust (cu_quoted_state r) (if c = 0x2B then r\<lparr>cu_plus := True\<rparr> else r)) (c # p))"

fun complex_step :: "bool \<Rightarrow> complex_req \<Rightarrow> u_char \<Rightarrow> u_char list \<Rightarrow> uri_exit" where
  "complex_step merge_slashes r ch p =
    (case cu_state r of
       usw_usual \<Rightarrow> in_usual r ch p
     | usw_slash \<Rightarrow> in_slash merge_slashes r ch p
     | usw_dot \<Rightarrow> in_dot r ch p
     | usw_dot_dot \<Rightarrow> in_dot_dot r ch p
     | usw_quoted \<Rightarrow> in_quoted r ch p
     | usw_quoted_second \<Rightarrow> in_quoted_second r ch p)"

section \<open>The loop\<close>

text \<open>An escape is read twice, as two digits and as the byte it stands for.\<close>

definition uri_weight :: "complex_req \<Rightarrow> nat" where
  "uri_weight r = (if cu_state r = usw_quoted_second then 1 else 0)"

definition quoted_ok :: "complex_req \<Rightarrow> bool" where
  "quoted_ok r \<longleftrightarrow> cu_quoted_state r \<notin> {usw_quoted, usw_quoted_second}"

lemmas uri_step_defs = in_usual_def in_slash_def in_dot_def in_dot_dot_def in_quoted_def in_quoted_second_def
  ordinary_def quoted_start_def Let_def

lemma uri_step_quoted_ok:
  "quoted_ok r \<Longrightarrow> complex_step m r ch p = Uloop r' q \<Longrightarrow> quoted_ok r'"
  by (cases "cu_state r") (auto simp: quoted_ok_def uri_step_defs split: if_splits option.splits)

lemma uri_step_measure:
  assumes "quoted_ok r" and "complex_step m r ch p = Uloop r' q"
  shows "2 * length q + uri_weight r' < 2 * length (ch # p) + uri_weight r"
  using assms
  by (cases "cu_state r") (auto simp: quoted_ok_def uri_weight_def uri_step_defs split: if_splits option.splits)

text \<open>The \<^verbatim>\<open>while\<close> loop; \<open>None\<close> would be a loop that never ends.\<close>

partial_function (option) uri_loop :: "bool \<Rightarrow> complex_req \<Rightarrow> u_char list \<Rightarrow> uri_exit option" where
  "uri_loop merge_slashes r xs =
    (case xs of
       [] \<Rightarrow> Some (Uloop r [])
     | ch # p \<Rightarrow>
         (case complex_step merge_slashes r ch p of
            Uloop r' q \<Rightarrow> uri_loop merge_slashes r' q
          | e \<Rightarrow> Some e))"

declare uri_loop.simps [code]

text \<open>The code after the loop.\<close>

definition uri_after_loop :: "complex_req \<Rightarrow> uri_exit" where
  "uri_after_loop r =
    (if cu_state r = usw_quoted \<or> cu_state r = usw_quoted_second then Uinvalid r
     else if cu_state r = usw_dot then Udone (unput r)
     else if cu_state r = usw_dot_dot then
       (case back_up (cu_out r) of None \<Rightarrow> Uinvalid r | Some out \<Rightarrow> Udone (r\<lparr>cu_out := out\<rparr>))
     else Udone r)"

text \<open>The labels \<^verbatim>\<open>done\<close> and \<^verbatim>\<open>args\<close>.\<close>

definition set_exten :: "complex_req \<Rightarrow> complex_req" where
  "set_exten r = r\<lparr>cu_exten := (case cu_ext r of None \<Rightarrow> cu_exten r | Some e \<Rightarrow> Some (drop e (cu_out r))), cu_ext := None\<rparr>"

definition set_args :: "complex_req \<Rightarrow> u_char list \<Rightarrow> complex_req" where
  "set_args r p = (if 0x23 \<in> set p then r\<lparr>cu_args := Some (takeWhile (\<lambda>c. c \<noteq> 0x23) p), cu_args_start := None\<rparr> else r)"

fun uri_finish :: "uri_exit \<Rightarrow> int \<times> complex_req" where
  "uri_finish (Uloop r xs) = (case uri_after_loop r of Udone r' \<Rightarrow> (NGX_OK, set_exten r') | _ \<Rightarrow> (NGX_HTTP_PARSE_INVALID_REQUEST, r))"
| "uri_finish (Uargs r p) = (NGX_OK, set_exten (set_args r p))"
| "uri_finish (Udone r) = (NGX_OK, set_exten r)"
| "uri_finish (Uinvalid r) = (NGX_HTTP_PARSE_INVALID_REQUEST, r)"

definition uri_init :: "bool \<Rightarrow> complex_req \<Rightarrow> complex_req" where
  "uri_init empty_path r = r\<lparr>cu_state := usw_usual, cu_quoted_state := usw_usual, cu_decoded := 0, cu_ext := None,
     cu_args_start := None, cu_out := (if empty_path then [0x2F] else [])\<rparr>"

definition ngx_http_parse_complex_uri :: "bool \<Rightarrow> bool \<Rightarrow> complex_req \<Rightarrow> u_char list \<Rightarrow> (int \<times> complex_req) option" where
  "ngx_http_parse_complex_uri merge_slashes empty_path r uri =
    map_option uri_finish (uri_loop merge_slashes (uri_init empty_path r) uri)"

section \<open>Segments\<close>

fun segments :: "u_char list \<Rightarrow> u_char list list" where
  "segments [] = [[]]"
| "segments (c # cs) =
    (if c = 0x2F then [] # segments cs
     else case segments cs of s # ss \<Rightarrow> (c # s) # ss | [] \<Rightarrow> [[c]])"

lemma segments_ne [simp]: "segments xs \<noteq> []"
  by (cases xs) (auto split: list.split)

lemma segments_slash: "segments (xs @ 0x2F # ys) = segments xs @ segments ys"
proof (induction xs)
  case (Cons c xs)
  then show ?case by (cases "segments xs") auto
qed simp

lemma segments_single: "0x2F \<notin> set s \<Longrightarrow> segments s = [s]"
  by (induction s) auto

definition dot_seg :: "u_char list \<Rightarrow> bool" where
  "dot_seg s \<longleftrightarrow> s = [0x2E] \<or> s = [0x2E, 0x2E]"

text \<open>A directory: starts and ends with a slash, and its segments are real names (with
  \<^verbatim>\<open>merge_slashes\<close> not empty either).\<close>

definition seg_ok :: "bool \<Rightarrow> u_char list \<Rightarrow> bool" where
  "seg_ok m s \<longleftrightarrow> \<not> dot_seg s \<and> (m \<longrightarrow> s \<noteq> [])"

definition good_dir :: "bool \<Rightarrow> u_char list \<Rightarrow> bool" where
  "good_dir m d \<longleftrightarrow> (\<exists>q. d = q @ [0x2F] \<and> hd d = 0x2F \<and> list_all (seg_ok m) (tl (segments q)))"

lemma good_dir_root: "good_dir m [0x2F]"
  by (auto simp: good_dir_def)

lemma good_dir_snoc:
  assumes "good_dir m d" and "seg_ok m s" and "0x2F \<notin> set s"
  shows "good_dir m (d @ s @ [0x2F])"
proof -
  obtain q where q: "d = q @ [0x2F]" "hd d = 0x2F" "list_all (seg_ok m) (tl (segments q))"
    using assms(1) by (auto simp: good_dir_def)
  have "segments (d @ s) = segments q @ [s]" using q(1) assms(3) by (simp add: segments_slash segments_single)
  then have "list_all (seg_ok m) (tl (segments (d @ s)))" using q(3) assms(2) by simp
  moreover have "hd (d @ s @ [0x2F]) = 0x2F" using q(1,2) by (cases q) auto
  ultimately show ?thesis by (auto simp: good_dir_def intro!: exI [of _ "d @ s"])
qed

lemma back_up_good:
  assumes "good_dir m d" and "back_up (d @ [0x2E, 0x2E]) = Some out"
  shows "good_dir m out \<and> length out \<le> length d \<and> set out \<subseteq> set d"
proof -
  obtain q where q: "d = q @ [0x2F]" "hd d = 0x2F" "list_all (seg_ok m) (tl (segments q))"
    using assms(1) by (auto simp: good_dir_def)
  define w where "w = dropWhile (\<lambda>c. c \<noteq> 0x2F) (rev q)"
  define s where "s = rev (takeWhile (\<lambda>c. c \<noteq> 0x2F) (rev q))"
  have out: "out = rev w" "w \<noteq> []" using assms(2) q(1) by (auto simp: back_up_def Let_def w_def split: if_splits)
  have sq: "q = rev w @ s"
  proof -
    have "rev q = takeWhile (\<lambda>c. c \<noteq> 0x2F) (rev q) @ w" by (simp add: w_def)
    then show ?thesis by (metis rev_append rev_rev_ident s_def)
  qed
  have "hd w = 0x2F" using out(2) hd_dropWhile [of "\<lambda>c. c \<noteq> 0x2F" "rev q"] by (simp add: w_def)
  then obtain w' where w': "w = 0x2F # w'" using out(2) by (cases w) auto
  have "0x2F \<notin> set s" unfolding s_def using set_takeWhileD by fastforce
  then have "segments q = segments (rev w') @ [s]" using sq w' by (simp add: segments_slash segments_single)
  then have "list_all (seg_ok m) (tl (segments (rev w')))" using q(3) by simp
  moreover have "hd (rev w) = 0x2F" using q(1,2) sq out(2) by (metis Nil_is_append_conv append_self_conv2 hd_append2 rev_is_Nil_conv)
  ultimately have "good_dir m out" unfolding good_dir_def using out(1) w' by auto
  moreover have "length out \<le> length d" "set out \<subseteq> set d" using q(1) sq out(1) by auto
  ultimately show ?thesis by blast
qed

section \<open>The invariant of the loop\<close>

text \<open>What is written is a directory and a part of a segment, as the state says.\<close>

fun seg_state :: "uri_state \<Rightarrow> u_char list \<Rightarrow> bool" where
  "seg_state usw_usual s = (s \<noteq> [] \<and> \<not> dot_seg s)"
| "seg_state usw_slash s = (s = [])"
| "seg_state usw_dot s = (s = [0x2E])"
| "seg_state usw_dot_dot s = (s = [0x2E, 0x2E])"
| "seg_state _ s = False"

definition path_inv :: "bool \<Rightarrow> uri_state \<Rightarrow> u_char list \<Rightarrow> bool" where
  "path_inv m st out \<longleftrightarrow> (\<exists>d s. out = d @ s \<and> good_dir m d \<and> 0x2F \<notin> set s \<and> seg_state st s)"

definition path_final :: "bool \<Rightarrow> u_char list \<Rightarrow> bool" where
  "path_final m out \<longleftrightarrow> (\<exists>d s. out = d @ s \<and> good_dir m d \<and> 0x2F \<notin> set s \<and> \<not> dot_seg s)"

definition eff_state :: "complex_req \<Rightarrow> uri_state" where
  "eff_state r = (if cu_state r = usw_quoted \<or> cu_state r = usw_quoted_second then cu_quoted_state r else cu_state r)"

lemma path_invI: "good_dir m d \<Longrightarrow> 0x2F \<notin> set s \<Longrightarrow> seg_state st s \<Longrightarrow> path_inv m st (d @ s)"
  by (auto simp: path_inv_def)

lemma path_put:
  assumes "path_inv m st out" and "c \<noteq> 0x2F" and "c \<noteq> 0x2E \<or> st = usw_usual \<or> st = usw_dot_dot"
  shows "path_inv m usw_usual (out @ [c])"
proof -
  obtain d s where o: "out = d @ s" "good_dir m d" "0x2F \<notin> set s" "seg_state st s" using assms(1) by (auto simp: path_inv_def)
  have "seg_state usw_usual (s @ [c])"
    using o(4) assms(3) by (cases st) (auto simp: dot_seg_def append_eq_Cons_conv)
  then show ?thesis using o assms(2) path_invI [of m d "s @ [c]" usw_usual] by simp
qed

lemma path_slash:
  assumes "path_inv m usw_usual out"
  shows "path_inv m usw_slash (out @ [0x2F])"
proof -
  obtain d s where o: "out = d @ s" "good_dir m d" "0x2F \<notin> set s" "seg_state usw_usual s" using assms by (auto simp: path_inv_def)
  then show ?thesis using path_invI [OF good_dir_snoc [OF o(2) _ o(3)], of "[]" usw_slash] by (simp add: seg_ok_def)
qed

lemma path_slash_again: "path_inv False usw_slash out \<Longrightarrow> path_inv False usw_slash (out @ [0x2F])"
  using good_dir_snoc [of False _ "[]"] by (fastforce simp: path_inv_def seg_ok_def dot_seg_def)

lemma path_dots:
  "path_inv m usw_slash out \<Longrightarrow> path_inv m usw_dot (out @ [0x2E])"
  "path_inv m usw_dot out \<Longrightarrow> path_inv m usw_dot_dot (out @ [0x2E])"
  "path_inv m usw_dot out \<Longrightarrow> path_inv m usw_slash (butlast out)"
  by (auto simp: path_inv_def butlast_append)

lemma path_back:
  assumes "path_inv m usw_dot_dot out" and "back_up out = Some out'"
  shows "path_inv m usw_slash out'" and "length out' \<le> length out" and "set out' \<subseteq> set out"
proof -
  obtain d where "out = d @ [0x2E, 0x2E]" "good_dir m d" using assms(1) by (auto simp: path_inv_def)
  then show "path_inv m usw_slash out'" "length out' \<le> length out" "set out' \<subseteq> set out"
    using back_up_good [of m d out'] assms(2) path_invI [of m out' "[]" usw_slash] by auto
qed

lemma path_finals:
  "path_inv m usw_usual out \<Longrightarrow> path_final m out" "path_inv m usw_slash out \<Longrightarrow> path_final m out"
proof -
  show "path_inv m usw_usual out \<Longrightarrow> path_final m out" by (auto simp: path_inv_def path_final_def)
  show "path_inv m usw_slash out \<Longrightarrow> path_final m out"
    unfolding path_inv_def path_final_def by (metis dot_seg_def list.distinct(1) seg_state.simps(2))
qed

text \<open>The bytes before the first question mark.\<close>

abbreviation path_part :: "u_char list \<Rightarrow> u_char list" where
  "path_part xs \<equiv> takeWhile (\<lambda>c. c \<noteq> 0x3F) xs"

definition bytes_ok :: "nat \<Rightarrow> u_char list \<Rightarrow> u_char list \<Rightarrow> bool" where
  "bytes_ok N out xs \<longleftrightarrow> length out + length (path_part xs) \<le> N \<and> 0 \<notin> set out \<and> 0 \<notin> set xs"

definition uri_inv :: "bool \<Rightarrow> nat \<Rightarrow> complex_req \<Rightarrow> u_char list \<Rightarrow> bool" where
  "uri_inv m N r xs \<longleftrightarrow> quoted_ok r \<and> path_inv m (eff_state r) (cu_out r) \<and> bytes_ok N (cu_out r) xs"

definition exit_ok :: "bool \<Rightarrow> nat \<Rightarrow> uri_exit \<Rightarrow> bool" where
  "exit_ok m N e = (case e of
     Uloop r xs \<Rightarrow> uri_inv m N r xs
   | Uargs r xs \<Rightarrow> path_final m (cu_out r) \<and> bytes_ok N (cu_out r) []
   | Udone r \<Rightarrow> path_final m (cu_out r) \<and> bytes_ok N (cu_out r) []
   | Uinvalid r \<Rightarrow> True)"

lemma bytes_ok_moves:
  assumes "bytes_ok N out (c # p)"
  shows "c \<noteq> 0x3F \<Longrightarrow> bytes_ok N (out @ [c]) p" "c \<noteq> 0x3F \<Longrightarrow> bytes_ok N out p" "bytes_ok N out []"
    "c \<noteq> 0x3F \<Longrightarrow> bytes_ok N (butlast out) p" "bytes_ok N (butlast out) []"
    "c \<noteq> 0x3F \<Longrightarrow> a \<noteq> 0 \<Longrightarrow> bytes_ok N (out @ [a]) p"
    "c \<noteq> 0x3F \<Longrightarrow> a \<noteq> 0 \<Longrightarrow> a \<noteq> 0x3F \<Longrightarrow> bytes_ok N out (a # p)"
    "c \<noteq> 0x3F \<Longrightarrow> length out' \<le> length out \<Longrightarrow> set out' \<subseteq> set out \<Longrightarrow> bytes_ok N out' p"
    "length out' \<le> length out \<Longrightarrow> set out' \<subseteq> set out \<Longrightarrow> bytes_ok N out' []"
  using assms by (auto simp: bytes_ok_def dest: in_set_butlastD)

lemma in_usual_ok:
  assumes "uri_inv m N r (ch # p)" and "cu_state r = usw_usual"
  shows "exit_ok m N (in_usual r ch p)"
proof -
  have i: "quoted_ok r" "path_inv m usw_usual (cu_out r)" "bytes_ok N (cu_out r) (ch # p)"
    using assms by (auto simp: uri_inv_def eff_state_def)
  show ?thesis
    using i assms(2) path_put [OF i(2), of ch] path_slash [OF i(2)] path_finals(1) [OF i(2)] bytes_ok_moves [OF i(3)] not_usual
    by (auto simp: exit_ok_def in_usual_def uri_inv_def eff_state_def quoted_ok_def ordinary_def quoted_start_def)
qed

lemma in_slash_ok:
  assumes "uri_inv m N r (ch # p)" and "cu_state r = usw_slash"
  shows "exit_ok m N (in_slash m r ch p)"
proof -
  have i: "quoted_ok r" "path_inv m usw_slash (cu_out r)" "bytes_ok N (cu_out r) (ch # p)"
    using assms by (auto simp: uri_inv_def eff_state_def)
  show ?thesis
    using i assms(2) path_put [OF i(2), of ch] path_slash_again path_dots(1) [OF i(2)] path_finals(2) [OF i(2)] bytes_ok_moves [OF i(3)] not_usual
    by (auto simp: exit_ok_def in_slash_def uri_inv_def eff_state_def quoted_ok_def ordinary_def quoted_start_def)
qed

lemma in_dot_ok:
  assumes "uri_inv m N r (ch # p)" and "cu_state r = usw_dot"
  shows "exit_ok m N (in_dot r ch p)"
proof -
  have i: "quoted_ok r" "path_inv m usw_dot (cu_out r)" "bytes_ok N (cu_out r) (ch # p)"
    using assms by (auto simp: uri_inv_def eff_state_def)
  show ?thesis
    using i assms(2) path_put [OF i(2), of ch] path_dots(2,3) [OF i(2)] path_finals(2) [of m "butlast (cu_out r)"] bytes_ok_moves [OF i(3)] not_usual
    by (auto simp: exit_ok_def in_dot_def uri_inv_def eff_state_def quoted_ok_def ordinary_def quoted_start_def)
qed

lemma in_dot_dot_ok:
  assumes "uri_inv m N r (ch # p)" and "cu_state r = usw_dot_dot"
  shows "exit_ok m N (in_dot_dot r ch p)"
proof -
  have i: "quoted_ok r" "path_inv m usw_dot_dot (cu_out r)" "bytes_ok N (cu_out r) (ch # p)"
    using assms by (auto simp: uri_inv_def eff_state_def)
  show ?thesis
  proof (cases "back_up (cu_out r)")
    case None
    then show ?thesis using i assms(2) path_put [OF i(2), of ch] bytes_ok_moves [OF i(3)] not_usual
      by (auto simp: exit_ok_def in_dot_dot_def uri_inv_def eff_state_def quoted_ok_def ordinary_def quoted_start_def)
  next
    case (Some out)
    note b = path_back [OF i(2) Some]
    then show ?thesis using Some i assms(2) path_put [OF i(2), of ch] bytes_ok_moves [OF i(3)] path_finals(2) [OF b(1)] not_usual
      by (auto simp: exit_ok_def in_dot_dot_def uri_inv_def eff_state_def quoted_ok_def ordinary_def quoted_start_def Let_def)
  qed
qed

lemma hex_not_query: "hex_val ch = Some d \<Longrightarrow> ch \<noteq> 0x3F"
  by (auto simp: hex_val_def is_digit_uint Let_def)

lemma in_quoted_ok:
  assumes "uri_inv m N r (ch # p)" and "cu_state r = usw_quoted"
  shows "exit_ok m N (in_quoted r ch p)"
  using assms bytes_ok_moves(2) [of N "cu_out r" ch p] hex_not_query [of ch]
  by (auto simp: exit_ok_def in_quoted_def uri_inv_def eff_state_def quoted_ok_def Let_def split: option.split)

lemma hex_val_range: "hex_val c = Some d \<Longrightarrow> 0 \<le> d \<and> d \<le> 15 \<and> (\<not> is_digit c \<longrightarrow> 10 \<le> d) \<and> (is_digit c \<longrightarrow> d \<le> 9)"
  by (auto simp: hex_val_def Let_def is_digit_uint word_le_def split: if_splits)

text \<open>The low four bits of the decoded byte are the second digit.\<close>

lemma decoded_mod: "0 \<le> d \<Longrightarrow> d \<le> 15 \<Longrightarrow> uint (push_bit 4 (x :: u_char) + of_int d) mod 16 = d"
proof -
  assume d: "0 \<le> d" "d \<le> 15"
  have "push_bit 4 x + of_int d = (of_int (16 * uint x + d) :: u_char)" by (simp add: push_bit_eq_mult mult.commute)
  then have "uint (push_bit 4 x + of_int d) = (16 * uint x + d) mod 256"
    by (simp only: unsigned_of_int take_bit_eq_mod) simp
  then have "uint (push_bit 4 x + of_int d) mod 16 = (16 * uint x + d) mod 16" by (simp add: mod_mod_cancel)
  then show ?thesis using d by simp
qed

lemma decoded_nonzero:
  assumes "hex_val ch = Some d" and "\<not> is_digit ch"
  shows "push_bit 4 (x :: u_char) + of_int d \<noteq> 0"
proof
  assume "push_bit 4 x + of_int d = 0"
  then have "uint (push_bit 4 x + of_int d) = 0" by (simp only: unsigned_0)
  then show False using decoded_mod [of d x] hex_val_range [OF assms(1)] assms(2) by auto
qed

lemma decoded_not_query:
  assumes "hex_val ch = Some d" and "is_digit ch"
  shows "push_bit 4 (x :: u_char) + of_int d \<noteq> 0x3F"
proof
  assume "push_bit 4 x + of_int d = 0x3F"
  then have "uint (push_bit 4 x + of_int d) = 63" by (simp only: uint_numeral) simp
  then show False using decoded_mod [of d x] hex_val_range [OF assms(1)] assms(2) by auto
qed

lemma in_quoted_second_ok:
  assumes "uri_inv m N r (ch # p)" and "cu_state r = usw_quoted_second"
  shows "exit_ok m N (in_quoted_second r ch p)"
proof (cases "hex_val ch")
  case None
  then show ?thesis by (simp add: exit_ok_def in_quoted_second_def)
next
  case (Some d)
  have i: "quoted_ok r" "path_inv m (cu_quoted_state r) (cu_out r)" "bytes_ok N (cu_out r) (ch # p)"
    using assms by (auto simp: uri_inv_def eff_state_def)
  have put: "path_inv m usw_usual (cu_out r @ [a])" if "a = 0x25 \<or> a = 0x23 \<or> a = 0x3F" for a
    using path_put [OF i(2), of a] that by auto
  have nz: "\<not> is_digit ch \<Longrightarrow> push_bit 4 (cu_decoded r) + of_int d \<noteq> 0" using decoded_nonzero [OF Some] by blast
  note b = bytes_ok_moves(6,7) [OF i(3) hex_not_query [OF Some]]
  have nq: "is_digit ch \<Longrightarrow> push_bit 4 (cu_decoded r) + of_int d \<noteq> 0x3F" using decoded_not_query [OF Some] by blast
  show ?thesis
    unfolding in_quoted_second_def Some option.case Let_def
    using i put nz nq b assms(2) by (auto simp: exit_ok_def uri_inv_def eff_state_def quoted_ok_def)
qed

lemma uri_step_ok: "uri_inv m N r (ch # p) \<Longrightarrow> exit_ok m N (complex_step m r ch p)"
  by (cases "cu_state r")
    (simp_all add: in_usual_ok in_slash_ok in_dot_ok in_dot_dot_ok in_quoted_ok in_quoted_second_ok)

declare complex_step.simps [simp del]

definition loop_ok :: "bool \<Rightarrow> nat \<Rightarrow> uri_exit option \<Rightarrow> bool" where
  "loop_ok m N res \<longleftrightarrow> (\<exists>e. res = Some e \<and> exit_ok m N e \<and> (\<forall>r' ys. e = Uloop r' ys \<longrightarrow> ys = []))"

lemma uri_loop_Cons:
  assumes "exit_ok m N (complex_step m r ch p)"
    and "\<And>r' q. complex_step m r ch p = Uloop r' q \<Longrightarrow> loop_ok m N (uri_loop m r' q)"
  shows "loop_ok m N (uri_loop m r (ch # p))"
  using assms by (cases "complex_step m r ch p") (simp_all add: uri_loop.simps [of m r "ch # p"] loop_ok_def)

lemma uri_loop_ok: "uri_inv m N r xs \<Longrightarrow> loop_ok m N (uri_loop m r xs)"
proof (induction "2 * length xs + uri_weight r" arbitrary: r xs rule: less_induct)
  case less
  show ?case
  proof (cases xs)
    case Nil
    then show ?thesis using less.prems by (simp add: uri_loop.simps [of m r "[]"] exit_ok_def loop_ok_def)
  next
    case (Cons ch p)
    have ok: "exit_ok m N (complex_step m r ch p)" using less.prems Cons uri_step_ok by simp
    have q: "quoted_ok r" using less.prems by (simp add: uri_inv_def)
    show ?thesis unfolding Cons
    proof (rule uri_loop_Cons [OF ok])
      fix r' q assume u: "complex_step m r ch p = Uloop r' q"
      show "loop_ok m N (uri_loop m r' q)"
        by (rule less.hyps) (use uri_step_measure [OF q u] ok u Cons in \<open>simp_all add: exit_ok_def\<close>)
    qed
  qed
qed

section \<open>The normal form\<close>

definition normal_path :: "bool \<Rightarrow> u_char list \<Rightarrow> bool" where
  "normal_path m out \<longleftrightarrow> out \<noteq> [] \<and> hd out = 0x2F \<and> list_all (\<lambda>s. \<not> dot_seg s) (segments out)
    \<and> (m \<longrightarrow> list_all (\<lambda>s. s \<noteq> []) (butlast (tl (segments out))))"

lemma path_final_normal:
  assumes "path_final m out"
  shows "normal_path m out"
proof -
  obtain q s where o: "out = (q @ [0x2F]) @ s" "hd (q @ [0x2F]) = 0x2F" "list_all (seg_ok m) (tl (segments q))" "0x2F \<notin> set s" "\<not> dot_seg s"
    using assms by (auto simp: path_final_def good_dir_def)
  have sg: "segments out = segments q @ [s]" using o(1,4) by (simp add: segments_slash segments_single)
  have h: "hd (segments q) = []" using o(2) by (cases q) auto
  then obtain t where t: "segments q = [] # t" by (cases "segments q") auto
  have "hd out = 0x2F" using o(1,2) by (cases q) auto
  moreover have "\<not> dot_seg []" by (simp add: dot_seg_def)
  ultimately show ?thesis
    using o(1,3,5) sg t by (auto simp: normal_path_def seg_ok_def list_all_iff)
qed

lemma after_loop_ok:
  assumes "uri_inv m N r []" and "uri_after_loop r = Udone r'"
  shows "path_final m (cu_out r') \<and> bytes_ok N (cu_out r') []"
proof -
  have i: "path_inv m (cu_state r) (cu_out r)" "bytes_ok N (cu_out r) []" "cu_state r \<noteq> usw_quoted" "cu_state r \<noteq> usw_quoted_second"
    using assms by (auto simp: uri_inv_def eff_state_def uri_after_loop_def split: if_splits)
  have sub: "bytes_ok N out' []" if "length out' \<le> length (cu_out r)" "set out' \<subseteq> set (cu_out r)" for out'
    using i(2) that by (auto simp: bytes_ok_def)
  have bb: "bytes_ok N (butlast (cu_out r)) []" by (rule sub) (auto dest: in_set_butlastD)
  show ?thesis
  proof (cases "cu_state r")
    case usw_dot
    then show ?thesis using i(1) assms(2) path_dots(3) [of m "cu_out r"] path_finals(2) [of m "butlast (cu_out r)"] bb
      by (auto simp: uri_after_loop_def)
  next
    case usw_dot_dot
    then obtain out' where b: "back_up (cu_out r) = Some out'" "r' = r\<lparr>cu_out := out'\<rparr>"
      using assms(2) by (auto simp: uri_after_loop_def split: option.splits)
    note p = path_back [OF i(1) [unfolded usw_dot_dot] b(1)]
    show ?thesis using path_finals(2) [OF p(1)] sub [OF p(2,3)] b(2) by simp
  qed (use i assms(2) path_finals in \<open>auto simp: uri_after_loop_def\<close>)
qed

lemma set_exten_out [simp]: "cu_out (set_exten r) = cu_out r" "cu_out (set_args r p) = cu_out r"
  by (simp_all add: set_exten_def set_args_def)

lemma finish_ok:
  assumes "exit_ok m N e" and "\<forall>r' ys. e = Uloop r' ys \<longrightarrow> ys = []" and "uri_finish e = (NGX_OK, r)"
  shows "normal_path m (cu_out r) \<and> length (cu_out r) \<le> N \<and> 0 \<notin> set (cu_out r)"
proof -
  have neq: "NGX_HTTP_PARSE_INVALID_REQUEST \<noteq> NGX_OK" by (simp add: NGX_HTTP_PARSE_INVALID_REQUEST_def NGX_OK_def)
  have "path_final m (cu_out r) \<and> (\<exists>xs. bytes_ok N (cu_out r) xs)"
  proof (cases e)
    case (Uloop r1 ys)
    then have "uri_inv m N r1 []" using assms(1,2) by (simp add: exit_ok_def)
    moreover obtain r2 where "uri_after_loop r1 = Udone r2" "r = set_exten r2"
      using Uloop assms(3) neq by (auto split: uri_exit.splits)
    ultimately show ?thesis using after_loop_ok [of m N r1 r2] by auto
  qed (use assms(1,3) neq in \<open>auto simp: exit_ok_def\<close>)
  then show ?thesis using path_final_normal by (auto simp: bytes_ok_def)
qed

section \<open>Properties\<close>

lemma complex_uri_spec:
  assumes "uri = 0x2F # u \<and> \<not> empty_path \<or> uri = 0x3F # u \<and> empty_path" and "0 \<notin> set uri"
  shows "\<exists>rc r'. ngx_http_parse_complex_uri merge_slashes empty_path r uri = Some (rc, r')
    \<and> (rc = NGX_OK \<or> rc = NGX_HTTP_PARSE_INVALID_REQUEST)
    \<and> (rc = NGX_OK \<longrightarrow> normal_path merge_slashes (cu_out r') \<and> 0 \<notin> set (cu_out r')
        \<and> length (cu_out r') \<le> length (path_part uri) + (if empty_path then 1 else 0))"
proof -
  let ?N = "length (path_part uri) + (if empty_path then 1 else 0)" and ?r = "uri_init empty_path r"
  have root: "path_inv m usw_slash [0x2F]" "path_final m [0x2F]" for m
    using good_dir_root [of m] path_invI [of m "[0x2F]" "[]" usw_slash] path_finals(2) by auto
  have u: "\<not> is_usual 0x3F" "\<not> is_usual 0x2F" by (simp_all add: not_usual)
  have step: "exit_ok merge_slashes ?N (complex_step merge_slashes ?r (hd uri) u)"
  proof (cases empty_path)
    case True
    then have "uri = 0x3F # u" "0 \<notin> set u" using assms by auto
    then show ?thesis using True root(2) u by (simp add: complex_step.simps uri_init_def in_usual_def exit_ok_def bytes_ok_def)
  next
    case False
    then have "uri = 0x2F # u" "0 \<notin> set u" using assms by auto
    then show ?thesis using False root(1) u
      by (simp add: complex_step.simps uri_init_def in_usual_def exit_ok_def bytes_ok_def uri_inv_def eff_state_def quoted_ok_def)
  qed
  have "uri = hd uri # u" using assms(1) by auto
  moreover have "loop_ok merge_slashes ?N (uri_loop merge_slashes ?r (hd uri # u))"
    by (rule uri_loop_Cons [OF step]) (use step uri_loop_ok in \<open>simp add: exit_ok_def\<close>)
  ultimately obtain e where e: "uri_loop merge_slashes ?r uri = Some e" "exit_ok merge_slashes ?N e"
      "\<forall>r' ys. e = Uloop r' ys \<longrightarrow> ys = []" unfolding loop_ok_def by metis
  obtain rc r' where f: "uri_finish e = (rc, r')" by (cases "uri_finish e")
  have "rc = NGX_OK \<or> rc = NGX_HTTP_PARSE_INVALID_REQUEST"
    using f by (cases e) (auto split: uri_exit.splits)
  moreover have "rc = NGX_OK \<longrightarrow> normal_path merge_slashes (cu_out r') \<and> 0 \<notin> set (cu_out r') \<and> length (cu_out r') \<le> ?N"
    using finish_ok [OF e(2,3), of r'] f by blast
  ultimately show ?thesis using e(1) f by (simp add: ngx_http_parse_complex_uri_def)
qed

text \<open>C30: for every target that starts with a slash (or has an empty path) the normalisation ends.  When
  it succeeds, the path starts with a slash, has no \<^verbatim>\<open>.\<close> or \<^verbatim>\<open>..\<close> segment, has no NUL byte and, with
  \<^verbatim>\<open>merge_slashes\<close>, no empty segment inside; it is never longer than the path of the target.  Escaped dots
  and slashes do not get around this.\<close>

theorem complex_uri_normal:
  assumes "uri = 0x2F # u \<and> \<not> empty_path \<or> uri = 0x3F # u \<and> empty_path" and "0 \<notin> set uri"
  shows "\<exists>rc r'. ngx_http_parse_complex_uri merge_slashes empty_path r uri = Some (rc, r')
    \<and> (rc = NGX_OK \<or> rc = NGX_HTTP_PARSE_INVALID_REQUEST)
    \<and> (rc = NGX_OK \<longrightarrow> normal_path merge_slashes (cu_out r') \<and> 0 \<notin> set (cu_out r')
        \<and> length (cu_out r') \<le> length (path_part uri) + (if empty_path then 1 else 0))"
  using assms by (rule complex_uri_spec)

definition demo_complex :: complex_req where
  "demo_complex = \<lparr>cu_state = usw_usual, cu_quoted_state = usw_usual, cu_decoded = 0, cu_out = [], cu_ext = None,
     cu_args_start = None, cu_args = None, cu_exten = None, cu_plus = False, cu_quoted = False\<rparr>"

theorem complex_uri_normal_witness:
  "\<exists>r'. ngx_http_parse_complex_uri True False demo_complex (bytes ''/a//b/%2e./c?x'') = Some (NGX_OK, r')
    \<and> cu_out r' = bytes ''/a/c'' \<and> normal_path True (cu_out r')"
proof -
  have b: "bytes ''/a//b/%2e./c?x'' = 0x2F # bytes ''a//b/%2e./c?x''" "0 \<notin> set (bytes ''/a//b/%2e./c?x'')" by code_simp+
  have e: "map_option (\<lambda>(rc, r). (rc, cu_out r)) (ngx_http_parse_complex_uri True False demo_complex (bytes ''/a//b/%2e./c?x''))
    = Some (NGX_OK, bytes ''/a/c'')" by code_simp
  then show ?thesis
    using complex_uri_normal [of "bytes ''/a//b/%2e./c?x''" "bytes ''a//b/%2e./c?x''" False True demo_complex] b by auto
qed

end
