(* ===== verification/Http_Request_Uri.thy ===== *)
theory Http_Request_Uri
  imports Http_Uri Http_Request_Theorems
begin

text \<open>
  From the target of a request to the path it is served from: \<^verbatim>\<open>ngx_http_parse_uri\<close> (which scans the
  target of an HTTP/2 or internal request) of \<^verbatim>\<open>src/http/ngx_http_parse.c\<close> and
  \<^verbatim>\<open>ngx_http_process_request_uri\<close> of \<^verbatim>\<open>src/http/ngx_http_request.c\<close>, which normalises the target only
  when the scan asked for it.  Pointers are offsets from \<^verbatim>\<open>r->uri_start\<close>.
\<close>

datatype scan_state = psw_start | psw_after_slash_in_uri | psw_check_uri | psw_uri

record uri_req =
  pu_complex :: bool
  pu_quoted :: bool
  pu_plus :: bool
  pu_empty_path :: bool
  pu_ext :: "nat option"
  pu_args_start :: "nat option"

section \<open>The scan\<close>

text \<open>One byte, at offset \<open>p\<close>; \<open>None\<close> is \<^verbatim>\<open>NGX_ERROR\<close>.\<close>

definition scan_step :: "scan_state \<Rightarrow> uri_req \<Rightarrow> nat \<Rightarrow> u_char \<Rightarrow> (scan_state \<times> uri_req) option" where
  "scan_step st r p ch =
    (case st of
       psw_start \<Rightarrow> if ch \<noteq> 0x2F then None else Some (psw_after_slash_in_uri, r)
     | psw_after_slash_in_uri \<Rightarrow>
         if is_usual ch then Some (psw_check_uri, r)
         else if ch = 0x2E then Some (psw_uri, r\<lparr>pu_complex := True\<rparr>)
         else if ch = 0x25 then Some (psw_uri, r\<lparr>pu_quoted := True\<rparr>)
         else if ch = 0x2F then Some (psw_uri, r\<lparr>pu_complex := True\<rparr>)
         else if ch = 0x3F then Some (psw_uri, r\<lparr>pu_args_start := Some (p + 1)\<rparr>)
         else if ch = 0x23 then Some (psw_uri, r\<lparr>pu_complex := True\<rparr>)
         else if ch = 0x2B then Some (psw_after_slash_in_uri, r\<lparr>pu_plus := True\<rparr>)
         else if ch \<le> 0x20 \<or> ch = 0x7F then None
         else Some (psw_check_uri, r)
     | psw_check_uri \<Rightarrow>
         if is_usual ch then Some (psw_check_uri, r)
         else if ch = 0x2F then Some (psw_after_slash_in_uri, r\<lparr>pu_ext := None\<rparr>)
         else if ch = 0x2E then Some (psw_check_uri, r\<lparr>pu_ext := Some (p + 1)\<rparr>)
         else if ch = 0x25 then Some (psw_uri, r\<lparr>pu_quoted := True\<rparr>)
         else if ch = 0x3F then Some (psw_uri, r\<lparr>pu_args_start := Some (p + 1)\<rparr>)
         else if ch = 0x23 then Some (psw_uri, r\<lparr>pu_complex := True\<rparr>)
         else if ch = 0x2B then Some (psw_check_uri, r\<lparr>pu_plus := True\<rparr>)
         else if ch \<le> 0x20 \<or> ch = 0x7F then None
         else Some (psw_check_uri, r)
     | psw_uri \<Rightarrow>
         if is_usual ch then Some (psw_uri, r)
         else if ch = 0x23 then Some (psw_uri, r\<lparr>pu_complex := True\<rparr>)
         else if ch \<le> 0x20 \<or> ch = 0x7F then None
         else Some (psw_uri, r))"

fun scan_loop :: "scan_state \<Rightarrow> uri_req \<Rightarrow> nat \<Rightarrow> u_char list \<Rightarrow> uri_req option" where
  "scan_loop st r p [] = Some r"
| "scan_loop st r p (ch # cs) =
    (case scan_step st r p ch of None \<Rightarrow> None | Some (st', r') \<Rightarrow> scan_loop st' r' (p + 1) cs)"

text \<open>\<open>None\<close> is \<^verbatim>\<open>NGX_ERROR\<close>.\<close>

definition ngx_http_parse_uri :: "uri_req \<Rightarrow> u_char list \<Rightarrow> uri_req option" where
  "ngx_http_parse_uri r uri = scan_loop psw_start r 0 uri"

section \<open>The path of the request\<close>

record request_path =
  rp_uri :: "u_char list"
  rp_unparsed :: "u_char list"
  rp_valid_unparsed :: bool
  rp_exten :: "u_char list"
  rp_args :: "u_char list"

text \<open>\<open>slice a b xs\<close> is the string from offset \<open>a\<close> to offset \<open>b\<close>.\<close>

definition slice :: "nat \<Rightarrow> nat \<Rightarrow> u_char list \<Rightarrow> u_char list" where
  "slice a b xs = take (b - a) (drop a xs)"

text \<open>\<^verbatim>\<open>r->uri.len\<close>, the size of the buffer; an empty path is given a \<^verbatim>\<open>"/"\<close>.\<close>

definition uri_len :: "uri_req \<Rightarrow> u_char list \<Rightarrow> nat" where
  "uri_len r uri = (case pu_args_start r of Some g \<Rightarrow> g - 1 | None \<Rightarrow> length uri) + (if pu_empty_path r then 1 else 0)"

text \<open>The request fields \<^verbatim>\<open>uri_ext\<close> and \<^verbatim>\<open>args_start\<close> after the normalisation, \<^verbatim>\<open>exten\<close> and \<^verbatim>\<open>args\<close>
  before the last part of the function.\<close>

definition request_args :: "nat option \<Rightarrow> u_char list \<Rightarrow> u_char list \<Rightarrow> u_char list" where
  "request_args args uri old =
    (case args of Some g \<Rightarrow> if length uri > g then drop g uri else old | None \<Rightarrow> old)"

definition fresh_complex :: "uri_req \<Rightarrow> complex_req" where
  "fresh_complex r = \<lparr>cu_state = usw_usual, cu_quoted_state = usw_usual, cu_decoded = 0, cu_out = [], cu_ext = pu_ext r,
     cu_args_start = None, cu_args = None, cu_exten = None, cu_plus = pu_plus r, cu_quoted = pu_quoted r\<rparr>"

text \<open>\<open>Inl\<close> is the error the request is finalised with; \<open>None\<close> a normalisation that does not end.\<close>

definition ngx_http_process_request_uri :: "bool \<Rightarrow> bool \<Rightarrow> uri_req \<Rightarrow> u_char list \<Rightarrow> (int + request_path) option" where
  "ngx_http_process_request_uri pnalloc merge_slashes r uri =
    (if pu_complex r \<or> pu_quoted r \<or> pu_empty_path r then
       if \<not> pnalloc then Some (Inl NGX_HTTP_INTERNAL_SERVER_ERROR)
       else case ngx_http_parse_complex_uri merge_slashes (pu_empty_path r) (fresh_complex r) uri of
         None \<Rightarrow> None
       | Some (rc, cu) \<Rightarrow>
           if rc \<noteq> NGX_OK then Some (Inl NGX_HTTP_BAD_REQUEST)
           else Some (Inr \<lparr>rp_uri = cu_out cu, rp_unparsed = uri, rp_valid_unparsed = \<not> pu_empty_path r,
                 rp_exten = (case cu_exten cu of Some e \<Rightarrow> e | None \<Rightarrow> []),
                 rp_args = request_args (map_option (\<lambda>rest. length uri - length rest) (cu_args_start cu)) uri
                   (case cu_args cu of Some a \<Rightarrow> a | None \<Rightarrow> [])\<rparr>)
     else Some (Inr \<lparr>rp_uri = take (uri_len r uri) uri, rp_unparsed = uri, rp_valid_unparsed = True,
            rp_exten = (case pu_ext r of
               Some e \<Rightarrow> slice e (case pu_args_start r of Some g \<Rightarrow> g - 1 | None \<Rightarrow> length uri) uri
             | None \<Rightarrow> []),
            rp_args = request_args (pu_args_start r) uri []\<rparr>))"

section \<open>What the scan establishes\<close>

text \<open>After the first slash; \<open>clean_scan\<close> is the cleanness of the bytes to come in a state.\<close>

definition clean_scan :: "scan_state \<Rightarrow> u_char list \<Rightarrow> bool" where
  "clean_scan st u \<longleftrightarrow> (if st = psw_after_slash_in_uri then clean True u
    else if st = psw_check_uri then clean False u else 0x23 \<notin> set u)"

definition args_scan :: "scan_state \<Rightarrow> nat option \<Rightarrow> nat \<Rightarrow> u_char list \<Rightarrow> nat option" where
  "args_scan st old p u =
    (if st = psw_uri then old else if 0x3F \<in> set u then Some (p + length (path_part u) + 1) else old)"

lemma usual_uri_char: "is_usual c \<longrightarrow> uri_char c"
  by (rule byte_all) code_simp

lemma scan_step_facts:
  assumes "scan_step st r p ch = Some (st', r')" and "st \<noteq> psw_start"
  shows "uri_char ch" "st' \<noteq> psw_start" "pu_empty_path r' = pu_empty_path r"
    "pu_complex r \<longrightarrow> pu_complex r'" "pu_quoted r \<longrightarrow> pu_quoted r'"
    "\<not> pu_complex r' \<and> \<not> pu_quoted r' \<longrightarrow> clean_scan st' w \<longrightarrow> clean_scan st (ch # w)"
    "\<not> pu_complex r' \<and> \<not> pu_quoted r' \<longrightarrow> args_scan st' (pu_args_start r') (p + 1) w = args_scan st (pu_args_start r) p (ch # w)"
    "pu_args_start r' = pu_args_start r \<or> pu_args_start r' = Some (p + 1) \<and> ch = 0x3F"
proof -
  have nc: "uri_char ch" if "\<not> (ch \<le> 0x20 \<or> ch = 0x7F)" using that by (simp add: uri_char_def not_le)
  have sp: "uri_char 0x2E" "uri_char 0x2F" "uri_char 0x25" "uri_char 0x3F" "uri_char 0x23" "uri_char 0x2B"
    by (simp_all add: uri_char_def)
  have ns: "is_usual ch \<Longrightarrow> (ch = 0x2F) = False" using not_usual(2) by blast
  show "uri_char ch"
    using assms nc sp usual_uri_char [of ch] by (cases st) (auto simp: scan_step_def split: if_splits)
  show "st' \<noteq> psw_start" "pu_empty_path r' = pu_empty_path r" "pu_complex r \<longrightarrow> pu_complex r'" "pu_quoted r \<longrightarrow> pu_quoted r'"
    "pu_args_start r' = pu_args_start r \<or> pu_args_start r' = Some (p + 1) \<and> ch = 0x3F"
    using assms by (cases st; auto simp: scan_step_def split: if_splits)+
  show "\<not> pu_complex r' \<and> \<not> pu_quoted r' \<longrightarrow> clean_scan st' w \<longrightarrow> clean_scan st (ch # w)"
    using assms not_usual ns clean_weaken by (cases st) (auto simp: scan_step_def clean_scan_def split: if_splits)
  show "\<not> pu_complex r' \<and> \<not> pu_quoted r' \<longrightarrow> args_scan st' (pu_args_start r') (p + 1) w = args_scan st (pu_args_start r) p (ch # w)"
    using assms not_usual by (cases st) (auto simp: scan_step_def args_scan_def split: if_splits)
qed

lemma scan_loop_facts:
  assumes "scan_loop st r p u = Some r'" and "st \<noteq> psw_start"
  shows "list_all uri_char u \<and> pu_empty_path r' = pu_empty_path r
    \<and> (pu_complex r \<longrightarrow> pu_complex r') \<and> (pu_quoted r \<longrightarrow> pu_quoted r')
    \<and> (\<not> pu_complex r' \<and> \<not> pu_quoted r' \<longrightarrow> clean_scan st u \<and> pu_args_start r' = args_scan st (pu_args_start r) p u)
    \<and> (pu_args_start r' = pu_args_start r \<or> (\<exists>k < length u. pu_args_start r' = Some (p + k + 1) \<and> u ! k = 0x3F))"
  using assms
proof (induction u arbitrary: st r p)
  case Nil
  then show ?case by (simp add: clean_scan_def args_scan_def)
next
  case (Cons ch u)
  then obtain st1 r1 where s: "scan_step st r p ch = Some (st1, r1)" and l: "scan_loop st1 r1 (p + 1) u = Some r'"
    by (auto split: option.splits)
  note f = scan_step_facts(1-5,8) [OF s Cons.prems(2)] and w = scan_step_facts(6,7) [OF s Cons.prems(2), of u]
  note ih = Cons.IH [OF l f(2)]
  have "pu_args_start r' = pu_args_start r \<or> (\<exists>k < length (ch # u). pu_args_start r' = Some (p + k + 1) \<and> (ch # u) ! k = 0x3F)"
  proof -
    consider "pu_args_start r' = pu_args_start r1" | k where "k < length u" "pu_args_start r' = Some (p + 1 + k + 1)" "u ! k = 0x3F"
      using ih by blast
    then show ?thesis
    proof cases
      case 1
      then show ?thesis using f(6) by force
    next
      case (2 k)
      then show ?thesis by (intro disjI2 exI [of _ "Suc k"]) simp
    qed
  qed
  moreover have "\<not> pu_complex r' \<and> \<not> pu_quoted r' \<longrightarrow>
      clean_scan st (ch # u) \<and> pu_args_start r' = args_scan st (pu_args_start r) p (ch # u)"
    using w ih by (metis (no_types))
  ultimately show ?case using f ih by simp
qed

section \<open>The normalisation of a clean path\<close>

text \<open>On a clean path the normalisation copies every byte.\<close>

definition copied :: "complex_req \<Rightarrow> u_char list \<Rightarrow> uri_exit \<Rightarrow> bool" where
  "copied r u e = (case e of
     Uargs r' rest \<Rightarrow> cu_out r' = cu_out r @ path_part u \<and> u = path_part u @ 0x3F # rest \<and> cu_args_start r' = Some rest
       \<and> 0x23 \<notin> set rest \<and> cu_args r' = cu_args r
   | Uloop r' rest \<Rightarrow> cu_out r' = cu_out r @ u \<and> 0x3F \<notin> set u \<and> cu_args_start r' = cu_args_start r \<and> cu_args r' = cu_args r
       \<and> cu_state r' \<in> {usw_usual, usw_slash}
   | _ \<Rightarrow> False)"

lemma clean_step:
  assumes "cu_state r \<in> {usw_usual, usw_slash}" and "clean (cu_state r = usw_slash) (c # u)" and "c \<noteq> 0x3F"
  shows "\<exists>r'. complex_step m r c u = Uloop r' u \<and> cu_state r' \<in> {usw_usual, usw_slash} \<and> clean (cu_state r' = usw_slash) u
    \<and> cu_out r' = cu_out r @ [c] \<and> cu_args_start r' = cu_args_start r \<and> cu_args r' = cu_args r"
proof -
  have ns: "is_usual c \<Longrightarrow> (c = 0x2F) = False" using not_usual(2) by blast
  show ?thesis
    using assms ns
    by (cases "cu_state r") (auto simp: complex_step.simps in_usual_def in_slash_def ordinary_def not_usual)
qed

lemma clean_loop:
  "cu_state r \<in> {usw_usual, usw_slash} \<Longrightarrow> clean (cu_state r = usw_slash) u \<Longrightarrow>
    \<exists>e. uri_loop m r u = Some e \<and> copied r u e"
proof (induction u arbitrary: r)
  case Nil
  then show ?case by (simp add: uri_loop.simps [of m r "[]"] copied_def)
next
  case (Cons c u)
  show ?case
  proof (cases "c = 0x3F")
    case True
    then have "0x23 \<notin> set u" using Cons.prems(2) by simp
    moreover have "complex_step m r c u = Uargs (r\<lparr>cu_args_start := Some u\<rparr>) u"
      using Cons.prems(1) True not_usual by (auto simp: complex_step.simps in_usual_def in_slash_def)
    then have "uri_loop m r (c # u) = Some (Uargs (r\<lparr>cu_args_start := Some u\<rparr>) u)"
      by (simp add: uri_loop.simps [of m r "c # u"])
    ultimately show ?thesis using True by (simp add: copied_def)
  next
    case False
    obtain r' where r': "complex_step m r c u = Uloop r' u" "cu_state r' \<in> {usw_usual, usw_slash}" "clean (cu_state r' = usw_slash) u"
      "cu_out r' = cu_out r @ [c]" "cu_args_start r' = cu_args_start r" "cu_args r' = cu_args r"
      using clean_step [OF Cons.prems False] by blast
    obtain e where e: "uri_loop m r' u = Some e" "copied r' u e" using Cons.IH [OF r'(2,3)] by blast
    have "uri_loop m r (c # u) = Some e" using r'(1) e(1) by (simp add: uri_loop.simps [of m r "c # u"])
    moreover have "copied r (c # u) e" using e(2) r'(4-6) False by (auto simp: copied_def split: uri_exit.splits)
    ultimately show ?thesis by blast
  qed
qed

lemma complex_clean:
  assumes "clean True u"
  shows "\<exists>cu. ngx_http_parse_complex_uri m False r (0x2F # u) = Some (NGX_OK, cu) \<and> cu_out cu = path_part (0x2F # u)
    \<and> cu_args_start cu = (if 0x3F \<in> set u then Some (tl (dropWhile (\<lambda>c. c \<noteq> 0x3F) u)) else None) \<and> cu_args cu = cu_args r"
proof -
  let ?r = "uri_init False r"
  let ?r1 = "?r\<lparr>cu_ext := None, cu_state := usw_slash, cu_out := [0x2F]\<rparr>"
  have "complex_step m ?r 0x2F u = Uloop ?r1 u"
    using not_usual by (simp add: complex_step.simps in_usual_def uri_init_def)
  moreover obtain e where e: "uri_loop m ?r1 u = Some e" "copied ?r1 u e" using clean_loop [of ?r1 u m] assms by auto
  ultimately have l: "uri_loop m ?r (0x2F # u) = Some e" by (simp add: uri_loop.simps [of m ?r "0x2F # u"])
  show ?thesis
  proof (cases e)
    case (Uloop r' rest)
    then have pp: "path_part u = u" using e(2) by (auto simp: copied_def takeWhile_eq_all_conv)
    show ?thesis using e(2) l Uloop
      by (auto simp: pp copied_def ngx_http_parse_complex_uri_def uri_after_loop_def set_exten_def uri_init_def)
  next
    case (Uargs r' rest)
    then have u: "u = path_part u @ 0x3F # rest" using e(2) by (simp add: copied_def)
    then have "0x3F \<in> set u" "dropWhile (\<lambda>c. c \<noteq> 0x3F) u = 0x3F # rest"
      by (metis in_set_conv_decomp, metis same_append_eq takeWhile_dropWhile_id)
    then show ?thesis using e(2) l Uargs
      by (simp add: copied_def ngx_http_parse_complex_uri_def set_exten_def set_args_def uri_init_def)
  qed (use e(2) in \<open>simp_all add: copied_def\<close>)
qed

section \<open>Properties\<close>

definition fresh_uri :: "uri_req \<Rightarrow> bool" where
  "fresh_uri r \<longleftrightarrow> \<not> pu_complex r \<and> \<not> pu_quoted r \<and> \<not> pu_empty_path r \<and> pu_args_start r = None"

lemma parse_uri_facts:
  assumes "ngx_http_parse_uri r uri = Some r'" and "fresh_uri r" and "uri \<noteq> []"
  shows "\<exists>u. uri = 0x2F # u \<and> list_all uri_char u \<and> \<not> pu_empty_path r'
    \<and> (\<not> pu_complex r' \<and> \<not> pu_quoted r' \<longrightarrow> clean True u
        \<and> pu_args_start r' = (if 0x3F \<in> set u then Some (length (path_part uri) + 1) else None))
    \<and> length (path_part uri) \<le> uri_len r' uri"
proof -
  obtain c u where u: "uri = c # u" using assms(3) by (cases uri) auto
  have c: "c = 0x2F" and l: "scan_loop psw_after_slash_in_uri r 1 u = Some r'"
    using assms(1) u by (auto simp: ngx_http_parse_uri_def scan_step_def split: if_splits)
  note f = scan_loop_facts [OF l]
  have q: "length (path_part uri) \<le> k" if "k < length uri" "uri ! k = 0x3F" for k
  proof (rule ccontr)
    assume "\<not> ?thesis"
    then have "path_part uri ! k = 0x3F" "path_part uri ! k \<in> set (path_part uri)"
      using that(2) takeWhile_nth [of k "\<lambda>c. c \<noteq> 0x3F" uri] nth_mem [of k "path_part uri"] by (simp_all only: not_le)
    then show False by (metis (mono_tags, lifting) set_takeWhileD)
  qed
  have "pu_args_start r' = None \<or> (\<exists>k < length u. pu_args_start r' = Some (1 + k + 1) \<and> u ! k = 0x3F)"
    using f assms(2) by (simp add: fresh_uri_def)
  then have "length (path_part uri) \<le> uri_len r' uri"
  proof
    assume "pu_args_start r' = None"
    then show ?thesis using length_takeWhile_le [of "\<lambda>c. c \<noteq> 0x3F" uri] by (simp add: uri_len_def)
  next
    assume "\<exists>k < length u. pu_args_start r' = Some (1 + k + 1) \<and> u ! k = 0x3F"
    then obtain k where "k < length u" "pu_args_start r' = Some (1 + k + 1)" "u ! k = 0x3F" by blast
    then show ?thesis using q [of "Suc k"] u by (simp add: uri_len_def)
  qed
  then show ?thesis using f u c assms(2) by (auto simp: fresh_uri_def clean_scan_def args_scan_def)
qed

text \<open>C29: the target of a request, once accepted by the scan, is served from a path that starts with a
  slash and has no \<^verbatim>\<open>.\<close> or \<^verbatim>\<open>..\<close> segment, whether it went through the normalisation or was taken as it
  is; the normalisation ends, and what it writes fits the \<^verbatim>\<open>r->uri.len\<close> bytes that were allocated.\<close>

theorem request_path_normal:
  assumes "ngx_http_parse_uri r uri = Some r'" and "fresh_uri r" and "uri \<noteq> []"
  shows "\<exists>out. ngx_http_process_request_uri pnalloc merge_slashes r' uri = Some out
    \<and> (case out of
         Inl rc \<Rightarrow> (pu_complex r' \<or> pu_quoted r') \<and> (rc = NGX_HTTP_BAD_REQUEST \<or> \<not> pnalloc)
       | Inr rp \<Rightarrow> normal_path merge_slashes (rp_uri rp) \<and> length (rp_uri rp) \<le> uri_len r' uri)"
proof -
  obtain u where u: "uri = 0x2F # u" "list_all uri_char u" "\<not> pu_empty_path r'"
    "\<not> pu_complex r' \<and> \<not> pu_quoted r' \<longrightarrow> clean True u
        \<and> pu_args_start r' = (if 0x3F \<in> set u then Some (length (path_part uri) + 1) else None)"
    "length (path_part uri) \<le> uri_len r' uri" using parse_uri_facts [OF assms] by blast
  have nz: "0 \<notin> set uri" using u(1,2) by (auto simp: list_all_iff uri_char_def)
  have normal: "\<exists>rc cu. ngx_http_parse_complex_uri merge_slashes False c uri = Some (rc, cu)
      \<and> (rc = NGX_OK \<longrightarrow> normal_path merge_slashes (cu_out cu) \<and> length (cu_out cu) \<le> uri_len r' uri)" for c
    using complex_uri_spec [of uri u False merge_slashes c] u(1,5) nz by force
  show ?thesis
  proof (cases "pu_complex r' \<or> pu_quoted r'")
    case True
    obtain rc cu where "ngx_http_parse_complex_uri merge_slashes False (fresh_complex r') uri = Some (rc, cu)"
      "rc = NGX_OK \<longrightarrow> normal_path merge_slashes (cu_out cu) \<and> length (cu_out cu) \<le> uri_len r' uri" using normal by blast
    then show ?thesis using True u(3) by (auto simp: ngx_http_process_request_uri_def)
  next
    case False
    then have cl: "clean True u" "pu_args_start r' = (if 0x3F \<in> set u then Some (length (path_part uri) + 1) else None)" using u(4) by auto
    have t: "take (uri_len r' uri) uri = path_part uri"
    proof (cases "0x3F \<in> set u")
      case True
      then show ?thesis using cl(2) u(3) takeWhile_eq_take [of "\<lambda>c. c \<noteq> 0x3F" uri] by (simp add: uri_len_def)
    next
      case no: False
      then have "path_part uri = uri" using u(1) by (simp only: takeWhile_eq_all_conv) auto
      then show ?thesis using cl(2) u(3) no by (simp only: uri_len_def) simp
    qed
    obtain cu where "ngx_http_parse_complex_uri merge_slashes False (fresh_complex r') uri = Some (NGX_OK, cu)" "cu_out cu = path_part uri"
      using complex_clean [OF cl(1), of merge_slashes "fresh_complex r'"] u(1) by blast
    then have "normal_path merge_slashes (path_part uri)" using normal [of "fresh_complex r'"] by auto
    then show ?thesis using False u(3,5) t by (simp add: ngx_http_process_request_uri_def)
  qed
qed

definition demo_uri_req :: uri_req where
  "demo_uri_req = \<lparr>pu_complex = False, pu_quoted = False, pu_plus = False, pu_empty_path = False, pu_ext = None, pu_args_start = None\<rparr>"

definition demo_scan :: "u_char list \<Rightarrow> uri_req" where
  "demo_scan uri = the (ngx_http_parse_uri demo_uri_req uri)"

theorem request_path_normal_witness:
  "\<exists>rp. ngx_http_process_request_uri True True (demo_scan (bytes ''/x/../a.b?q'')) (bytes ''/x/../a.b?q'') = Some (Inr rp)
    \<and> rp_uri rp = bytes ''/a.b'' \<and> normal_path True (rp_uri rp)"
proof -
  have e: "ngx_http_parse_uri demo_uri_req (bytes ''/x/../a.b?q'') = Some (demo_scan (bytes ''/x/../a.b?q''))"
    "fresh_uri demo_uri_req" "bytes ''/x/../a.b?q'' \<noteq> []" by code_simp+
  have v: "map_option (map_sum id rp_uri) (ngx_http_process_request_uri True True (demo_scan (bytes ''/x/../a.b?q'')) (bytes ''/x/../a.b?q''))
    = Some (Inr (bytes ''/a.b''))" by code_simp
  then obtain out where o: "ngx_http_process_request_uri True True (demo_scan (bytes ''/x/../a.b?q'')) (bytes ''/x/../a.b?q'') = Some out"
    "map_sum id rp_uri out = Inr (bytes ''/a.b'')" by auto
  then obtain rp where "out = Inr rp" "rp_uri rp = bytes ''/a.b''" by (cases out) auto
  then show ?thesis using request_path_normal [OF e, of True True] o(1) by simp
qed

lemma split_at:
  assumes "xs = p @ c # w"
  shows "length xs - length w = length p + 1 \<and> drop (length p + 1) xs = w \<and> (length xs > length p + 1 \<longleftrightarrow> w \<noteq> []) \<and> take (length p) xs = p"
  using assms by auto

text \<open>C31: the short cut is the same function: for a target the scan does not flag, normalising it all the
  same would give the same path and the same arguments.\<close>

theorem fast_path_agrees:
  assumes "ngx_http_parse_uri r uri = Some r'" and "fresh_uri r" and "uri \<noteq> []"
    and "\<not> pu_complex r'" and "\<not> pu_quoted r'"
  shows "\<exists>a b. ngx_http_process_request_uri True merge_slashes r' uri = Some (Inr a)
    \<and> ngx_http_process_request_uri True merge_slashes (r'\<lparr>pu_complex := True\<rparr>) uri = Some (Inr b)
    \<and> rp_uri a = rp_uri b \<and> rp_args a = rp_args b \<and> rp_uri a @ (if 0x3F \<in> set uri then [0x3F] else []) @ rp_args a = uri"
proof -
  obtain u where u: "uri = 0x2F # u" "\<not> pu_empty_path r'" "clean True u"
    "pu_args_start r' = (if 0x3F \<in> set u then Some (length (path_part uri) + 1) else None)"
    using parse_uri_facts [OF assms(1-3)] assms(4,5) by blast
  obtain cu where cu: "ngx_http_parse_complex_uri merge_slashes False (fresh_complex (r'\<lparr>pu_complex := True\<rparr>)) uri = Some (NGX_OK, cu)"
      "cu_out cu = path_part uri" "cu_args cu = None"
      "cu_args_start cu = (if 0x3F \<in> set u then Some (tl (dropWhile (\<lambda>c. c \<noteq> 0x3F) u)) else None)"
    using complex_clean [OF u(3), of merge_slashes "fresh_complex (r'\<lparr>pu_complex := True\<rparr>)"] u(1) by (auto simp: fresh_complex_def)
  let ?w = "tl (dropWhile (\<lambda>c. c \<noteq> 0x3F) u)"
  show ?thesis
  proof (cases "0x3F \<in> set u")
    case True
    have split: "uri = path_part uri @ 0x3F # ?w"
    proof -
      have "dropWhile (\<lambda>c. c \<noteq> 0x3F) u \<noteq> []" using True by (simp add: dropWhile_eq_Nil_conv)
      then have "dropWhile (\<lambda>c. c \<noteq> 0x3F) u = 0x3F # ?w" using hd_dropWhile [of "\<lambda>c. c \<noteq> 0x3F" u] by (metis (mono_tags, lifting) list.collapse)
      then show ?thesis using u(1) by simp
    qed
    have len: "length uri - length ?w = length (path_part uri) + 1" "drop (length (path_part uri) + 1) uri = ?w"
      "length uri > length (path_part uri) + 1 \<longleftrightarrow> ?w \<noteq> []" "take (length (path_part uri)) uri = path_part uri"
      using split_at [OF split] by blast+
    have mem: "0x3F \<in> set uri" using True u(1) by simp
    have whole: "path_part uri @ [0x3F] = uri" if "?w = []" using split that by simp
    show ?thesis
      using True u(2,4) cu assms(4,5) len split mem whole by (simp add: ngx_http_process_request_uri_def uri_len_def request_args_def)
  next
    case False
    have pp: "path_part uri = uri" using False u(1) by (simp only: takeWhile_eq_all_conv) auto
    have "0x3F \<notin> set uri" using False u(1) by simp
    then show ?thesis using False u(2,4) cu(1,3,4) cu(2) [unfolded pp] assms(4,5)
      by (simp add: ngx_http_process_request_uri_def uri_len_def request_args_def)
  qed
qed

theorem fast_path_agrees_witness:
  "\<exists>a b. ngx_http_process_request_uri True True (demo_scan (bytes ''/a/b.c?q'')) (bytes ''/a/b.c?q'') = Some (Inr a)
    \<and> ngx_http_process_request_uri True True ((demo_scan (bytes ''/a/b.c?q''))\<lparr>pu_complex := True\<rparr>) (bytes ''/a/b.c?q'') = Some (Inr b)
    \<and> rp_uri a = rp_uri b \<and> rp_args a = rp_args b"
proof -
  have e: "ngx_http_parse_uri demo_uri_req (bytes ''/a/b.c?q'') = Some (demo_scan (bytes ''/a/b.c?q''))"
    "fresh_uri demo_uri_req" "bytes ''/a/b.c?q'' \<noteq> []" "\<not> pu_complex (demo_scan (bytes ''/a/b.c?q''))"
    "\<not> pu_quoted (demo_scan (bytes ''/a/b.c?q''))" by code_simp+
  then show ?thesis using fast_path_agrees [OF e, of True] by blast
qed

end
