(* ===== verification/Ngx_Escape.thy ===== *)
theory Ngx_Escape
  imports Ngx_Number
begin

unbundle bit_operations_syntax

text \<open>
  The encodings of \<^verbatim>\<open>src/core/ngx_string.c\<close>: base64 (both alphabets), the escaping of URIs and
  UTF-8.  A source string is a list of bytes, the result the bytes that were written.
\<close>

section \<open>Base64\<close>

definition basis64 :: "u_char list" where
  "basis64 = bytes ''ABCDEFGHIJKLMNOPQRSTUVWXYZabcdefghijklmnopqrstuvwxyz0123456789+/''"

definition basis64url :: "u_char list" where
  "basis64url = bytes ''ABCDEFGHIJKLMNOPQRSTUVWXYZabcdefghijklmnopqrstuvwxyz0123456789-_''"

text \<open>\<^verbatim>\<open>ngx_encode_base64_internal\<close>.\<close>

fun encode_base64_internal :: "u_char list \<Rightarrow> bool \<Rightarrow> u_char list \<Rightarrow> u_char list" where
  "encode_base64_internal basis padding (s0 # s1 # s2 # s) =
    [basis ! unat (drop_bit 2 s0 AND 0x3f),
     basis ! unat (push_bit 4 (s0 AND 3) OR drop_bit 4 s1),
     basis ! unat (push_bit 2 (s1 AND 0x0f) OR drop_bit 6 s2),
     basis ! unat (s2 AND 0x3f)] @ encode_base64_internal basis padding s"
| "encode_base64_internal basis padding [] = []"
| "encode_base64_internal basis padding [s0] =
    [basis ! unat (drop_bit 2 s0 AND 0x3f), basis ! unat (push_bit 4 (s0 AND 3))]
    @ (if padding then [0x3D] else []) @ (if padding then [0x3D] else [])"
| "encode_base64_internal basis padding [s0, s1] =
    [basis ! unat (drop_bit 2 s0 AND 0x3f),
     basis ! unat (push_bit 4 (s0 AND 3) OR drop_bit 4 s1),
     basis ! unat (push_bit 2 (s1 AND 0x0f))] @ (if padding then [0x3D] else [])"

definition ngx_encode_base64 :: "u_char list \<Rightarrow> u_char list" where
  "ngx_encode_base64 src = encode_base64_internal basis64 True src"

definition ngx_encode_base64url :: "u_char list \<Rightarrow> u_char list" where
  "ngx_encode_base64url src = encode_base64_internal basis64url False src"

text \<open>The tables of the decoder; 77 marks a byte that is not in the alphabet.\<close>

definition decode_letters :: "u_char list" where
  "decode_letters = [0,  1,  2,  3,  4,  5,  6,  7,  8,  9, 10, 11, 12, 13, 14,
    15, 16, 17, 18, 19, 20, 21, 22, 23, 24, 25]"

definition decode_small_letters :: "u_char list" where
  "decode_small_letters = [26, 27, 28, 29, 30, 31, 32, 33, 34, 35, 36, 37, 38, 39, 40,
    41, 42, 43, 44, 45, 46, 47, 48, 49, 50, 51]"

definition decode_digits :: "u_char list" where
  "decode_digits = [52, 53, 54, 55, 56, 57, 58, 59, 60, 61]"

definition decode64 :: "u_char list" where
  "decode64 = replicate 43 77 @ [62, 77, 77, 77, 63] @ decode_digits @ replicate 7 77
    @ decode_letters @ replicate 6 77 @ decode_small_letters @ replicate 133 77"

definition decode64url :: "u_char list" where
  "decode64url = replicate 45 77 @ [62, 77, 77] @ decode_digits @ replicate 7 77
    @ decode_letters @ [77, 77, 77, 77, 63, 77] @ decode_small_letters @ replicate 133 77"

text \<open>The loop that finds the end of the data: \<open>None\<close> is \<^verbatim>\<open>NGX_ERROR\<close>.\<close>

fun base64_data :: "u_char list \<Rightarrow> u_char list \<Rightarrow> u_char list option" where
  "base64_data basis [] = Some []"
| "base64_data basis (c # cs) =
    (if c = 0x3D then Some []
     else if basis ! unat c = 77 then None
     else map_option ((#) c) (base64_data basis cs))"

fun decode_loop :: "u_char list \<Rightarrow> u_char list \<Rightarrow> u_char list" where
  "decode_loop b (s0 # s1 # s2 # s3 # s) =
    [push_bit 2 (b ! unat s0) OR drop_bit 4 (b ! unat s1),
     push_bit 4 (b ! unat s1) OR drop_bit 2 (b ! unat s2),
     push_bit 6 (b ! unat s2) OR b ! unat s3] @ decode_loop b s"
| "decode_loop b [] = []"
| "decode_loop b [s0] = []"
| "decode_loop b [s0, s1] = [push_bit 2 (b ! unat s0) OR drop_bit 4 (b ! unat s1)]"
| "decode_loop b [s0, s1, s2] =
    [push_bit 2 (b ! unat s0) OR drop_bit 4 (b ! unat s1), push_bit 4 (b ! unat s1) OR drop_bit 2 (b ! unat s2)]"

definition decode_base64_internal :: "u_char list \<Rightarrow> u_char list \<Rightarrow> u_char list option" where
  "decode_base64_internal basis src =
    (case base64_data basis src of
       None \<Rightarrow> None
     | Some cs \<Rightarrow> if length cs mod 4 = 1 then None else Some (decode_loop basis cs))"

definition ngx_decode_base64 :: "u_char list \<Rightarrow> u_char list option" where
  "ngx_decode_base64 src = decode_base64_internal decode64 src"

definition ngx_decode_base64url :: "u_char list \<Rightarrow> u_char list option" where
  "ngx_decode_base64url src = decode_base64_internal decode64url src"

text \<open>The sizes of the buffers the callers allocate.\<close>

definition ngx_base64_encoded_length :: "nat \<Rightarrow> nat" where
  "ngx_base64_encoded_length len = ((len + 2) div 3) * 4"

definition ngx_base64_decoded_length :: "nat \<Rightarrow> nat" where
  "ngx_base64_decoded_length len = ((len + 3) div 4) * 3"

section \<open>Escaping\<close>

definition escape_uri :: "32 word list" where
  "escape_uri = [0xffffffff, 0xd000002d, 0x50000000, 0xb8000001, 0xffffffff, 0xffffffff, 0xffffffff, 0xffffffff]"

definition escape_args :: "32 word list" where
  "escape_args = [0xffffffff, 0xd800086d, 0x50000000, 0xb8000001, 0xffffffff, 0xffffffff, 0xffffffff, 0xffffffff]"

definition escape_uri_component :: "32 word list" where
  "escape_uri_component = [0xffffffff, 0xfc009fff, 0x78000001, 0xb8000001, 0xffffffff, 0xffffffff, 0xffffffff, 0xffffffff]"

definition escape_html :: "32 word list" where
  "escape_html = [0xffffffff, 0x500000ad, 0x50000000, 0xb8000001, 0xffffffff, 0xffffffff, 0xffffffff, 0xffffffff]"

definition escape_refresh :: "32 word list" where
  "escape_refresh = [0xffffffff, 0x50000085, 0x50000000, 0xd8000001, 0xffffffff, 0xffffffff, 0xffffffff, 0xffffffff]"

definition escape_memcached :: "32 word list" where
  "escape_memcached = [0xffffffff, 0x00000021, 0, 0, 0, 0, 0, 0]"

definition escape_map :: "32 word list list" where
  "escape_map = [escape_uri, escape_args, escape_uri_component, escape_html, escape_refresh, escape_memcached, escape_memcached]"

definition hex_upper :: "u_char list" where "hex_upper = bytes ''0123456789ABCDEF''"

definition must_escape :: "32 word list \<Rightarrow> u_char \<Rightarrow> bool" where
  "must_escape tbl c \<longleftrightarrow> tbl ! unat (drop_bit 5 c) AND push_bit (unat (c AND 0x1f)) 1 \<noteq> 0"

text \<open>\<^verbatim>\<open>ngx_escape_uri\<close> with \<^verbatim>\<open>dst == NULL\<close> counts, otherwise it writes.\<close>

fun escape_count :: "nat \<Rightarrow> u_char list \<Rightarrow> nat" where
  "escape_count ty [] = 0"
| "escape_count ty (c # cs) = (if must_escape (escape_map ! ty) c then 1 else 0) + escape_count ty cs"

fun ngx_escape_uri :: "nat \<Rightarrow> u_char list \<Rightarrow> u_char list" where
  "ngx_escape_uri ty [] = []"
| "ngx_escape_uri ty (c # cs) =
    (if must_escape (escape_map ! ty) c
     then [0x25, hex_upper ! unat (drop_bit 4 c), hex_upper ! unat (c AND 0xf)]
     else [c]) @ ngx_escape_uri ty cs"

datatype unescape_state = un_usual | un_quoted | un_quoted_second

definition NGX_UNESCAPE_URI :: ngx_uint_t where "NGX_UNESCAPE_URI = 1"
definition NGX_UNESCAPE_REDIRECT :: ngx_uint_t where "NGX_UNESCAPE_REDIRECT = 2"

text \<open>
  \<^verbatim>\<open>ngx_unescape_uri\<close>: the bytes written and the bytes that were not read.  \<open>prev\<close> is \<^verbatim>\<open>*(s - 2)\<close>, the byte before
  the current one.
\<close>

fun unescape_loop ::
  "ngx_uint_t \<Rightarrow> unescape_state \<Rightarrow> u_char \<Rightarrow> u_char \<Rightarrow> u_char list \<Rightarrow> u_char list \<times> u_char list" where
  "unescape_loop ty st decoded prev [] = ([], [])"
| "unescape_loop ty st decoded prev (ch # s) =
    (let emit = (\<lambda>xs. map_prod ((@) xs) id (unescape_loop ty un_usual decoded ch s))
     in case st of
       un_usual \<Rightarrow>
         if ch = 0x3F \<and> ty AND (NGX_UNESCAPE_URI OR NGX_UNESCAPE_REDIRECT) \<noteq> 0 then ([ch], s)
         else if ch = 0x25 then unescape_loop ty un_quoted decoded ch s
         else emit [ch]
     | un_quoted \<Rightarrow>
         (case hex_val ch of
            Some d \<Rightarrow> unescape_loop ty un_quoted_second (of_int d) ch s
          | None \<Rightarrow> emit [ch])
     | un_quoted_second \<Rightarrow>
         (case hex_val ch of
            None \<Rightarrow> emit []
          | Some d \<Rightarrow>
              let c = push_bit 4 decoded + of_int d
              in if is_digit ch then
                   if ty AND NGX_UNESCAPE_REDIRECT \<noteq> 0 then
                     if c > 0x25 \<and> c < 0x7f then emit [c] else emit [0x25, prev, ch]
                   else emit [c]
                 else if ty AND NGX_UNESCAPE_URI \<noteq> 0 then
                   if c = 0x3F then ([c], s) else emit [c]
                 else if ty AND NGX_UNESCAPE_REDIRECT \<noteq> 0 then
                   if c = 0x3F then ([c], s)
                   else if c > 0x25 \<and> c < 0x7f then emit [c]
                   else emit [0x25, prev, ch]
                 else emit [c]))"

definition ngx_unescape_uri :: "ngx_uint_t \<Rightarrow> u_char list \<Rightarrow> u_char list \<times> u_char list" where
  "ngx_unescape_uri ty src = unescape_loop ty un_usual 0 0 src"

end
