(* ===== verification/Ngx_Uri_Escape.thy ===== *)
theory Ngx_Uri_Escape
  imports Ngx_Escape
begin

unbundle bit_operations_syntax

text \<open>Unescaping inverts escaping, and the escaped string has no byte left that had to be escaped.\<close>

section \<open>Hexadecimal digits\<close>

lemma less_16_cases:
  "n < (16 :: nat) \<longleftrightarrow> n \<in> {0, 1, 2, 3, 4, 5, 6, 7, 8, 9, 10, 11, 12, 13, 14, 15}"
  by (simp, arith)

lemma hex_val_upper: "n < 16 \<Longrightarrow> hex_val (hex_upper ! n) = Some (int n)"
  unfolding less_16_cases by (auto simp: hex_upper_def bytes_def hex_val_def is_digit_def)

lemma nibbles: "unat (drop_bit 4 c :: u_char) < 16" "unat (c AND 0xf :: u_char) < 16"
proof -
  show "unat (drop_bit 4 c :: u_char) < 16"
    using unsigned_less [of c, where ?'a = nat] by (simp add: drop_bit_eq_div unat_div_distrib)
  have "c AND 0xf = take_bit 4 c"
    by (simp add: take_bit_eq_mask mask_eq_exp_minus_1)
  then have "unat (c AND 0xf) = take_bit 4 (unat c)"
    by (simp add: unsigned_take_bit_eq)
  then show "unat (c AND 0xf :: u_char) < 16"
    using take_bit_nat_less_exp [of 4 "unat c"] by simp
qed

lemma byte_of_nibbles: "push_bit 4 (drop_bit 4 c) + (c AND 0xf) = (c :: u_char)"
proof -
  have "c AND 0xf = take_bit 4 c"
    by (simp add: take_bit_eq_mask mask_eq_exp_minus_1)
  then show ?thesis
    using bits_ident [of 4 c] by simp
qed

section \<open>The tables\<close>

lemma less_7_cases: "ty < (7 :: nat) \<longleftrightarrow> ty \<in> {0, 1, 2, 3, 4, 5, 6}"
  by (simp, arith)

lemmas escape_tables = escape_map_def escape_uri_def escape_args_def escape_uri_component_def escape_html_def escape_refresh_def
  escape_memcached_def

lemma must_escape_iff: "must_escape tbl c \<longleftrightarrow> bit (tbl ! unat (drop_bit 5 c)) (unat (c AND 0x1f))"
  by (simp add: must_escape_def push_bit_of_1 and_exp_eq_0_iff_not_bit)

lemma hex_not_escaped: "n < 16 \<Longrightarrow> ty < 7 \<Longrightarrow> \<not> must_escape (escape_map ! ty) (hex_upper ! n)"
  unfolding less_16_cases less_7_cases must_escape_iff
  by (auto simp: hex_upper_def bytes_def escape_tables)

lemma percent_escaped: "ty < 7 \<Longrightarrow> ty \<noteq> 4 \<Longrightarrow> must_escape (escape_map ! ty) 0x25"
  unfolding less_7_cases must_escape_iff by (auto simp: escape_tables)

section \<open>The round trip\<close>

lemma unescape_escaped:
  "unescape_loop 0 un_usual d p ([0x25, hex_upper ! unat (drop_bit 4 c), hex_upper ! unat (c AND 0xf)] @ s)
    = map_prod ((@) [c]) id (unescape_loop 0 un_usual (drop_bit 4 c) (hex_upper ! unat (c AND 0xf)) s)"
proof -
  have "of_int (int (unat (drop_bit 4 c))) = drop_bit 4 c" "of_int (int (unat (c AND 0xf))) = c AND 0xf"
    by simp_all
  then show ?thesis
    by (simp add: hex_val_upper nibbles byte_of_nibbles Let_def del: of_int_of_nat_eq)
qed

lemma unescape_usual:
  "c \<noteq> 0x25 \<Longrightarrow> unescape_loop 0 un_usual d p ([c] @ s) = map_prod ((@) [c]) id (unescape_loop 0 un_usual d c s)"
  by (simp add: Let_def)

lemma unescape_escape:
  assumes "ty < 7" and "ty \<noteq> 4"
  shows "unescape_loop 0 un_usual d p (ngx_escape_uri ty s) = (s, [])"
proof (induction s arbitrary: d p)
  case (Cons c s)
  show ?case
  proof (cases "must_escape (escape_map ! ty) c")
    case True
    then show ?thesis by (simp only: ngx_escape_uri.simps if_True unescape_escaped Cons.IH map_prod_simp id_apply) simp
  next
    case False
    then have "c \<noteq> 0x25" using percent_escaped [OF assms] by auto
    with False show ?thesis by (simp only: ngx_escape_uri.simps if_False unescape_usual not_False_eq_True Cons.IH map_prod_simp id_apply) simp
  qed
qed simp

lemma escaped_bytes:
  "ty < 7 \<Longrightarrow> c \<in> set (ngx_escape_uri ty s) \<Longrightarrow> c = 0x25 \<or> \<not> must_escape (escape_map ! ty) c"
  by (induction s) (auto simp: hex_not_escaped nibbles split: if_splits)

lemma escaped_length: "length (ngx_escape_uri ty s) = length s + 2 * escape_count ty s"
  by (induction s) auto

text \<open>C37: For every kind of escaping but the one for refresh headers, which leaves the percent sign alone, unescaping
  gives the original bytes and reads all of the input.  The escaped string has the length that the counting
  call announces, and no byte but the percent sign that would have to be escaped.\<close>

theorem escape_roundtrip:
  assumes "ty < 7" and "ty \<noteq> 4"
  shows "ngx_unescape_uri 0 (ngx_escape_uri ty s) = (s, [])
    \<and> length (ngx_escape_uri ty s) = length s + 2 * escape_count ty s
    \<and> (\<forall>c\<in>set (ngx_escape_uri ty s). c = 0x25 \<or> \<not> must_escape (escape_map ! ty) c)"
  using unescape_escape [OF assms] escaped_length escaped_bytes assms(1) by (auto simp: ngx_unescape_uri_def)

theorem escape_roundtrip_witness:
  "ngx_unescape_uri 0 (ngx_escape_uri 2 (bytes ''a b/c?'')) = (bytes ''a b/c?'', [])"
  using escape_roundtrip [of 2 "bytes ''a b/c?''"] by simp

end
