(* ===== verification/Http_Unsafe_Uri.thy ===== *)
theory Http_Unsafe_Uri
  imports Http_Uri Ngx_Uri_Escape
begin

text \<open>
  \<^verbatim>\<open>ngx_http_parse_unsafe_uri\<close> of \<^verbatim>\<open>src/http/ngx_http_parse.c\<close>: the check of a URI that does not come from
  the request line (an \<^verbatim>\<open>X-Accel-Redirect\<close> header, an SSI include, a DAV destination).  The list is the rest
  of the URI from \<^verbatim>\<open>p\<close> on, its length \<^verbatim>\<open>len\<close>.
\<close>

section \<open>The check\<close>

text \<open>The string starts with two dots that are followed by nothing or a slash.\<close>

definition dotdot_first :: "u_char list \<Rightarrow> bool" where
  "dotdot_first p =
    (case p of a # b # r \<Rightarrow> a = 0x2E \<and> b = 0x2E \<and> (r = [] \<or> hd r = 0x2F) | _ \<Rightarrow> False)"

text \<open>The first loop: \<open>None\<close> is the label \<^verbatim>\<open>unsafe\<close>; otherwise whether there was a percent sign, and the arguments.\<close>

fun unsafe_scan :: "bool \<Rightarrow> u_char list \<Rightarrow> (bool \<times> u_char list option) option" where
  "unsafe_scan quoted [] = Some (quoted, None)"
| "unsafe_scan quoted (ch # p) =
    (if ch = 0x25 then unsafe_scan True p
     else if is_usual ch then unsafe_scan quoted p
     else if ch = 0x3F then Some (quoted, Some p)
     else if ch = 0 then None
     else if ch = 0x2F \<and> dotdot_first p then None
     else unsafe_scan quoted p)"

text \<open>The second loop, over the unescaped URI.\<close>

fun safe_scan :: "u_char list \<Rightarrow> bool" where
  "safe_scan [] = True"
| "safe_scan (ch # p) = (if ch = 0 then False else if ch = 0x2F \<and> dotdot_first p then False else safe_scan p)"

text \<open>The new URI and the arguments; \<open>old_args\<close> is what \<^verbatim>\<open>args\<close> holds before.\<close>

definition ngx_http_parse_unsafe_uri :: "bool \<Rightarrow> u_char list \<Rightarrow> u_char list \<Rightarrow> int + u_char list \<times> u_char list" where
  "ngx_http_parse_unsafe_uri pnalloc uri old_args =
    (if uri = [] \<or> hd uri = 0x3F then Inl NGX_ERROR
     else if dotdot_first uri then Inl NGX_ERROR
     else case unsafe_scan False uri of
       None \<Rightarrow> Inl NGX_ERROR
     | Some (quoted, rest) \<Rightarrow>
         let (uri1, args) = (case rest of Some a \<Rightarrow> (take (length uri - length a - 1) uri, a) | None \<Rightarrow> (uri, old_args))
         in if \<not> quoted then Inr (uri1, args)
            else if \<not> pnalloc then Inl NGX_ERROR
            else let uri2 = fst (ngx_unescape_uri 0 uri1)
                 in if dotdot_first uri2 \<or> \<not> safe_scan uri2 then Inl NGX_ERROR else Inr (uri2, args))"

section \<open>Segments\<close>

definition dotdot :: "u_char list" where "dotdot = [0x2E, 0x2E]"

lemma hd_segments: "hd (segments xs) = takeWhile (\<lambda>c. c \<noteq> 0x2F) xs"
  by (induction xs) (auto split: list.split simp: neq_Nil_conv)

lemma takeWhile_eq_Nil: "takeWhile P r = [] \<longleftrightarrow> r = [] \<or> \<not> P (hd r)"
  by (cases r) auto

lemma dotdot_first_iff: "dotdot_first xs \<longleftrightarrow> hd (segments xs) = dotdot"
  unfolding hd_segments
  by (cases xs rule: list.exhaust [case_product list.exhaust]) (auto simp: dotdot_first_def dotdot_def takeWhile_eq_Nil split: list.splits)

lemma segments_split: "set (segments xs) = insert (hd (segments xs)) (set (tl (segments xs)))"
  by (metis list.exhaust_sel list.simps(15) segments_ne)

lemma safe_scan_segments: "safe_scan xs \<Longrightarrow> dotdot \<notin> set (tl (segments xs)) \<and> 0 \<notin> set xs"
proof (induction xs)
  case (Cons c xs)
  have IH: "dotdot \<notin> set (tl (segments xs)) \<and> 0 \<notin> set xs" and c: "c \<noteq> 0"
    using Cons by (auto split: if_splits)
  show ?case
  proof (cases "c = 0x2F")
    case True
    then have "\<not> dotdot_first xs" using Cons.prems by (auto split: if_splits)
    then show ?thesis
      using IH True c segments_split [of xs] by (auto simp: dotdot_first_iff)
  next
    case False
    then have "tl (segments (c # xs)) = tl (segments xs)"
      by (auto split: list.split)
    then show ?thesis using IH c by simp
  qed
qed simp

lemma safe_segments: "\<not> dotdot_first xs \<Longrightarrow> safe_scan xs \<Longrightarrow> dotdot \<notin> set (segments xs) \<and> 0 \<notin> set xs"
  using safe_scan_segments [of xs] segments_split [of xs] by (auto simp: dotdot_first_iff)

section \<open>What is accepted\<close>

lemma usual_not_special: "is_usual c \<Longrightarrow> c \<noteq> 0 \<and> c \<noteq> 0x2F \<and> c \<noteq> 0x3F"
  using not_usual by (auto simp: is_usual_def usual_def)

lemma scan_no_args: "unsafe_scan q xs = Some (q', None) \<Longrightarrow> safe_scan xs"
  by (induction q xs rule: unsafe_scan.induct) (auto split: if_splits dest: usual_not_special)

lemma scan_args: "unsafe_scan q xs = Some (q', Some a) \<Longrightarrow> 0x3F \<in> set xs"
  by (induction q xs rule: unsafe_scan.induct) (auto split: if_splits)

lemma scan_quoted: "unsafe_scan q xs = Some (q', a) \<Longrightarrow> q \<or> 0x25 \<in> set (takeWhile (\<lambda>c. c \<noteq> 0x3F) xs) \<Longrightarrow> q'"
  by (induction q xs rule: unsafe_scan.induct) (auto split: if_splits)

text \<open>C38: A URI that is accepted has no segment \<^verbatim>\<open>..\<close> and no NUL byte after decoding, if it has no arguments or an
  escape before them.\<close>

theorem unsafe_uri_safe:
  assumes "ngx_http_parse_unsafe_uri pnalloc uri old_args = Inr (u, args)"
    and "0x3F \<notin> set uri \<or> 0x25 \<in> set (takeWhile (\<lambda>c. c \<noteq> 0x3F) uri)"
  shows "[0x2E, 0x2E] \<notin> set (segments u) \<and> 0 \<notin> set u"
proof -
  obtain q rest where s: "unsafe_scan False uri = Some (q, rest)" and first: "\<not> dotdot_first uri"
    using assms(1) by (auto simp: ngx_http_parse_unsafe_uri_def split: if_splits option.splits)
  show ?thesis
  proof (cases q)
    case True
    then have "\<not> dotdot_first u \<and> safe_scan u"
      using assms(1) s by (auto simp: ngx_http_parse_unsafe_uri_def Let_def split: if_splits option.splits)
    then show ?thesis using safe_segments by (simp add: dotdot_def)
  next
    case False
    then have "0x3F \<notin> set uri"
      using assms(2) scan_quoted [OF s] by auto
    then have "rest = None" using s scan_args by (cases rest) auto
    then have "u = uri"
      using assms(1) s False by (auto simp: ngx_http_parse_unsafe_uri_def split: if_splits)
    then show ?thesis
      using safe_segments [OF first] scan_no_args s \<open>rest = None\<close> by (simp add: dotdot_def)
  qed
qed

theorem unsafe_uri_safe_witness:
  "\<exists>u args. ngx_http_parse_unsafe_uri True (bytes ''/a%2e/b'') [] = Inr (u, args) \<and> [0x2E, 0x2E] \<notin> set (segments u)"
proof -
  have r: "ngx_http_parse_unsafe_uri True (bytes ''/a%2e/b'') [] = Inr (bytes ''/a./b'', [])"
    by code_simp
  have "0x3F \<notin> set (bytes ''/a%2e/b'')"
    by code_simp
  then show ?thesis
    using unsafe_uri_safe [OF r] r by blast
qed

text \<open>Before arguments, and without an escape, two dots at the end are not noticed.\<close>

lemma unsafe_uri_query:
  "ngx_http_parse_unsafe_uri True (bytes ''/..?x'') [] = Inr (bytes ''/..'', bytes ''x'')"
  by code_simp

end
