(* ===== verification/Http_V2_Table.thy ===== *)
theory Http_V2_Table
  imports Ngx_Number
begin

text \<open>
  The dynamic table of the HPACK decoder, \<^verbatim>\<open>src/http/v2/ngx_http_v2_table.c\<close>: a ring of pointers to entries, entries that
  are used again after their deletion, and a ring of 4096 bytes for the names and values.  The entries are on a heap, by
  number; a pointer into the ring of bytes is an offset; bytes that were never written are \<open>None\<close>.  The counters
  \<^verbatim>\<open>added\<close>, \<^verbatim>\<open>deleted\<close> and \<^verbatim>\<open>reused\<close> are natural numbers, as no connection adds 2 to the 64 headers.
\<close>

section \<open>Data\<close>

definition NGX_HTTP_V2_TABLE_SIZE :: nat where "NGX_HTTP_V2_TABLE_SIZE = 4096"

type_synonym v2_header = "u_char list \<times> u_char list"

definition ngx_http_v2_static_table :: "v2_header list" where
  "ngx_http_v2_static_table = map (\<lambda>(n, v). (bytes n, bytes v)) [
    ('':authority'', ''''), ('':method'', ''GET''), ('':method'', ''POST''), ('':path'', ''/''), ('':path'', ''/index.html''),
    ('':scheme'', ''http''), ('':scheme'', ''https''), ('':status'', ''200''), ('':status'', ''204''), ('':status'', ''206''),
    ('':status'', ''304''), ('':status'', ''400''), ('':status'', ''404''), ('':status'', ''500''), (''accept-charset'', ''''),
    (''accept-encoding'', ''gzip, deflate''), (''accept-language'', ''''), (''accept-ranges'', ''''), (''accept'', ''''),
    (''access-control-allow-origin'', ''''), (''age'', ''''), (''allow'', ''''), (''authorization'', ''''),
    (''cache-control'', ''''), (''content-disposition'', ''''), (''content-encoding'', ''''), (''content-language'', ''''),
    (''content-length'', ''''), (''content-location'', ''''), (''content-range'', ''''), (''content-type'', ''''),
    (''cookie'', ''''), (''date'', ''''), (''etag'', ''''), (''expect'', ''''), (''expires'', ''''), (''from'', ''''),
    (''host'', ''''), (''if-match'', ''''), (''if-modified-since'', ''''), (''if-none-match'', ''''), (''if-range'', ''''),
    (''if-unmodified-since'', ''''), (''last-modified'', ''''), (''link'', ''''), (''location'', ''''), (''max-forwards'', ''''),
    (''proxy-authenticate'', ''''), (''proxy-authorization'', ''''), (''range'', ''''), (''referer'', ''''), (''refresh'', ''''),
    (''retry-after'', ''''), (''server'', ''''), (''set-cookie'', ''''), (''strict-transport-security'', ''''),
    (''transfer-encoding'', ''''), (''user-agent'', ''''), (''vary'', ''''), (''via'', ''''), (''www-authenticate'', '''')]"

record v2_entry =
  e_name_len :: nat
  e_name_data :: nat
  e_value_len :: nat
  e_value_data :: nat

record hpack =
  hp_entries :: "nat option list option"
  hp_added :: nat
  hp_deleted :: nat
  hp_reused :: nat
  hp_allocated :: nat
  hp_size :: int
  hp_free :: int
  hp_storage :: "u_char option list option"
  hp_pos :: nat
  hp_heap :: "nat \<Rightarrow> v2_entry option"
  hp_next :: nat

text \<open>The memory of a new connection is zeroed.\<close>

definition hpack_init :: hpack where
  "hpack_init = \<lparr>hp_entries = None, hp_added = 0, hp_deleted = 0, hp_reused = 0, hp_allocated = 0, hp_size = 0, hp_free = 0,
     hp_storage = None, hp_pos = 0, hp_heap = Map.empty, hp_next = 0\<rparr>"

section \<open>Access\<close>

text \<open>The pointer and the entry at a counter modulo the number of slots; a slot that was never written is an invalid pointer.\<close>

definition slot_at :: "hpack \<Rightarrow> nat \<Rightarrow> nat res" where
  "slot_at h k =
    bindR (derefR NullDeref (hp_entries h)) (\<lambda>es.
    bindR (guardR DivByZero (hp_allocated h \<noteq> 0)) (\<lambda>_.
    if k mod hp_allocated h < length es then derefR UseAfterFree (es ! (k mod hp_allocated h)) else Fault OutOfBounds))"

definition entry_at :: "hpack \<Rightarrow> nat \<Rightarrow> v2_entry res" where
  "entry_at h k = bindR (slot_at h k) (\<lambda>a. derefR UseAfterFree (hp_heap h a))"

definition read_ring :: "u_char option list \<Rightarrow> nat \<Rightarrow> nat \<Rightarrow> u_char list res" where
  "read_ring st p n =
    (if p + n \<le> length st then mapR (derefR OutOfBounds) (take n (drop p st)) else Fault OutOfBounds)"

definition write_ring :: "u_char option list \<Rightarrow> nat \<Rightarrow> u_char list \<Rightarrow> u_char option list res" where
  "write_ring st p xs =
    (if p + length xs \<le> length st then Ok (take p st @ map Some xs @ drop (p + length xs) st) else Fault OutOfBounds)"

section \<open>Lookup\<close>

definition copy_field :: "u_char option list \<Rightarrow> nat \<Rightarrow> nat \<Rightarrow> u_char list res" where
  "copy_field st data len =
    (let rest = NGX_HTTP_V2_TABLE_SIZE - data
     in if rest < len
        then bindR (read_ring st data rest) (\<lambda>a. bindR (read_ring st 0 (len - rest)) (\<lambda>b. Ok (a @ b)))
        else read_ring st data len)"

text \<open>\<open>hd0\<close> is \<^verbatim>\<open>state.header\<close> before; \<open>mem\<close> says which allocations succeed.\<close>

definition ngx_http_v2_get_indexed_header ::
  "(nat \<Rightarrow> bool) \<Rightarrow> hpack \<Rightarrow> v2_header \<Rightarrow> nat \<Rightarrow> bool \<Rightarrow> (int \<times> v2_header) res" where
  "ngx_http_v2_get_indexed_header mem h hd0 index name_only =
    (if index = 0 then Ok (NGX_ERROR, hd0)
     else if index - 1 < length ngx_http_v2_static_table then Ok (NGX_OK, ngx_http_v2_static_table ! (index - 1))
     else let i = index - 1 - length ngx_http_v2_static_table
       in if i < hp_added h - hp_deleted h then
            bindR (entry_at h (hp_added h - i - 1)) (\<lambda>e.
            if \<not> mem 0 then Ok (NGX_ERROR, hd0)
            else bindR (derefR NullDeref (hp_storage h)) (\<lambda>st.
              bindR (copy_field st (e_name_data e) (e_name_len e)) (\<lambda>n.
              if name_only then Ok (NGX_OK, (n, snd hd0))
              else if \<not> mem 1 then Ok (NGX_ERROR, (n, snd hd0))
              else bindR (copy_field st (e_value_data e) (e_value_len e)) (\<lambda>v. Ok (NGX_OK, (n, v))))))
          else Ok (NGX_ERROR, hd0))"

section \<open>Accounting\<close>

definition evict_one :: "hpack \<Rightarrow> hpack res" where
  "evict_one h =
    bindR (entry_at h (hp_deleted h)) (\<lambda>e.
      Ok (h\<lparr>hp_deleted := hp_deleted h + 1, hp_free := hp_free h + 32 + int (e_name_len e) + int (e_value_len e)\<rparr>))"

lemma evict_one_free: "evict_one h = Ok h' \<Longrightarrow> hp_free h < hp_free h'"
  by (auto simp: evict_one_def)

text \<open>Each turn frees at least 32 bytes, so the loop ends.\<close>

function evict :: "int \<Rightarrow> hpack \<Rightarrow> hpack res" where
  "evict need h = bindR (evict_one h) (\<lambda>h1. if hp_free h1 < need then evict need h1 else Ok h1)"
  by pat_completeness auto
termination
  by (relation "measure (\<lambda>(need, h). nat (need - hp_free h))") (auto dest: evict_one_free)

declare evict.simps [simp del]

definition ngx_http_v2_table_account :: "hpack \<Rightarrow> int \<Rightarrow> (int \<times> hpack) res" where
  "ngx_http_v2_table_account h len =
    (let need = len + 32
     in if need \<le> hp_free h then Ok (NGX_OK, h\<lparr>hp_free := hp_free h - need\<rparr>)
        else if hp_size h < need then Ok (NGX_DECLINED, h\<lparr>hp_deleted := hp_added h, hp_free := hp_size h\<rparr>)
        else bindR (evict need h) (\<lambda>h1. Ok (NGX_OK, h1\<lparr>hp_free := hp_free h1 - need\<rparr>)))"

definition ngx_http_v2_table_size :: "hpack \<Rightarrow> nat \<Rightarrow> (int \<times> hpack) res" where
  "ngx_http_v2_table_size h n =
    (if NGX_HTTP_V2_TABLE_SIZE < n then Ok (NGX_ERROR, h)
     else let needed = hp_size h - int n
       in bindR (if hp_free h < needed then evict needed h else Ok h) (\<lambda>h1.
          Ok (NGX_OK, h1\<lparr>hp_size := int n, hp_free := hp_free h1 - needed\<rparr>)))"

section \<open>Addition\<close>

text \<open>The arrays are allocated at the first addition; the boolean says whether it succeeded.\<close>

definition table_alloc :: "(nat \<Rightarrow> bool) \<Rightarrow> hpack \<Rightarrow> bool \<times> hpack" where
  "table_alloc mem h =
    (if hp_entries h = None then
       let h1 = h\<lparr>hp_allocated := 64, hp_size := int NGX_HTTP_V2_TABLE_SIZE, hp_free := int NGX_HTTP_V2_TABLE_SIZE\<rparr>
       in if \<not> mem 0 then (False, h1)
          else let h2 = h1\<lparr>hp_entries := Some (replicate 64 None)\<rparr>
            in if \<not> mem 1 then (False, h2)
               else (True, h2\<lparr>hp_storage := Some (replicate NGX_HTTP_V2_TABLE_SIZE None), hp_pos := 0\<rparr>)
     else (True, h))"

definition take_entry :: "(nat \<Rightarrow> bool) \<Rightarrow> hpack \<Rightarrow> (nat option \<times> hpack) res" where
  "take_entry mem h =
    (if hp_reused h = hp_deleted h then
       if \<not> mem 2 then Ok (None, h) else Ok (Some (hp_next h), h\<lparr>hp_next := hp_next h + 1\<rparr>)
     else bindR (slot_at h (hp_reused h)) (\<lambda>a. Ok (Some a, h\<lparr>hp_reused := hp_reused h + 1\<rparr>)))"

text \<open>The bytes of a field go to \<open>pos\<close>, in two parts when they reach the end of the ring.\<close>

definition store_name :: "u_char option list \<Rightarrow> nat \<Rightarrow> nat \<Rightarrow> u_char list \<Rightarrow> (u_char option list \<times> nat \<times> nat) res" where
  "store_name st pos avail xs =
    (if length xs \<le> avail then bindR (write_ring st pos xs) (\<lambda>st1. Ok (st1, pos + length xs, avail - length xs))
     else bindR (write_ring st pos (take avail xs)) (\<lambda>st1.
          bindR (write_ring st1 0 (drop avail xs)) (\<lambda>st2.
          Ok (st2, length xs - avail, NGX_HTTP_V2_TABLE_SIZE - length xs))))"

definition store_value :: "u_char option list \<Rightarrow> nat \<Rightarrow> nat \<Rightarrow> u_char list \<Rightarrow> (u_char option list \<times> nat) res" where
  "store_value st pos avail xs =
    (if length xs \<le> avail then bindR (write_ring st pos xs) (\<lambda>st1. Ok (st1, pos + length xs))
     else bindR (write_ring st pos (take avail xs)) (\<lambda>st1.
          bindR (write_ring st1 0 (drop avail xs)) (\<lambda>st2. Ok (st2, length xs - avail))))"

definition fill_entry :: "hpack \<Rightarrow> nat \<Rightarrow> v2_header \<Rightarrow> hpack res" where
  "fill_entry h a hdr =
    bindR (derefR NullDeref (hp_storage h)) (\<lambda>st.
    bindR (store_name st (hp_pos h) (NGX_HTTP_V2_TABLE_SIZE - hp_pos h) (fst hdr)) (\<lambda>(st1, pos1, avail1).
    bindR (store_value st1 pos1 avail1 (snd hdr)) (\<lambda>(st2, pos2).
    Ok (h\<lparr>hp_storage := Some st2, hp_pos := pos2,
        hp_heap := (hp_heap h)(a \<mapsto> \<lparr>e_name_len = length (fst hdr), e_name_data = hp_pos h, e_value_len = length (snd hdr), e_value_data = pos1\<rparr>)\<rparr>))))"

text \<open>A full array of pointers is copied in order to the front of a larger one.\<close>

definition grow_entries :: "(nat \<Rightarrow> bool) \<Rightarrow> hpack \<Rightarrow> (bool \<times> hpack) res" where
  "grow_entries mem h =
    (if hp_allocated h = hp_added h - hp_deleted h then
       if \<not> mem 3 then Ok (False, h)
       else bindR (derefR NullDeref (hp_entries h)) (\<lambda>es.
            bindR (guardR DivByZero (hp_allocated h \<noteq> 0)) (\<lambda>_.
            let index = hp_deleted h mod hp_allocated h
            in Ok (True, h\<lparr>hp_entries := Some (drop index es @ take index es @ replicate 64 None), hp_added := hp_allocated h,
                 hp_deleted := 0, hp_reused := 0, hp_allocated := hp_allocated h + 64\<rparr>)))
     else Ok (True, h))"

definition link_entry :: "hpack \<Rightarrow> nat \<Rightarrow> hpack res" where
  "link_entry h a =
    bindR (derefR NullDeref (hp_entries h)) (\<lambda>es.
    bindR (guardR DivByZero (hp_allocated h \<noteq> 0)) (\<lambda>_.
    if hp_added h mod hp_allocated h < length es
    then Ok (h\<lparr>hp_entries := Some (es[hp_added h mod hp_allocated h := Some a]), hp_added := hp_added h + 1\<rparr>)
    else Fault OutOfBounds))"

definition ngx_http_v2_add_header :: "(nat \<Rightarrow> bool) \<Rightarrow> hpack \<Rightarrow> v2_header \<Rightarrow> (int \<times> hpack) res" where
  "ngx_http_v2_add_header mem h hdr =
    (case table_alloc mem h of
       (False, h0) \<Rightarrow> Ok (NGX_ERROR, h0)
     | (True, h0) \<Rightarrow>
         bindR (ngx_http_v2_table_account h0 (int (length (fst hdr) + length (snd hdr)))) (\<lambda>(rc, h1).
         if rc \<noteq> NGX_OK then Ok (NGX_OK, h1)
         else bindR (take_entry mem h1) (\<lambda>(entry, h2).
           case entry of
             None \<Rightarrow> Ok (NGX_ERROR, h2)
           | Some a \<Rightarrow>
               bindR (fill_entry h2 a hdr) (\<lambda>h3.
               bindR (grow_entries mem h3) (\<lambda>(ok, h4).
               if \<not> ok then Ok (NGX_ERROR, h4)
               else bindR (link_entry h4 a) (\<lambda>h5. Ok (NGX_OK, h5)))))))"

end
