(* ===== verification/Http_V2_Ring.thy ===== *)
theory Http_V2_Ring
  imports Http_V2_Table
begin

text \<open>The ring of bytes: what is written at a position is read there, and the bytes behind it stay.\<close>

abbreviation N :: nat where "N \<equiv> NGX_HTTP_V2_TABLE_SIZE"

lemma N_pos [simp]: "0 < N"
  by (simp add: NGX_HTTP_V2_TABLE_SIZE_def)

definition ring :: "u_char option list \<Rightarrow> nat \<Rightarrow> nat \<Rightarrow> u_char option list" where
  "ring st p n = map (\<lambda>i. st ! ((p + i) mod N)) [0..<n]"

lemma length_ring [simp]: "length (ring st p n) = n"
  by (simp add: ring_def)

lemma nth_ring [simp]: "i < n \<Longrightarrow> ring st p n ! i = st ! ((p + i) mod N)"
  by (simp add: ring_def)

lemma ring_append: "ring st p (a + b) = ring st p a @ ring st (p + a) b"
  by (rule nth_equalityI) (auto simp: nth_append add.assoc)

lemma ring_mod: "p mod N = q mod N \<Longrightarrow> ring st p n = ring st q n"
  by (rule nth_equalityI) (auto intro!: arg_cong [where f = "\<lambda>i. st ! i"] mod_add_cong)

lemma ring_slice: "off + n \<le> m \<Longrightarrow> ring st (p + off) n = take n (drop off (ring st p m))"
  by (rule nth_equalityI) (auto simp: add.assoc)

lemma ring_plain: "p + n \<le> N \<Longrightarrow> length st = N \<Longrightarrow> ring st p n = take n (drop p st)"
  by (rule nth_equalityI) auto

section \<open>Reading\<close>

lemma mapR_deref_Some: "mapR (derefR e) (map Some xs) = Ok xs"
  by (induction xs) auto

lemma read_ring_ok: "length st = N \<Longrightarrow> p + n \<le> N \<Longrightarrow> ring st p n = map Some xs \<Longrightarrow> read_ring st p n = Ok xs"
  by (simp add: read_ring_def ring_plain [symmetric] mapR_deref_Some)

lemma copy_field_ok:
  assumes st: "length st = N" and "p \<le> N" and n: "n \<le> N" and r: "ring st p n = map Some xs"
  shows "copy_field st p n = Ok xs"
proof (cases "N - p < n")
  case True
  let ?a = "N - p"
  have "ring st p (?a + (n - ?a)) = map Some (take ?a xs @ drop ?a xs)" using r True by simp
  moreover have "ring st (p + ?a) (n - ?a) = ring st 0 (n - ?a)" using assms(2) by (intro ring_mod) simp
  ultimately have "ring st p ?a @ ring st 0 (n - ?a) = map Some (take ?a xs) @ map Some (drop ?a xs)"
    by (simp add: ring_append flip: map_append)
  moreover have "length xs = n" using arg_cong [OF r, of length] by simp
  ultimately have "ring st p ?a = map Some (take ?a xs)" "ring st 0 (n - ?a) = map Some (drop ?a xs)"
    using True by (simp_all add: append_eq_append_conv)
  then have "read_ring st p ?a = Ok (take ?a xs)" "read_ring st 0 (n - ?a) = Ok (drop ?a xs)"
    using st assms(2) n by (intro read_ring_ok; simp)+
  then show ?thesis using True by (simp add: copy_field_def Let_def)
next
  case False
  then show ?thesis using read_ring_ok [OF st _ r] assms(2) by (simp add: copy_field_def Let_def)
qed

section \<open>Writing\<close>

definition stored :: "u_char option list \<Rightarrow> nat \<Rightarrow> u_char list \<Rightarrow> u_char option list \<Rightarrow> bool" where
  "stored st p xs st' \<longleftrightarrow> length st' = N \<and> ring st' p (length xs) = map Some xs
    \<and> (\<forall>j. length xs \<le> j \<and> j < N \<longrightarrow> st' ! ((p + j) mod N) = st ! ((p + j) mod N))"

lemma write_ring_ok:
  assumes "length st = N" and "p + length xs \<le> N"
  obtains st' where "write_ring st p xs = Ok st'" and "length st' = N"
    and "\<And>i. i < N \<Longrightarrow> st' ! i = (if p \<le> i \<and> i < p + length xs then Some (xs ! (i - p)) else st ! i)"
proof
  let ?st = "take p st @ map Some xs @ drop (p + length xs) st"
  show "write_ring st p xs = Ok ?st" using assms by (simp add: write_ring_def)
  show "length ?st = N" using assms by simp
  show "?st ! i = (if p \<le> i \<and> i < p + length xs then Some (xs ! (i - p)) else st ! i)" if "i < N" for i
    using assms that by (auto simp: nth_append)
qed

lemma ring_index:
  assumes "p \<le> N" and "j < N"
  shows "(p + j) mod N = (if p + j < N then p + j else p + j - N)"
  using assms by (simp add: mod_if)

lemma wrap_mod:
  assumes "p \<le> N" and "N - p < n"
  shows "(n - (N - p)) mod N = (p + n) mod N"
proof -
  have "p + n = n - (N - p) + N" using assms by simp
  then show ?thesis by (simp only: mod_add_self2)
qed

lemma stored_once:
  assumes "length st = N" and "p + length xs \<le> N"
  obtains st' where "write_ring st p xs = Ok st'" and "stored st p xs st'"
proof -
  obtain st' where w: "write_ring st p xs = Ok st'" "length st' = N"
    "\<And>i. i < N \<Longrightarrow> st' ! i = (if p \<le> i \<and> i < p + length xs then Some (xs ! (i - p)) else st ! i)"
    using write_ring_ok [OF assms] by blast
  have "ring st' p (length xs) = map Some xs"
    using assms w(3) by (intro nth_equalityI) auto
  moreover have "st' ! ((p + j) mod N) = st ! ((p + j) mod N)" if "length xs \<le> j" "j < N" for j
    using assms(2) that w(3) [of "(p + j) mod N"] ring_index [of p j] by auto
  ultimately show thesis using w(1,2) by (intro that [of st']) (auto simp: stored_def)
qed

lemma stored_twice:
  assumes "length st = N" and "p \<le> N" and "length xs \<le> N" and "N - p < length xs"
  obtains st1 st2 where "write_ring st p (take (N - p) xs) = Ok st1" and "write_ring st1 0 (drop (N - p) xs) = Ok st2" and "stored st p xs st2"
proof -
  let ?a = "N - p"
  obtain st1 where w1: "write_ring st p (take ?a xs) = Ok st1" "length st1 = N"
    "\<And>i. i < N \<Longrightarrow> st1 ! i = (if p \<le> i \<and> i < p + ?a then Some (take ?a xs ! (i - p)) else st ! i)"
    by (rule write_ring_ok [of st p "take ?a xs"]) (use assms in auto)
  have le: "0 + length (drop ?a xs) \<le> N" using assms by simp
  obtain st2 where w2: "write_ring st1 0 (drop ?a xs) = Ok st2" "length st2 = N"
    "\<And>i. i < N \<Longrightarrow> st2 ! i = (if 0 \<le> i \<and> i < 0 + length (drop ?a xs) then Some (drop ?a xs ! (i - 0)) else st1 ! i)"
    using write_ring_ok [OF w1(2) le] by blast
  have "ring st2 p (length xs) = map Some xs"
  proof (rule nth_equalityI)
    fix i assume "i < length (ring st2 p (length xs))"
    then have i: "i < length xs" by simp
    have "st2 ! ((p + i) mod N) = Some (xs ! i)"
    proof (cases "p + i < N")
      case True
      then have "\<not> p + i < length xs - ?a" using assms by simp
      then show ?thesis using True w1(3) [of "p + i"] w2(3) [of "p + i"] i by simp
    next
      case False
      then have k: "(p + i) mod N = i - ?a" "i - ?a < length xs - ?a" "i - ?a < N" using i assms ring_index [of p i] by auto
      have "drop ?a xs ! (i - ?a) = xs ! i" using False assms(2) i by simp
      then show ?thesis using k w2(3) [of "i - ?a"] by simp
    qed
    then show "ring st2 p (length xs) ! i = map Some xs ! i" using i by simp
  qed simp
  moreover have "st2 ! ((p + j) mod N) = st ! ((p + j) mod N)" if "length xs \<le> j" "j < N" for j
  proof -
    have k: "(p + j) mod N = p + j - N" using that assms ring_index [of p j] by auto
    have "\<not> p + j - N < length xs - ?a" "p + j - N < p" "p + j - N < N" using that assms by auto
    then show ?thesis unfolding k using w1(3) [of "p + j - N"] w2(3) [of "p + j - N"] by simp
  qed
  ultimately show thesis using w1(1) w2(1,2) by (intro that) (auto simp: stored_def)
qed

text \<open>The two functions that store a field.\<close>

definition field_stored :: "u_char option list \<Rightarrow> nat \<Rightarrow> u_char list \<Rightarrow> u_char option list \<Rightarrow> nat \<Rightarrow> bool" where
  "field_stored st p xs st' p' \<longleftrightarrow> stored st p xs st' \<and> p' \<le> N \<and> p' mod N = (p + length xs) mod N"

lemma store_name_ok:
  assumes "length st = N" and "p \<le> N" and "length xs \<le> N"
  obtains st' p' avail where "store_name st p (N - p) xs = Ok (st', p', avail)" and "field_stored st p xs st' p'"
    and "avail = N - p' \<or> avail = N - length xs \<and> avail \<le> N - p'"
proof (cases "length xs \<le> N - p")
  case True
  have le: "p + length xs \<le> N" using True assms(2) by simp
  obtain st' where "write_ring st p xs = Ok st'" "stored st p xs st'"
    using stored_once [OF assms(1) le] by blast
  then show thesis
    using True assms(2) by (intro that [of st' "p + length xs" "N - p - length xs"]) (auto simp: store_name_def field_stored_def)
next
  case False
  then obtain st1 st2 where "write_ring st p (take (N - p) xs) = Ok st1" "write_ring st1 0 (drop (N - p) xs) = Ok st2" "stored st p xs st2"
    using stored_twice [OF assms] by auto
  moreover have "(length xs - (N - p)) mod N = (p + length xs) mod N"
    by (rule wrap_mod) (use False assms in auto)
  ultimately show thesis
    using False assms by (intro that [of st2 "length xs - (N - p)" "N - length xs"]) (auto simp: store_name_def field_stored_def)
qed

lemma store_value_ok:
  assumes "length st = N" and "p \<le> N" and "length xs \<le> N" and "avail = N - p \<or> length xs \<le> avail \<and> avail \<le> N - p"
  obtains st' p' where "store_value st p avail xs = Ok (st', p')" and "field_stored st p xs st' p'"
proof (cases "length xs \<le> avail")
  case True
  then have le: "p + length xs \<le> N" using assms(2,4) by auto
  obtain st' where "write_ring st p xs = Ok st'" "stored st p xs st'"
    using stored_once [OF assms(1) le] by blast
  then show thesis
    using True assms(2,4) by (intro that [of st' "p + length xs"]) (auto simp: store_value_def field_stored_def)
next
  case False
  then have a: "avail = N - p" using assms(4) by auto
  obtain st1 st2 where "write_ring st p (take (N - p) xs) = Ok st1" "write_ring st1 0 (drop (N - p) xs) = Ok st2" "stored st p xs st2"
    using stored_twice [OF assms(1-3)] False a by auto
  moreover have "(length xs - (N - p)) mod N = (p + length xs) mod N"
    by (rule wrap_mod) (use False a assms in auto)
  ultimately show thesis
    using False a assms by (intro that [of st2 "length xs - (N - p)"]) (auto simp: store_value_def field_stored_def)
qed

end
