(* ===== verification/Http_V2_Rep.thy ===== *)
theory Http_V2_Rep
  imports Http_V2_Ring
begin

text \<open>
  What the table stands for: the list \<open>L\<close> of its headers, the oldest first.  \<open>ids\<close> are the entries of the slots from \<^verbatim>\<open>reused\<close>
  to \<^verbatim>\<open>added\<close>: first those that wait to be used again, then those of the headers in \<open>L\<close>.  The bytes of all headers lie in
  the ring one after the other and end at \<^verbatim>\<open>pos\<close>.
\<close>

section \<open>The representation\<close>

definition field_bytes :: "v2_header \<Rightarrow> u_char list" where
  "field_bytes x = fst x @ snd x"

definition table_bytes :: "v2_header list \<Rightarrow> u_char list" where
  "table_bytes L = concat (map field_bytes L)"

definition entry_size :: "v2_header \<Rightarrow> int" where
  "entry_size x = 32 + int (length (fst x) + length (snd x))"

definition total_size :: "v2_header list \<Rightarrow> int" where
  "total_size L = sum_list (map entry_size L)"

lemma table_bytes_simps [simp]: "table_bytes [] = []" "table_bytes (x # L) = field_bytes x @ table_bytes L"
  "table_bytes (L @ M) = table_bytes L @ table_bytes M"
  by (simp_all add: table_bytes_def)

lemma total_size_simps [simp]: "total_size [] = 0" "total_size (x # L) = entry_size x + total_size L" "total_size (L @ M) = total_size L + total_size M"
  by (simp_all add: total_size_def)

lemma bytes_le_size: "int (length (table_bytes L)) \<le> total_size L"
  by (induction L) (auto simp: entry_size_def field_bytes_def)

lemma total_size_nonneg: "0 \<le> total_size L"
  using bytes_le_size [of L] by simp

lemma total_size_ge: "32 * int (length L) \<le> total_size L"
  by (induction L) (auto simp: entry_size_def)

text \<open>An entry for a header whose bytes, with those of the headers after it, end at \<open>pos\<close>.\<close>

definition entry_for :: "nat \<Rightarrow> v2_header list \<Rightarrow> v2_entry \<Rightarrow> bool" where
  "entry_for pos M e \<longleftrightarrow> e_name_len e = length (fst (hd M)) \<and> e_value_len e = length (snd (hd M)) \<and> e_name_data e \<le> N \<and> e_value_data e \<le> N
    \<and> e_name_data e mod N = (pos + (N - length (table_bytes M))) mod N \<and> e_value_data e mod N = (e_name_data e + e_name_len e) mod N"

definition ptrs_ok :: "hpack \<Rightarrow> nat option list \<Rightarrow> nat list \<Rightarrow> bool" where
  "ptrs_ok h es ids \<longleftrightarrow> hp_entries h = Some es \<and> length es = hp_allocated h \<and> (hp_allocated h = 64 \<or> hp_allocated h = 128)
    \<and> hp_reused h \<le> hp_deleted h \<and> hp_deleted h \<le> hp_added h \<and> length ids = hp_added h - hp_reused h \<and> length ids \<le> hp_allocated h
    \<and> (\<forall>i<length ids. es ! ((hp_reused h + i) mod hp_allocated h) = Some (ids ! i))
    \<and> distinct ids \<and> (\<forall>a\<in>set ids. a < hp_next h)"

definition data_ok :: "hpack \<Rightarrow> nat list \<Rightarrow> v2_header list \<Rightarrow> bool" where
  "data_ok h ids L \<longleftrightarrow> (\<exists>st. hp_storage h = Some st \<and> length st = N \<and> hp_pos h \<le> N
      \<and> ring st (hp_pos h + (N - length (table_bytes L))) (length (table_bytes L)) = map Some (table_bytes L))
    \<and> length L = hp_added h - hp_deleted h
    \<and> (\<forall>i<length L. \<exists>e. hp_heap h (ids ! (hp_deleted h - hp_reused h + i)) = Some e \<and> entry_for (hp_pos h) (drop i L) e)"

definition size_ok :: "hpack \<Rightarrow> v2_header list \<Rightarrow> bool" where
  "size_ok h L \<longleftrightarrow> 0 \<le> hp_size h \<and> hp_size h \<le> int N \<and> hp_free h = hp_size h - total_size L \<and> 0 \<le> hp_free h"

definition table_rep :: "hpack \<Rightarrow> v2_header list \<Rightarrow> bool" where
  "table_rep h L \<longleftrightarrow> (\<exists>es ids. ptrs_ok h es ids \<and> data_ok h ids L \<and> hp_next h = length ids) \<and> size_ok h L"

lemma ptrs_pos: "ptrs_ok h es ids \<Longrightarrow> 0 < hp_allocated h"
  by (auto simp: ptrs_ok_def)

lemma rep_bytes_le: "size_ok h L \<Longrightarrow> length (table_bytes L) \<le> N"
  using bytes_le_size [of L] by (simp add: size_ok_def)

section \<open>Lookup\<close>

lemma slot_at_ok:
  assumes "ptrs_ok h es ids" and "hp_reused h \<le> k" and "k < hp_added h"
  shows "slot_at h k = Ok (ids ! (k - hp_reused h))"
proof -
  have "k - hp_reused h < length ids" using assms by (simp add: ptrs_ok_def)
  then have "es ! (k mod hp_allocated h) = Some (ids ! (k - hp_reused h))"
    using assms unfolding ptrs_ok_def by (metis le_add_diff_inverse)
  then show ?thesis
    using assms(1) ptrs_pos [OF assms(1)] by (simp add: slot_at_def ptrs_ok_def guardR_def)
qed

lemma entry_at_ok:
  assumes "ptrs_ok h es ids" and "data_ok h ids L" and "i < length L"
  obtains e where "entry_at h (hp_deleted h + i) = Ok e" and "entry_for (hp_pos h) (drop i L) e"
proof -
  have le: "hp_reused h \<le> hp_deleted h" and len: "length L = hp_added h - hp_deleted h" "hp_deleted h \<le> hp_added h"
    using assms by (auto simp: ptrs_ok_def data_ok_def)
  obtain e where e: "hp_heap h (ids ! (hp_deleted h - hp_reused h + i)) = Some e" "entry_for (hp_pos h) (drop i L) e"
    using assms by (auto simp: data_ok_def)
  have "slot_at h (hp_deleted h + i) = Ok (ids ! (hp_deleted h + i - hp_reused h))"
    using slot_at_ok [OF assms(1), of "hp_deleted h + i"] le len assms(3) by simp
  moreover have "hp_deleted h + i - hp_reused h = hp_deleted h - hp_reused h + i" using le by simp
  ultimately show thesis using e by (intro that) (simp_all add: entry_at_def)
qed

text \<open>The fields of an entry are the bytes of its header.\<close>

lemma entry_fields:
  assumes rep: "data_ok h ids L" "size_ok h L" and i: "i < length L" and e: "entry_for (hp_pos h) (drop i L) e" and st: "hp_storage h = Some st"
  shows "copy_field st (e_name_data e) (e_name_len e) = Ok (fst (L ! i))" and "copy_field st (e_value_data e) (e_value_len e) = Ok (snd (L ! i))"
proof -
  let ?B = "length (table_bytes L)" and ?M = "drop i L"
  let ?off = "length (table_bytes (take i L))"
  have split: "table_bytes L = table_bytes (take i L) @ field_bytes (L ! i) @ table_bytes (drop (Suc i) L)"
    using arg_cong [OF id_take_nth_drop [OF i], of table_bytes] by (simp only: table_bytes_simps)
  have len: "length st = N" and r: "ring st (hp_pos h + (N - ?B)) ?B = map Some (table_bytes L)"
    using rep(1) st by (auto simp: data_ok_def)
  have B: "?B \<le> N" by (rule rep_bytes_le [OF rep(2)])
  have hdM: "hd ?M = L ! i" using i by (simp add: hd_drop_conv_nth)
  have M: "?B = ?off + length (table_bytes ?M)"
    using table_bytes_simps(3) [of "take i L" ?M] by (metis append_take_drop_id length_append)
  have slice: "ring st (hp_pos h + (N - ?B) + o') n = map Some (take n (drop o' (table_bytes L)))" if "o' + n \<le> ?B" for o' n
    using ring_slice [OF that, of st "hp_pos h + (N - ?B)"] unfolding r by (simp add: take_map drop_map)
  have "hp_pos h + (N - length (table_bytes ?M)) = hp_pos h + (N - ?B) + ?off" using M B by simp
  then have nd: "e_name_data e mod N = (hp_pos h + (N - ?B) + ?off) mod N"
    using e unfolding entry_for_def by (simp only:)
  have "e_value_data e mod N = (e_name_data e + length (fst (L ! i))) mod N"
    using e unfolding entry_for_def hdM by simp
  then have vd: "e_value_data e mod N = (hp_pos h + (N - ?B) + (?off + length (fst (L ! i)))) mod N"
    using mod_add_cong [OF nd refl, of "length (fst (L ! i))"] by (simp add: add.assoc)
  have "ring st (e_name_data e) (e_name_len e) = map Some (fst (L ! i))"
    using slice [of ?off "length (fst (L ! i))"] ring_mod [OF nd, of st] e split unfolding entry_for_def hdM by (simp add: field_bytes_def)
  then show "copy_field st (e_name_data e) (e_name_len e) = Ok (fst (L ! i))"
    using e B split unfolding entry_for_def hdM by (intro copy_field_ok [OF len]) (auto simp: field_bytes_def)
  have "ring st (e_value_data e) (e_value_len e) = map Some (snd (L ! i))"
    using slice [of "?off + length (fst (L ! i))" "length (snd (L ! i))"] ring_mod [OF vd, of st] e split unfolding entry_for_def hdM
    by (simp add: field_bytes_def)
  then show "copy_field st (e_value_data e) (e_value_len e) = Ok (snd (L ! i))"
    using e B split unfolding entry_for_def hdM by (intro copy_field_ok [OF len]) (auto simp: field_bytes_def)
qed

text \<open>A lookup of a dynamic entry, the newest first.\<close>

lemma get_dynamic:
  assumes rep: "table_rep h L" and i: "i < length L" and index: "index = 62 + i"
  shows "ngx_http_v2_get_indexed_header mem h hd0 index name_only =
    (let x = rev L ! i in
     if \<not> mem 0 then Ok (NGX_ERROR, hd0) else if name_only then Ok (NGX_OK, (fst x, snd hd0))
     else if \<not> mem 1 then Ok (NGX_ERROR, (fst x, snd hd0)) else Ok (NGX_OK, x))"
proof -
  obtain es ids where p: "ptrs_ok h es ids" and d: "data_ok h ids L" and z: "size_ok h L" using rep by (auto simp: table_rep_def)
  let ?j = "length L - Suc i"
  have j: "?j < length L" using i by simp
  have len: "length L = hp_added h - hp_deleted h" and le: "hp_deleted h \<le> hp_added h" using p d by (auto simp: ptrs_ok_def data_ok_def)
  obtain e where e: "entry_at h (hp_deleted h + ?j) = Ok e" "entry_for (hp_pos h) (drop ?j L) e"
    by (rule entry_at_ok [OF p d j])
  have k: "hp_added h - i - 1 = hp_deleted h + ?j" using len le i by simp
  obtain st where st: "hp_storage h = Some st" using d by (auto simp: data_ok_def)
  have x: "rev L ! i = L ! ?j" using i by (simp add: rev_nth)
  have n61: "length ngx_http_v2_static_table = 61" by (simp add: ngx_http_v2_static_table_def)
  show ?thesis
    using e(1) entry_fields [OF d z j e(2) st] i len unfolding ngx_http_v2_get_indexed_header_def Let_def n61 index
    by (simp add: k x st)
qed

section \<open>Eviction\<close>

lemma evict_one_ok:
  assumes rep: "table_rep h (x # L)"
  obtains h' where "evict_one h = Ok h'" and "table_rep h' L" and "hp_size h' = hp_size h"
proof -
  obtain es ids where p: "ptrs_ok h es ids" and d: "data_ok h ids (x # L)" and z: "size_ok h (x # L)" and k: "hp_next h = length ids" using rep by (auto simp: table_rep_def)
  obtain e where e: "entry_at h (hp_deleted h) = Ok e" "entry_for (hp_pos h) (x # L) e"
    by (rule entry_at_ok [OF p d, of 0]) auto
  let ?h = "h\<lparr>hp_deleted := hp_deleted h + 1, hp_free := hp_free h + 32 + int (e_name_len e) + int (e_value_len e)\<rparr>"
  have "evict_one h = Ok ?h" using e(1) by (simp add: evict_one_def)
  moreover have "size_ok ?h L"
    using z e(2) total_size_nonneg [of L] by (auto simp: size_ok_def entry_for_def entry_size_def)
  moreover have "ptrs_ok ?h es ids" using p d by (auto simp: ptrs_ok_def data_ok_def)
  moreover have "data_ok ?h ids L"
  proof -
    have le: "hp_reused h \<le> hp_deleted h" using p by (simp add: ptrs_ok_def)
    let ?B = "length (table_bytes (x # L))" and ?b = "length (field_bytes x)"
    obtain st where st: "hp_storage h = Some st" "length st = N" "hp_pos h \<le> N"
      "ring st (hp_pos h + (N - ?B)) ?B = map Some (table_bytes (x # L))"
      using d by (auto simp: data_ok_def)
    have "?B \<le> N" by (rule rep_bytes_le [OF z])
    then have pos: "hp_pos h + (N - length (table_bytes L)) = hp_pos h + (N - ?B) + ?b" by simp
    have "ring st (hp_pos h + (N - ?B) + ?b) (length (table_bytes L)) = map Some (table_bytes L)"
      using ring_slice [of ?b "length (table_bytes L)" ?B st "hp_pos h + (N - ?B)"] unfolding st(4) by simp
    moreover have "\<exists>e. hp_heap h (ids ! (hp_deleted h + 1 - hp_reused h + i)) = Some e \<and> entry_for (hp_pos h) (drop i L) e" if "i < length L" for i
    proof -
      have "hp_deleted h + 1 - hp_reused h + i = hp_deleted h - hp_reused h + Suc i" using le by simp
      then show ?thesis using d that unfolding data_ok_def by (metis Suc_less_eq drop_Suc_Cons length_Cons)
    qed
    moreover have "length L = hp_added h - (hp_deleted h + 1)" using d by (auto simp: data_ok_def)
    ultimately show ?thesis
      using st(1-3) unfolding data_ok_def by (simp add: pos)
  qed
  ultimately show thesis using k by (intro that [of ?h]) (auto simp: table_rep_def)
qed

text \<open>The oldest headers go until the rest fits.\<close>

fun shrink :: "int \<Rightarrow> v2_header list \<Rightarrow> v2_header list" where
  "shrink bnd [] = []"
| "shrink bnd (x # L) = (if total_size (x # L) \<le> bnd then x # L else shrink bnd L)"

lemma shrink_fits: "total_size L \<le> bnd \<Longrightarrow> shrink bnd L = L"
  by (cases L) simp_all

lemma shrink_size: "0 \<le> bnd \<Longrightarrow> total_size (shrink bnd L) \<le> bnd"
  by (induction L) simp_all

lemma evict_ok:
  assumes "table_rep h L" and "hp_free h < need" and "need \<le> hp_size h"
  shows "\<exists>h'. evict need h = Ok h' \<and> table_rep h' (shrink (hp_size h - need) L) \<and> hp_size h' = hp_size h"
  using assms
proof (induction L arbitrary: h)
  case Nil
  then show ?case by (simp add: table_rep_def size_ok_def)
next
  case (Cons x L)
  obtain h1 where h1: "evict_one h = Ok h1" "table_rep h1 L" "hp_size h1 = hp_size h"
    by (rule evict_one_ok [OF Cons.prems(1)])
  have "\<not> total_size (x # L) \<le> hp_size h - need" using Cons.prems by (auto simp: table_rep_def size_ok_def)
  then have s: "shrink (hp_size h - need) (x # L) = shrink (hp_size h - need) L" by simp
  show ?case
  proof (cases "hp_free h1 < need")
    case True
    then show ?thesis
      using Cons.IH [OF h1(2) True] Cons.prems(3) h1 s by (subst evict.simps) simp
  next
    case False
    then have "total_size L \<le> hp_size h - need" using h1 by (auto simp: table_rep_def size_ok_def)
    then show ?thesis using False h1 s by (subst evict.simps) (simp add: shrink_fits)
  qed
qed

end
