(* ===== verification/Http_V2_Add.thy ===== *)
theory Http_V2_Add
  imports Http_V2_Rep
begin

text \<open>The steps of an addition: room for the header, an entry, the bytes, the slot.\<close>

section \<open>Accounting\<close>

text \<open>The headers \<open>L\<close> are in the table and the size of one more is taken.\<close>

definition reserved :: "hpack \<Rightarrow> v2_header list \<Rightarrow> v2_header \<Rightarrow> bool" where
  "reserved h L x \<longleftrightarrow> hp_size h \<le> int N \<and> hp_free h = hp_size h - total_size L - entry_size x \<and> 0 \<le> hp_free h"

lemma entry_size_pos: "0 < entry_size x"
  by (simp add: entry_size_def)

lemma rep_free: "table_rep h L \<Longrightarrow> table_rep (h\<lparr>hp_free := f\<rparr>) L \<longleftrightarrow> f = hp_free h"
  by (auto simp: table_rep_def size_ok_def ptrs_ok_def data_ok_def)

lemma reserve:
  assumes "table_rep h L" and "entry_size x \<le> hp_free h"
  shows "\<exists>es ids. ptrs_ok (h\<lparr>hp_free := hp_free h - entry_size x\<rparr>) es ids \<and> data_ok (h\<lparr>hp_free := hp_free h - entry_size x\<rparr>) ids L
    \<and> reserved (h\<lparr>hp_free := hp_free h - entry_size x\<rparr>) L x \<and> hp_next h = length ids"
  using assms by (auto simp: table_rep_def size_ok_def ptrs_ok_def data_ok_def reserved_def)

lemma account_ok:
  assumes rep: "table_rep h L"
  shows "if entry_size x \<le> hp_size h
    then \<exists>h' es ids. ngx_http_v2_table_account h (int (length (fst x) + length (snd x))) = Ok (NGX_OK, h') \<and> hp_size h' = hp_size h
      \<and> ptrs_ok h' es ids \<and> data_ok h' ids (shrink (hp_size h - entry_size x) L) \<and> reserved h' (shrink (hp_size h - entry_size x) L) x
      \<and> hp_next h' = length ids
    else \<exists>h'. ngx_http_v2_table_account h (int (length (fst x) + length (snd x))) = Ok (NGX_DECLINED, h') \<and> hp_size h' = hp_size h \<and> table_rep h' []"
proof -
  let ?n = "int (length (fst x) + length (snd x))"
  have n: "?n + 32 = entry_size x" by (simp add: entry_size_def)
  have free: "hp_free h = hp_size h - total_size L" using rep by (simp add: table_rep_def size_ok_def)
  consider (room) "entry_size x \<le> hp_free h" | (large) "hp_size h < entry_size x" "hp_free h < entry_size x"
    | (evict) "hp_free h < entry_size x" "entry_size x \<le> hp_size h" by linarith
  then show ?thesis
  proof cases
    case room
    then have "entry_size x \<le> hp_size h" "shrink (hp_size h - entry_size x) L = L"
      using free total_size_nonneg [of L] by (auto intro: shrink_fits)
    moreover have "ngx_http_v2_table_account h ?n = Ok (NGX_OK, h\<lparr>hp_free := hp_free h - entry_size x\<rparr>)"
      using room by (simp only: ngx_http_v2_table_account_def Let_def n if_True)
    ultimately show ?thesis using reserve [OF rep room] by simp
  next
    case large
    let ?h = "h\<lparr>hp_deleted := hp_added h, hp_free := hp_size h\<rparr>"
    have "ngx_http_v2_table_account h ?n = Ok (NGX_DECLINED, ?h)"
      unfolding ngx_http_v2_table_account_def Let_def n using large by simp
    moreover have "table_rep ?h []"
    proof -
      obtain es ids where p: "ptrs_ok h es ids" and d: "data_ok h ids L" and z: "size_ok h L" and k: "hp_next h = length ids"
        using rep by (auto simp: table_rep_def)
      have "ptrs_ok ?h es ids" using p by (auto simp: ptrs_ok_def)
      moreover have "data_ok ?h ids []" using d by (auto simp: data_ok_def ring_def)
      moreover have "size_ok ?h []" using z by (auto simp: size_ok_def)
      ultimately show ?thesis using k by (auto simp: table_rep_def)
    qed
    ultimately show ?thesis using large by simp
  next
    case evict
    let ?M = "shrink (hp_size h - entry_size x) L"
    obtain h1 where h1: "evict (entry_size x) h = Ok h1" "table_rep h1 ?M" "hp_size h1 = hp_size h"
      using evict_ok [OF rep evict] by blast
    have "ngx_http_v2_table_account h ?n = Ok (NGX_OK, h1\<lparr>hp_free := hp_free h1 - entry_size x\<rparr>)"
      unfolding ngx_http_v2_table_account_def Let_def n using evict h1(1) by simp
    moreover have "entry_size x \<le> hp_free h1"
      using h1(2,3) shrink_size [of "hp_size h - entry_size x" L] evict(2) by (simp add: table_rep_def size_ok_def)
    ultimately show ?thesis using evict h1(3) reserve [OF h1(2), of x] by auto
  qed
qed

section \<open>An entry\<close>

lemma data_ok_cong:
  assumes "data_ok h ids L" and "hp_storage h' = hp_storage h" "hp_pos h' = hp_pos h" "hp_heap h' = hp_heap h"
    "hp_added h' - hp_deleted h' = hp_added h - hp_deleted h"
    and "\<And>i. i < length L \<Longrightarrow> ids' ! (hp_deleted h' - hp_reused h' + i) = ids ! (hp_deleted h - hp_reused h + i)"
  shows "data_ok h' ids' L"
  using assms unfolding data_ok_def by auto

lemma take_entry_ok:
  assumes p: "ptrs_ok h es ids" and d: "data_ok h ids L" and r: "reserved h L x" and k: "hp_next h = length ids" and mem: "mem 2"
  obtains a h' ids' where "take_entry mem h = Ok (Some a, h')" and "ptrs_ok h' es ids'" and "data_ok h' ids' L" and "reserved h' L x"
    and "a \<notin> set ids'" and "a < hp_next h'" and "hp_next h' = Suc (length ids')" and "length ids' < hp_allocated h' \<or> hp_reused h' = hp_deleted h'" and "hp_size h' = hp_size h"
proof (cases "hp_reused h = hp_deleted h")
  case True
  let ?h = "h\<lparr>hp_next := hp_next h + 1\<rparr>"
  show thesis
  proof (rule that [of "hp_next h" ?h ids])
    show "take_entry mem h = Ok (Some (hp_next h), ?h)" using True mem by (simp add: take_entry_def)
    show "ptrs_ok ?h es ids" using p by (auto simp: ptrs_ok_def)
    show "data_ok ?h ids L" by (rule data_ok_cong [OF d]) simp_all
    show "hp_next h \<notin> set ids" using p by (auto simp: ptrs_ok_def)
  qed (use r True k in \<open>auto simp: reserved_def\<close>)
next
  case False
  let ?h = "h\<lparr>hp_reused := hp_reused h + 1\<rparr>"
  have lt: "hp_reused h < hp_deleted h" "hp_deleted h \<le> hp_added h" and len: "length ids = hp_added h - hp_reused h"
    using p False by (auto simp: ptrs_ok_def)
  then obtain a ids' where ids: "ids = a # ids'" by (cases ids) auto
  have "slot_at h (hp_reused h) = Ok a"
    using slot_at_ok [OF p, of "hp_reused h"] lt ids by simp
  then have t: "take_entry mem h = Ok (Some a, ?h)" using False by (simp add: take_entry_def)
  show thesis
  proof (rule that [OF t])
    have "\<forall>i<length ids. es ! ((hp_reused h + i) mod hp_allocated h) = Some (ids ! i)" using p by (simp add: ptrs_ok_def)
    then have "es ! ((hp_reused h + 1 + i) mod hp_allocated h) = Some (ids' ! i)" if "i < length ids'" for i
      using that by (auto simp: ids dest: spec [of _ "Suc i"])
    then show "ptrs_ok ?h es ids'"
      using p lt unfolding ptrs_ok_def ids by auto
    show "data_ok ?h ids' L"
    proof (rule data_ok_cong [OF d])
      show "ids' ! (hp_deleted ?h - hp_reused ?h + i) = ids ! (hp_deleted h - hp_reused h + i)" for i
        using lt by (simp add: ids nth_Cons' Suc_diff_Suc)
    qed simp_all
    show "a \<notin> set ids'" "a < hp_next ?h" "length ids' < hp_allocated ?h \<or> hp_reused ?h = hp_deleted ?h"
      using p by (auto simp: ptrs_ok_def ids)
  qed (use r k ids in \<open>simp_all add: reserved_def\<close>)
qed

section \<open>The bytes\<close>

text \<open>The bytes of \<open>x\<close> follow those of \<open>L\<close>, and the entry \<open>a\<close> describes them, but no slot points to it yet.\<close>

definition pending :: "hpack \<Rightarrow> nat list \<Rightarrow> v2_header list \<Rightarrow> nat \<Rightarrow> v2_header \<Rightarrow> bool" where
  "pending h ids L a x \<longleftrightarrow> (\<exists>st. hp_storage h = Some st \<and> length st = N \<and> hp_pos h \<le> N
      \<and> ring st (hp_pos h + (N - length (table_bytes (L @ [x])))) (length (table_bytes (L @ [x]))) = map Some (table_bytes (L @ [x])))
    \<and> length L = hp_added h - hp_deleted h
    \<and> (\<forall>i<length (L @ [x]). \<exists>e. hp_heap h ((ids @ [a]) ! (hp_deleted h - hp_reused h + i)) = Some e \<and> entry_for (hp_pos h) (drop i (L @ [x])) e)"

lemma field_stored_two:
  assumes a: "field_stored st p xs st1 p1" and b: "field_stored st1 p1 ys st2 p2" and len: "B + length xs + length ys \<le> N"
    and old: "ring st (p + (N - B)) B = map Some zs"
  shows "p2 mod N = (p + length xs + length ys) mod N"
    and "ring st2 (p2 + (N - (B + length xs + length ys))) (B + length xs + length ys) = map Some (zs @ xs @ ys)"
proof -
  show p2: "p2 mod N = (p + length xs + length ys) mod N"
    using a b mod_add_cong [of p1 N "p + length xs" "length ys" "length ys"] by (simp add: field_stored_def)
  have p1: "p1 mod N = (p + length xs) mod N" using a by (simp add: field_stored_def)
  have keep1: "st1 ! ((p + j) mod N) = st ! ((p + j) mod N)" if "length xs \<le> j" "j < N" for j
    using a that by (simp add: field_stored_def stored_def)
  have keep2: "st2 ! ((p + length xs + j) mod N) = st1 ! ((p + length xs + j) mod N)" if "length ys \<le> j" "j < N" for j
  proof -
    have "(p1 + j) mod N = (p + length xs + j) mod N" using mod_add_cong [OF p1 refl, of j] .
    moreover have "st2 ! ((p1 + j) mod N) = st1 ! ((p1 + j) mod N)" using b that by (simp add: field_stored_def stored_def)
    ultimately show ?thesis by (simp only:)
  qed
  have kept: "st2 ! ((p + j) mod N) = st ! ((p + j) mod N)" if "length xs + length ys \<le> j" "j < N" for j
    using keep1 [of j] keep2 [of "j - length xs"] that by (simp add: add.assoc)
  have r0: "ring st2 (p + (N - B)) B = map Some zs"
    unfolding old [symmetric]
  proof (rule nth_equalityI)
    fix i assume "i < length (ring st2 (p + (N - B)) B)"
    then have i: "i < B" by simp
    have "st2 ! ((p + (N - B + i)) mod N) = st ! ((p + (N - B + i)) mod N)" using i len by (intro kept) simp_all
    then show "ring st2 (p + (N - B)) B ! i = ring st (p + (N - B)) B ! i" using i by (simp only: nth_ring add.assoc)
  qed simp
  have r1: "ring st2 p (length xs) = map Some xs"
  proof -
    have "st2 ! ((p + i) mod N) = st1 ! ((p + i) mod N)" if "i < length xs" for i
    proof -
      have "st2 ! ((p + length xs + (N + i - length xs)) mod N) = st1 ! ((p + length xs + (N + i - length xs)) mod N)"
        using that len by (intro keep2) auto
      moreover have "p + length xs + (N + i - length xs) = p + i + N" using that len by simp
      ultimately show ?thesis by simp
    qed
    then have "ring st2 p (length xs) = ring st1 p (length xs)" by (intro nth_equalityI) simp_all
    then show ?thesis using a by (simp add: field_stored_def stored_def)
  qed
  have r2: "ring st2 (p + length xs) (length ys) = map Some ys"
    using b ring_mod [OF p1, of st2] by (simp add: field_stored_def stored_def)
  have "ring st2 (p + (N - B)) (B + length xs + length ys)
      = ring st2 (p + (N - B)) B @ ring st2 (p + (N - B) + B) (length xs) @ ring st2 (p + (N - B) + B + length xs) (length ys)"
    by (simp add: ring_append add.assoc)
  also have "p + (N - B) + B = p + N" using len by simp
  also have "ring st2 (p + N) (length xs) = ring st2 p (length xs)" by (rule ring_mod) simp
  also have "ring st2 (p + N + length xs) (length ys) = ring st2 (p + length xs) (length ys)"
    by (rule ring_mod) (metis add.assoc add.commute mod_add_self2)
  finally have "ring st2 (p + (N - B)) (B + length xs + length ys) = map Some (zs @ xs @ ys)"
    by (simp add: r0 r1 r2)
  moreover have "(p2 + (N - (B + length xs + length ys))) mod N = (p + (N - B)) mod N"
  proof -
    have "(p2 + (N - (B + length xs + length ys))) mod N = (p + length xs + length ys + (N - (B + length xs + length ys))) mod N"
      by (rule mod_add_cong [OF p2 refl])
    also have "p + length xs + length ys + (N - (B + length xs + length ys)) = p + (N - B)" using len by simp
    finally show ?thesis .
  qed
  ultimately show "ring st2 (p2 + (N - (B + length xs + length ys))) (B + length xs + length ys) = map Some (zs @ xs @ ys)"
    using ring_mod by metis
qed

lemma fill_entry_ok:
  assumes p: "ptrs_ok h es ids" and d: "data_ok h ids L" and r: "reserved h L x" and a: "a \<notin> set ids"
  obtains h' where "fill_entry h a x = Ok h'" and "ptrs_ok h' es ids" and "pending h' ids L a x" and "reserved h' L x"
    and "hp_next h' = hp_next h" and "hp_allocated h' = hp_allocated h" and "hp_reused h' = hp_reused h" and "hp_deleted h' = hp_deleted h"
    and "hp_added h' = hp_added h" and "hp_size h' = hp_size h"
proof -
  let ?B = "length (table_bytes L)" and ?n = "length (fst x)" and ?v = "length (snd x)"
  have room: "?B + ?n + ?v \<le> N"
    using r bytes_le_size [of L] by (simp add: reserved_def entry_size_def)
  obtain st where st: "hp_storage h = Some st" "length st = N" "hp_pos h \<le> N" and old: "ring st (hp_pos h + (N - ?B)) ?B = map Some (table_bytes L)"
    using d by (auto simp: data_ok_def)
  have n: "?n \<le> N" and v: "?v \<le> N" using room by simp_all
  obtain st1 p1 av where w1: "store_name st (hp_pos h) (N - hp_pos h) (fst x) = Ok (st1, p1, av)" and f1: "field_stored st (hp_pos h) (fst x) st1 p1"
    and av: "av = N - p1 \<or> av = N - ?n \<and> av \<le> N - p1"
    by (rule store_name_ok [OF st(2,3) n])
  have p1: "length st1 = N" "p1 \<le> N" using f1 by (auto simp: field_stored_def stored_def)
  have "av = N - p1 \<or> ?v \<le> av \<and> av \<le> N - p1" using av room by auto
  then obtain st2 p2 where w2: "store_value st1 p1 av (snd x) = Ok (st2, p2)" and f2: "field_stored st1 p1 (snd x) st2 p2"
    using store_value_ok [OF p1 v] by blast
  let ?e = "\<lparr>e_name_len = ?n, e_name_data = hp_pos h, e_value_len = ?v, e_value_data = p1\<rparr>"
  let ?h = "h\<lparr>hp_storage := Some st2, hp_pos := p2, hp_heap := (hp_heap h)(a \<mapsto> ?e)\<rparr>"
  note two = field_stored_two [OF f1 f2 room old]
  have B: "length (table_bytes (L @ [x])) = ?B + ?n + ?v" "table_bytes (L @ [x]) = table_bytes L @ fst x @ snd x"
    by (simp_all add: field_bytes_def)
  have shift: "(p2 + (N - (k + (?n + ?v)))) mod N = (hp_pos h + (N - k)) mod N" if "k + ?n + ?v \<le> N" for k
  proof -
    have "(p2 + (N - (k + (?n + ?v)))) mod N = (hp_pos h + ?n + ?v + (N - (k + (?n + ?v)))) mod N"
      by (rule mod_add_cong [OF two(1) refl])
    also have "hp_pos h + ?n + ?v + (N - (k + (?n + ?v))) = hp_pos h + (N - k)" using that by simp
    finally show ?thesis .
  qed
  have len: "length L = hp_added h - hp_deleted h" "length ids = hp_added h - hp_reused h" "hp_reused h \<le> hp_deleted h" "hp_deleted h \<le> hp_added h"
    using p d by (auto simp: ptrs_ok_def data_ok_def)
  have ent: "\<exists>e. ((hp_heap h)(a \<mapsto> ?e)) ((ids @ [a]) ! (hp_deleted h - hp_reused h + i)) = Some e \<and> entry_for p2 (drop i (L @ [x])) e"
    if i: "i < length (L @ [x])" for i
  proof (cases "i < length L")
    case True
    let ?j = "hp_deleted h - hp_reused h + i"
    have j: "?j < length ids" using True len by simp
    obtain e where e: "hp_heap h (ids ! ?j) = Some e" "entry_for (hp_pos h) (drop i L) e" using d True by (auto simp: data_ok_def)
    have "ids ! ?j \<noteq> a" using a nth_mem [OF j] by auto
    moreover have "entry_for p2 (drop i (L @ [x])) e"
    proof -
      have M: "length (table_bytes (drop i L)) \<le> ?B"
        using table_bytes_simps(3) [of "take i L" "drop i L"] by (metis append_take_drop_id length_append le_add2)
      have "length (table_bytes (drop i (L @ [x]))) = length (table_bytes (drop i L)) + (?n + ?v)"
        using True by (simp add: field_bytes_def)
      then have "(p2 + (N - length (table_bytes (drop i (L @ [x]))))) mod N = (hp_pos h + (N - length (table_bytes (drop i L)))) mod N"
        using shift [of "length (table_bytes (drop i L))"] M room by simp
      moreover have "hd (drop i (L @ [x])) = hd (drop i L)" using True by (simp add: hd_append)
      ultimately show ?thesis using e(2) unfolding entry_for_def by (simp only:)
    qed
    ultimately show ?thesis using e(1) j by (auto simp: nth_append)
  next
    case False
    then have i: "i = length L" using i by simp
    then have j: "hp_deleted h - hp_reused h + i = length ids" using len by simp
    have "entry_for p2 [x] ?e"
      using f1 shift [of 0] room st(3) p1(2) by (simp add: entry_for_def field_bytes_def field_stored_def)
    then show ?thesis using i j by simp
  qed
  show thesis
  proof (rule that [of ?h])
    show "fill_entry h a x = Ok ?h" using st(1) w1 w2 by (simp add: fill_entry_def)
    show "ptrs_ok ?h es ids" using p by (auto simp: ptrs_ok_def)
    have "length st2 = N" "p2 \<le> N" using f2 by (auto simp: field_stored_def stored_def)
    then show "pending ?h ids L a x"
      unfolding pending_def using two(2) ent len(1) unfolding B by (simp add: add.assoc)
    show "reserved ?h L x" using r by (simp add: reserved_def)
  qed simp_all
qed

section \<open>The slot\<close>

lemma mod_neq:
  fixes i j n :: nat
  assumes "i < j" and "j - i < n"
  shows "i mod n \<noteq> j mod n"
proof
  assume "i mod n = j mod n"
  then have "n dvd j - i" using mod_eq_dvd_iff_nat [of i j n] assms(1) by simp
  with assms show False by (auto dest: dvd_imp_le)
qed

lemma rotated_nth:
  assumes "length es = n" and "k < n" and "i < n"
  shows "(drop k es @ take k es) ! i = es ! ((k + i) mod n)"
proof (cases "k + i < n")
  case True
  then show ?thesis using assms by (simp add: nth_append less_diff_conv add.commute)
next
  case False
  then have "(k + i) mod n = k + i - n" "\<not> i < n - k" "i - (n - k) = k + i - n" "k + i - n < k" using assms by (auto simp: mod_if)
  then show ?thesis using assms(1,2) by (simp add: nth_append)
qed

lemma pending_cong:
  assumes "pending h ids L a x" and "hp_storage h' = hp_storage h" "hp_pos h' = hp_pos h" "hp_heap h' = hp_heap h"
    "hp_added h' - hp_deleted h' = hp_added h - hp_deleted h" "hp_deleted h' - hp_reused h' = hp_deleted h - hp_reused h"
  shows "pending h' ids L a x"
  using assms unfolding pending_def by auto

lemma grown_ptrs:
  assumes "ptrs_ok h es ids" and "length ids = hp_allocated h" and "hp_allocated h = 64" and "length es' = hp_allocated h + 64"
    and "\<And>i. i < length ids \<Longrightarrow> es' ! i = Some (ids ! i)"
  shows "ptrs_ok (h\<lparr>hp_entries := Some es', hp_added := hp_allocated h, hp_deleted := 0, hp_reused := 0, hp_allocated := hp_allocated h + 64\<rparr>) es' ids"
  using assms by (simp add: ptrs_ok_def)

lemma grow_entries_ok:
  assumes p: "ptrs_ok h es ids" and d: "pending h ids L a x" and r: "reserved h L x" and mem: "mem 3"
    and full: "length ids < hp_allocated h \<or> hp_reused h = hp_deleted h"
  obtains h' es' where "grow_entries mem h = Ok (True, h')" and "ptrs_ok h' es' ids" and "pending h' ids L a x" and "reserved h' L x"
    and "length ids < hp_allocated h'" and "hp_next h' = hp_next h" and "hp_size h' = hp_size h"
proof -
  have le: "hp_reused h \<le> hp_deleted h" "hp_deleted h \<le> hp_added h" "length ids = hp_added h - hp_reused h" "length ids \<le> hp_allocated h"
    "length es = hp_allocated h" "hp_entries h = Some es" "0 < hp_allocated h"
    using p ptrs_pos [OF p] by (simp_all add: ptrs_ok_def)
  show thesis
  proof (cases "hp_allocated h = hp_added h - hp_deleted h")
    case True
    then have eq: "hp_reused h = hp_deleted h" "length ids = hp_allocated h" using le by auto
    have "length L < 128"
      using r total_size_ge [of L] by (simp add: reserved_def entry_size_def NGX_HTTP_V2_TABLE_SIZE_def)
    moreover have "length L = hp_allocated h" "hp_allocated h = 64 \<or> hp_allocated h = 128"
      using True d p by (auto simp: pending_def ptrs_ok_def)
    ultimately have a64: "hp_allocated h = 64" by auto
    let ?k = "hp_deleted h mod hp_allocated h"
    let ?es = "drop ?k es @ take ?k es @ replicate 64 None"
    let ?h = "h\<lparr>hp_entries := Some ?es, hp_added := hp_allocated h, hp_deleted := 0, hp_reused := 0, hp_allocated := hp_allocated h + 64\<rparr>"
    show thesis
    proof (rule that [of ?h ?es])
      show "grow_entries mem h = Ok (True, ?h)"
        using True mem le by (simp add: grow_entries_def guardR_def Let_def)
      have nth: "?es ! i = Some (ids ! i)" if "i < length ids" for i
      proof -
        have "?es ! i = (drop ?k es @ take ?k es) ! i"
          unfolding append_assoc [symmetric] using that eq le by (subst nth_append) simp
        also have "\<dots> = es ! ((?k + i) mod hp_allocated h)" using that eq le by (intro rotated_nth) simp_all
        also have "(?k + i) mod hp_allocated h = (hp_reused h + i) mod hp_allocated h" by (simp add: eq mod_add_left_eq)
        finally show ?thesis using p that by (simp add: ptrs_ok_def)
      qed
      have "length ?es = hp_allocated h + 64" using le by simp
      then show "ptrs_ok ?h ?es ids" by (rule grown_ptrs [OF p eq(2) a64 _ nth])
      show "pending ?h ids L a x" by (rule pending_cong [OF d]) (use True eq in simp_all)
      show "reserved ?h L x" using r by (simp add: reserved_def)
    qed (use eq in simp_all)
  next
    case False
    then have "length ids < hp_allocated h" using full le by auto
    then show thesis
      using False p d r by (intro that [of h es]) (simp_all add: grow_entries_def)
  qed
qed

lemma link_entry_ok:
  assumes p: "ptrs_ok h es ids" and d: "pending h ids L a x" and r: "reserved h L x" and room: "length ids < hp_allocated h"
    and a: "a \<notin> set ids" "hp_next h = Suc (length ids)" "a < hp_next h" and size: "0 \<le> hp_size h"
  obtains h' where "link_entry h a = Ok h'" and "table_rep h' (L @ [x])" and "hp_size h' = hp_size h"
proof -
  have le: "hp_reused h \<le> hp_deleted h" "hp_deleted h \<le> hp_added h" "length ids = hp_added h - hp_reused h"
    "length es = hp_allocated h" "hp_entries h = Some es" "0 < hp_allocated h"
    using p ptrs_pos [OF p] by (simp_all add: ptrs_ok_def)
  let ?k = "hp_added h mod hp_allocated h"
  let ?h = "h\<lparr>hp_entries := Some (es[?k := Some a]), hp_added := hp_added h + 1\<rparr>"
  have link: "link_entry h a = Ok ?h" using le by (simp add: link_entry_def guardR_def)
  have "ptrs_ok ?h (es[?k := Some a]) (ids @ [a])"
  proof -
    have "es[?k := Some a] ! ((hp_reused h + i) mod hp_allocated h) = Some ((ids @ [a]) ! i)" if "i < length (ids @ [a])" for i
    proof (cases "i < length ids")
      case True
      then have "(hp_reused h + i) mod hp_allocated h \<noteq> ?k" using le room by (intro mod_neq) simp_all
      then show ?thesis using True p by (simp add: nth_append ptrs_ok_def)
    next
      case False
      then have i: "i = length ids" using that by simp
      have "(ids @ [a]) ! i = a" by (simp add: i)
      moreover have "(hp_reused h + i) mod hp_allocated h = ?k" using i le by simp
      ultimately show ?thesis using le by simp
    qed
    then show ?thesis using p a room le unfolding ptrs_ok_def by auto
  qed
  moreover have "data_ok ?h (ids @ [a]) (L @ [x])"
    using d le unfolding pending_def data_ok_def by auto
  moreover have "size_ok ?h (L @ [x])"
    using r size by (simp add: size_ok_def reserved_def)
  moreover have "hp_next ?h = length (ids @ [a])" using a(2) by simp
  ultimately have "table_rep ?h (L @ [x])" unfolding table_rep_def by blast
  with link show thesis by (intro that [of ?h]) simp_all
qed

section \<open>The operations\<close>

text \<open>An addition to a table that has been allocated.\<close>

lemma add_header_rep:
  assumes rep: "table_rep h L" and mem: "mem 2" "mem 3"
  shows "\<exists>h'. ngx_http_v2_add_header mem h x = Ok (NGX_OK, h') \<and> hp_size h' = hp_size h
    \<and> table_rep h' (if entry_size x \<le> hp_size h then shrink (hp_size h - entry_size x) L @ [x] else [])"
proof -
  have alloc: "table_alloc mem h = (True, h)" and size: "0 \<le> hp_size h"
    using rep by (auto simp: table_alloc_def table_rep_def ptrs_ok_def size_ok_def)
  show ?thesis
  proof (cases "entry_size x \<le> hp_size h")
    case False
    then obtain h1 where "ngx_http_v2_table_account h (int (length (fst x) + length (snd x))) = Ok (NGX_DECLINED, h1)" "hp_size h1 = hp_size h"
      "table_rep h1 []" using account_ok [OF rep, of x] by (simp only: if_False) blast
    then show ?thesis using False alloc by (intro exI [of _ h1]) (simp add: ngx_http_v2_add_header_def ngx_rc_defs)
  next
    case True
    let ?M = "shrink (hp_size h - entry_size x) L"
    obtain h1 es ids where h1: "ngx_http_v2_table_account h (int (length (fst x) + length (snd x))) = Ok (NGX_OK, h1)" "hp_size h1 = hp_size h"
      "ptrs_ok h1 es ids" "data_ok h1 ids ?M" "reserved h1 ?M x" "hp_next h1 = length ids"
      using account_ok [OF rep, of x] True by (simp only: if_True) blast
    obtain a h2 ids2 where h2: "take_entry mem h1 = Ok (Some a, h2)" "ptrs_ok h2 es ids2" "data_ok h2 ids2 ?M" "reserved h2 ?M x"
      "a \<notin> set ids2" "a < hp_next h2" "hp_next h2 = Suc (length ids2)" "length ids2 < hp_allocated h2 \<or> hp_reused h2 = hp_deleted h2" "hp_size h2 = hp_size h1"
      by (rule take_entry_ok [where mem = mem, OF h1(3-6) mem(1)])
    obtain h3 where h3: "fill_entry h2 a x = Ok h3" "ptrs_ok h3 es ids2" "pending h3 ids2 ?M a x" "reserved h3 ?M x" "hp_next h3 = hp_next h2"
      "hp_allocated h3 = hp_allocated h2" "hp_reused h3 = hp_reused h2" "hp_deleted h3 = hp_deleted h2" "hp_size h3 = hp_size h2"
      by (rule fill_entry_ok [OF h2(2,3,4,5)])
    have full: "length ids2 < hp_allocated h3 \<or> hp_reused h3 = hp_deleted h3" using h2(8) h3(6-8) by simp
    obtain h4 es4 where h4: "grow_entries mem h3 = Ok (True, h4)" "ptrs_ok h4 es4 ids2" "pending h4 ids2 ?M a x" "reserved h4 ?M x"
      "length ids2 < hp_allocated h4" "hp_next h4 = hp_next h3" "hp_size h4 = hp_size h3"
      by (rule grow_entries_ok [where mem = mem, OF h3(2,3,4) mem(2) full])
    obtain h5 where h5: "link_entry h4 a = Ok h5" "table_rep h5 (?M @ [x])" "hp_size h5 = hp_size h4"
      by (rule link_entry_ok [OF h4(2,3,4,5) h2(5)]) (use h2(6,7) h3(5) h4(6,7) h3(9) h2(9) h1(2) size in simp_all)
    have "ngx_http_v2_add_header mem h x = Ok (NGX_OK, h5)"
      using alloc h1(1) h2(1) h3(1) h4(1) h5(1) by (simp add: ngx_http_v2_add_header_def)
    then show ?thesis using True h5(2,3) h4(7) h3(9) h2(9) h1(2) by simp
  qed
qed

lemma table_size_rep:
  assumes rep: "table_rep h L" and n: "n \<le> N"
  shows "\<exists>h'. ngx_http_v2_table_size h n = Ok (NGX_OK, h') \<and> hp_size h' = int n \<and> table_rep h' (shrink (int n) L)"
proof -
  let ?need = "hp_size h - int n"
  have z: "hp_free h = hp_size h - total_size L" "hp_size h \<le> int N" "0 \<le> hp_size h" using rep by (simp_all add: table_rep_def size_ok_def)
  have resize: "table_rep (h1\<lparr>hp_size := int n, hp_free := hp_free h1 - ?need\<rparr>) M"
    if "table_rep h1 M" "hp_size h1 = hp_size h" "total_size M \<le> int n" for h1 M
    using that n by (auto simp: table_rep_def size_ok_def ptrs_ok_def data_ok_def)
  show ?thesis
  proof (cases "hp_free h < ?need")
    case True
    then obtain h1 where h1: "evict ?need h = Ok h1" "table_rep h1 (shrink (int n) L)" "hp_size h1 = hp_size h"
      using evict_ok [OF rep True] by auto
    then show ?thesis
      using True n resize [OF h1(2,3)] shrink_size [of "int n" L] by (simp add: ngx_http_v2_table_size_def Let_def)
  next
    case False
    then have "total_size L \<le> int n" using z by simp
    then show ?thesis
      using False n resize [OF rep] by (simp add: ngx_http_v2_table_size_def Let_def shrink_fits)
  qed
qed

text \<open>The first addition allocates an empty table of the full size.\<close>

lemma table_alloc_rep:
  assumes "hp_entries h = None" "hp_added h = 0" "hp_deleted h = 0" "hp_reused h = 0" "hp_next h = 0" and "mem 0" "mem 1"
  obtains h' where "table_alloc mem h = (True, h')" and "table_rep h' []" and "hp_size h' = int N"
proof -
  let ?h = "h\<lparr>hp_allocated := 64, hp_size := int N, hp_free := int N, hp_entries := Some (replicate 64 None),
    hp_storage := Some (replicate N None), hp_pos := 0\<rparr>"
  have "table_alloc mem h = (True, ?h)" using assms by (simp add: table_alloc_def Let_def)
  moreover have "ptrs_ok ?h (replicate 64 None) []" "data_ok ?h [] []" "size_ok ?h []"
    using assms by (simp_all add: ptrs_ok_def data_ok_def size_ok_def ring_def)
  ultimately show thesis using assms by (intro that [of ?h]) (auto simp: table_rep_def)
qed

end
