(* ===== verification/Http_V2_Hpack.thy ===== *)
theory Http_V2_Hpack
  imports Http_V2_Add "HOL-Library.Sublist"
begin

text \<open>
  The table of RFC 7541 and \<^verbatim>\<open>ngx_http_v2_table.c\<close>.  The table that the code keeps (\<open>header_list\<close>) is a limit and a list, the
  newest header first; an index counts through the static table and then through this list.  The interface \<open>header_table\<close>
  says how the operations of an implementation follow it; what holds after any sequence of operations is proved there once,
  and the model of the code is an interpretation.  The table of the RFC (\<open>rfc_table\<close>) differs in one point: a size update takes
  effect at any time, also before the first addition; the simulation between the two says what this changes.
\<close>

section \<open>The table the code keeps\<close>

record header_list =
  t_used :: bool
  t_limit :: int
  t_headers :: "v2_header list"

definition t_init :: header_list where
  "t_init = \<lparr>t_used = False, t_limit = 4096, t_headers = []\<rparr>"

text \<open>The newest headers, as many as fit.\<close>

fun keep :: "int \<Rightarrow> v2_header list \<Rightarrow> v2_header list" where
  "keep bnd [] = []"
| "keep bnd (x # xs) = (if entry_size x \<le> bnd then x # keep (bnd - entry_size x) xs else [])"

definition t_add :: "header_list \<Rightarrow> v2_header \<Rightarrow> header_list" where
  "t_add t x = t\<lparr>t_used := True,
     t_headers := (if entry_size x \<le> t_limit t then x # keep (t_limit t - entry_size x) (t_headers t) else [])\<rparr>"

text \<open>An update of the size has an effect only after the first addition.\<close>

definition t_resize :: "header_list \<Rightarrow> nat \<Rightarrow> int \<times> header_list" where
  "t_resize t n =
    (if 4096 < n then (NGX_ERROR, t)
     else (NGX_OK, if t_used t then t\<lparr>t_limit := int n, t_headers := keep (int n) (t_headers t)\<rparr> else t))"

definition t_lookup :: "header_list \<Rightarrow> v2_header \<Rightarrow> nat \<Rightarrow> bool \<Rightarrow> int \<times> v2_header" where
  "t_lookup t hd0 index name_only =
    (let xs = ngx_http_v2_static_table @ t_headers t
     in if index = 0 \<or> length xs < index then (NGX_ERROR, hd0)
        else if name_only \<and> length ngx_http_v2_static_table < index then (NGX_OK, (fst (xs ! (index - 1)), snd hd0))
        else (NGX_OK, xs ! (index - 1)))"

section \<open>Sequences of operations\<close>

datatype table_op = AddHeader v2_header | SizeUpdate nat | Lookup v2_header nat bool

type_synonym answer = "int \<times> v2_header option"

definition t_step :: "header_list \<Rightarrow> table_op \<Rightarrow> answer \<times> header_list" where
  "t_step t op = (case op of
     AddHeader x \<Rightarrow> ((NGX_OK, None), t_add t x)
   | SizeUpdate n \<Rightarrow> (let (rc, t') = t_resize t n in ((rc, None), t'))
   | Lookup hd0 i b \<Rightarrow> (let (rc, x) = t_lookup t hd0 i b in ((rc, Some x), t)))"

fun t_run :: "header_list \<Rightarrow> table_op list \<Rightarrow> answer list \<times> header_list" where
  "t_run t [] = ([], t)"
| "t_run t (op # ops) = (let (a, t1) = t_step t op; (as, t2) = t_run t1 ops in (a # as, t2))"

text \<open>The same over the operations of an implementation.\<close>

definition table_step ::
  "('s \<Rightarrow> v2_header \<Rightarrow> (int \<times> 's) res) \<Rightarrow> ('s \<Rightarrow> nat \<Rightarrow> (int \<times> 's) res) \<Rightarrow> ('s \<Rightarrow> v2_header \<Rightarrow> nat \<Rightarrow> bool \<Rightarrow> (int \<times> v2_header) res)
    \<Rightarrow> 's \<Rightarrow> table_op \<Rightarrow> (answer \<times> 's) res" where
  "table_step add resize get h op = (case op of
     AddHeader x \<Rightarrow> bindR (add h x) (\<lambda>(rc, h'). Ok ((rc, None), h'))
   | SizeUpdate n \<Rightarrow> bindR (resize h n) (\<lambda>(rc, h'). Ok ((rc, None), h'))
   | Lookup hd0 i b \<Rightarrow> bindR (get h hd0 i b) (\<lambda>(rc, x). Ok ((rc, Some x), h)))"

fun table_run ::
  "('s \<Rightarrow> v2_header \<Rightarrow> (int \<times> 's) res) \<Rightarrow> ('s \<Rightarrow> nat \<Rightarrow> (int \<times> 's) res) \<Rightarrow> ('s \<Rightarrow> v2_header \<Rightarrow> nat \<Rightarrow> bool \<Rightarrow> (int \<times> v2_header) res)
    \<Rightarrow> 's \<Rightarrow> table_op list \<Rightarrow> (answer list \<times> 's) res" where
  "table_run add resize get h [] = Ok ([], h)"
| "table_run add resize get h (op # ops) =
    bindR (table_step add resize get h op) (\<lambda>(a, h1). bindR (table_run add resize get h1 ops) (\<lambda>(as, h2). Ok (a # as, h2)))"

text \<open>A connection that can allocate memory.\<close>

definition hpack_step :: "(nat \<Rightarrow> bool) \<Rightarrow> hpack \<Rightarrow> table_op \<Rightarrow> (answer \<times> hpack) res" where
  "hpack_step mem = table_step (ngx_http_v2_add_header mem) ngx_http_v2_table_size (ngx_http_v2_get_indexed_header mem)"

definition hpack_run :: "table_op list \<Rightarrow> (answer list \<times> hpack) res" where
  "hpack_run = table_run (ngx_http_v2_add_header (\<lambda>_. True)) ngx_http_v2_table_size (ngx_http_v2_get_indexed_header (\<lambda>_. True)) hpack_init"

section \<open>The interface\<close>

locale header_table =
  fixes init :: 's
    and add :: "'s \<Rightarrow> v2_header \<Rightarrow> (int \<times> 's) res"
    and resize :: "'s \<Rightarrow> nat \<Rightarrow> (int \<times> 's) res"
    and get :: "'s \<Rightarrow> v2_header \<Rightarrow> nat \<Rightarrow> bool \<Rightarrow> (int \<times> v2_header) res"
    and rep :: "'s \<Rightarrow> header_list \<Rightarrow> bool"
  assumes init_rep: "rep init t_init"
    and add_ok: "rep h t \<Longrightarrow> \<exists>h'. add h x = Ok (NGX_OK, h') \<and> rep h' (t_add t x)"
    and resize_ok: "rep h t \<Longrightarrow> \<exists>h'. resize h n = Ok (fst (t_resize t n), h') \<and> rep h' (snd (t_resize t n))"
    and get_ok: "rep h t \<Longrightarrow> get h hd0 i b = Ok (t_lookup t hd0 i b)"
begin

lemma step_refines:
  assumes "rep h t"
  shows "\<exists>h'. table_step add resize get h op = Ok (fst (t_step t op), h') \<and> rep h' (snd (t_step t op))"
proof (cases op)
  case (AddHeader x)
  then show ?thesis using add_ok [OF assms, of x] by (auto simp: table_step_def t_step_def)
next
  case (SizeUpdate n)
  then show ?thesis using resize_ok [OF assms, of n] by (auto simp: table_step_def t_step_def split: prod.splits)
next
  case (Lookup hd0 i b)
  then show ?thesis using assms get_ok [OF assms, of hd0 i b] by (auto simp: table_step_def t_step_def split: prod.splits)
qed

lemma run_refines:
  assumes "rep h t"
  shows "\<exists>h'. table_run add resize get h ops = Ok (fst (t_run t ops), h') \<and> rep h' (snd (t_run t ops))"
  using assms
proof (induction ops arbitrary: h t)
  case (Cons op ops)
  obtain h1 where h1: "table_step add resize get h op = Ok (fst (t_step t op), h1)" "rep h1 (snd (t_step t op))"
    using step_refines [OF Cons.prems] by blast
  then show ?case using Cons.IH [OF h1(2)] by (auto simp: split_beta)
qed simp

lemma init_run:
  obtains h where "table_run add resize get init ops = Ok (fst (t_run t_init ops), h)" and "rep h (snd (t_run t_init ops))"
  using run_refines [OF init_rep] by blast

end

section \<open>The code\<close>

text \<open>Without a table only the size has been touched; from the first addition on the table stands for its headers.\<close>

definition hpack_rep :: "hpack \<Rightarrow> header_list \<Rightarrow> bool" where
  "hpack_rep h t \<longleftrightarrow>
    (if t_used t then table_rep h (rev (t_headers t)) \<and> hp_size h = t_limit t
     else t_limit t = 4096 \<and> t_headers t = [] \<and> hp_entries h = None \<and> hp_added h = 0 \<and> hp_deleted h = 0 \<and> hp_reused h = 0
       \<and> hp_next h = 0 \<and> hp_allocated h = 0 \<and> 0 \<le> hp_size h \<and> hp_free h = hp_size h)"

lemma total_size_rev: "total_size (rev L) = total_size L"
  by (induction L) simp_all

lemma keep_append: "keep bnd (L @ [x]) = (if total_size (L @ [x]) \<le> bnd then L @ [x] else keep bnd L)"
proof (induction L arbitrary: bnd)
  case (Cons y L)
  have "0 \<le> total_size (L @ [x])" by (rule total_size_nonneg)
  then show ?case using Cons by (auto simp: algebra_simps)
qed simp

lemma keep_shrink: "keep bnd (rev L) = rev (shrink bnd L)"
  by (induction L) (simp_all add: keep_append total_size_rev algebra_simps)

lemma shrink_rev: "shrink bnd (rev L) = rev (keep bnd L)"
  using keep_shrink [of bnd "rev L"] by simp

lemma hpack_rep_add:
  assumes rep: "hpack_rep h t"
  shows "\<exists>h'. ngx_http_v2_add_header (\<lambda>_. True) h x = Ok (NGX_OK, h') \<and> hpack_rep h' (t_add t x)"
proof -
  have used: "\<exists>h'. ngx_http_v2_add_header (\<lambda>_. True) h x = Ok (NGX_OK, h') \<and> hpack_rep h' (t_add t x)"
    if "table_rep h (rev (t_headers t))" "hp_size h = t_limit t" for h
    using add_header_rep [OF that(1), of "\<lambda>_. True" x] that(2) by (auto simp: hpack_rep_def t_add_def shrink_rev split: if_splits)
  show ?thesis
  proof (cases "t_used t")
    case True
    then show ?thesis using rep by (intro used) (simp_all add: hpack_rep_def)
  next
    case False
    then have z: "hp_entries h = None" "hp_added h = 0" "hp_deleted h = 0" "hp_reused h = 0" "hp_next h = 0" "t_headers t = []" "t_limit t = 4096"
      using rep by (simp_all add: hpack_rep_def)
    obtain h1 where h1: "table_alloc (\<lambda>_. True) h = (True, h1)" "table_rep h1 []" "hp_size h1 = int N"
      by (rule table_alloc_rep [where mem = "\<lambda>_. True", OF z(1-5)]) simp_all
    then have "table_alloc (\<lambda>_. True) h1 = (True, h1)"
      by (auto simp: table_alloc_def table_rep_def ptrs_ok_def)
    then have "ngx_http_v2_add_header (\<lambda>_. True) h x = ngx_http_v2_add_header (\<lambda>_. True) h1 x"
      using h1(1) by (simp add: ngx_http_v2_add_header_def)
    then show ?thesis using used [of h1] h1(2,3) z(6,7) by (simp add: NGX_HTTP_V2_TABLE_SIZE_def)
  qed
qed

lemma hpack_rep_resize:
  assumes rep: "hpack_rep h t"
  shows "\<exists>h'. ngx_http_v2_table_size h n = Ok (fst (t_resize t n), h') \<and> hpack_rep h' (snd (t_resize t n))"
proof (cases "N < n")
  case True
  then show ?thesis using rep by (simp add: ngx_http_v2_table_size_def t_resize_def NGX_HTTP_V2_TABLE_SIZE_def)
next
  case False
  show ?thesis
  proof (cases "t_used t")
    case True
    then have "table_rep h (rev (t_headers t))" using rep by (simp add: hpack_rep_def)
    from table_size_rep [OF this, of n] False True show ?thesis
      by (auto simp: hpack_rep_def t_resize_def shrink_rev NGX_HTTP_V2_TABLE_SIZE_def)
  next
    case nu: False
    then show ?thesis
      using rep False by (auto simp: hpack_rep_def ngx_http_v2_table_size_def t_resize_def NGX_HTTP_V2_TABLE_SIZE_def Let_def)
  qed
qed

lemma static_length: "length ngx_http_v2_static_table = 61"
  by (simp add: ngx_http_v2_static_table_def)

lemma hpack_rep_lookup:
  assumes rep: "hpack_rep h t"
  shows "ngx_http_v2_get_indexed_header (\<lambda>_. True) h hd0 i b = Ok (t_lookup t hd0 i b)"
proof -
  have len: "hp_added h - hp_deleted h = length (t_headers t)"
    using rep by (auto simp: hpack_rep_def table_rep_def data_ok_def split: if_splits)
  consider "i = 0" | "0 < i" "i - 1 < 61" | "62 \<le> i" "i - 62 < length (t_headers t)" | "62 \<le> i" "\<not> i - 62 < length (t_headers t)"
    by linarith
  then show ?thesis
  proof cases
    case 3
    then have "t_used t" using rep by (auto simp: hpack_rep_def split: if_splits)
    then have "table_rep h (rev (t_headers t))" using rep by (simp add: hpack_rep_def)
    moreover have "(ngx_http_v2_static_table @ t_headers t) ! (i - 1) = t_headers t ! (i - 62)" "61 < i" "\<not> 61 + length (t_headers t) < i"
      using 3 by (auto simp: nth_append static_length)
    ultimately show ?thesis
      using 3 by (simp add: get_dynamic [where i = "i - 62"] t_lookup_def static_length Let_def)
  qed (auto simp: ngx_http_v2_get_indexed_header_def t_lookup_def static_length nth_append len Let_def)
qed

interpretation hpack: header_table hpack_init "ngx_http_v2_add_header (\<lambda>_. True)" ngx_http_v2_table_size
  "ngx_http_v2_get_indexed_header (\<lambda>_. True)" hpack_rep
proof
  show "hpack_rep hpack_init t_init"
    by (simp add: hpack_rep_def hpack_init_def t_init_def)
qed (fact hpack_rep_add hpack_rep_resize hpack_rep_lookup)+

lemma hpack_rep_memory: "hpack_rep h t \<Longrightarrow> hp_next h \<le> 128 \<and> hp_allocated h \<le> 128"
  by (auto simp: hpack_rep_def table_rep_def ptrs_ok_def split: if_splits)

section \<open>The table of RFC 7541\<close>

text \<open>Section 4: a maximum size of at most \<^verbatim>\<open>SETTINGS_HEADER_TABLE_SIZE\<close>, which is 4096 here; entries are evicted from the oldest on
  until the new entry, or the new maximum, fits.\<close>

record rfc_table =
  rfc_limit :: int
  rfc_headers :: "v2_header list"

definition rfc_init :: rfc_table where
  "rfc_init = \<lparr>rfc_limit = 4096, rfc_headers = []\<rparr>"

definition rfc_lookup :: "rfc_table \<Rightarrow> v2_header \<Rightarrow> nat \<Rightarrow> bool \<Rightarrow> answer" where
  "rfc_lookup t hd0 index name_only =
    (let xs = ngx_http_v2_static_table @ rfc_headers t
     in if index = 0 \<or> length xs < index then (NGX_ERROR, Some hd0)
        else if name_only \<and> length ngx_http_v2_static_table < index then (NGX_OK, Some (fst (xs ! (index - 1)), snd hd0))
        else (NGX_OK, Some (xs ! (index - 1))))"

definition rfc_step :: "rfc_table \<Rightarrow> table_op \<Rightarrow> answer \<times> rfc_table" where
  "rfc_step t op = (case op of
     AddHeader x \<Rightarrow> ((NGX_OK, None), t\<lparr>rfc_headers :=
       (if entry_size x \<le> rfc_limit t then x # keep (rfc_limit t - entry_size x) (rfc_headers t) else [])\<rparr>)
   | SizeUpdate n \<Rightarrow>
       if 4096 < n then ((NGX_ERROR, None), t)
       else ((NGX_OK, None), t\<lparr>rfc_limit := int n, rfc_headers := keep (int n) (rfc_headers t)\<rparr>)
   | Lookup hd0 i b \<Rightarrow> (rfc_lookup t hd0 i b, t))"

fun rfc_run :: "rfc_table \<Rightarrow> table_op list \<Rightarrow> answer list \<times> rfc_table" where
  "rfc_run t [] = ([], t)"
| "rfc_run t (op # ops) = (let (a, t1) = rfc_step t op; (as, t2) = rfc_run t1 ops in (a # as, t2))"

text \<open>The answer \<open>b\<close> of the RFC is given, or it is the error for an index outside its tables.\<close>

definition rfc_answer :: "table_op \<Rightarrow> answer \<Rightarrow> answer \<Rightarrow> bool" where
  "rfc_answer op a b \<longleftrightarrow> a = b \<or> (\<exists>hd0 i nm. op = Lookup hd0 i nm) \<and> fst b = NGX_ERROR"

text \<open>The simulation: the code's table has at least the headers of the RFC's.\<close>

definition rfc_sim :: "header_list \<Rightarrow> rfc_table \<Rightarrow> bool" where
  "rfc_sim t r \<longleftrightarrow> prefix (rfc_headers r) (t_headers t) \<and> rfc_limit r \<le> t_limit t
    \<and> (\<not> t_used t \<longrightarrow> t_limit t = 4096 \<and> t_headers t = [])"

lemma keep_prefix: "prefix xs ys \<Longrightarrow> a \<le> b \<Longrightarrow> prefix (keep a xs) (keep b ys)"
proof (induction xs arbitrary: ys a b)
  case (Cons x xs)
  then obtain zs where "ys = x # zs" "prefix xs zs" by (auto simp: prefix_Cons prefix_def)
  then show ?case using Cons.IH [of zs "a - entry_size x" "b - entry_size x"] Cons.prems(2) by simp
qed simp

lemma rfc_lookup_sim:
  assumes "prefix (rfc_headers r) (t_headers t)"
  shows "fst (rfc_lookup r hd0 i b) = NGX_ERROR
    \<or> rfc_lookup r hd0 i b = (let (rc, x) = t_lookup t hd0 i b in (rc, Some x))"
proof -
  obtain zs where z: "t_headers t = rfc_headers r @ zs" using assms by (auto simp: prefix_def)
  have "(ngx_http_v2_static_table @ t_headers t) ! (i - 1) = (ngx_http_v2_static_table @ rfc_headers r) ! (i - 1)"
    if "i \<noteq> 0" "i \<le> length (ngx_http_v2_static_table @ rfc_headers r)"
  proof -
    have "i - 1 < length (ngx_http_v2_static_table @ rfc_headers r)" using that by linarith
    then show ?thesis unfolding z append_assoc [symmetric] by (rule nth_append_left)
  qed
  then show ?thesis by (auto simp: rfc_lookup_def t_lookup_def z Let_def)
qed

lemma rfc_step_sim:
  assumes s: "rfc_sim t r"
  shows "rfc_sim (snd (t_step t op)) (snd (rfc_step r op)) \<and> rfc_answer op (fst (t_step t op)) (fst (rfc_step r op))"
proof (cases op)
  case (AddHeader x)
  have "prefix (keep (rfc_limit r - entry_size x) (rfc_headers r)) (keep (t_limit t - entry_size x) (t_headers t))"
    using s by (intro keep_prefix) (simp_all add: rfc_sim_def)
  then show ?thesis using s AddHeader
    by (auto simp: t_step_def rfc_step_def rfc_sim_def t_add_def rfc_answer_def)
next
  case (SizeUpdate n)
  have "prefix (keep (int n) (rfc_headers r)) (keep (int n) (t_headers t))"
    using s by (intro keep_prefix) (simp_all add: rfc_sim_def)
  then show ?thesis using s SizeUpdate
    by (auto simp: t_step_def rfc_step_def rfc_sim_def t_resize_def rfc_answer_def)
next
  case (Lookup hd0 i b)
  have "fst (rfc_lookup r hd0 i b) = NGX_ERROR
    \<or> rfc_lookup r hd0 i b = (let (rc, x) = t_lookup t hd0 i b in (rc, Some x))"
    using s by (intro rfc_lookup_sim) (simp add: rfc_sim_def)
  then show ?thesis using s Lookup by (auto simp: t_step_def rfc_step_def rfc_answer_def split: prod.splits)
qed

lemma rfc_run_sim:
  "rfc_sim t r \<Longrightarrow> list_all2 (\<lambda>op (a, b). rfc_answer op a b) ops (zip (fst (t_run t ops)) (fst (rfc_run r ops)))
    \<and> length (fst (t_run t ops)) = length ops \<and> length (fst (rfc_run r ops)) = length ops"
proof (induction ops arbitrary: t r)
  case (Cons op ops)
  show ?case using rfc_step_sim [OF Cons.prems, of op] Cons.IH [of "snd (t_step t op)" "snd (rfc_step r op)"]
    by (auto simp: split_beta)
qed simp

text \<open>No size update changes the maximum before the first addition.\<close>

fun late_updates :: "table_op list \<Rightarrow> bool" where
  "late_updates [] = True"
| "late_updates (AddHeader x # ops) = True"
| "late_updates (SizeUpdate n # ops) = (4096 \<le> n \<and> late_updates ops)"
| "late_updates (Lookup hd0 i b # ops) = late_updates ops"

definition rfc_same :: "header_list \<Rightarrow> rfc_table \<Rightarrow> bool" where
  "rfc_same t r \<longleftrightarrow> rfc_headers r = t_headers t \<and> rfc_limit r = t_limit t
    \<and> (\<not> t_used t \<longrightarrow> t_limit t = 4096 \<and> t_headers t = [])"

lemma rfc_run_same:
  "rfc_same t r \<Longrightarrow> t_used t \<or> late_updates ops \<Longrightarrow> fst (t_run t ops) = fst (rfc_run r ops)"
proof (induction ops arbitrary: t r)
  case (Cons op ops)
  have "fst (t_step t op) = fst (rfc_step r op) \<and> rfc_same (snd (t_step t op)) (snd (rfc_step r op))
      \<and> (t_used (snd (t_step t op)) \<or> late_updates ops)"
  proof (cases op)
    case (SizeUpdate n)
    then show ?thesis using Cons.prems
      by (cases "n = 4096") (auto simp: t_step_def rfc_step_def rfc_same_def t_resize_def)
  qed (use Cons.prems in \<open>auto simp: t_step_def rfc_step_def rfc_same_def t_add_def rfc_lookup_def t_lookup_def Let_def\<close>)
  then show ?case using Cons.IH [of "snd (t_step t op)" "snd (rfc_step r op)"] by (simp add: split_beta)
qed simp

section \<open>Memory that runs out\<close>

text \<open>An operation without the memory it needs is an error, and is otherwise the same.\<close>

definition or_error :: "(int \<times> 'a) res \<Rightarrow> (int \<times> 'a) res \<Rightarrow> bool" where
  "or_error r r' \<longleftrightarrow> r = r' \<or> (\<exists>x. r = Ok (NGX_ERROR, x))"

lemma or_error_refl [simp, intro]: "or_error r r"
  by (simp add: or_error_def)

lemma or_error_fail [simp, intro]: "or_error (Ok (NGX_ERROR, x)) r"
  by (auto simp: or_error_def)

lemma or_error_bind: "(\<And>y. or_error (f y) (g y)) \<Longrightarrow> or_error (bindR m f) (bindR m g)"
  by (cases m) (auto simp: or_error_def)

lemma grow_mem:
  "or_error (bindR (grow_entries mem h) (\<lambda>(ok, h4). if \<not> ok then Ok (NGX_ERROR, h4) else f h4))
    (bindR (grow_entries (\<lambda>_. True) h) (\<lambda>(ok, h4). if \<not> ok then Ok (NGX_ERROR, h4) else f h4))"
  by (auto simp: grow_entries_def)

lemma take_mem:
  assumes "\<And>a h2. or_error (f a h2) (g a h2)"
  shows "or_error (bindR (take_entry mem h) (\<lambda>(entry, h2). case entry of None \<Rightarrow> Ok (NGX_ERROR, h2) | Some a \<Rightarrow> f a h2))
    (bindR (take_entry (\<lambda>_. True) h) (\<lambda>(entry, h2). case entry of None \<Rightarrow> Ok (NGX_ERROR, h2) | Some a \<Rightarrow> g a h2))"
proof (cases "hp_reused h = hp_deleted h")
  case True
  then show ?thesis using assms by (auto simp: take_entry_def)
next
  case False
  have "or_error (bindR (slot_at h (hp_reused h)) (\<lambda>a. f a (h\<lparr>hp_reused := hp_reused h + 1\<rparr>)))
      (bindR (slot_at h (hp_reused h)) (\<lambda>a. g a (h\<lparr>hp_reused := hp_reused h + 1\<rparr>)))"
    by (rule or_error_bind [OF assms])
  then show ?thesis using False by (cases "slot_at h (hp_reused h)") (auto simp: take_entry_def)
qed

lemma add_header_mem: "or_error (ngx_http_v2_add_header mem h x) (ngx_http_v2_add_header (\<lambda>_. True) h x)"
proof (cases "fst (table_alloc mem h)")
  case False
  then show ?thesis by (auto simp: ngx_http_v2_add_header_def split: prod.splits bool.splits)
next
  case True
  then obtain h0 where h0: "table_alloc mem h = (True, h0)" "table_alloc (\<lambda>_. True) h = (True, h0)"
    by (cases "table_alloc mem h") (auto simp: table_alloc_def Let_def split: if_splits)
  show ?thesis
    unfolding ngx_http_v2_add_header_def h0 prod.case bool.case
    by (rule or_error_bind) (auto intro!: take_mem or_error_bind grow_mem)
qed

lemma get_mem: "or_error (ngx_http_v2_get_indexed_header mem h hd0 i b) (ngx_http_v2_get_indexed_header (\<lambda>_. True) h hd0 i b)"
  unfolding ngx_http_v2_get_indexed_header_def Let_def by (auto intro!: or_error_bind)

lemma step_mem:
  assumes "hpack_step (\<lambda>_. True) h op = Ok (a, h1)"
  shows "\<exists>b h'. hpack_step mem h op = Ok (b, h') \<and> (b = a \<and> h' = h1 \<or> fst b = NGX_ERROR)"
proof (cases op)
  case (AddHeader x)
  then show ?thesis
    using add_header_mem [of mem h x] assms by (cases "ngx_http_v2_add_header (\<lambda>_. True) h x") (auto simp: hpack_step_def table_step_def or_error_def)
next
  case (SizeUpdate n)
  then show ?thesis using assms by (auto simp: hpack_step_def table_step_def)
next
  case (Lookup hd0 i b)
  then show ?thesis
    using get_mem [of mem h hd0 i b] assms
    by (cases "ngx_http_v2_get_indexed_header (\<lambda>_. True) h hd0 i b") (auto simp: hpack_step_def table_step_def or_error_def)
qed

section \<open>Properties\<close>

text \<open>C26: The decoder's table against that of RFC 7541, after any sequence of additions, size updates and lookups on a new
  connection with memory available.  Every operation returns, with no access outside the ring, no invalid pointer and no
  division by zero.  Every answer that the RFC gives is given - an indexed header is that of the static table or of the
  list of the newest headers that fit, and a size above 4096 is an error - and when no size update precedes the first addition the
  answers are exactly those of the RFC.  With such an update, which the code forgets at the first addition, only an index
  that the RFC rejects may be answered differently.  The connection has never allocated more than 128 entries or 128 slots.\<close>

theorem hpack_table_refines_rfc7541:
  "\<exists>as h. hpack_run ops = Ok (as, h) \<and> length as = length ops
    \<and> list_all2 (\<lambda>op (a, b). rfc_answer op a b) ops (zip as (fst (rfc_run rfc_init ops)))
    \<and> (late_updates ops \<longrightarrow> as = fst (rfc_run rfc_init ops))
    \<and> hp_next h \<le> 128 \<and> hp_allocated h \<le> 128"
proof (rule hpack.init_run [of ops])
  fix h assume h: "table_run (ngx_http_v2_add_header (\<lambda>_. True)) ngx_http_v2_table_size (ngx_http_v2_get_indexed_header (\<lambda>_. True)) hpack_init ops
      = Ok (fst (t_run t_init ops), h)" and rep: "hpack_rep h (snd (t_run t_init ops))"
  have "rfc_sim t_init rfc_init" "rfc_same t_init rfc_init"
    by (simp_all add: rfc_sim_def rfc_same_def t_init_def rfc_init_def)
  from rfc_run_sim [OF this(1), of ops] rfc_run_same [OF this(2), of ops] hpack_rep_memory [OF rep] h
  show ?thesis unfolding hpack_run_def by (intro exI [of _ "fst (t_run t_init ops)"] exI [of _ h]) simp
qed

definition demo_ops :: "table_op list" where
  "demo_ops = [AddHeader (bytes ''a'', bytes ''1''), AddHeader (bytes ''b'', bytes ''2''), SizeUpdate 40,
     Lookup ([], []) 62 False, Lookup ([], []) 63 False]"

theorem hpack_table_refines_rfc7541_witness:
  "\<exists>as h. hpack_run demo_ops = Ok (as, h) \<and> as = fst (rfc_run rfc_init demo_ops)
    \<and> map fst as = [NGX_OK, NGX_OK, NGX_OK, NGX_OK, NGX_ERROR]"
proof -
  have "late_updates demo_ops" by (simp add: demo_ops_def)
  moreover have "map fst (fst (rfc_run rfc_init demo_ops)) = [NGX_OK, NGX_OK, NGX_OK, NGX_OK, NGX_ERROR]" by code_simp
  ultimately show ?thesis using hpack_table_refines_rfc7541 [of demo_ops] by fastforce
qed

text \<open>C27: Nor does a failed allocation make the table unsafe: after any sequence of operations, an operation for which any of its
  allocations fails still returns, and it returns either an error, which ends the connection, or what the specification
  returns.\<close>

theorem hpack_without_memory:
  "\<exists>as h b h'. hpack_run ops = Ok (as, h) \<and> hpack_step mem h op = Ok (b, h') \<and>
    (fst b = NGX_ERROR \<or> b = fst (t_step (snd (t_run t_init ops)) op) \<and> hpack_rep h' (snd (t_step (snd (t_run t_init ops)) op)))"
proof (rule hpack.init_run [of ops])
  fix h assume h: "table_run (ngx_http_v2_add_header (\<lambda>_. True)) ngx_http_v2_table_size (ngx_http_v2_get_indexed_header (\<lambda>_. True)) hpack_init ops
      = Ok (fst (t_run t_init ops), h)" and rep: "hpack_rep h (snd (t_run t_init ops))"
  obtain h1 where "hpack_step (\<lambda>_. True) h op = Ok (fst (t_step (snd (t_run t_init ops)) op), h1)"
    and "hpack_rep h1 (snd (t_step (snd (t_run t_init ops)) op))"
    using hpack.step_refines [OF rep, of op] unfolding hpack_step_def by blast
  with step_mem [OF this(1), of mem] h show ?thesis unfolding hpack_run_def by blast
qed

end
