(* ===== verification/Http_V2_Int.thy ===== *)
theory Http_V2_Int
  imports Ngx_Prelude
begin

text \<open>
  The integers of HPACK: \<^verbatim>\<open>ngx_http_v2_write_int\<close> of \<^verbatim>\<open>v2/ngx_http_v2_encode.c\<close> and \<^verbatim>\<open>ngx_http_v2_parse_int\<close> of
  \<^verbatim>\<open>v2/ngx_http_v2.c\<close>.  The first octet has a prefix of a few bits beside flags; a value that does not fit there goes on in octets of
  seven bits, the lowest first.  The reader accepts at most four octets.
\<close>

unbundle bit_operations_syntax

section \<open>Model\<close>

definition NGX_HTTP_V2_INT_OCTETS :: nat where "NGX_HTTP_V2_INT_OCTETS = 4"

definition ngx_http_v2_prefix :: "nat \<Rightarrow> ngx_uint_t" where
  "ngx_http_v2_prefix bits = push_bit bits 1 - 1"

text \<open>The octets after the first one.\<close>

function more_octets :: "ngx_uint_t \<Rightarrow> u_char list" where
  "more_octets value = (if 128 \<le> value then ucast (value mod 128 + 128) # more_octets (value div 128) else [ucast value])"
  by pat_completeness auto
termination
  by (relation "measure unat") (auto simp: word_le_nat_alt unat_div)

declare more_octets.simps [simp del]

text \<open>\<open>first\<close> is the octet at \<^verbatim>\<open>pos\<close> before, with the flags; the result is what is written from there on.\<close>

definition ngx_http_v2_write_int :: "u_char \<Rightarrow> ngx_uint_t \<Rightarrow> ngx_uint_t \<Rightarrow> u_char list" where
  "ngx_http_v2_write_int first pref value =
    (if value < pref then [first OR ucast value] else (first OR ucast pref) # more_octets (value - pref))"

text \<open>
  The loop over the octets before \<^verbatim>\<open>end\<close>, after \<open>k\<close> octets: \<open>len\<close> is \<^verbatim>\<open>state.length\<close>.  The result is the returned value, the octets
  that \<^verbatim>\<open>pos\<close> has passed, and \<^verbatim>\<open>state.length\<close> after.
\<close>

fun int_octets :: "nat \<Rightarrow> u_char list \<Rightarrow> nat \<Rightarrow> nat \<Rightarrow> ngx_uint_t \<Rightarrow> int \<times> nat \<times> nat" where
  "int_octets len [] k shift value =
    (if len \<le> k then (NGX_ERROR, 0, len) else if k = NGX_HTTP_V2_INT_OCTETS then (NGX_DECLINED, 0, len) else (NGX_AGAIN, 0, len))"
| "int_octets len (octet # os) k shift value =
    (let value' = value + push_bit shift (ucast octet AND 0x7F)
     in if octet < 128 then if len < k + 1 then (NGX_ERROR, 0, len) else (sint value', k + 1, len - (k + 1))
        else int_octets len os (k + 1) (shift + 7) value')"

definition ngx_http_v2_parse_int :: "nat \<Rightarrow> u_char list \<Rightarrow> ngx_uint_t \<Rightarrow> (int \<times> nat \<times> nat) res" where
  "ngx_http_v2_parse_int len buf pref =
    (case buf of
       [] \<Rightarrow> Fault OutOfBounds
     | p # ps \<Rightarrow>
         let value = ucast p AND pref
         in if value \<noteq> pref then if len = 0 then Ok (NGX_ERROR, 0, len) else Ok (sint value, 1, len - 1)
            else Ok (int_octets len (take (NGX_HTTP_V2_INT_OCTETS - 1) ps) 1 0 value))"

section \<open>Octets as digits\<close>

text \<open>An encoding ends with its first octet below 128.\<close>

fun octets_value :: "u_char list \<Rightarrow> nat" where
  "octets_value [] = 0"
| "octets_value (b # bs) = unat b mod 128 + 128 * octets_value bs"

lemma unat_and_7F: "unat (ucast (b :: u_char) AND 0x7F :: ngx_uint_t) = unat b mod 128"
proof -
  have "(ucast b AND 0x7F :: ngx_uint_t) = take_bit 7 (ucast b)"
    using take_bit_eq_mask [of 7 "ucast b :: ngx_uint_t"] by (simp add: mask_eq_exp_minus_1)
  moreover have "unat (ucast b :: ngx_uint_t) = unat b" 
  proof -
    have "unat b < 2 ^ 64" by (rule order_less_le_trans [OF unsigned_less]) simp
    then show ?thesis by (simp add: unsigned_ucast_eq take_bit_nat_eq_self)
  qed
  ultimately show ?thesis by (simp add: take_bit_eq_mod unat_mod)
qed

lemma unat_add_octet:
  assumes "unat v + 2 ^ s * (unat b mod 128) < 2 ^ 64"
  shows "unat (v + push_bit s (ucast (b :: u_char) AND 0x7F) :: ngx_uint_t) = unat v + 2 ^ s * (unat b mod 128)"
proof -
  have "unat (push_bit s (ucast b AND 0x7F) :: ngx_uint_t) = 2 ^ s * (unat b mod 128)"
    using assms unfolding unsigned_push_bit_eq unat_and_7F by (simp add: push_bit_eq_mult take_bit_eq_mod mult.commute)
  then show ?thesis using assms by (simp add: unat_plus_if_size word_size del: push_bit_and)
qed

text \<open>The octets of one encoding.\<close>

definition terminated :: "u_char list \<Rightarrow> bool" where
  "terminated bs \<longleftrightarrow> (\<exists>cs b. bs = cs @ [b] \<and> (\<forall>c\<in>set cs. 128 \<le> c) \<and> b < 128)"

lemma terminated_single: "terminated [b] \<longleftrightarrow> b < 128"
  by (auto simp: terminated_def)

lemma terminated_Cons: "bs \<noteq> [] \<Longrightarrow> terminated (b # bs) \<longleftrightarrow> 128 \<le> b \<and> terminated bs"
proof (cases bs rule: rev_cases)
  case (snoc cs c)
  have "b # cs @ [c] = ds @ [d] \<longleftrightarrow> ds = b # cs \<and> d = c" for ds d by (cases ds) auto
  then show ?thesis by (auto simp: terminated_def snoc)
qed simp

lemma more_octets_small: "unat v < 128 \<Longrightarrow> more_octets v = [ucast v] \<and> unat (ucast v :: u_char) = unat v"
  by (subst more_octets.simps) (simp add: word_le_nat_alt unsigned_ucast_eq take_bit_eq_mod)

lemma more_octets_large:
  assumes "128 \<le> unat v"
  obtains b where "more_octets v = b # more_octets (v div 128)" and "128 \<le> b" and "unat b mod 128 = unat v mod 128"
proof -
  let ?b = "ucast (v mod 128 + 128) :: u_char"
  have "unat (v mod 128 + 128) = unat v mod 128 + 128"
    by (simp add: unat_plus_if_size word_size unat_mod)
  then have b: "unat ?b = unat v mod 128 + 128" by (simp add: unsigned_ucast_eq take_bit_eq_mod)
  then have "128 \<le> ?b" by (simp add: word_le_nat_alt)
  then show thesis using assms b by (intro that [of ?b]) (simp_all add: more_octets.simps [of v] word_le_nat_alt)
qed

lemma more_octets_neq: "more_octets v \<noteq> []"
  by (subst more_octets.simps) simp

lemma more_octets_terminated: "terminated (more_octets v) \<and> octets_value (more_octets v) = unat v"
proof (induction v rule: more_octets.induct)
  case (1 v)
  show ?case
  proof (cases "128 \<le> unat v")
    case True
    then obtain b where b: "more_octets v = b # more_octets (v div 128)" "128 \<le> b" "unat b mod 128 = unat v mod 128"
      by (rule more_octets_large)
    have "terminated (more_octets (v div 128)) \<and> octets_value (more_octets (v div 128)) = unat v div 128"
      using 1 True by (simp add: word_le_nat_alt unat_div)
    then show ?thesis using b by (simp add: terminated_Cons more_octets_neq)
  next
    case False
    then show ?thesis using more_octets_small [of v] by (simp add: terminated_single word_less_nat_alt)
  qed
qed

lemma length_more_octets: "length (more_octets v) \<le> Suc n \<longleftrightarrow> unat v < 128 ^ Suc n"
proof (induction n arbitrary: v)
  case 0
  show ?case
  proof (cases "128 \<le> unat v")
    case True
    then obtain b where "more_octets v = b # more_octets (v div 128)" by (rule more_octets_large)
    then show ?thesis using True by (simp add: more_octets_neq)
  qed (simp add: more_octets_small)
next
  case (Suc n)
  show ?case
  proof (cases "128 \<le> unat v")
    case True
    then obtain b where "more_octets v = b # more_octets (v div 128)" by (rule more_octets_large)
    then show ?thesis using Suc [of "v div 128"] by (simp add: unat_div div_less_iff_less_mult mult.commute)
  next
    case False
    have "128 \<le> (128 :: nat) ^ Suc (Suc n)" using power_increasing [of 1 "Suc (Suc n)" "128 :: nat"] by (simp del: power_Suc)
    then have "unat v < 128 ^ Suc (Suc n)" using False by (simp only: not_le)
    then show ?thesis using False by (simp add: more_octets_small del: power_Suc)
  qed
qed

section \<open>The reader\<close>

lemma sint_small: "unat (w :: ngx_uint_t) < 2 ^ 63 \<Longrightarrow> sint w = int (unat w)"
proof -
  assume w: "unat w < 2 ^ 63"
  have "sint w = signed_take_bit 63 (int (unat w))" by (simp add: sint_uint)
  also have "\<dots> = int (unat w)"
  proof (rule signed_take_bit_int_eq_self)
    have "int (unat w) < int (2 ^ 63)" using w by (simp only: of_nat_less_iff)
    then show "int (unat w) < 2 ^ 63" by simp
    show "- (2 ^ 63) \<le> int (unat w)" by (rule order_trans [OF _ of_nat_0_le_iff]) simp
  qed
  finally show ?thesis .
qed

lemma int_octets_done:
  assumes "terminated bs" and "unat w + 2 ^ s * octets_value bs < 2 ^ 63"
  shows "int_octets len (bs @ rest) k s w =
    (if len < k + length bs then (NGX_ERROR, 0, len) else (int (unat w + 2 ^ s * octets_value bs), k + length bs, len - (k + length bs)))"
  using assms
proof (induction bs arbitrary: k s w)
  case Nil
  then show ?case by (simp add: terminated_def)
next
  case (Cons b bs)
  define v where "v = w + push_bit s (ucast b AND 0x7F)"
  have v: "unat v = unat w + 2 ^ s * (unat b mod 128)"
    unfolding v_def using Cons.prems(2) by (intro unat_add_octet) (simp add: distrib_left)
  show ?case
  proof (cases "bs = []")
    case True
    then have "b < 128" using Cons.prems(1) by (simp add: terminated_single)
    then show ?thesis using True v Cons.prems(2) by (simp add: sint_small Let_def v_def [symmetric] del: push_bit_and)
  next
    case False
    then have t: "128 \<le> b" "terminated bs" using Cons.prems(1) by (simp_all add: terminated_Cons)
    have sum: "unat v + 2 ^ (s + 7) * octets_value bs = unat w + 2 ^ s * octets_value (b # bs)"
      by (simp add: v power_add algebra_simps)
    have "int_octets len ((b # bs) @ rest) k s w = int_octets len (bs @ rest) (k + 1) (s + 7) v"
      using t(1) by (simp add: Let_def not_less [symmetric] v_def del: push_bit_and)
    then show ?thesis
      using Cons.IH [OF t(2), of v "s + 7" "k + 1"] Cons.prems(2) unfolding sum by simp
  qed
qed

lemma int_octets_more:
  assumes "\<forall>c\<in>set bs. 128 \<le> c"
  shows "int_octets len bs k s w = int_octets len [] (k + length bs) s w"
  using assms
proof (induction bs arbitrary: k s w)
  case (Cons b bs)
  then show ?case by (simp add: Let_def not_less [symmetric])
qed simp

lemma terminated_prefix:
  assumes "terminated bs" and "n < length bs"
  shows "\<forall>c\<in>set (take n bs). 128 \<le> c"
proof
  fix c assume "c \<in> set (take n bs)"
  moreover obtain cs b where "bs = cs @ [b]" "\<forall>c\<in>set cs. 128 \<le> c" using assms(1) by (auto simp: terminated_def)
  ultimately show "128 \<le> c" using assms(2) by (auto dest: in_set_takeD)
qed

section \<open>The first octet\<close>

lemma prefix_mask: "ngx_http_v2_prefix bits = mask bits"
  by (simp add: ngx_http_v2_prefix_def mask_eq_exp_minus_1 push_bit_eq_mult)

lemma unat_prefix: "bits \<le> 7 \<Longrightarrow> unat (ngx_http_v2_prefix bits) = 2 ^ bits - 1"
proof -
  assume "bits \<le> 7"
  then have "bits = 0 \<or> bits = 1 \<or> bits = 2 \<or> bits = 3 \<or> bits = 4 \<or> bits = 5 \<or> bits = 6 \<or> bits = 7" by arith
  then show ?thesis by (auto simp: ngx_http_v2_prefix_def)
qed

text \<open>The value in the prefix is read back, and the flags stay as they were.\<close>

lemma first_octet:
  fixes first :: u_char and v :: ngx_uint_t
  assumes bits: "bits \<le> 7" and flags: "first AND mask bits = 0" and v: "take_bit bits v = v"
  shows "ucast (first OR ucast v) AND mask bits = v" and "(first OR ucast v) AND NOT (mask bits) = first"
proof -
  have f: "\<not> bit first n" if "n < bits" for n
  proof -
    have "\<not> bit (first AND mask bits) n" by (simp add: flags)
    then show ?thesis using that bits by (simp add: bit_and_iff bit_mask_iff)
  qed
  have b: "n < bits" if "bit v n" for n
    using that v by (metis bit_take_bit_iff)
  have b8: "n < 8" if "bit v n" for n
    using b [OF that] bits by simp
  show "ucast (first OR ucast v) AND mask bits = v"
    using f b b8 bits by (intro bit_eqI) (auto simp: bit_and_iff bit_or_iff bit_mask_iff bit_ucast_iff)
  show "(first OR ucast v) AND NOT (mask bits) = first"
    using f b by (intro bit_eqI) (auto simp: bit_and_iff bit_or_iff bit_not_iff bit_mask_iff bit_ucast_iff)
qed

lemma ucast_prefix: "bits \<le> 7 \<Longrightarrow> ucast (ngx_http_v2_prefix bits) = (mask bits :: u_char)"
  unfolding prefix_mask by (intro bit_eqI) (auto simp: bit_ucast_iff bit_mask_iff)

section \<open>The round trip\<close>

text \<open>An encoding of more than one octet: what the loop does with the octets after the first one.\<close>

lemma int_octets_encoded:
  assumes "unat p + unat v < 2 ^ 63"
  shows "int_octets len (take 3 (more_octets v @ rest)) 1 0 p =
    (if unat v < 2 ^ 21
     then if len < 1 + length (more_octets v) then (NGX_ERROR, 0, len)
       else (int (unat p + unat v), 1 + length (more_octets v), len - (1 + length (more_octets v)))
     else if len \<le> 4 then (NGX_ERROR, 0, len) else (NGX_DECLINED, 0, len))"
proof (cases "unat v < 2 ^ 21")
  case True
  then have "length (more_octets v) \<le> 3" using length_more_octets [of v 2] by simp
  then have t: "take 3 (more_octets v @ rest) = more_octets v @ take (3 - length (more_octets v)) rest" by simp
  show ?thesis
    unfolding t using True assms more_octets_terminated [of v] by (subst int_octets_done) simp_all
next
  case False
  then have "3 < length (more_octets v)" using length_more_octets [of v 2] by (simp add: not_le)
  then have "take 3 (more_octets v @ rest) = take 3 (more_octets v)" "\<forall>c\<in>set (take 3 (more_octets v)). 128 \<le> c"
    using terminated_prefix [of "more_octets v" 3] more_octets_terminated [of v] by simp_all
  then show ?thesis
    using False \<open>3 < length (more_octets v)\<close> int_octets_more [of "take 3 (more_octets v)" len 1 0 p]
    by (simp add: NGX_HTTP_V2_INT_OCTETS_def)
qed

lemma int_octets_cut:
  assumes "n < length (more_octets v)" and "n < 3"
  shows "int_octets len (take 3 (take n (more_octets v))) 1 0 p = (if len \<le> n + 1 then NGX_ERROR else NGX_AGAIN, 0, len)"
proof -
  have "\<forall>c\<in>set (take n (more_octets v)). 128 \<le> c"
    using terminated_prefix more_octets_terminated assms(1) by blast
  then show ?thesis
    using assms int_octets_more [of "take n (more_octets v)" len 1 0 p] by (simp add: NGX_HTTP_V2_INT_OCTETS_def min_def)
qed

text \<open>C28: Reading an integer that was written gives it back, with whatever follows.  \<open>es\<close> are the octets written for \<open>v\<close> with a
  prefix of \<open>bits\<close> bits over the flags \<open>first\<close>, and \<open>len\<close> is what is left of the header block.  A value below \<open>2 ^ bits - 1 + 2 ^ 21\<close> takes at most four
  octets and is returned with \<^verbatim>\<open>pos\<close> and \<^verbatim>\<open>state.length\<close> moved over them, or is an error if the block is too short; a larger
  value is declined; if only a part has been received the reader asks for more and moves nothing.  The flags survive.\<close>

theorem hpack_int_roundtrip:
  assumes "bits \<le> 7" and "first AND ucast (ngx_http_v2_prefix bits) = 0" and "v < 2 ^ 63" and "es = ngx_http_v2_write_int first (ngx_http_v2_prefix bits) v"
  shows "ngx_http_v2_parse_int len (es @ rest) (ngx_http_v2_prefix bits) = Ok
      (if unat v < 2 ^ bits - 1 + 2 ^ 21
       then if len < length es then (NGX_ERROR, 0, len) else (int (unat v), length es, len - length es)
       else if len \<le> 4 then (NGX_ERROR, 0, len) else (NGX_DECLINED, 0, len))
    \<and> (length es \<le> 4 \<longleftrightarrow> unat v < 2 ^ bits - 1 + 2 ^ 21)
    \<and> (0 < n \<and> n < length es \<and> n < 4 \<longrightarrow>
        ngx_http_v2_parse_int len (take n es) (ngx_http_v2_prefix bits) = Ok (if len \<le> n then NGX_ERROR else NGX_AGAIN, 0, len))
    \<and> hd es AND NOT (ucast (ngx_http_v2_prefix bits)) = first"
proof -
  let ?p = "ngx_http_v2_prefix bits"
  have flags: "first AND mask bits = 0" using assms(1,2) by (simp add: ucast_prefix)
  have p: "unat ?p = 2 ^ bits - 1" "ucast ?p = (mask bits :: u_char)" using assms(1) by (simp_all add: unat_prefix ucast_prefix)
  have v63: "unat v < 2 ^ 63" using assms(3) by (simp add: word_less_nat_alt)
  show ?thesis
  proof (cases "v < ?p")
    case True
    then have lt: "unat v < 2 ^ bits - 1" by (simp add: word_less_nat_alt p)
    then have "take_bit bits v = v" by (simp add: word_unat_eq_iff unsigned_take_bit_eq take_bit_nat_eq_self)
    note o = first_octet [OF assms(1) flags this]
    have es: "es = [first OR ucast v]" using True assms(4) by (simp add: ngx_http_v2_write_int_def)
    have "ngx_http_v2_parse_int len (es @ rest) ?p = Ok (if len = 0 then (NGX_ERROR, 0, len) else (int (unat v), 1, len - 1))"
      using True o(1) v63 less_imp_neq [OF True] by (simp add: es ngx_http_v2_parse_int_def Let_def prefix_mask [symmetric] sint_small)
    then show ?thesis using lt o(2) by (auto simp: es p)
  next
    case False
    have o: "ucast (first OR ucast ?p) AND ?p = ?p" "(first OR ucast ?p) AND NOT (mask bits) = first"
      using first_octet [OF assms(1) flags, of ?p] by (simp_all add: prefix_mask)
    have es: "es = (first OR ucast ?p) # more_octets (v - ?p)" using False assms(4) by (simp add: ngx_http_v2_write_int_def)
    have ge: "2 ^ bits - 1 \<le> unat v" using False by (simp add: word_less_nat_alt p)
    have d: "unat (v - ?p) = unat v - (2 ^ bits - 1)" using False by (simp add: unat_sub word_le_nat_alt not_less p)
    have lt: "unat (v - ?p) < 2 ^ 21 \<longleftrightarrow> unat v < 2 ^ bits - 1 + 2 ^ 21" using ge unfolding d by auto
    have "unat ?p + unat (v - ?p) = unat v" using ge by (simp add: d p)
    then have "ngx_http_v2_parse_int len (es @ rest) ?p = Ok
      (if unat v < 2 ^ bits - 1 + 2 ^ 21
       then if len < length es then (NGX_ERROR, 0, len) else (int (unat v), length es, len - length es)
       else if len \<le> 4 then (NGX_ERROR, 0, len) else (NGX_DECLINED, 0, len))"
      using int_octets_encoded [of ?p "v - ?p" len rest] o(1) v63
      unfolding lt by (simp add: es ngx_http_v2_parse_int_def Let_def NGX_HTTP_V2_INT_OCTETS_def)
    moreover have "length es \<le> 4 \<longleftrightarrow> unat v < 2 ^ bits - 1 + 2 ^ 21"
      using length_more_octets [of "v - ?p" 2] lt by (simp add: es)
    moreover have "ngx_http_v2_parse_int len (take n es) ?p = Ok (if len \<le> n then NGX_ERROR else NGX_AGAIN, 0, len)"
      if n: "0 < n" "n < length es" "n < 4"
    proof -
      obtain k where "n = Suc k" using n(1) by (cases n) auto
      then show ?thesis
        using n int_octets_cut [of k "v - ?p" len ?p] o(1) by (simp add: es ngx_http_v2_parse_int_def Let_def NGX_HTTP_V2_INT_OCTETS_def)
    qed
    ultimately show ?thesis using o(2) by (simp add: es p)
  qed
qed

theorem hpack_int_roundtrip_witness:
  "ngx_http_v2_parse_int 9 (ngx_http_v2_write_int 0x40 (ngx_http_v2_prefix 6) 1337 @ [7]) (ngx_http_v2_prefix 6) = Ok (1337, 3, 6)
    \<and> ngx_http_v2_parse_int 9 (take 2 (ngx_http_v2_write_int 0x40 (ngx_http_v2_prefix 6) 1337)) (ngx_http_v2_prefix 6) = Ok (NGX_AGAIN, 0, 9)"
proof -
  let ?es = "ngx_http_v2_write_int 0x40 (ngx_http_v2_prefix 6) 1337"
  have len: "length ?es = 3"
    by (simp add: ngx_http_v2_write_int_def ngx_http_v2_prefix_def more_octets.simps)
  show ?thesis
    using hpack_int_roundtrip [of 6 "0x40" 1337 ?es 9 "[7]" 2] len by (simp add: ngx_http_v2_prefix_def)
qed

text \<open>Whatever is received, the reader stays inside it, moves over at most four octets and returns at most \<^verbatim>\<open>NGX_HTTP_V2_MAX_FIELD\<close>.\<close>

definition NGX_HTTP_V2_MAX_FIELD :: int where
  "NGX_HTTP_V2_MAX_FIELD = 127 + 2 ^ ((NGX_HTTP_V2_INT_OCTETS - 1) * 7) - 1"

lemma int_octets_bounds:
  assumes "unat w + 2 ^ s * (128 ^ length bs - 1) < 2 ^ 63" and "int_octets len bs k s w = (rc, j, len')"
  shows "rc \<in> {NGX_ERROR, NGX_AGAIN, NGX_DECLINED} \<and> j = 0 \<and> len' = len
    \<or> 0 \<le> rc \<and> rc \<le> int (unat w + 2 ^ s * (128 ^ length bs - 1)) \<and> k < j \<and> j \<le> k + length bs \<and> len = len' + j"
  using assms
proof (induction bs arbitrary: k s w)
  case Nil
  then show ?case by (auto split: if_splits)
next
  case (Cons b bs)
  define v where "v = w + push_bit s (ucast b AND 0x7F)"
  have m: "unat b mod 128 \<le> 127" by (simp add: less_Suc_eq_le [symmetric])
  have pow: "1 \<le> (128 :: nat) ^ length bs" by simp
  then have e: "2 ^ s * 127 + 2 ^ (s + 7) * (128 ^ length bs - 1) = 2 ^ s * (128 ^ length (b # bs) - 1 :: nat)"
    by (simp add: power_add diff_mult_distrib2 algebra_simps)
  have le: "2 ^ s * (unat b mod 128) \<le> 2 ^ s * (127 :: nat)" using m by (rule mult_le_mono2)
  have "unat w + 2 ^ s * (unat b mod 128) < 2 ^ 63" using Cons.prems(1) e le by linarith
  then have "unat v = unat w + 2 ^ s * (unat b mod 128)"
    unfolding v_def by (intro unat_add_octet) simp
  then have v: "unat v + 2 ^ (s + 7) * (128 ^ length bs - 1) \<le> unat w + 2 ^ s * (128 ^ length (b # bs) - 1)"
    using e le by linarith
  define B where "B = unat w + 2 ^ s * (128 ^ length (b # bs) - 1)"
  define C where "C = unat v + 2 ^ (s + 7) * (128 ^ length bs - 1)"
  have C: "C \<le> B" "C < 2 ^ 63" using v Cons.prems(1) unfolding C_def B_def by linarith+
  show ?case
  proof (cases "b < 128")
    case True
    obtain u where u: "unat v = u" by simp
    have "u \<le> B" unfolding B_def u [symmetric] using v by linarith
    moreover have "sint v = int u" unfolding u [symmetric] using v Cons.prems(1) by (intro sint_small) linarith
    then have "int_octets len (b # bs) k s w = (if len < k + 1 then (NGX_ERROR, 0, len) else (int u, k + 1, len - (k + 1)))"
      using True by (simp add: Let_def v_def del: push_bit_and)
    ultimately show ?thesis
      using Cons.prems(2) unfolding B_def [symmetric] by (auto split: if_splits)
  next
    case False
    then have "int_octets len bs (k + 1) (s + 7) v = (rc, j, len')"
      using Cons.prems(2) by (simp add: Let_def v_def del: push_bit_and)
    from Cons.IH [OF _ this, folded C_def] C show ?thesis unfolding B_def [symmetric] by auto
  qed
qed

lemma parse_int_bounds:
  assumes "buf \<noteq> []" and "bits \<le> 7"
  shows "\<exists>rc j len'. ngx_http_v2_parse_int len buf (ngx_http_v2_prefix bits) = Ok (rc, j, len')
    \<and> (rc \<in> {NGX_ERROR, NGX_AGAIN, NGX_DECLINED} \<and> j = 0 \<and> len' = len
      \<or> 0 \<le> rc \<and> rc \<le> NGX_HTTP_V2_MAX_FIELD \<and> 0 < j \<and> j \<le> length buf \<and> j \<le> NGX_HTTP_V2_INT_OCTETS \<and> len = len' + j)"
proof -
  obtain p ps where buf: "buf = p # ps" using assms(1) by (cases buf) auto
  define w where "w = ucast p AND ngx_http_v2_prefix bits"
  have "unat w \<le> unat (ngx_http_v2_prefix bits)"
    unfolding w_def word_le_nat_alt [symmetric] by (metis and.commute word_and_le1 word_and_le2)
  also have "\<dots> \<le> 127" using assms(2) power_increasing [of bits 7 "2 :: nat"] by (simp add: unat_prefix)
  finally have w: "unat w \<le> 127" .
  show ?thesis
  proof (cases "w = ngx_http_v2_prefix bits")
    case False
    then have "ngx_http_v2_parse_int len buf (ngx_http_v2_prefix bits) = Ok (if len = 0 then (NGX_ERROR, 0, len) else (int (unat w), 1, len - 1))"
      using w by (simp add: buf ngx_http_v2_parse_int_def w_def [symmetric] sint_small)
    moreover have "int (unat w) \<le> 127" using w by (simp only: of_nat_le_iff [symmetric, where ?'a = int] of_nat_numeral)
    ultimately show ?thesis by (auto simp: buf NGX_HTTP_V2_MAX_FIELD_def NGX_HTTP_V2_INT_OCTETS_def)
  next
    case True
    let ?bs = "take 3 ps"
    obtain rc j len' where r: "int_octets len ?bs 1 0 w = (rc, j, len')" by (cases "int_octets len ?bs 1 0 w")
    have "(128 :: nat) ^ length ?bs \<le> 128 ^ 3" by (rule power_increasing) simp_all
    then have b: "unat w + 2 ^ 0 * (128 ^ length ?bs - 1) \<le> 127 + 2 ^ 21 - 1" using w by simp
    have "ngx_http_v2_parse_int len buf (ngx_http_v2_prefix bits) = Ok (rc, j, len')"
      using True r by (simp add: buf ngx_http_v2_parse_int_def w_def [symmetric] NGX_HTTP_V2_INT_OCTETS_def)
    moreover have "unat w + 2 ^ 0 * (128 ^ length ?bs - 1) < 2 ^ 63" using b by simp
    ultimately show ?thesis
      using int_octets_bounds [OF _ r] b by (auto simp: buf NGX_HTTP_V2_MAX_FIELD_def NGX_HTTP_V2_INT_OCTETS_def)
  qed
qed

end
