(* ===== verification/Ngx_Base64.thy ===== *)
theory Ngx_Base64
  imports Ngx_Escape
begin

unbundle bit_operations_syntax

text \<open>
  Base64: the decoder inverts the encoder, for both alphabets, and neither writes more than the buffers the
  callers allocate.  What the proofs need of an alphabet is the locale \<open>alphabet64\<close>.
\<close>

section \<open>Six bits at a time\<close>

lemma nat_less_8: "n < (8 :: nat) \<longleftrightarrow> n = 0 \<or> n = 1 \<or> n = 2 \<or> n = 3 \<or> n = 4 \<or> n = 5 \<or> n = 6 \<or> n = 7"
  by arith

lemma byte_masks: "(0x3f :: 8 word) = mask 6" "(3 :: 8 word) = mask 2" "(0x0f :: 8 word) = mask 4"
  by (simp_all add: mask_eq_exp_minus_1)

lemma bit_byte: "bit (w :: 8 word) n \<Longrightarrow> n < 8"
  using bit_imp_le_length [of w n] by simp

lemma first_byte: "push_bit 2 (drop_bit 2 a AND 0x3f) OR drop_bit 4 (push_bit 4 (a AND 3) OR drop_bit 4 b) = (a :: 8 word)"
  unfolding byte_masks
  by (rule bit_word_eqI) (auto simp: bit_simps nat_less_8, simp_all add: numeral_2_eq_2 numeral_3_eq_3)

lemma second_byte: "push_bit 4 (push_bit 4 (a AND 3) OR drop_bit 4 b) OR drop_bit 2 (push_bit 2 (b AND 0x0f) OR drop_bit 6 c) = (b :: 8 word)"
  unfolding byte_masks by (rule bit_word_eqI) (auto simp: bit_simps nat_less_8)

lemma third_byte: "push_bit 6 (push_bit 2 (b AND 0x0f) OR drop_bit 6 c) OR (c AND 0x3f) = (c :: 8 word)"
  unfolding byte_masks by (rule bit_word_eqI) (auto simp: bit_simps nat_less_8)

lemma last_byte:
  "push_bit 2 (drop_bit 2 a AND 0x3f) OR drop_bit 4 (push_bit 4 (a AND 3)) = (a :: 8 word)"
  "push_bit 4 (push_bit 4 (a AND 3) OR drop_bit 4 b) OR drop_bit 2 (push_bit 2 (b AND 0x0f)) = (b :: 8 word)"
  using first_byte [of a 0] second_byte [of a b 0] by (simp_all only: drop_bit_of_0 or.right_neutral)

lemma sextetI: "take_bit 6 w = w \<Longrightarrow> unat (w :: 8 word) < 64"
proof -
  assume w: "take_bit 6 w = w"
  have "unat w = take_bit 6 (unat w)"
    using arg_cong [OF w, of unat] by (simp add: unsigned_take_bit_eq)
  then show ?thesis
    using take_bit_nat_less_exp [of 6 "unat w"] by simp
qed

lemma sextets:
  "unat (drop_bit 2 a AND 0x3f :: 8 word) < 64" "unat (push_bit 4 (a AND 3) OR drop_bit 4 b :: 8 word) < 64"
  "unat (push_bit 2 (b AND 0x0f) OR drop_bit 6 c :: 8 word) < 64" "unat (c AND 0x3f :: 8 word) < 64"
  unfolding byte_masks
  by ((rule sextetI, rule bit_word_eqI, auto simp: bit_simps dest: bit_byte)[1])+

lemma last_sextets: "unat (push_bit 4 (a AND 3) :: 8 word) < 64" "unat (push_bit 2 (b AND 0x0f) :: 8 word) < 64"
  using sextets(2) [of a 0] sextets(3) [of b 0] by (simp_all only: drop_bit_of_0 or.right_neutral)

lemma list3_induct [case_names three none one two]:
  fixes P :: "u_char list \<Rightarrow> bool"
  assumes "\<And>a b c s. P s \<Longrightarrow> P (a # b # c # s)" and "P []" and "\<And>a. P [a]" and "\<And>a b. P [a, b]"
  shows "P s"
  by (rule encode_base64_internal.induct [where P = "\<lambda>_ _ s. P s"]) (fact assms)+

section \<open>An alphabet\<close>

locale alphabet64 =
  fixes basis :: "u_char list" and dec :: "u_char list"
  assumes letter: "i < 64 \<Longrightarrow> dec ! unat (basis ! i) = of_nat i \<and> basis ! i \<noteq> 0x3D"
begin

lemma letter_word: "unat (w :: u_char) < 64 \<Longrightarrow> dec ! unat (basis ! unat w) = w \<and> basis ! unat w \<noteq> 0x3D"
  using letter [of "unat w"] by simp

lemma letter_data:
  assumes "unat (w :: u_char) < 64"
  shows "base64_data dec (basis ! unat w # cs) = map_option ((#) (basis ! unat w)) (base64_data dec cs)"
proof -
  have "w \<noteq> 77" using assms by auto
  then show ?thesis using letter_word [OF assms] by simp
qed

lemma four_letters:
  assumes "unat (w0 :: u_char) < 64" "unat (w1 :: u_char) < 64" "unat (w2 :: u_char) < 64" "unat (w3 :: u_char) < 64" and "base64_data dec r = Some cs"
  shows "base64_data dec ([basis ! unat w0, basis ! unat w1, basis ! unat w2, basis ! unat w3] @ r)
      = Some (basis ! unat w0 # basis ! unat w1 # basis ! unat w2 # basis ! unat w3 # cs)"
    and "decode_loop dec (basis ! unat w0 # basis ! unat w1 # basis ! unat w2 # basis ! unat w3 # cs)
      = [push_bit 2 w0 OR drop_bit 4 w1, push_bit 4 w1 OR drop_bit 2 w2, push_bit 6 w2 OR w3] @ decode_loop dec cs"
  using assms by (simp_all only: append.simps letter_data option.map decode_loop.simps letter_word)

lemma two_letters:
  assumes "unat (w0 :: u_char) < 64" "unat (w1 :: u_char) < 64" and "base64_data dec r = Some []"
  shows "base64_data dec ([basis ! unat w0, basis ! unat w1] @ r) = Some [basis ! unat w0, basis ! unat w1]"
    and "decode_loop dec [basis ! unat w0, basis ! unat w1] = [push_bit 2 w0 OR drop_bit 4 w1]"
  using assms by (simp_all only: append.simps letter_data option.map decode_loop.simps letter_word)

lemma three_letters:
  assumes "unat (w0 :: u_char) < 64" "unat (w1 :: u_char) < 64" "unat (w2 :: u_char) < 64" and "base64_data dec r = Some []"
  shows "base64_data dec ([basis ! unat w0, basis ! unat w1, basis ! unat w2] @ r) = Some [basis ! unat w0, basis ! unat w1, basis ! unat w2]"
    and "decode_loop dec [basis ! unat w0, basis ! unat w1, basis ! unat w2] = [push_bit 2 w0 OR drop_bit 4 w1, push_bit 4 w1 OR drop_bit 2 w2]"
  using assms by (simp_all only: append.simps letter_data option.map decode_loop.simps letter_word)

lemma data_encode:
  "\<exists>cs. base64_data dec (encode_base64_internal basis pad s) = Some cs \<and> length cs mod 4 \<noteq> 1 \<and> decode_loop dec cs = s"
proof (induction s rule: list3_induct)
  case (three a b c s)
  then obtain cs where cs: "base64_data dec (encode_base64_internal basis pad s) = Some cs" "length cs mod 4 \<noteq> 1" "decode_loop dec cs = s"
    by blast
  note f = four_letters [OF sextets(1) [of a] sextets(2) [of a b] sextets(3) [of b c] sextets(4) [of c] cs(1)]
  show ?case
    unfolding encode_base64_internal.simps f(1)
    by (intro exI conjI, rule refl) (use cs(2,3) in \<open>simp, simp only: f(2) first_byte second_byte third_byte append.simps\<close>)
next
  case (one a)
  have "base64_data dec ((if pad then [0x3D] else []) @ (if pad then [0x3D] else [])) = Some []"
    by simp
  note f = two_letters [OF sextets(1) [of a] last_sextets(1) [of a] this]
  show ?case
    unfolding encode_base64_internal.simps f(1)
    by (intro exI conjI, rule refl) (simp, simp only: f(2) last_byte(1))
next
  case (two a b)
  have "base64_data dec (if pad then [0x3D] else []) = Some []"
    by simp
  note f = three_letters [OF sextets(1) [of a] sextets(2) [of a b] last_sextets(2) [of b] this]
  show ?case
    unfolding encode_base64_internal.simps f(1)
    by (intro exI conjI, rule refl) (simp, simp only: f(2) first_byte last_byte(2))
qed simp

lemma decode_encode: "decode_base64_internal dec (encode_base64_internal basis pad s) = Some s"
  using data_encode [of pad s] by (auto simp: decode_base64_internal_def)

end

section \<open>The alphabets\<close>

lemma unat_byte: "n < 256 \<Longrightarrow> unat (of_nat n :: 8 word) = n"
  by (simp add: unat_of_nat)

lemma basis64_eq: "basis64 = map (\<lambda>i. of_nat (65 + i)) [0..<26] @ map (\<lambda>i. of_nat (97 + i)) [0..<26] @ map (\<lambda>i. of_nat (48 + i)) [0..<10] @ [43, 47]"
  by (simp add: basis64_def bytes_def upt_rec)

lemma basis64url_eq: "basis64url = map (\<lambda>i. of_nat (65 + i)) [0..<26] @ map (\<lambda>i. of_nat (97 + i)) [0..<26] @ map (\<lambda>i. of_nat (48 + i)) [0..<10] @ [45, 95]"
  by (simp add: basis64url_def bytes_def upt_rec)

lemma decode_lists:
  "decode_letters = map of_nat [0..<26]" "decode_small_letters = map (\<lambda>i. of_nat (26 + i)) [0..<26]"
  "decode_digits = map (\<lambda>i. of_nat (52 + i)) [0..<10]"
  by (simp_all add: decode_letters_def decode_small_letters_def decode_digits_def upt_rec)

lemma decode64_at:
  "i < 26 \<Longrightarrow> decode64 ! (65 + i) = of_nat i" "i < 26 \<Longrightarrow> decode64 ! (97 + i) = of_nat (26 + i)" "i < 10 \<Longrightarrow> decode64 ! (48 + i) = of_nat (52 + i)"
  "i < 26 \<Longrightarrow> decode64url ! (65 + i) = of_nat i" "i < 26 \<Longrightarrow> decode64url ! (97 + i) = of_nat (26 + i)" "i < 10 \<Longrightarrow> decode64url ! (48 + i) = of_nat (52 + i)"
  by (simp_all add: decode64_def decode64url_def decode_lists nth_append)

lemma table_letter:
  assumes "c = of_nat k" and "k < 256" and "k \<noteq> 61" and "d ! k = w"
  shows "d ! unat c = w \<and> c \<noteq> (0x3D :: 8 word)"
proof -
  have "unat c = k" using assms(1,2) unat_byte by simp
  moreover from this have "c \<noteq> 0x3D" using assms(3) by auto
  ultimately show ?thesis using assms(4) by simp
qed

text \<open>The five ranges of an alphabet.\<close>

lemma letter_range:
  assumes "i < 64" and b: "b = map (\<lambda>i. of_nat (65 + i)) [0..<26] @ map (\<lambda>i. of_nat (97 + i)) [0..<26] @ map (\<lambda>i. of_nat (48 + i)) [0..<10] @ [p, q]"
    and d: "\<And>i. i < 26 \<Longrightarrow> d ! (65 + i) = of_nat i" "\<And>i. i < 26 \<Longrightarrow> d ! (97 + i) = of_nat (26 + i)" "\<And>i. i < 10 \<Longrightarrow> d ! (48 + i) = of_nat (52 + i)"
    and pq: "d ! unat p = 62" "d ! unat q = 63" "p \<noteq> 0x3D" "q \<noteq> 0x3D"
  shows "d ! unat (b ! i) = of_nat i \<and> b ! i \<noteq> (0x3D :: 8 word)"
proof -
  consider "i < 26" | "26 \<le> i" "i < 52" | "52 \<le> i" "i < 62" | "i = 62" | "i = 63"
    using assms(1) by linarith
  then show ?thesis
  proof cases
    case 1
    then have "b ! i = of_nat (65 + i)" by (simp add: b nth_append)
    then show ?thesis by (rule table_letter) (use 1 d(1) in auto)
  next
    case 2
    then have "b ! i = of_nat (97 + (i - 26))" by (auto simp: b nth_append)
    moreover have "d ! (97 + (i - 26)) = of_nat i" using d(2) [of "i - 26"] 2 by simp
    ultimately show ?thesis by (intro table_letter) (use 2 in auto)
  next
    case 3
    then have "b ! i = of_nat (48 + (i - 52))" by (auto simp: b nth_append)
    moreover have "d ! (48 + (i - 52)) = of_nat i" using d(3) [of "i - 52"] 3 by simp
    ultimately show ?thesis by (intro table_letter) (use 3 in auto)
  qed (use pq in \<open>simp_all add: b nth_append\<close>)
qed

interpretation b64: alphabet64 basis64 decode64
proof
  show "decode64 ! unat (basis64 ! i) = of_nat i \<and> basis64 ! i \<noteq> 0x3D" if "i < 64" for i
    using that basis64_eq by (rule letter_range) (simp_all only: decode64_at, simp_all add: decode64_def nth_append decode_digits_def)
qed

interpretation b64url: alphabet64 basis64url decode64url
proof
  show "decode64url ! unat (basis64url ! i) = of_nat i \<and> basis64url ! i \<noteq> 0x3D" if "i < 64" for i
    using that basis64url_eq by (rule letter_range)
      (simp_all only: decode64_at, simp_all add: decode64url_def nth_append decode_lists)
qed

section \<open>Sizes\<close>

lemma round_up: "(5 + n) div 3 = Suc (Suc (Suc n) div 3)" "(7 + n) div 4 = Suc ((n + 3) div 4)"
  by presburger+

lemma length_encode: "length (encode_base64_internal b True s) = ngx_base64_encoded_length (length s)"
  by (induction s rule: list3_induct) (simp_all add: ngx_base64_encoded_length_def round_up)

lemma length_encode_le: "length (encode_base64_internal b p s) \<le> ngx_base64_encoded_length (length s)"
  by (induction s rule: list3_induct) (simp_all add: ngx_base64_encoded_length_def round_up)

lemma length_data: "base64_data b cs = Some ds \<Longrightarrow> length ds \<le> length cs"
  by (induction cs arbitrary: ds) (auto split: if_splits)

lemma length_decode_loop: "length (decode_loop b cs) \<le> ngx_base64_decoded_length (length cs)"
  by (induction b cs rule: decode_loop.induct) (simp_all add: ngx_base64_decoded_length_def round_up)

lemma length_decode: "decode_base64_internal b src = Some out \<Longrightarrow> length out \<le> ngx_base64_decoded_length (length src)"
proof -
  assume "decode_base64_internal b src = Some out"
  then obtain cs where cs: "base64_data b src = Some cs" "out = decode_loop b cs"
    by (auto simp: decode_base64_internal_def split: option.splits if_splits)
  then have "length out \<le> ngx_base64_decoded_length (length cs)"
    using length_decode_loop by simp
  also have "\<dots> \<le> ngx_base64_decoded_length (length src)"
    using length_data [OF cs(1)] by (simp add: ngx_base64_decoded_length_def div_le_mono)
  finally show ?thesis .
qed

text \<open>C36: Decoding what was encoded gives the original bytes, with padding and without; and on any input the
  encoder and the decoder stay inside the buffers that \<^verbatim>\<open>ngx_base64_encoded_length\<close> and
  \<^verbatim>\<open>ngx_base64_decoded_length\<close> size for them.\<close>

theorem base64_roundtrip:
  "ngx_decode_base64 (ngx_encode_base64 s) = Some s
   \<and> ngx_decode_base64url (ngx_encode_base64url s) = Some s
   \<and> length (ngx_encode_base64 s) = ngx_base64_encoded_length (length s)
   \<and> length (ngx_encode_base64url s) \<le> ngx_base64_encoded_length (length s)
   \<and> length (case ngx_decode_base64 t of Some out \<Rightarrow> out | None \<Rightarrow> []) \<le> ngx_base64_decoded_length (length t)
   \<and> length (case ngx_decode_base64url t of Some out \<Rightarrow> out | None \<Rightarrow> []) \<le> ngx_base64_decoded_length (length t)"
proof -
  have "length (case decode_base64_internal b t of Some out \<Rightarrow> out | None \<Rightarrow> []) \<le> ngx_base64_decoded_length (length t)" for b
    using length_decode [of b t] by (simp split: option.split)
  then show ?thesis
    by (simp add: ngx_decode_base64_def ngx_encode_base64_def ngx_decode_base64url_def ngx_encode_base64url_def
        b64.decode_encode b64url.decode_encode length_encode length_encode_le)
qed

end
