(* ===== verification/Ngx_Date.thy ===== *)
theory Ngx_Date
  imports Ngx_Number
begin

text \<open>
  Dates: \<^verbatim>\<open>ngx_gmtime\<close>, \<^verbatim>\<open>ngx_http_time\<close> and \<^verbatim>\<open>ngx_http_cookie_time\<close> of \<^verbatim>\<open>src/core/ngx_times.c\<close>, and
  \<^verbatim>\<open>ngx_parse_http_time\<close> of \<^verbatim>\<open>src/core/ngx_parse_time.c\<close>.  The unsigned arithmetic of \<^verbatim>\<open>ngx_gmtime\<close> cannot wrap around
  (the days are bounded first) and is done with integers; that of the parser can, and is done with words.
\<close>

section \<open>From seconds to a date\<close>

record ngx_tm =
  tm_sec :: int
  tm_min :: int
  tm_hour :: int
  tm_mday :: int
  tm_mon :: int
  tm_year :: int
  tm_wday :: int

definition gauss_days :: "int \<Rightarrow> int" where
  "gauss_days year = 365 * year + year div 4 - year div 100 + year div 400"

definition is_leap :: "int \<Rightarrow> bool" where
  "is_leap year \<longleftrightarrow> year mod 4 = 0 \<and> (year mod 100 \<noteq> 0 \<or> year mod 400 = 0)"

text \<open>The year that starts on March 1st, and the day in it.\<close>

definition gm_year :: "int \<Rightarrow> int \<times> int" where
  "gm_year days =
    (let year = (days + 2) * 400 div (365 * 400 + 100 - 4 + 1);
         yday = days - gauss_days year
     in if yday < 0 then (year - 1, 365 + (if is_leap year then 1 else 0) + yday) else (year, yday))"

definition gm_month :: "int \<times> int \<Rightarrow> int \<times> int \<times> int" where
  "gm_month = (\<lambda>(year, yday).
    let mon = (yday + 31) * 10 div 306;
        mday = yday - (367 * mon div 12 - 30) + 1
    in if 306 \<le> yday then (year + 1, mon - 10, mday) else (year, mon + 2, mday))"

definition ngx_gmtime :: "int \<Rightarrow> ngx_tm" where
  "ngx_gmtime t0 =
    (let t = (if t0 < 0 then 0 else t0);
         days = (if 2932896 < t div 86400 then 2932896 else t div 86400);
         sec = (if 2932896 < t div 86400 then 86399 else t mod 86400);
         wday = (4 + days) mod 7;
         (year, mon, mday) = gm_month (gm_year (days - (31 + 28) + 719527))
     in \<lparr>tm_sec = sec mod 3600 mod 60, tm_min = sec mod 3600 div 60, tm_hour = sec div 3600,
         tm_mday = mday, tm_mon = mon, tm_year = year, tm_wday = wday\<rparr>)"

section \<open>Printing\<close>

definition week :: "u_char list list" where
  "week = map bytes [''Sun'', ''Mon'', ''Tue'', ''Wed'', ''Thu'', ''Fri'', ''Sat'']"

definition months :: "u_char list list" where
  "months = map bytes [''Jan'', ''Feb'', ''Mar'', ''Apr'', ''May'', ''Jun'', ''Jul'', ''Aug'', ''Sep'', ''Oct'', ''Nov'', ''Dec'']"

text \<open>The conversions \<open>%02d\<close>, \<open>%4d\<close> and \<open>%d\<close> of a number that is not negative; the room does not matter as a number has
  at most 20 digits.\<close>

definition fmt_num :: "u_char \<Rightarrow> nat \<Rightarrow> int \<Rightarrow> u_char list" where
  "fmt_num zero width n = ngx_sprintf_num 20 (word_of_int n) zero 0 width"

definition fmt_clock :: "ngx_tm \<Rightarrow> u_char list" where
  "fmt_clock tm = fmt_num 0x30 2 (tm_hour tm) @ bytes '':'' @ fmt_num 0x30 2 (tm_min tm) @ bytes '':'' @ fmt_num 0x30 2 (tm_sec tm)"

definition ngx_http_time :: "int \<Rightarrow> u_char list" where
  "ngx_http_time t =
    (let tm = ngx_gmtime t
     in week ! nat (tm_wday tm) @ bytes '', '' @ fmt_num 0x30 2 (tm_mday tm) @ bytes '' '' @ months ! nat (tm_mon tm - 1) @ bytes '' ''
        @ fmt_num 0x20 4 (tm_year tm) @ bytes '' '' @ fmt_clock tm @ bytes '' GMT'')"

definition ngx_http_cookie_time :: "int \<Rightarrow> u_char list" where
  "ngx_http_cookie_time t =
    (let tm = ngx_gmtime t
     in week ! nat (tm_wday tm) @ bytes '', '' @ fmt_num 0x30 2 (tm_mday tm) @ bytes ''-'' @ months ! nat (tm_mon tm - 1) @ bytes ''-''
        @ (if 2037 < tm_year tm then fmt_num 0x20 0 (tm_year tm) else fmt_num 0x30 2 (tm_year tm mod 100)) @ bytes '' ''
        @ fmt_clock tm @ bytes '' GMT'')"

section \<open>Parsing\<close>

datatype date_fmt = Rfc822 | Rfc850 | Isoc

text \<open>Steps that may end the function with \<^verbatim>\<open>NGX_ERROR\<close>, the value \<open>None\<close>.\<close>

definition bindE :: "'a option res \<Rightarrow> ('a \<Rightarrow> 'b option res) \<Rightarrow> 'b option res" where
  "bindE m f = bindR m (\<lambda>x. case x of None \<Rightarrow> Ok None | Some y \<Rightarrow> f y)"

definition date_byte :: "u_char list \<Rightarrow> nat \<Rightarrow> u_char \<Rightarrow> unit option res" where
  "date_byte v p c = bindR (byte_at v p) (\<lambda>x. Ok (if x = c then Some () else None))"

text \<open>A number of \<open>n\<close> digits at \<open>p\<close>; the check stops at the first other byte.\<close>

primrec digits_at :: "u_char list \<Rightarrow> nat \<Rightarrow> nat \<Rightarrow> int \<Rightarrow> int option res" where
  "digits_at v p 0 acc = Ok (Some acc)"
| "digits_at v p (Suc n) acc =
    bindR (byte_at v p) (\<lambda>c. if is_digit c then digits_at v (p + 1) n (acc * 10 + digit_val c) else Ok None)"

text \<open>To the comma or space after the name of the day, and past the spaces behind it.\<close>

fun sep_loop :: "u_char list \<Rightarrow> nat \<Rightarrow> nat \<times> bool" where
  "sep_loop [] p = (p, False)"
| "sep_loop (c # cs) p = (if c = 0x2C then (p, False) else if c = 0x20 then (p, True) else sep_loop cs (p + 1))"

fun skip_loop :: "u_char list \<Rightarrow> nat \<Rightarrow> nat" where
  "skip_loop [] p = p"
| "skip_loop (c # cs) p = (if c \<noteq> 0x20 then p else skip_loop cs (p + 1))"

text \<open>The day in front of the month and the format.\<close>

definition day_first :: "u_char list \<Rightarrow> nat \<Rightarrow> (nat \<times> int \<times> date_fmt) option res" where
  "day_first v p =
    bindE (digits_at v p 2 0) (\<lambda>day.
    bindR (byte_at v (p + 2)) (\<lambda>c.
      if c = 0x20 then if int (length v) - int (p + 2) < 18 then Ok None else Ok (Some (p + 3, day, Rfc822))
      else if c = 0x2D then Ok (Some (p + 3, day, Rfc850))
      else Ok None))"

definition month_at :: "u_char list \<Rightarrow> nat \<Rightarrow> int option res" where
  "month_at v p =
    bindR (byte_at v p) (\<lambda>c.
      if c = 0x4A then
        bindR (byte_at v (p + 1)) (\<lambda>c1. if c1 = 0x61 then Ok (Some 0)
          else bindR (byte_at v (p + 2)) (\<lambda>c2. Ok (Some (if c2 = 0x6E then 5 else 6))))
      else if c = 0x46 then Ok (Some 1)
      else if c = 0x4D then bindR (byte_at v (p + 2)) (\<lambda>c2. Ok (Some (if c2 = 0x72 then 2 else 4)))
      else if c = 0x41 then bindR (byte_at v (p + 1)) (\<lambda>c1. Ok (Some (if c1 = 0x70 then 3 else 7)))
      else if c = 0x53 then Ok (Some 8)
      else if c = 0x4F then Ok (Some 9)
      else if c = 0x4E then Ok (Some 10)
      else if c = 0x44 then Ok (Some 11)
      else Ok None)"

definition month_end :: "u_char list \<Rightarrow> nat \<Rightarrow> date_fmt \<Rightarrow> unit option res" where
  "month_end v p fmt = (case fmt of Rfc822 \<Rightarrow> date_byte v p 0x20 | Rfc850 \<Rightarrow> date_byte v p 0x2D | Isoc \<Rightarrow> Ok (Some ()))"

text \<open>The year behind the month.  In the third format the day comes here.\<close>

definition year_at :: "u_char list \<Rightarrow> nat \<Rightarrow> date_fmt \<Rightarrow> int \<Rightarrow> (nat \<times> int \<times> int) option res" where
  "year_at v p fmt day =
    (case fmt of
       Rfc822 \<Rightarrow> bindE (digits_at v p 4 0) (\<lambda>y. Ok (Some (p + 4, day, y)))
     | Rfc850 \<Rightarrow> bindE (digits_at v p 2 0) (\<lambda>y. Ok (Some (p + 2, day, y + (if y < 70 then 2000 else 1900))))
     | Isoc \<Rightarrow>
         bindR (byte_at v p) (\<lambda>c0.
         let q = (if c0 = 0x20 then p + 1 else p)
         in bindE (digits_at v q 1 0) (\<lambda>d.
            bindR (byte_at v (q + 1)) (\<lambda>c.
            bindE (if c = 0x20 then Ok (Some (q + 1, d)) else bindE (digits_at v (q + 1) 1 d) (\<lambda>d2. Ok (Some (q + 2, d2)))) (\<lambda>(r, d3).
              if int (length v) - int r < 14 then Ok None else Ok (Some (r, d3, 0)))))))"

definition mday :: "int list" where "mday = [31, 28, 31, 30, 31, 30, 31, 31, 30, 31, 30, 31]"

definition date_ok :: "int \<Rightarrow> int \<Rightarrow> int \<Rightarrow> int \<Rightarrow> int \<Rightarrow> int \<Rightarrow> bool" where
  "date_ok day month year hour mi sec \<longleftrightarrow>
    \<not> (23 < hour \<or> 59 < mi \<or> 59 < sec)
    \<and> (if day = 29 \<and> month = 1 then \<not> (year mod 4 \<noteq> 0 \<or> year mod 100 = 0 \<and> year mod 400 \<noteq> 0)
       else \<not> mday ! nat month < day)"

text \<open>Gauss' formula in unsigned 64-bit arithmetic.\<close>

definition date_seconds :: "int \<Rightarrow> int \<Rightarrow> int \<Rightarrow> int \<Rightarrow> int \<Rightarrow> int \<Rightarrow> int" where
  "date_seconds day month0 year0 hour mi sec =
    (let m1 = month0 - 1;
         month = (if m1 \<le> 0 then m1 + 12 else m1);
         year = (if m1 \<le> 0 then word_of_int year0 - 1 else word_of_int year0 :: 64 word);
         time = (365 * year + year div 4 - year div 100 + year div 400
                 + word_of_int (367 * month div 12) - 30 + word_of_int day - 1 - 719527 + 31 + 28) * 86400
                + word_of_int hour * 3600 + word_of_int mi * 60 + word_of_int sec
     in sint time)"

definition ngx_parse_http_time :: "u_char list \<Rightarrow> int res" where
  "ngx_parse_http_time v =
    (let (p0, isoc) = sep_loop v 0;
         p = skip_loop (drop (p0 + 1) v) (p0 + 1)
     in if int (length v) - int p < 18 then Ok NGX_ERROR
        else bindR
          (bindE (if isoc then Ok (Some (p, 32, Isoc)) else day_first v p) (\<lambda>(p, day, fmt).
           bindE (month_at v p) (\<lambda>month.
           bindE (month_end v (p + 3) fmt) (\<lambda>_.
           bindE (year_at v (p + 4) fmt day) (\<lambda>(p, day, year).
           bindE (date_byte v p 0x20) (\<lambda>_.
           bindE (digits_at v (p + 1) 2 0) (\<lambda>hour.
           bindE (date_byte v (p + 3) 0x3A) (\<lambda>_.
           bindE (digits_at v (p + 4) 2 0) (\<lambda>mi.
           bindE (date_byte v (p + 6) 0x3A) (\<lambda>_.
           bindE (digits_at v (p + 7) 2 0) (\<lambda>sec.
           bindE (if fmt = Isoc then bindE (date_byte v (p + 9) 0x20) (\<lambda>_. digits_at v (p + 10) 4 0) else Ok (Some year)) (\<lambda>year.
           Ok (if date_ok day month year hour mi sec then Some (date_seconds day month year hour mi sec) else None)))))))))))))
          (\<lambda>r. Ok (case r of None \<Rightarrow> NGX_ERROR | Some t \<Rightarrow> t)))"

end
