(* ===== verification/Ngx_Calendar.thy ===== *)
theory Ngx_Calendar
  imports Ngx_Date
begin

text \<open>
  The formulas of the code against the Gregorian calendar: a reference that adds up the lengths of years and months.
\<close>

section \<open>The calendar\<close>

definition year_len :: "int \<Rightarrow> int" where
  "year_len y = (if is_leap y then 366 else 365)"

definition month_lens :: "int \<Rightarrow> int list" where
  "month_lens y = [31, if is_leap y then 29 else 28, 31, 30, 31, 30, 31, 31, 30, 31, 30, 31]"

text \<open>Days from January 1st, 1970; there were 719162 days in the years 1 to 1969.\<close>

definition civil_days :: "int \<Rightarrow> int \<Rightarrow> int \<Rightarrow> int" where
  "civil_days y m d = sum_list (map year_len [1..y - 1]) - 719162 + sum_list (take (nat (m - 1)) (month_lens y)) + d - 1"

definition unix_time :: "int \<Rightarrow> int \<Rightarrow> int \<Rightarrow> int \<Rightarrow> int \<Rightarrow> int \<Rightarrow> int" where
  "unix_time y m d h mi s = civil_days y m d * 86400 + h * 3600 + mi * 60 + s"

definition valid_date :: "int \<Rightarrow> int \<Rightarrow> int \<Rightarrow> bool" where
  "valid_date y m d \<longleftrightarrow> 1 \<le> m \<and> m \<le> 12 \<and> 1 \<le> d \<and> d \<le> month_lens y ! nat (m - 1)"

definition valid_clock :: "int \<Rightarrow> int \<Rightarrow> int \<Rightarrow> bool" where
  "valid_clock h mi s \<longleftrightarrow> 0 \<le> h \<and> h < 24 \<and> 0 \<le> mi \<and> mi < 60 \<and> 0 \<le> s \<and> s < 60"

section \<open>Gauss' formula\<close>

lemma div_step:
  fixes y n :: int
  assumes "0 < n"
  shows "(y - 1) div n = y div n - (if y mod n = 0 then 1 else 0)"
proof (cases "y mod n = 0")
  case True
  then have "y - 1 = n * (y div n - 1) + (n - 1)"
    using mult_div_mod_eq [of n y] by (simp add: right_diff_distrib)
  then have "(y - 1) div n = y div n - 1" by (rule int_div_pos_eq) (use assms in auto)
  then show ?thesis using True by simp
next
  case False
  moreover have "0 \<le> y mod n" using assms by simp
  ultimately have "0 \<le> y mod n - 1" by linarith
  moreover have "y - 1 = n * (y div n) + (y mod n - 1)"
    using mult_div_mod_eq [of n y] by linarith
  moreover have "y mod n - 1 < n" using pos_mod_bound [OF assms, of y] by linarith
  ultimately have "(y - 1) div n = y div n" by (intro int_div_pos_eq)
  then show ?thesis using False by simp
qed

lemma mod_zero_dvd:
  fixes y :: int
  assumes "n dvd k" and "y mod k = 0"
  shows "y mod n = 0"
  using assms dvd_trans [of n k y] by (simp add: mod_eq_0_iff_dvd)

lemmas mod_dvd_zero = mod_zero_dvd [of 100 400, simplified] mod_zero_dvd [of 4 100, simplified]

lemma shift_div_mod:
  fixes y k n m :: int
  assumes "0 < n" and "m = n * k"
  shows "(y + m) div n = y div n + k" and "(y + m) mod n = y mod n"
  using assms div_mult_self2 [of n y k] by simp_all

lemma cycle_div_mod:
  fixes y c :: int
  shows "(y + 400 * c) div 4 = y div 4 + 100 * c" and "(y + 400 * c) div 100 = y div 100 + 4 * c" and "(y + 400 * c) div 400 = y div 400 + c"
    and "(y + 400 * c) mod 4 = y mod 4" and "(y + 400 * c) mod 100 = y mod 100" and "(y + 400 * c) mod 400 = y mod 400"
  by (rule shift_div_mod; simp)+

lemma gauss_step: "gauss_days (y - 1) = gauss_days y - year_len y"
proof -
  define i4 i100 i400 :: int where i: "i4 = (if y mod 4 = 0 then 1 else 0)" "i100 = (if y mod 100 = 0 then 1 else 0)" "i400 = (if y mod 400 = 0 then 1 else 0)"
  have d: "(y - 1) div 4 = y div 4 - i4" "(y - 1) div 100 = y div 100 - i100" "(y - 1) div 400 = y div 400 - i400"
    unfolding i by (rule div_step; simp)+
  have "year_len y = 365 + i4 - i100 + i400"
    unfolding i year_len_def is_leap_def using mod_dvd_zero [of y] by (cases "y mod 400 = 0"; cases "y mod 100 = 0"; cases "y mod 4 = 0") simp_all
  then show ?thesis
    unfolding gauss_days_def d by (simp only: right_diff_distrib mult_1_right)
qed

lemma sum_year_len: "0 \<le> y \<Longrightarrow> sum_list (map year_len [1..y]) = gauss_days y"
proof (induction y rule: int_ge_induct)
  case base
  then show ?case by (simp add: gauss_days_def)
next
  case (step y)
  then have "[1..y + 1] = [1..y] @ [y + 1]" by (simp add: upto_rec2)
  then show ?case using step gauss_step [of "y + 1"] by simp
qed

lemma gauss_shift: "gauss_days (y + 400 * c) = gauss_days y + 146097 * c"
  by (simp add: gauss_days_def cycle_div_mod)

lemma leap_shift: "is_leap (y + 400 * c) = is_leap y"
  by (simp add: is_leap_def cycle_div_mod)

lemma gauss_mono: "y \<le> z \<Longrightarrow> gauss_days y \<le> gauss_days z"
proof (induction z rule: int_ge_induct)
  case (step z)
  then show ?case using gauss_step [of "z + 1"] by (simp add: year_len_def split: if_splits)
qed simp

section \<open>The year of a day\<close>

text \<open>What is checked for every year of a cycle of 400: the days for which the division gives the year.\<close>

definition year_ok :: "int \<Rightarrow> bool" where
  "year_ok r \<longleftrightarrow> gauss_days r - 300 \<le> (146097 * r + 399) div 400 - 2 \<and> ((r + 1) * 146097 - 1) div 400 - 2 < gauss_days (r + 1)"

lemma years_ok: "list_all year_ok [0..400]"
  by code_simp

lemma year_range:
  fixes d r :: int
  assumes "146097 * r \<le> (d + 2) * 400" and "(d + 2) * 400 < (r + 1) * 146097"
  shows "(146097 * r + 399) div 400 - 2 \<le> d" and "d \<le> ((r + 1) * 146097 - 1) div 400 - 2"
proof -
  have "(146097 * r + 399) div 400 \<le> ((d + 2) * 400 + 399) div 400" using assms(1) by (intro zdiv_mono1) simp_all
  moreover have "((d + 2) * 400 + 399) div 400 = d + 2" by (rule int_div_pos_eq [of _ _ _ 399]) simp_all
  ultimately show "(146097 * r + 399) div 400 - 2 \<le> d" by (simp only: diff_le_eq)
  have "(d + 2) * 400 div 400 \<le> ((r + 1) * 146097 - 1) div 400" using assms(2) by (intro zdiv_mono1) (simp_all only: zle_diff1_eq)
  then show "d \<le> ((r + 1) * 146097 - 1) div 400 - 2" by (simp only: nonzero_mult_div_cancel_right le_diff_eq)
qed

lemma cycle_days: "(days :: int) = d + 146097 * c \<Longrightarrow> (days + 2) * 400 = (d + 2) * 400 + 146097 * (400 * c)"
  by simp

lemma gm_year_cycle:
  assumes "0 \<le> d" and "d < 146097"
  shows "\<exists>y yd. gm_year d = (y, yd) \<and> d = gauss_days y + yd \<and> 0 \<le> yd \<and> yd < year_len (y + 1)"
proof -
  let ?r = "(d + 2) * 400 div 146097"
  have r: "0 \<le> ?r" "?r \<le> 400" using assms by auto
  then have ok: "year_ok ?r" using years_ok by (auto simp: list_all_iff)
  have div: "146097 * (x div 146097) \<le> x \<and> x < (x div 146097 + 1) * 146097" for x :: int
    using mult_div_mod_eq [of 146097 x] pos_mod_sign [of 146097 x] pos_mod_bound [of 146097 x] by (simp only: distrib_right) linarith
  have bounds: "146097 * ?r \<le> (d + 2) * 400" "(d + 2) * 400 < (?r + 1) * 146097"
    using div [of "(d + 2) * 400"] by blast+
  then have "(146097 * ?r + 399) div 400 - 2 \<le> d" "d \<le> ((?r + 1) * 146097 - 1) div 400 - 2"
    by (rule year_range)+
  with ok have lo: "gauss_days ?r - 300 \<le> d" and hi: "d < gauss_days (?r + 1)"
    unfolding year_ok_def by linarith+
  have len: "365 \<le> year_len ?r" "year_len ?r = 365 + (if is_leap ?r then 1 else 0)"
    by (simp_all add: year_len_def)
  show ?thesis
  proof (cases "d - gauss_days ?r < 0")
    case True
    then have "gm_year d = (?r - 1, 365 + (if is_leap ?r then 1 else 0) + (d - gauss_days ?r))"
      by (simp add: gm_year_def Let_def)
    then show ?thesis using True lo len gauss_step [of ?r] by auto
  next
    case False
    then have "gm_year d = (?r, d - gauss_days ?r)"
      by (simp add: gm_year_def Let_def)
    then show ?thesis using False hi gauss_step [of "?r + 1"] by auto
  qed
qed

lemma gm_year_alt:
  "gm_year days = (let year = (days + 2) * 400 div 146097; yday = days - gauss_days year
     in if yday < 0 then (year - 1, 365 + (if is_leap year then 1 else 0) + yday) else (year, yday))"
  by (simp add: gm_year_def)

lemma gm_year_shift:
  assumes days: "days = d + 146097 * c" and d: "gm_year d = (y, yd)"
  shows "gm_year days = (y + 400 * c, yd)"
proof -
  define r where "r = (d + 2) * 400 div 146097"
  have q: "(days + 2) * 400 div 146097 = r + 400 * c"
    unfolding r_def cycle_days [OF days] by (rule shift_div_mod) simp_all
  have yday: "days - gauss_days (r + 400 * c) = d - gauss_days r"
    using days by (simp add: gauss_shift)
  show ?thesis
    using d unfolding gm_year_alt Let_def q yday leap_shift r_def [symmetric] by (auto split: if_splits)
qed

lemma gm_year_ok:
  assumes "0 \<le> days"
  shows "\<exists>y yd. gm_year days = (y, yd) \<and> days = gauss_days y + yd \<and> 0 \<le> yd \<and> yd < year_len (y + 1)"
proof -
  let ?c = "days div 146097" and ?d = "days mod 146097"
  obtain y yd where d: "gm_year ?d = (y, yd)" "?d = gauss_days y + yd" "0 \<le> yd" "yd < year_len (y + 1)"
    using gm_year_cycle [of ?d] by auto
  have days: "days = ?d + 146097 * ?c" by simp
  have "gm_year days = (y + 400 * ?c, yd)"
    by (rule gm_year_shift [OF days d(1)])
  moreover have "days = gauss_days (y + 400 * ?c) + yd"
    using d(2) days by (simp add: gauss_shift)
  moreover have "year_len (y + 400 * ?c + 1) = year_len (y + 1)"
    using leap_shift [of "y + 1" ?c] by (simp add: year_len_def algebra_simps)
  ultimately show ?thesis using d(3,4) by auto
qed

section \<open>The month of a day\<close>

text \<open>Days before a month, in the order of the calendar.\<close>

lemma month_cases: "1 \<le> m \<Longrightarrow> m \<le> 12 \<Longrightarrow> m \<in> {1, 2, 3, 4, 5, 6, 7, 8, 9, 10, 11, 12 :: int}"
  unfolding insert_iff empty_iff by presburger

lemma month_sums:
  "sum_list (take (nat (m - 1)) (month_lens y)) = (if m \<le> 2 then 31 * (m - 1) else (367 * (m - 2) div 12 - 30) + 59 + (if is_leap y then 1 else 0))"
  if "1 \<le> m" "m \<le> 12" for m y
proof -
  from month_cases [OF that] show ?thesis
    by (elim insertE emptyE) (simp_all add: month_lens_def)
qed

text \<open>What is checked for every day of a year from March 1st.\<close>

definition yday_ok :: "int \<Rightarrow> bool" where
  "yday_ok yd = (case gm_month (0, yd) of (a, m, d) \<Rightarrow>
     1 \<le> m \<and> m \<le> 12 \<and> (m \<le> 2 \<longleftrightarrow> 306 \<le> yd) \<and> 1 \<le> d \<and> d \<le> (if m = 2 then if yd = 365 then 29 else 28 else mday ! nat (m - 1))
     \<and> (if m \<le> 2 then a = 1 \<and> yd = 306 + 31 * (m - 1) + d - 1 else a = 0 \<and> yd = 367 * (m - 2) div 12 - 30 + d - 1))"

lemma ydays_ok: "list_all yday_ok [0..365]"
  by code_simp

lemma gm_month_split: "gm_month (y, yd) = (case gm_month (0, yd) of (a, m, d) \<Rightarrow> (y + a, m, d))"
  by (simp add: gm_month_def Let_def)

lemma civil_gauss:
  assumes "1 \<le> y" and "1 \<le> m" and "m \<le> 12"
  shows "civil_days y m d = (if m \<le> 2 then gauss_days (y - 1) + 306 + 31 * (m - 1) else gauss_days y + (367 * (m - 2) div 12 - 30)) + d - 1 - 719468"
proof -
  have "sum_list (map year_len [1..y - 1]) = gauss_days (y - 1)" using assms(1) by (simp add: sum_year_len)
  moreover have "gauss_days (y - 1) = gauss_days y - 365 - (if is_leap y then 1 else 0)"
    using gauss_step [of y] by (simp add: year_len_def)
  ultimately show ?thesis
    unfolding civil_days_def month_sums [OF assms(2,3)] by auto
qed

lemma month_lens_mday: "1 \<le> m \<Longrightarrow> m \<le> 12 \<Longrightarrow> month_lens y ! nat (m - 1) = (if m = 2 \<and> is_leap y then 29 else mday ! nat (m - 1))"
proof -
  assume "1 \<le> m" "m \<le> 12"
  from month_cases [OF this] show ?thesis by (elim insertE emptyE) (simp_all add: month_lens_def mday_def)
qed

text \<open>The whole computation of a date.\<close>

lemma gm_date_ok:
  assumes "0 \<le> days"
  shows "\<exists>y m d. gm_month (gm_year (days - (31 + 28) + 719527)) = (y, m, d) \<and> 1970 \<le> y \<and> valid_date y m d \<and> civil_days y m d = days"
proof -
  let ?days = "days - (31 + 28) + 719527"
  obtain y0 yd where g: "gm_year ?days = (y0, yd)" "?days = gauss_days y0 + yd" "0 \<le> yd" "yd < year_len (y0 + 1)"
    using gm_year_ok [of ?days] assms by auto
  obtain a m d where m: "gm_month (0, yd) = (a, m, d)" by (cases "gm_month (0, yd)") auto
  have "yd \<in> set [0..365]" using g(3,4) by (auto simp: year_len_def split: if_splits)
  then have "yday_ok yd" using ydays_ok by (auto simp: list_all_iff)
  then have ok: "1 \<le> m" "m \<le> 12" "m \<le> 2 \<longleftrightarrow> 306 \<le> yd" "1 \<le> d"
    and len: "d \<le> (if m = 2 then if yd = 365 then 29 else 28 else mday ! nat (m - 1))"
    and sum: "if m \<le> 2 then a = 1 \<and> yd = 306 + 31 * (m - 1) + d - 1 else a = 0 \<and> yd = 367 * (m - 2) div 12 - 30 + d - 1"
    unfolding yday_ok_def m prod.case by blast+
  have "gauss_days 1969 = 719162" "gauss_days 1970 = 719527" by (simp_all add: gauss_days_def)
  moreover have "?days < gauss_days (y0 + 1)" using g(2,4) gauss_step [of "y0 + 1"] by simp
  ultimately have y0: "1969 \<le> y0" "m \<le> 2 \<or> 1970 \<le> y0"
    using gauss_mono [of "y0 + 1" 1969] g(2) ok(3) assms by (auto intro: ccontr) (cases "y0 = 1969", auto)
  have a1: "a = 1" if "m \<le> 2" using sum that by (simp only: if_True)
  have a0: "a = 0" if "\<not> m \<le> 2" using sum that by (simp only: if_False)
  have y: "1970 \<le> y0 + a" using y0 a1 a0 by (cases "m \<le> 2") auto
  have "civil_days (y0 + a) m d = days"
  proof -
    define k where "k = 367 * (m - 2) div 12 - 30"
    have c: "civil_days (y0 + a) m d = (if m \<le> 2 then gauss_days (y0 + a - 1) + 306 + 31 * (m - 1) else gauss_days (y0 + a) + k) + d - 1 - 719468"
      using civil_gauss [of "y0 + a" m d] y ok unfolding k_def by simp
    have s: "if m \<le> 2 then a = 1 \<and> yd = 306 + 31 * (m - 1) + d - 1 else a = 0 \<and> yd = k + d - 1"
      using sum unfolding k_def .
    show ?thesis
    proof (cases "m \<le> 2")
      case True
      with s have "a = 1" "yd = 306 + 31 * (m - 1) + d - 1" by simp_all
      with c g(2) True show ?thesis by simp
    next
      case False
      with s have "a = 0" "yd = k + d - 1" by simp_all
      with c g(2) False show ?thesis by simp
    qed
  qed
  moreover have "valid_date (y0 + a) m d"
  proof -
    have "yd = 365 \<Longrightarrow> is_leap (y0 + 1)" using g(4) by (simp add: year_len_def split: if_splits)
    moreover have "mday ! nat 1 = 28" by (simp add: mday_def)
    ultimately show ?thesis
      using ok len a1 month_lens_mday [of m "y0 + a"] unfolding valid_date_def by (auto split: if_splits)
  qed
  moreover have "gm_month (gm_year ?days) = (y0 + a, m, d)"
    unfolding g(1) gm_month_split [of y0 yd] m by simp
  ultimately show ?thesis using y by blast
qed

lemma clock_ok:
  assumes "0 \<le> x" and "x < 86400"
  shows "valid_clock (x div 3600) (x mod 3600 div 60) (x mod 3600 mod 60)"
  unfolding valid_clock_def
  using assms zdiv_mono1 [of x 86399 3600] zdiv_mono1 [of "x mod 3600" 3599 60] pos_mod_bound [of 3600 x]
  by (auto simp: pos_imp_zdiv_nonneg_iff)

definition last_time :: int where "last_time = 253402300799"

lemma gmtime_ok:
  assumes "0 \<le> t" and "t \<le> last_time"
  shows "\<exists>y m d h mi s. ngx_gmtime t = \<lparr>tm_sec = s, tm_min = mi, tm_hour = h, tm_mday = d, tm_mon = m, tm_year = y, tm_wday = (4 + t div 86400) mod 7\<rparr>
    \<and> 1970 \<le> y \<and> valid_date y m d \<and> valid_clock h mi s \<and> unix_time y m d h mi s = t"
proof -
  let ?days = "t div 86400" and ?sec = "t mod 86400"
  have days: "0 \<le> ?days" "?days \<le> 2932896" using assms by (auto simp: last_time_def)
  obtain y m d where g: "gm_month (gm_year (?days - (31 + 28) + 719527)) = (y, m, d)" "1970 \<le> y" "valid_date y m d" "civil_days y m d = ?days"
    using gm_date_ok [OF days(1)] by blast
  have tm: "ngx_gmtime t = \<lparr>tm_sec = ?sec mod 3600 mod 60, tm_min = ?sec mod 3600 div 60, tm_hour = ?sec div 3600, tm_mday = d, tm_mon = m,
      tm_year = y, tm_wday = (4 + ?days) mod 7\<rparr>"
    using assms(1) days(2) g(1) unfolding ngx_gmtime_def Let_def by simp
  have sec: "?sec = ?sec div 3600 * 3600 + ?sec mod 3600 div 60 * 60 + ?sec mod 3600 mod 60" "t = ?days * 86400 + ?sec"
    by simp_all
  have s: "0 \<le> ?sec" "?sec < 86400" by simp_all
  define h r mi s where x: "h = ?sec div 3600" "r = ?sec mod 3600" "mi = r div 60" "s = r mod 60"
  have "valid_clock h mi s" unfolding x by (rule clock_ok [OF s])
  moreover have "unix_time y m d h mi s = t"
    using sec unfolding unix_time_def g(4) x by simp
  ultimately show ?thesis using tm g(2,3) unfolding x by blast
qed

section \<open>The parser's formula\<close>

lemma word_div_int:
  assumes "0 \<le> y" "y < 2 ^ 63" "0 < n" "n < 2 ^ 63"
  shows "(word_of_int y :: 64 word) div word_of_int n = word_of_int (y div n)"
proof -
  have "uint (word_of_int y :: 64 word) = y" "uint (word_of_int n :: 64 word) = n"
    using assms by (simp_all add: uint_word_of_int take_bit_int_eq_self)
  then show ?thesis by (metis word_of_int_uint uint_div)
qed

lemma sint_word_int:
  assumes "- 9223372036854775808 \<le> x" and "x < 9223372036854775808"
  shows "sint (word_of_int x :: 64 word) = x"
proof -
  have "sint (word_of_int x :: 64 word) = signed_take_bit 63 x" by transfer simp
  then show ?thesis using assms by (simp add: signed_take_bit_int_eq_self)
qed

lemma date_seconds_ok:
  assumes "1 \<le> y" "y \<le> 9999" "1 \<le> m" "m \<le> 12" "0 \<le> d" "d \<le> 31" "valid_clock h mi s"
  shows "date_seconds d (m - 1) y h mi s = unix_time y m d h mi s"
proof -
  define y1 where "y1 = (if m \<le> 2 then y - 1 else y)"
  define mm where "mm = (if m \<le> 2 then m + 10 else m - 2)"
  define k where "k = 367 * mm div 12"
  let ?w = "word_of_int :: int \<Rightarrow> 64 word"
  have y1: "0 \<le> y1" "y1 < 2 ^ 63" using assms by (auto simp: y1_def)
  have div: "?w y1 div 4 = ?w (y1 div 4)" "?w y1 div 100 = ?w (y1 div 100)" "?w y1 div 400 = ?w (y1 div 400)"
    using word_div_int [OF y1, of 4] word_div_int [OF y1, of 100] word_div_int [OF y1, of 400] by simp_all
  let ?T = "(gauss_days y1 + k - 30 + d - 1 - 719527 + 31 + 28) * 86400 + h * 3600 + mi * 60 + s"
  have year: "(if m - 1 - 1 \<le> 0 then ?w y - 1 else ?w y) = ?w y1" and month: "(if m - 1 - 1 \<le> 0 then m - 1 - 1 + 12 else m - 1 - 1) = mm"
    by (simp_all add: y1_def mm_def)
  have "date_seconds d (m - 1) y h mi s = sint (?w ?T)"
    unfolding date_seconds_def Let_def year month div k_def [symmetric] gauss_days_def by (simp add: algebra_simps)
  also have "\<dots> = ?T"
  proof -
    have "gauss_days 0 \<le> gauss_days y1" "gauss_days y1 \<le> gauss_days 9999"
      using y1(1) assms(1,2) by (auto intro!: gauss_mono simp: y1_def)
    then have g: "0 \<le> gauss_days y1" "gauss_days y1 \<le> 4000000" by (simp_all add: gauss_days_def)
    have "1 \<le> mm" "mm \<le> 12" using assms(3,4) by (auto simp: mm_def)
    then have k: "0 \<le> k" "k \<le> 367" unfolding k_def using zdiv_mono1 [of "367 * mm" "367 * 12" 12] by auto
    have c: "0 \<le> h" "h < 24" "0 \<le> mi" "mi < 60" "0 \<le> s" "s < 60" using assms(7) by (simp_all add: valid_clock_def)
    have "- 9223372036854775808 \<le> ?T" using g k c assms(5,6) by (simp add: distrib_right left_diff_distrib)
    moreover have "?T < 9223372036854775808" using g k c assms(5,6) by (simp add: distrib_right left_diff_distrib)
    ultimately show ?thesis by (rule sint_word_int)
  qed
  also have "\<dots> = unix_time y m d h mi s"
  proof -
    have "civil_days y m d = gauss_days y1 + k - 30 + d - 1 - 719468"
    proof (cases "m \<le> 2")
      case True
      then have "m = 1 \<or> m = 2" using assms(3) by linarith
      then have "k - 30 = 306 + 31 * (m - 1)" by (auto simp: k_def mm_def)
      then show ?thesis using civil_gauss [OF assms(1,3,4), of d] True by (simp add: y1_def)
    next
      case False
      then show ?thesis using civil_gauss [OF assms(1,3,4), of d] by (simp add: y1_def k_def mm_def)
    qed
    then show ?thesis by (simp add: unix_time_def)
  qed
  finally show ?thesis .
qed

end
