(* ===== verification/Ngx_Date_Theorems.thy ===== *)
theory Ngx_Date_Theorems
  imports Ngx_Calendar
begin

text \<open>
  The dates that are printed are parsed back, and the parser reads no byte behind its input and gives the seconds of the
  date that it has read.
\<close>

section \<open>Digits\<close>

definition digit_byte :: "int \<Rightarrow> u_char" where "digit_byte k = word_of_int (48 + k)"

lemma uint_word_int:
  fixes x :: int
  assumes "0 \<le> x" and "x < 2 ^ LENGTH('a)"
  shows "uint (word_of_int x :: 'a::len word) = x"
  using assms by (simp add: uint_word_of_int take_bit_int_eq_self)

lemma digit_byte_digit:
  assumes "0 \<le> k" and "k \<le> 9"
  shows "is_digit (digit_byte k)" and "digit_val (digit_byte k) = k"
proof -
  have "uint (digit_byte k) = 48 + k"
    unfolding digit_byte_def using assms by (intro uint_word_int) simp_all
  then show "is_digit (digit_byte k)" "digit_val (digit_byte k) = k"
    using assms by (simp_all add: is_digit_uint digit_val_def)
qed

lemma digit_dig: "digit_val c = k \<Longrightarrow> c = digit_byte k"
  unfolding digit_val_def digit_byte_def by (metis add.commute diff_add_cancel word_of_int_uint)

lemma num_loop_int:
  assumes "0 \<le> n" and "n < 2 ^ 63"
  shows "num_loop (word_of_int n) [] = (if n < 10 then [] else num_loop (word_of_int (n div 10)) []) @ [digit_byte (n mod 10)]"
proof -
  let ?w = "word_of_int n :: 64 word"
  have u: "uint ?w = n" using assms by (intro uint_word_int) simp_all
  have d: "?w div 10 = word_of_int (n div 10)"
    using word_div_int [of n 10] assms by simp
  have "ucast (?w mod 10) + 0x30 = digit_byte (n mod 10)"
    using digit_dig [OF last_digit(2) [of ?w]] unfolding u .
  moreover have "?w div 10 = 0 \<longleftrightarrow> n < 10"
  proof -
    have "uint (?w div 10) = n div 10" by (simp add: uint_div u)
    moreover have "n div 10 = 0 \<longleftrightarrow> n < 10" using assms(1) by auto
    ultimately show ?thesis by (metis uint_0_iff)
  qed
  ultimately show ?thesis
    by (subst num_loop_unfold) (simp add: d)
qed

lemma fmt_num_loop:
  assumes "num_loop (word_of_int n) [] = ds" and "width \<le> 20"
  shows "fmt_num zero width n = replicate (width - length ds) zero @ ds"
proof -
  have "length ds \<le> 20" using num_digits_fit(1) [of "word_of_int n"] assms(1) by simp
  with assms show ?thesis
    by (simp add: fmt_num_def ngx_sprintf_num_def num_digits_eq)
qed

lemma digit_byte_0: "digit_byte 0 = 0x30"
  by (simp add: digit_byte_def)

lemma div_10_10: "(n :: int) div 10 div 10 = n div 100"
  using zdiv_zmult2_eq [of 10 n 10] by simp

lemma div_100_10: "(n :: int) div 100 div 10 = n div 1000"
  using zdiv_zmult2_eq [of 10 n 100] by simp

lemma num_loop_1: "0 \<le> n \<Longrightarrow> n < 10 \<Longrightarrow> num_loop (word_of_int n) [] = [digit_byte n]"
  using num_loop_int [of n] by simp

lemma num_loop_more: "10 \<le> n \<Longrightarrow> n < 2 ^ 63 \<Longrightarrow> num_loop (word_of_int n) [] = num_loop (word_of_int (n div 10)) [] @ [digit_byte (n mod 10)]"
  using num_loop_int [of n] by simp

lemma fmt_num_2:
  assumes "0 \<le> n" and "n < 100"
  shows "fmt_num 0x30 2 n = [digit_byte (n div 10), digit_byte (n mod 10)]"
proof (cases "n < 10")
  case True
  then show ?thesis using assms(1) fmt_num_loop [OF num_loop_1, of n 2] by (simp add: digit_byte_0)
next
  case False
  have "0 \<le> n div 10" "n div 10 < 10"
    using assms zdiv_mono1 [of n 99 10] by (simp_all add: pos_imp_zdiv_nonneg_iff)
  then have "num_loop (word_of_int n) [] = [digit_byte (n div 10), digit_byte (n mod 10)]"
    using num_loop_more [of n] num_loop_1 [of "n div 10"] assms False by simp
  then show ?thesis by (simp add: fmt_num_loop)
qed

lemma fmt_num_4:
  assumes "1000 \<le> n" and "n < 10000"
  shows "fmt_num 0x20 4 n = [digit_byte (n div 1000), digit_byte (n div 100 mod 10), digit_byte (n div 10 mod 10), digit_byte (n mod 10)]"
proof -
  have q: "100 \<le> n div 10" "n div 10 < 1000" "10 \<le> n div 100" "n div 100 < 100" "1 \<le> n div 1000" "n div 1000 < 10"
    using assms zdiv_mono1 [of 1000 n 10] zdiv_mono1 [of n 9999 10] zdiv_mono1 [of 1000 n 100] zdiv_mono1 [of n 9999 100]
      zdiv_mono1 [of 1000 n 1000] zdiv_mono1 [of n 9999 1000] by simp_all
  have d: "n div 10 div 10 = n div 100" "n div 100 div 10 = n div 1000"
    by (rule div_10_10 div_100_10)+
  have "num_loop (word_of_int n) [] = [digit_byte (n div 1000), digit_byte (n div 100 mod 10), digit_byte (n div 10 mod 10), digit_byte (n mod 10)]"
    using num_loop_more [of n] num_loop_more [of "n div 10", unfolded d] num_loop_more [of "n div 100", unfolded d] num_loop_1 [of "n div 1000"] assms q by simp
  then show ?thesis by (simp add: fmt_num_loop)
qed

section \<open>Round trip\<close>

text \<open>What \<open>month_at\<close> makes of the three bytes of a name.\<close>

definition month_code :: "u_char \<Rightarrow> u_char \<Rightarrow> u_char \<Rightarrow> int option" where
  "month_code a b c =
    (if a = 0x4A then Some (if b = 0x61 then 0 else if c = 0x6E then 5 else 6)
     else if a = 0x46 then Some 1
     else if a = 0x4D then Some (if c = 0x72 then 2 else 4)
     else if a = 0x41 then Some (if b = 0x70 then 3 else 7)
     else if a = 0x53 then Some 8 else if a = 0x4F then Some 9 else if a = 0x4E then Some 10 else if a = 0x44 then Some 11
     else None)"

lemma month_at_code: "p + 2 < length v \<Longrightarrow> month_at v p = Ok (month_code (v ! p) (v ! (p + 1)) (v ! (p + 2)))"
  by (simp add: month_at_def month_code_def byte_at_def)

lemma month_names: "list_all (\<lambda>i. case months ! i of [a, b, c] \<Rightarrow> month_code a b c = Some (int i) | _ \<Rightarrow> False) [0..<12]"
  by code_simp

lemma month_nameE:
  assumes "1 \<le> m" and "m \<le> 12"
  obtains a b c where "months ! nat (m - 1) = [a, b, c]" and "month_code a b c = Some (m - 1)"
proof -
  have "nat (m - 1) \<in> set [0..<12]" using assms by auto
  then have "case months ! nat (m - 1) of [a, b, c] \<Rightarrow> month_code a b c = Some (int (nat (m - 1))) | _ \<Rightarrow> False"
    using month_names unfolding list_all_iff by blast
  then show thesis using assms(1) that by (auto split: list.splits)
qed

lemma week_names: "list_all (\<lambda>i. case week ! i of [a, b, c] \<Rightarrow> set [a, b, c] \<inter> {0x2C, 0x20} = {} | _ \<Rightarrow> False) [0..<7]"
  by code_simp

lemma week_nameE:
  assumes "0 \<le> w" and "w < 7"
  obtains a b c where "week ! nat w = [a, b, c]" and "set [a, b, c] \<inter> {0x2C, 0x20} = {}"
proof -
  have "nat w \<in> set [0..<7]" using assms by auto
  then have "case week ! nat w of [a, b, c] \<Rightarrow> set [a, b, c] \<inter> {0x2C, 0x20} = {} | _ \<Rightarrow> False"
    using week_names unfolding list_all_iff by blast
  then show thesis using that by (auto split: list.splits)
qed

text \<open>Two and four digits in a row.\<close>

lemma digits_at_2:
  assumes "p + 1 < length v" "v ! p = digit_byte a" "v ! (p + 1) = digit_byte b" "0 \<le> a" "a \<le> 9" "0 \<le> b" "b \<le> 9"
  shows "digits_at v p 2 0 = Ok (Some (a * 10 + b))"
  using assms by (simp add: numeral_2_eq_2 byte_at_def digit_byte_digit)

lemma digits_at_4:
  assumes "p + 3 < length v" "v ! p = digit_byte a" "v ! (p + 1) = digit_byte b" "v ! (p + 2) = digit_byte c" "v ! (p + 3) = digit_byte d"
    "0 \<le> a" "a \<le> 9" "0 \<le> b" "b \<le> 9" "0 \<le> c" "c \<le> 9" "0 \<le> d" "d \<le> 9"
  shows "digits_at v p 4 0 = Ok (Some (((a * 10 + b) * 10 + c) * 10 + d))"
  using assms by (simp add: eval_nat_numeral byte_at_def digit_byte_digit)

text \<open>A date in the first format, byte by byte.\<close>

abbreviation ten :: "int \<Rightarrow> bool" where "ten a \<equiv> 0 \<le> a \<and> a \<le> 9"

lemma parse_rfc822:
  fixes w1 w2 w3 m1 m2 m3 :: u_char
  assumes v: "v = [w1, w2, w3, 0x2C, 0x20, digit_byte d1, digit_byte d2, 0x20, m1, m2, m3, 0x20, digit_byte y1, digit_byte y2, digit_byte y3, digit_byte y4, 0x20,
      digit_byte h1, digit_byte h2, 0x3A, digit_byte i1, digit_byte i2, 0x3A, digit_byte s1, digit_byte s2, 0x20, 0x47, 0x4D, 0x54]"
    and w: "set [w1, w2, w3] \<inter> {0x2C, 0x20} = {}" and m: "month_code m1 m2 m3 = Some m"
    and t: "ten d1" "ten d2" "ten y1" "ten y2" "ten y3" "ten y4" "ten h1" "ten h2" "ten i1" "ten i2" "ten s1" "ten s2"
    and x: "d = d1 * 10 + d2" "y = ((y1 * 10 + y2) * 10 + y3) * 10 + y4" "h = h1 * 10 + h2" "i = i1 * 10 + i2" "s = s1 * 10 + s2"
  shows "ngx_parse_http_time v = Ok (if date_ok d m y h i s then date_seconds d m y h i s else NGX_ERROR)"
proof -
  have ne: "digit_byte d1 \<noteq> 0x20"
    using digit_byte_digit(1) [of d1] t(1) by (auto simp: is_digit_def)
  have p: "sep_loop v 0 = (3, False)" "skip_loop (drop 4 v) 4 = 5"
    using w ne by (simp_all add: v)
  have d: "digits_at v 5 2 0 = Ok (Some d)" "digits_at v 17 2 0 = Ok (Some h)" "digits_at v 20 2 0 = Ok (Some i)" "digits_at v 23 2 0 = Ok (Some s)"
    using t unfolding x by (intro digits_at_2; simp add: v)+
  have y: "digits_at v 12 4 0 = Ok (Some y)"
    using t unfolding x by (intro digits_at_4; simp add: v)
  have month: "month_at v 8 = Ok (Some m)"
    using month_at_code [of 8 v] m by (simp add: v)
  have e: "date_byte v 11 0x20 = Ok (Some ())" "date_byte v 16 0x20 = Ok (Some ())" "date_byte v 19 0x3A = Ok (Some ())" "date_byte v 22 0x3A = Ok (Some ())"
    by (simp_all add: date_byte_def byte_at_def v)
  have "byte_at v 7 = Ok 0x20" "length v = 29" by (simp_all add: byte_at_def v)
  then show ?thesis
    by (simp add: ngx_parse_http_time_def p day_first_def d bindE_def month month_end_def e year_at_def y)
qed

text \<open>The second format, with a year of two digits.\<close>

lemma parse_rfc850:
  fixes w1 w2 w3 m1 m2 m3 :: u_char
  assumes v: "v = [w1, w2, w3, 0x2C, 0x20, digit_byte d1, digit_byte d2, 0x2D, m1, m2, m3, 0x2D, digit_byte y1, digit_byte y2, 0x20,
      digit_byte h1, digit_byte h2, 0x3A, digit_byte i1, digit_byte i2, 0x3A, digit_byte s1, digit_byte s2, 0x20, 0x47, 0x4D, 0x54]"
    and w: "set [w1, w2, w3] \<inter> {0x2C, 0x20} = {}" and m: "month_code m1 m2 m3 = Some m"
    and t: "ten d1" "ten d2" "ten y1" "ten y2" "ten h1" "ten h2" "ten i1" "ten i2" "ten s1" "ten s2"
    and x: "d = d1 * 10 + d2" "y0 = y1 * 10 + y2" "h = h1 * 10 + h2" "i = i1 * 10 + i2" "s = s1 * 10 + s2"
    and y: "y = y0 + (if y0 < 70 then 2000 else 1900)"
  shows "ngx_parse_http_time v = Ok (if date_ok d m y h i s then date_seconds d m y h i s else NGX_ERROR)"
proof -
  have ne: "digit_byte d1 \<noteq> 0x20"
    using digit_byte_digit(1) [of d1] t(1) by (auto simp: is_digit_def)
  have p: "sep_loop v 0 = (3, False)" "skip_loop (drop 4 v) 4 = 5"
    using w ne by (simp_all add: v)
  have d: "digits_at v 5 2 0 = Ok (Some d)" "digits_at v 12 2 0 = Ok (Some y0)" "digits_at v 15 2 0 = Ok (Some h)" "digits_at v 18 2 0 = Ok (Some i)"
      "digits_at v 21 2 0 = Ok (Some s)"
    using t unfolding x by (intro digits_at_2; simp add: v)+
  have month: "month_at v 8 = Ok (Some m)"
    using month_at_code [of 8 v] m by (simp add: v)
  have e: "date_byte v 11 0x2D = Ok (Some ())" "date_byte v 14 0x20 = Ok (Some ())" "date_byte v 17 0x3A = Ok (Some ())" "date_byte v 20 0x3A = Ok (Some ())"
    by (simp_all add: date_byte_def byte_at_def v)
  have "byte_at v 7 = Ok 0x2D" "length v = 27" by (simp_all add: byte_at_def v)
  then show ?thesis
    unfolding y by (simp add: ngx_parse_http_time_def p day_first_def d bindE_def month month_end_def e year_at_def)
qed

lemma date_ok_valid:
  assumes "valid_date y m d" and "valid_clock h mi s"
  shows "date_ok d (m - 1) y h mi s"
proof -
  have m: "1 \<le> m" "m \<le> 12" using assms(1) by (simp_all add: valid_date_def)
  have "is_leap y \<longleftrightarrow> \<not> (y mod 4 \<noteq> 0 \<or> y mod 100 = 0 \<and> y mod 400 \<noteq> 0)" by (auto simp: is_leap_def)
  moreover have "mday ! nat 1 = 28" by (simp add: mday_def)
  ultimately show ?thesis
    using assms month_lens_mday [OF m, of y] unfolding date_ok_def valid_date_def valid_clock_def by (auto split: if_splits)
qed

lemma valid_day_31: "valid_date y m d \<Longrightarrow> d \<le> 31"
  using month_cases [of m] unfolding valid_date_def by (auto simp: month_lens_def split: if_splits)

lemma two_digits:
  fixes n :: int
  assumes "0 \<le> n" and "n < 100"
  shows "ten (n div 10)" and "ten (n mod 10)" and "n = n div 10 * 10 + n mod 10"
  using assms zdiv_mono1 [of n 99 10] pos_mod_bound [of 10 n] by (simp_all add: pos_imp_zdiv_nonneg_iff)

lemma four_digits:
  fixes n :: int
  assumes "0 \<le> n" and "n < 10000"
  shows "ten (n div 1000)" and "ten (n div 100 mod 10)" and "ten (n div 10 mod 10)" and "ten (n mod 10)"
    and "n = ((n div 1000 * 10 + n div 100 mod 10) * 10 + n div 10 mod 10) * 10 + n mod 10"
proof -
  show "ten (n div 1000)" using assms zdiv_mono1 [of n 9999 1000] by (simp add: pos_imp_zdiv_nonneg_iff)
  have "n div 10 div 10 = n div 100" "n div 100 div 10 = n div 1000" by (rule div_10_10 div_100_10)+
  then have "n div 1000 * 10 + n div 100 mod 10 = n div 100" "n div 100 * 10 + n div 10 mod 10 = n div 10" "n div 10 * 10 + n mod 10 = n"
    using div_mult_mod_eq [of "n div 100" 10] div_mult_mod_eq [of "n div 10" 10] div_mult_mod_eq [of n 10] by simp_all
  then show "n = ((n div 1000 * 10 + n div 100 mod 10) * 10 + n div 10 mod 10) * 10 + n mod 10" by (simp only:)
qed (use pos_mod_bound [of 10 "n div 100"] pos_mod_bound [of 10 "n div 10"] pos_mod_bound [of 10 n] in simp_all)

lemma clock_bytes:
  assumes "valid_clock h mi s"
  shows "fmt_clock \<lparr>tm_sec = s, tm_min = mi, tm_hour = h, tm_mday = d, tm_mon = m, tm_year = y, tm_wday = w\<rparr>
    = [digit_byte (h div 10), digit_byte (h mod 10), 0x3A, digit_byte (mi div 10), digit_byte (mi mod 10), 0x3A, digit_byte (s div 10), digit_byte (s mod 10)]"
  using assms by (simp add: fmt_clock_def valid_clock_def fmt_num_2 bytes_def)

lemma year_bound: "unix_time y m d h mi s \<le> last_time \<Longrightarrow> valid_date y m d \<Longrightarrow> valid_clock h mi s \<Longrightarrow> 1 \<le> y \<Longrightarrow> y \<le> 9999"
proof (rule ccontr)
  assume u: "unix_time y m d h mi s \<le> last_time" "valid_date y m d" "valid_clock h mi s" "1 \<le> y" "\<not> y \<le> 9999"
  have "gauss_days 9999 \<le> gauss_days (y - 1)" using u(5) by (intro gauss_mono) simp
  then have g: "3652059 \<le> gauss_days (y - 1)" by (simp add: gauss_days_def)
  have "0 \<le> sum_list (take (nat (m - 1)) (month_lens y))"
    by (intro sum_list_nonneg) (auto simp: month_lens_def dest!: in_set_takeD split: if_splits)
  then have "2932897 \<le> civil_days y m d"
    using u(2,4) g sum_year_len [of "y - 1"] by (simp add: civil_days_def valid_date_def)
  then show False using u(1,3) by (simp add: unix_time_def last_time_def valid_clock_def)
qed

text \<open>C23: For every second up to the end of the year 9999, \<open>ngx_gmtime\<close> gives the date of the Gregorian calendar and the time of
  the day, and the weekday counted from Thursday, January 1st, 1970.  The string of \<open>ngx_http_time\<close> has 29 bytes and
  \<open>ngx_parse_http_time\<close> gives the second back from it; so it does from the string of \<open>ngx_http_cookie_time\<close> up to 2037.\<close>

theorem http_time_roundtrip:
  assumes "0 \<le> t" and "t \<le> last_time"
  shows "(\<exists>y m d h mi s. ngx_gmtime t = \<lparr>tm_sec = s, tm_min = mi, tm_hour = h, tm_mday = d, tm_mon = m, tm_year = y, tm_wday = (4 + t div 86400) mod 7\<rparr>
      \<and> valid_date y m d \<and> valid_clock h mi s \<and> unix_time y m d h mi s = t)
    \<and> length (ngx_http_time t) = 29 \<and> ngx_parse_http_time (ngx_http_time t) = Ok t
    \<and> (tm_year (ngx_gmtime t) \<le> 2037 \<longrightarrow> ngx_parse_http_time (ngx_http_cookie_time t) = Ok t)"
proof -
  let ?w = "(4 + t div 86400) mod 7"
  obtain y m d h mi s where tm: "ngx_gmtime t = \<lparr>tm_sec = s, tm_min = mi, tm_hour = h, tm_mday = d, tm_mon = m, tm_year = y, tm_wday = ?w\<rparr>"
    and y: "1970 \<le> y" and vd: "valid_date y m d" and vc: "valid_clock h mi s" and u: "unix_time y m d h mi s = t"
    using gmtime_ok [OF assms] by (elim exE conjE) (rule that)
  have m: "1 \<le> m" "m \<le> 12" and d: "0 \<le> d" "d < 100" using vd valid_day_31 [OF vd] by (auto simp: valid_date_def)
  have y2: "y \<le> 9999" using year_bound [OF _ vd vc] u assms(2) y by simp
  have c: "0 \<le> h" "h < 100" "0 \<le> mi" "mi < 100" "0 \<le> s" "s < 100" using vc by (simp_all add: valid_clock_def)
  have sec: "date_ok d (m - 1) y h mi s" "date_seconds d (m - 1) y h mi s = t"
    using date_ok_valid [OF vd vc] date_seconds_ok [of y m d h mi s] y y2 m d valid_day_31 [OF vd] vc u by auto
  obtain m1 m2 m3 where mon: "months ! nat (m - 1) = [m1, m2, m3]" "month_code m1 m2 m3 = Some (m - 1)" by (rule month_nameE [OF m])
  obtain w1 w2 w3 where wd: "week ! nat ?w = [w1, w2, w3]" "set [w1, w2, w3] \<inter> {0x2C, 0x20} = {}" by (rule week_nameE [of ?w]) auto
  have ht: "ngx_http_time t = [w1, w2, w3, 0x2C, 0x20, digit_byte (d div 10), digit_byte (d mod 10), 0x20, m1, m2, m3, 0x20,
      digit_byte (y div 1000), digit_byte (y div 100 mod 10), digit_byte (y div 10 mod 10), digit_byte (y mod 10), 0x20,
      digit_byte (h div 10), digit_byte (h mod 10), 0x3A, digit_byte (mi div 10), digit_byte (mi mod 10), 0x3A, digit_byte (s div 10), digit_byte (s mod 10), 0x20, 0x47, 0x4D, 0x54]"
    unfolding ngx_http_time_def Let_def tm clock_bytes [OF vc] ngx_tm.select_convs wd(1) mon(1) fmt_num_2 [OF d]
    using fmt_num_4 [of y] y y2 by (simp add: bytes_def)
  have p: "ngx_parse_http_time (ngx_http_time t) = Ok t"
    using parse_rfc822 [OF ht wd(2) mon(2) two_digits(1,2) [OF d] four_digits(1-4) [of y]
      two_digits(1,2) [OF c(1,2)] two_digits(1,2) [OF c(3,4)] two_digits(1,2) [OF c(5,6)] two_digits(3) [OF d] four_digits(5) [of y]
      two_digits(3) [OF c(1,2)] two_digits(3) [OF c(3,4)] two_digits(3) [OF c(5,6)]] y y2 sec by simp
  have k: "ngx_parse_http_time (ngx_http_cookie_time t) = Ok t" if yy: "y \<le> 2037"
  proof -
    have y0: "0 \<le> y mod 100" "y mod 100 < 100" by simp_all
    have full: "y = y mod 100 + (if y mod 100 < 70 then 2000 else 1900)"
    proof -
      define q r where qr: "q = y div 100" "r = y mod 100"
      have "q = 19 \<or> q = 20" using y yy zdiv_mono1 [of 1970 y 100] zdiv_mono1 [of y 2037 100] by (auto simp: qr)
      moreover have "y = q * 100 + r" "r < 100" unfolding qr by simp_all
      ultimately show ?thesis using y yy unfolding qr(2) [symmetric] by auto
    qed
    have ct: "ngx_http_cookie_time t = [w1, w2, w3, 0x2C, 0x20, digit_byte (d div 10), digit_byte (d mod 10), 0x2D, m1, m2, m3, 0x2D,
      digit_byte (y mod 100 div 10), digit_byte (y mod 100 mod 10), 0x20,
      digit_byte (h div 10), digit_byte (h mod 10), 0x3A, digit_byte (mi div 10), digit_byte (mi mod 10), 0x3A, digit_byte (s div 10), digit_byte (s mod 10), 0x20, 0x47, 0x4D, 0x54]"
      unfolding ngx_http_cookie_time_def Let_def tm clock_bytes [OF vc] ngx_tm.select_convs wd(1) mon(1) fmt_num_2 [OF d] fmt_num_2 [OF y0]
      using yy by (simp add: bytes_def)
    show ?thesis
      using parse_rfc850 [OF ct wd(2) mon(2) two_digits(1,2) [OF d] two_digits(1,2) [OF y0] two_digits(1,2) [OF c(1,2)] two_digits(1,2) [OF c(3,4)]
        two_digits(1,2) [OF c(5,6)] two_digits(3) [OF d] two_digits(3) [OF y0] two_digits(3) [OF c(1,2)] two_digits(3) [OF c(3,4)]
        two_digits(3) [OF c(5,6)] full] sec by simp
  qed
  show ?thesis
    using tm vd vc u ht p k by auto
qed

theorem http_time_roundtrip_witness:
  "0 \<le> (784111777 :: int) \<and> 784111777 \<le> last_time \<and> ngx_parse_http_time (ngx_http_time 784111777) = Ok 784111777"
  using http_time_roundtrip [of 784111777] by (simp add: last_time_def)

section \<open>Every input\<close>

text \<open>\<open>fine P r\<close>: the step does not crash, and if it does not end the function its result has \<open>P\<close>.\<close>

definition fine :: "('a \<Rightarrow> bool) \<Rightarrow> 'a option res \<Rightarrow> bool" where
  "fine P r \<longleftrightarrow> (\<exists>x. r = Ok x \<and> (\<forall>y. x = Some y \<longrightarrow> P y))"

lemma fine_byte: "p < length v \<Longrightarrow> fine Q (f (v ! p)) \<Longrightarrow> fine Q (bindR (byte_at v p) f)"
  by (simp add: byte_at_def)

lemma fine_None [simp]: "fine P (Ok None)"
  by (simp add: fine_def)

lemma fine_Some [simp]: "fine P (Ok (Some x)) = P x"
  by (simp add: fine_def)

lemma fine_bindE:
  assumes "fine P m" and "\<And>y. P y \<Longrightarrow> fine Q (f y)"
  shows "fine Q (bindE m f)"
proof -
  obtain x where "m = Ok x" "\<forall>y. x = Some y \<longrightarrow> P y" using assms(1) by (auto simp: fine_def)
  then show ?thesis using assms(2) by (cases x) (simp_all add: bindE_def)
qed

lemma fine_mono: "fine P r \<Longrightarrow> (\<And>x. P x \<Longrightarrow> Q x) \<Longrightarrow> fine Q r"
  by (auto simp: fine_def)

lemma fine_date_byte: "p < length v \<Longrightarrow> fine (\<lambda>_. True) (date_byte v p c)"
  by (simp add: date_byte_def byte_at_def fine_def)

lemma fine_digits_acc: "p + n \<le> length v \<Longrightarrow> 0 \<le> acc \<Longrightarrow> fine (\<lambda>x. 0 \<le> x \<and> x < (acc + 1) * 10 ^ n) (digits_at v p n acc)"
proof (induction n arbitrary: p acc)
  case (Suc n)
  show ?case
  proof (cases "is_digit (v ! p)")
    case True
    let ?a = "acc * 10 + digit_val (v ! p)"
    have a: "0 \<le> ?a" "?a + 1 \<le> (acc + 1) * 10" using digit_val_range [OF True] Suc.prems(2) by auto
    have "fine (\<lambda>x. 0 \<le> x \<and> x < (?a + 1) * 10 ^ n) (digits_at v (p + 1) n ?a)"
      using Suc.IH [of "p + 1" ?a] Suc.prems(1) a(1) by simp
    moreover have "(?a + 1) * 10 ^ n \<le> (acc + 1) * 10 ^ Suc n"
      using mult_right_mono [OF a(2), of "10 ^ n"] by (simp add: mult.assoc)
    ultimately have "fine (\<lambda>x. 0 \<le> x \<and> x < (acc + 1) * 10 ^ Suc n) (digits_at v (p + 1) n ?a)"
      by (elim fine_mono) (blast intro: order_less_le_trans)
    then show ?thesis using Suc.prems(1) True by (simp add: byte_at_def)
  next
    case False
    then show ?thesis using Suc.prems(1) by (simp add: byte_at_def)
  qed
qed simp

lemma fine_digits: "p + n \<le> length v \<Longrightarrow> fine (\<lambda>x. 0 \<le> x \<and> x < 10 ^ n) (digits_at v p n 0)"
  using fine_digits_acc [of p n v 0] by simp

text \<open>The steps of the parser: what is left of the input, and the ranges of the fields.\<close>

definition left :: "u_char list \<Rightarrow> nat \<times> int \<times> date_fmt \<Rightarrow> bool" where
  "left v = (\<lambda>(q, day, fmt). 0 \<le> day \<and> day < 100 \<and> q + (case fmt of Rfc822 \<Rightarrow> 17 | Rfc850 \<Rightarrow> 15 | Isoc \<Rightarrow> 18) \<le> length v)"

lemma fine_day_first:
  assumes "p + 18 \<le> length v"
  shows "fine (left v) (day_first v p)"
  unfolding day_first_def
proof (rule fine_bindE [OF fine_digits])
  show "fine (left v) (bindR (byte_at v (p + 2)) (\<lambda>c.
      if c = 0x20 then if int (length v) - int (p + 2) < 18 then Ok None else Ok (Some (p + 3, day, Rfc822))
      else if c = 0x2D then Ok (Some (p + 3, day, Rfc850)) else Ok None))" if "0 \<le> day \<and> day < 10 ^ 2" for day
    using assms that by (intro fine_byte) (auto simp: left_def)
qed (use assms in simp)

lemma fine_month: "p + 3 \<le> length v \<Longrightarrow> fine (\<lambda>m. 0 \<le> m \<and> m \<le> 11) (month_at v p)"
  using month_at_code [of p v] by (simp add: fine_def month_code_def split: if_splits)

lemma fine_month_end: "p < length v \<Longrightarrow> fine (\<lambda>_. True) (month_end v p fmt)"
  by (cases fmt) (simp_all add: month_end_def fine_date_byte)

definition left_time :: "u_char list \<Rightarrow> date_fmt \<Rightarrow> nat \<times> int \<times> int \<Rightarrow> bool" where
  "left_time v fmt = (\<lambda>(q, day, year). 0 \<le> day \<and> day < 100 \<and> 0 \<le> year \<and> year \<le> 9999 \<and> q + (if fmt = Isoc then 14 else 9) \<le> length v)"

lemma fine_year:
  assumes "left v (p, day, fmt)"
  shows "fine (left_time v fmt) (year_at v (p + 4) fmt day)"
proof (cases fmt)
  case Rfc822
  then show ?thesis
    using assms unfolding year_at_def date_fmt.case
    by (simp only: date_fmt.case, intro fine_bindE [OF fine_digits]) (auto simp: left_def left_time_def)
next
  case Rfc850
  then show ?thesis
    using assms unfolding year_at_def date_fmt.case
    by (simp only: date_fmt.case, intro fine_bindE [OF fine_digits]) (auto simp: left_def left_time_def)
next
  case Isoc
  then have len: "p + 18 \<le> length v" using assms by (simp add: left_def)
  define q where "q = (if v ! (p + 4) = 0x20 then p + 4 + 1 else p + 4)"
  have q: "q \<le> p + 5" by (simp add: q_def)
  have second: "fine (\<lambda>(r, d). r \<le> q + 2 \<and> 0 \<le> d \<and> d < 100)
      (if c = 0x20 then Ok (Some (q + 1, d)) else bindE (digits_at v (q + 1) 1 d) (\<lambda>d2. Ok (Some (q + 2, d2))))" if d: "0 \<le> d \<and> d < 10" for c d
    using d len q fine_bindE [OF fine_digits_acc [of "q + 1" 1 v d], of "\<lambda>(r, d). r \<le> q + 2 \<and> 0 \<le> d \<and> d < 100" "\<lambda>d2. Ok (Some (q + 2, d2))"]
    by auto
  have "fine (left_time v Isoc) (bindE (digits_at v q 1 0) (\<lambda>d. bindR (byte_at v (q + 1)) (\<lambda>c.
      bindE (if c = 0x20 then Ok (Some (q + 1, d)) else bindE (digits_at v (q + 1) 1 d) (\<lambda>d2. Ok (Some (q + 2, d2)))) (\<lambda>(r, d3).
        if int (length v) - int r < 14 then Ok None else Ok (Some (r, d3, 0))))))"
  proof (rule fine_bindE [OF fine_digits])
    fix d :: int assume "0 \<le> d \<and> d < 10 ^ 1"
    then show "fine (left_time v Isoc) (bindR (byte_at v (q + 1)) (\<lambda>c.
      bindE (if c = 0x20 then Ok (Some (q + 1, d)) else bindE (digits_at v (q + 1) 1 d) (\<lambda>d2. Ok (Some (q + 2, d2)))) (\<lambda>(r, d3).
        if int (length v) - int r < 14 then Ok None else Ok (Some (r, d3, 0)))))"
      using len q by (intro fine_byte fine_bindE [OF second]) (auto simp: left_time_def split: prod.splits)
  qed (use len q in simp)
  then show ?thesis
    using len unfolding Isoc year_at_def date_fmt.case
    by (intro fine_byte) (simp_all add: Let_def q_def [symmetric])
qed

lemma date_ok_bounds:
  assumes "date_ok d m y h mi s" and "0 \<le> m" "m \<le> 11"
  shows "h < 24" "mi < 60" "s < 60" "d \<le> month_lens y ! nat m" "d \<le> 31"
proof -
  have "is_leap y \<longleftrightarrow> \<not> (y mod 4 \<noteq> 0 \<or> y mod 100 = 0 \<and> y mod 400 \<noteq> 0)" by (auto simp: is_leap_def)
  then show "d \<le> month_lens y ! nat m"
    using assms month_lens_mday [of "m + 1" y] by (auto simp: date_ok_def mday_def split: if_splits)
  moreover have "month_lens y ! nat m \<le> 31"
    using month_cases [of "m + 1"] assms(2,3) by (auto simp: month_lens_def split: if_splits)
  ultimately show "d \<le> 31" by simp
qed (use assms in \<open>auto simp: date_ok_def\<close>)

text \<open>A second that the parser may answer.\<close>

definition parsed :: "int \<Rightarrow> bool" where
  "parsed t \<longleftrightarrow> (\<exists>y m d h mi s. 0 \<le> y \<and> y \<le> 9999 \<and> 1 \<le> m \<and> m \<le> 12 \<and> 0 \<le> d \<and> d \<le> month_lens y ! nat (m - 1) \<and> valid_clock h mi s
     \<and> (1 \<le> y \<and> t = unix_time y m d h mi s \<or> y = 0 \<and> t = date_seconds d (m - 1) 0 h mi s))"

lemma parsed_date:
  assumes "date_ok d m y h mi s" and "0 \<le> m \<and> m \<le> 11" and "0 \<le> y" "y \<le> 9999" and "0 \<le> d" "0 \<le> h" "0 \<le> mi" "0 \<le> s"
  shows "parsed (date_seconds d m y h mi s)"
proof -
  have b: "h < 24" "mi < 60" "s < 60" "d \<le> month_lens y ! nat m" "d \<le> 31" using date_ok_bounds [OF assms(1)] assms(2) by auto
  then have c: "valid_clock h mi s" using assms by (simp add: valid_clock_def)
  let ?t = "date_seconds d m y h mi s"
  have "1 \<le> y \<and> ?t = unix_time y (m + 1) d h mi s \<or> y = 0 \<and> ?t = date_seconds d (m + 1 - 1) 0 h mi s"
  proof (cases "y = 0")
    case False
    then show ?thesis using date_seconds_ok [of y "m + 1" d h mi s] assms b c by simp
  qed simp
  moreover have "0 \<le> y \<and> y \<le> 9999 \<and> 1 \<le> m + 1 \<and> m + 1 \<le> 12 \<and> 0 \<le> d \<and> d \<le> month_lens y ! nat (m + 1 - 1) \<and> valid_clock h mi s"
    using assms b c by simp
  ultimately show ?thesis unfolding parsed_def by blast
qed

lemma fine_clock:
  assumes "left_time v fmt (p, day, year)" and "0 \<le> month \<and> month \<le> 11"
  shows "fine parsed
   (bindE (date_byte v p 0x20) (\<lambda>_. bindE (digits_at v (p + 1) 2 0) (\<lambda>hour. bindE (date_byte v (p + 3) 0x3A) (\<lambda>_.
    bindE (digits_at v (p + 4) 2 0) (\<lambda>mi. bindE (date_byte v (p + 6) 0x3A) (\<lambda>_. bindE (digits_at v (p + 7) 2 0) (\<lambda>sec.
    bindE (if fmt = Isoc then bindE (date_byte v (p + 9) 0x20) (\<lambda>_. digits_at v (p + 10) 4 0) else Ok (Some year)) (\<lambda>year.
    Ok (if date_ok day month year hour mi sec then Some (date_seconds day month year hour mi sec) else None)))))))))"
proof -
  have l: "0 \<le> day" "0 \<le> year" "year \<le> 9999" "p + 9 \<le> length v" "fmt = Isoc \<Longrightarrow> p + 14 \<le> length v"
    using assms(1) by (auto simp: left_time_def split: if_splits)
  have year: "fine (\<lambda>y. 0 \<le> y \<and> y \<le> 9999) (if fmt = Isoc then bindE (date_byte v (p + 9) 0x20) (\<lambda>_. digits_at v (p + 10) 4 0) else Ok (Some year))"
  proof (cases "fmt = Isoc")
    case True
    have "fine (\<lambda>y. 0 \<le> y \<and> y \<le> 9999) (digits_at v (p + 10) 4 0)"
      by (rule fine_mono [OF fine_digits]) (use l(5) [OF True] in auto)
    then have "fine (\<lambda>y. 0 \<le> y \<and> y \<le> 9999) (bindE (date_byte v (p + 9) 0x20) (\<lambda>_. digits_at v (p + 10) 4 0))"
      using l(5) [OF True] by (intro fine_bindE [OF fine_date_byte]) simp_all
    then show ?thesis using True by simp
  qed (use l in simp)
  show ?thesis
    using l assms(2)
    by (intro fine_bindE [OF fine_date_byte] fine_bindE [OF fine_digits] fine_bindE [OF year]) (auto intro!: parsed_date)
qed

text \<open>C24: For every input \<open>ngx_parse_http_time\<close> reads only bytes of the input, and it answers an error or the second of a date of the
  Gregorian calendar and a time of the day (the day may also be 0, for the last day of the month before; for the year 0 it is what
  the formula gives).\<close>

theorem parse_http_time_sound:
  "\<exists>t. ngx_parse_http_time v = Ok t \<and> (t = NGX_ERROR
    \<or> (\<exists>y m d h mi s. 0 \<le> y \<and> y \<le> 9999 \<and> 1 \<le> m \<and> m \<le> 12 \<and> 0 \<le> d \<and> d \<le> month_lens y ! nat (m - 1) \<and> valid_clock h mi s
        \<and> (1 \<le> y \<and> t = unix_time y m d h mi s \<or> y = 0 \<and> t = date_seconds d (m - 1) 0 h mi s)))"
proof -
  obtain p0 isoc where s: "sep_loop v 0 = (p0, isoc)" by (cases "sep_loop v 0")
  define p where "p = skip_loop (drop (p0 + 1) v) (p0 + 1)"
  show ?thesis
  proof (cases "int (length v) - int p < 18")
    case True
    then show ?thesis by (simp add: ngx_parse_http_time_def s p_def)
  next
    case False
    let ?body = "bindE (if isoc then Ok (Some (p, 32, Isoc)) else day_first v p) (\<lambda>(p, day, fmt).
           bindE (month_at v p) (\<lambda>month. bindE (month_end v (p + 3) fmt) (\<lambda>_. bindE (year_at v (p + 4) fmt day) (\<lambda>(p, day, year).
           bindE (date_byte v p 0x20) (\<lambda>_. bindE (digits_at v (p + 1) 2 0) (\<lambda>hour. bindE (date_byte v (p + 3) 0x3A) (\<lambda>_.
           bindE (digits_at v (p + 4) 2 0) (\<lambda>mi. bindE (date_byte v (p + 6) 0x3A) (\<lambda>_. bindE (digits_at v (p + 7) 2 0) (\<lambda>sec.
           bindE (if fmt = Isoc then bindE (date_byte v (p + 9) 0x20) (\<lambda>_. digits_at v (p + 10) 4 0) else Ok (Some year)) (\<lambda>year.
           Ok (if date_ok day month year hour mi sec then Some (date_seconds day month year hour mi sec) else None))))))))))))"
    have first: "fine (left v) (if isoc then Ok (Some (p, 32, Isoc)) else day_first v p)"
      using False fine_day_first [of p v] by (simp add: left_def)
    have "fine parsed ?body"
    proof (rule fine_bindE [OF first], clarify)
      fix q day fmt assume l: "left v (q, day, fmt)"
      then have q: "q + 15 \<le> length v" by (cases fmt) (simp_all add: left_def)
      show "fine parsed (bindE (month_at v q) (\<lambda>month. bindE (month_end v (q + 3) fmt) (\<lambda>_. bindE (year_at v (q + 4) fmt day) (\<lambda>(p, day, year).
           bindE (date_byte v p 0x20) (\<lambda>_. bindE (digits_at v (p + 1) 2 0) (\<lambda>hour. bindE (date_byte v (p + 3) 0x3A) (\<lambda>_.
           bindE (digits_at v (p + 4) 2 0) (\<lambda>mi. bindE (date_byte v (p + 6) 0x3A) (\<lambda>_. bindE (digits_at v (p + 7) 2 0) (\<lambda>sec.
           bindE (if fmt = Isoc then bindE (date_byte v (p + 9) 0x20) (\<lambda>_. digits_at v (p + 10) 4 0) else Ok (Some year)) (\<lambda>year.
           Ok (if date_ok day month year hour mi sec then Some (date_seconds day month year hour mi sec) else None))))))))))))"
        using q by (intro fine_bindE [OF fine_month] fine_bindE [OF fine_month_end] fine_bindE [OF fine_year [OF l]])
          (simp, simp, clarify, rule fine_clock, assumption, blast)
    qed
    then obtain x where x: "?body = Ok x" "\<forall>t. x = Some t \<longrightarrow> parsed t" by (auto simp: fine_def)
    then have "ngx_parse_http_time v = Ok (case x of None \<Rightarrow> NGX_ERROR | Some t \<Rightarrow> t)"
      using False unfolding ngx_parse_http_time_def Let_def s prod.case p_def [symmetric] by simp
    then show ?thesis
      using x(2) by (cases x) (simp_all add: parsed_def)
  qed
qed

end
