(* ===== verification/Ngx_Palloc.thy ===== *)
theory Ngx_Palloc
  imports Ngx_Prelude "HOL-Library.Multiset"
begin

text \<open>
  The memory pools, \<^verbatim>\<open>src/core/ngx_palloc.c\<close>.  A pool is a chain of blocks of one size; the first has the whole \<^verbatim>\<open>ngx_pool_t\<close>
  at its front and the others only \<^verbatim>\<open>ngx_pool_data_t\<close>.  Small requests move \<^verbatim>\<open>last\<close> of a block; large ones go to the C
  library, and a node in the pool remembers them.  Addresses are natural numbers, a block is named by its position in the chain, and the regions that
  the C library has given out and not got back are the list \<open>heap\<close>.  The C library is the parameter \<open>sys\<close>: with an alignment, a size
  and the regions in use it returns an address or \<^verbatim>\<open>NULL\<close>.  The contents of the memory are not modelled, and neither is the list of
  free chain links, which these functions only set to \<^verbatim>\<open>NULL\<close>.
\<close>

section \<open>Data\<close>

type_synonym region = "nat \<times> nat"
type_synonym heap = "region list"
type_synonym allocator = "nat \<Rightarrow> nat \<Rightarrow> heap \<Rightarrow> nat option"

definition NGX_POOL_ALIGNMENT :: nat where "NGX_POOL_ALIGNMENT = 16"
definition NGX_ALIGNMENT :: nat where "NGX_ALIGNMENT = 8"

text \<open>The sizes of \<^verbatim>\<open>ngx_pool_t\<close>, \<^verbatim>\<open>ngx_pool_data_t\<close>, \<^verbatim>\<open>ngx_pool_large_t\<close> and \<^verbatim>\<open>ngx_pool_cleanup_t\<close>.\<close>

definition sizeof_pool :: nat where "sizeof_pool = 80"
definition sizeof_pool_data :: nat where "sizeof_pool_data = 32"
definition sizeof_pool_large :: nat where "sizeof_pool_large = 16"
definition sizeof_pool_cleanup :: nat where "sizeof_pool_cleanup = 24"

lemmas sizeof_defs = sizeof_pool_def sizeof_pool_data_def sizeof_pool_large_def sizeof_pool_cleanup_def

record pool_block =
  pb_base :: nat
  pb_last :: nat
  pb_end :: nat
  pb_failed :: nat

record pool_large =
  pg_node :: nat
  pg_alloc :: "nat option"

record pool_cleanup =
  pc_node :: nat
  pc_handler :: "nat option"
  pc_data :: "nat option"

record pool =
  pl_blocks :: "pool_block list"
  pl_max :: nat
  pl_current :: nat
  pl_large :: "pool_large list"
  pl_cleanup :: "pool_cleanup list"

section \<open>The C library\<close>

definition ngx_memalign :: "allocator \<Rightarrow> nat \<Rightarrow> nat \<Rightarrow> heap \<Rightarrow> nat option \<times> heap" where
  "ngx_memalign sys align n h = (case sys align n h of None \<Rightarrow> (None, h) | Some p \<Rightarrow> (Some p, (p, n) # h))"

text \<open>\<^verbatim>\<open>malloc\<close> returns memory that is aligned for every type.\<close>

definition ngx_alloc :: "allocator \<Rightarrow> nat \<Rightarrow> heap \<Rightarrow> nat option \<times> heap" where
  "ngx_alloc sys n h = ngx_memalign sys 16 n h"

definition ngx_free :: "nat option \<Rightarrow> heap \<Rightarrow> heap res" where
  "ngx_free q h = (case q of None \<Rightarrow> Ok h | Some p \<Rightarrow>
     if p \<in> fst ` set h then Ok (filter (\<lambda>r. fst r \<noteq> p) h) else Fault BadFree)"

text \<open>A signed difference that is cast to \<^verbatim>\<open>size_t\<close>.\<close>

definition size_t :: "int \<Rightarrow> nat" where
  "size_t d = nat (d mod 2 ^ 64)"

definition ngx_align_ptr :: "nat \<Rightarrow> nat \<Rightarrow> nat" where
  "ngx_align_ptr p a = (p + (a - 1)) div a * a"

section \<open>Creation\<close>

definition ngx_create_pool :: "allocator \<Rightarrow> nat \<Rightarrow> nat \<Rightarrow> heap \<Rightarrow> pool option \<times> heap" where
  "ngx_create_pool sys pagesize n h =
    (case ngx_memalign sys NGX_POOL_ALIGNMENT n h of
       (None, h1) \<Rightarrow> (None, h1)
     | (Some p, h1) \<Rightarrow>
         (Some \<lparr>pl_blocks = [\<lparr>pb_base = p, pb_last = p + sizeof_pool, pb_end = p + n, pb_failed = 0\<rparr>],
            pl_max = (let s = size_t (int n - int sizeof_pool) in if s < pagesize - 1 then s else pagesize - 1),
            pl_current = 0, pl_large = [], pl_cleanup = []\<rparr>, h1))"

section \<open>Small requests\<close>

text \<open>The search for room, in the blocks from \<^verbatim>\<open>current\<close> on.\<close>

fun find_room :: "nat \<Rightarrow> bool \<Rightarrow> pool_block list \<Rightarrow> (nat \<times> pool_block list) option" where
  "find_room n align [] = None"
| "find_room n align (b # bs) =
    (let m = (if align then ngx_align_ptr (pb_last b) NGX_ALIGNMENT else pb_last b)
     in if n \<le> size_t (int (pb_end b) - int m) then Some (m, b\<lparr>pb_last := m + n\<rparr> # bs)
        else map_option (\<lambda>(m, bs'). (m, b # bs')) (find_room n align bs))"

text \<open>The blocks before the last one have failed once more; \<open>i\<close> is the position of the first one of the list.\<close>

fun count_failed :: "nat \<Rightarrow> pool_block list \<Rightarrow> nat \<Rightarrow> pool_block list \<times> nat" where
  "count_failed i (b # c # bs) cur =
    (let (bs', cur') = count_failed (i + 1) (c # bs) (if 4 < pb_failed b then i + 1 else cur)
     in (b\<lparr>pb_failed := pb_failed b + 1\<rparr> # bs', cur'))"
| "count_failed i bs cur = (bs, cur)"

definition ngx_palloc_block :: "allocator \<Rightarrow> nat \<Rightarrow> pool \<Rightarrow> heap \<Rightarrow> (nat option \<times> pool \<times> heap) res" where
  "ngx_palloc_block sys n pl h =
    (case pl_blocks pl of
       [] \<Rightarrow> Fault NullDeref
     | b # _ \<Rightarrow>
         let psize = pb_end b - pb_base b
         in case ngx_memalign sys NGX_POOL_ALIGNMENT psize h of
              (None, h1) \<Rightarrow> Ok (None, pl, h1)
            | (Some p, h1) \<Rightarrow>
                let m = ngx_align_ptr (p + sizeof_pool_data) NGX_ALIGNMENT;
                    new = \<lparr>pb_base = p, pb_last = m + n, pb_end = p + psize, pb_failed = 0\<rparr>;
                    (bs, cur) = count_failed (pl_current pl) (drop (pl_current pl) (pl_blocks pl)) (pl_current pl)
                in Ok (Some m, pl\<lparr>pl_blocks := take (pl_current pl) (pl_blocks pl) @ bs @ [new], pl_current := cur\<rparr>, h1))"

definition ngx_palloc_small :: "allocator \<Rightarrow> nat \<Rightarrow> bool \<Rightarrow> pool \<Rightarrow> heap \<Rightarrow> (nat option \<times> pool \<times> heap) res" where
  "ngx_palloc_small sys n align pl h =
    (if length (pl_blocks pl) \<le> pl_current pl then Fault NullDeref
     else case find_room n align (drop (pl_current pl) (pl_blocks pl)) of
            Some (m, bs) \<Rightarrow> Ok (Some m, pl\<lparr>pl_blocks := take (pl_current pl) (pl_blocks pl) @ bs\<rparr>, h)
          | None \<Rightarrow> ngx_palloc_block sys n pl h)"

section \<open>Large requests\<close>

text \<open>A node whose memory was freed is used again, if it is among the first five.\<close>

fun reuse_large :: "nat \<Rightarrow> nat \<Rightarrow> pool_large list \<Rightarrow> pool_large list option" where
  "reuse_large k p [] = None"
| "reuse_large k p (l # ls) =
    (if pg_alloc l = None then Some (l\<lparr>pg_alloc := Some p\<rparr> # ls)
     else if 3 < k then None
     else map_option (\<lambda>ls'. l # ls') (reuse_large (k + 1) p ls))"

text \<open>A new node for the region at \<open>p\<close>; without memory for it the region is given back.\<close>

definition add_large :: "allocator \<Rightarrow> nat \<Rightarrow> pool \<Rightarrow> heap \<Rightarrow> (nat option \<times> pool \<times> heap) res" where
  "add_large sys p pl h =
    bindR (ngx_palloc_small sys sizeof_pool_large True pl h) (\<lambda>(q, pl1, h1).
      case q of
        None \<Rightarrow> bindR (ngx_free (Some p) h1) (\<lambda>h2. Ok (None, pl1, h2))
      | Some node \<Rightarrow> Ok (Some p, pl1\<lparr>pl_large := \<lparr>pg_node = node, pg_alloc = Some p\<rparr> # pl_large pl1\<rparr>, h1))"

definition ngx_palloc_large :: "allocator \<Rightarrow> nat \<Rightarrow> pool \<Rightarrow> heap \<Rightarrow> (nat option \<times> pool \<times> heap) res" where
  "ngx_palloc_large sys n pl h =
    (case ngx_alloc sys n h of
       (None, h1) \<Rightarrow> Ok (None, pl, h1)
     | (Some p, h1) \<Rightarrow>
         (case reuse_large 0 p (pl_large pl) of
            Some ls \<Rightarrow> Ok (Some p, pl\<lparr>pl_large := ls\<rparr>, h1)
          | None \<Rightarrow> add_large sys p pl h1))"

section \<open>The interface\<close>

definition ngx_palloc :: "allocator \<Rightarrow> nat \<Rightarrow> pool \<Rightarrow> heap \<Rightarrow> (nat option \<times> pool \<times> heap) res" where
  "ngx_palloc sys n pl h = (if n \<le> pl_max pl then ngx_palloc_small sys n True pl h else ngx_palloc_large sys n pl h)"

definition ngx_pnalloc :: "allocator \<Rightarrow> nat \<Rightarrow> pool \<Rightarrow> heap \<Rightarrow> (nat option \<times> pool \<times> heap) res" where
  "ngx_pnalloc sys n pl h = (if n \<le> pl_max pl then ngx_palloc_small sys n False pl h else ngx_palloc_large sys n pl h)"

definition ngx_pmemalign :: "allocator \<Rightarrow> nat \<Rightarrow> nat \<Rightarrow> pool \<Rightarrow> heap \<Rightarrow> (nat option \<times> pool \<times> heap) res" where
  "ngx_pmemalign sys n alignment pl h =
    (case ngx_memalign sys alignment n h of
       (None, h1) \<Rightarrow> Ok (None, pl, h1)
     | (Some p, h1) \<Rightarrow> add_large sys p pl h1)"

text \<open>\<^verbatim>\<open>NULL\<close> is found in a node whose memory was freed.\<close>

fun clear_large :: "nat option \<Rightarrow> pool_large list \<Rightarrow> pool_large list option" where
  "clear_large q [] = None"
| "clear_large q (l # ls) =
    (if q = pg_alloc l then Some (l\<lparr>pg_alloc := None\<rparr> # ls) else map_option (\<lambda>ls'. l # ls') (clear_large q ls))"

definition ngx_pfree :: "nat option \<Rightarrow> pool \<Rightarrow> heap \<Rightarrow> (int \<times> pool \<times> heap) res" where
  "ngx_pfree q pl h =
    (case clear_large q (pl_large pl) of
       None \<Rightarrow> Ok (NGX_DECLINED, pl, h)
     | Some ls \<Rightarrow> bindR (ngx_free q h) (\<lambda>h1. Ok (NGX_OK, pl\<lparr>pl_large := ls\<rparr>, h1)))"

definition ngx_pool_cleanup_add :: "allocator \<Rightarrow> nat \<Rightarrow> pool \<Rightarrow> heap \<Rightarrow> (pool_cleanup option \<times> pool \<times> heap) res" where
  "ngx_pool_cleanup_add sys n pl h =
    bindR (ngx_palloc sys sizeof_pool_cleanup pl h) (\<lambda>(q, pl1, h1).
      case q of
        None \<Rightarrow> Ok (None, pl1, h1)
      | Some c \<Rightarrow>
          bindR (if n \<noteq> 0 then ngx_palloc sys n pl1 h1 else Ok (None, pl1, h1)) (\<lambda>(d, pl2, h2).
          if n \<noteq> 0 \<and> d = None then Ok (None, pl2, h2)
          else let node = \<lparr>pc_node = c, pc_handler = None, pc_data = d\<rparr>
               in Ok (Some node, pl2\<lparr>pl_cleanup := node # pl_cleanup pl2\<rparr>, h2)))"

section \<open>The end of a pool\<close>

fun free_all :: "nat option list \<Rightarrow> heap \<Rightarrow> heap res" where
  "free_all [] h = Ok h"
| "free_all (q # qs) h = bindR (ngx_free q h) (\<lambda>h1. free_all qs h1)"

definition free_large :: "pool \<Rightarrow> heap \<Rightarrow> heap res" where
  "free_large pl h = free_all (filter (\<lambda>q. q \<noteq> None) (map pg_alloc (pl_large pl))) h"

definition ngx_reset_pool :: "pool \<Rightarrow> heap \<Rightarrow> (pool \<times> heap) res" where
  "ngx_reset_pool pl h =
    bindR (free_large pl h) (\<lambda>h1.
      Ok (pl\<lparr>pl_blocks := map (\<lambda>b. b\<lparr>pb_last := pb_base b + sizeof_pool, pb_failed := 0\<rparr>) (pl_blocks pl),
        pl_current := 0, pl_large := []\<rparr>, h1))"

text \<open>The handlers that run, with their data, and the regions in use after.\<close>

definition ngx_destroy_pool :: "pool \<Rightarrow> heap \<Rightarrow> ((nat \<times> nat option) list \<times> heap) res" where
  "ngx_destroy_pool pl h =
    (let calls = concat (map (\<lambda>c. case pc_handler c of None \<Rightarrow> [] | Some f \<Rightarrow> [(f, pc_data c)]) (pl_cleanup pl))
     in bindR (free_large pl h) (\<lambda>h1.
        bindR (free_all (map (\<lambda>b. Some (pb_base b)) (pl_blocks pl)) h1) (\<lambda>h2. Ok (calls, h2))))"

section \<open>The size of a pool\<close>

text \<open>The check of a configured pool size in \<^verbatim>\<open>ngx_http_core_module.c\<close>; true is \<^verbatim>\<open>NGX_CONF_OK\<close>.\<close>

definition NGX_MIN_POOL_SIZE :: nat where
  "NGX_MIN_POOL_SIZE = ngx_align_ptr (sizeof_pool + 2 * sizeof_pool_large) NGX_POOL_ALIGNMENT"

definition ngx_http_core_pool_size :: "nat \<Rightarrow> bool" where
  "ngx_http_core_pool_size sp =
    (if sp < NGX_MIN_POOL_SIZE then False else if sp mod NGX_POOL_ALIGNMENT \<noteq> 0 then False else True)"

end
