(* ===== verification/Ngx_Palloc_Inv.thy ===== *)
theory Ngx_Palloc_Inv
  imports Ngx_Palloc
begin

text \<open>
  The invariant of a pool: its blocks and its large regions are regions of the C library, apart from each other and from those of the rest
  of the program; inside the blocks the headers, the nodes of the large regions and the small regions are apart and
  end before \<^verbatim>\<open>last\<close>.
\<close>

section \<open>Regions\<close>

definition apart :: "region \<Rightarrow> region \<Rightarrow> bool" where
  "apart r s \<longleftrightarrow> fst r + snd r \<le> fst s \<or> fst s + snd s \<le> fst r"

definition inside :: "region \<Rightarrow> region \<Rightarrow> bool" where
  "inside r s \<longleftrightarrow> fst s \<le> fst r \<and> fst r + snd r \<le> fst s + snd s"

lemma apart_sym: "apart r s \<longleftrightarrow> apart s r"
  by (auto simp: apart_def)

lemma apart_inside: "apart r s \<Longrightarrow> inside r' r \<Longrightarrow> inside s' s \<Longrightarrow> apart r' s'"
  by (auto simp: apart_def inside_def)

lemma inside_refl [simp]: "inside r r"
  by (simp add: inside_def)

abbreviation all_apart :: "region list \<Rightarrow> bool" where
  "all_apart \<equiv> sorted_wrt apart"

lemma all_apart_mset: "mset xs = mset ys \<Longrightarrow> all_apart xs \<longleftrightarrow> all_apart ys"
proof -
  have *: "all_apart ys" if "mset xs = mset ys" "all_apart xs" for xs ys
    using that
  proof (induction xs arbitrary: ys)
    case (Cons x xs)
    have "x \<in> set ys" using Cons.prems(1) by (metis list.set_intros(1) set_mset_mset)
    then obtain as bs where ys: "ys = as @ x # bs" by (auto simp: in_set_conv_decomp)
    then have m: "mset xs = mset (as @ bs)" using Cons.prems(1) by simp
    then have "all_apart (as @ bs)" using Cons by simp
    moreover have "set xs = set as \<union> set bs" using arg_cong [OF m, of set_mset] by simp
    then have "\<forall>y\<in>set as \<union> set bs. apart x y" using Cons.prems(2) by simp
    ultimately show ?case using apart_sym by (auto simp: ys sorted_wrt_append)
  qed simp
  assume "mset xs = mset ys"
  then show ?thesis using * [of xs ys] * [of ys xs] by auto
qed

text \<open>What is documented of the allocators of the C library: the region is aligned and apart from all others, at an address of its own.\<close>

definition allocator_ok :: "allocator \<Rightarrow> bool" where
  "allocator_ok sys \<longleftrightarrow> (\<forall>align n h p. sys align n h = Some p \<longrightarrow>
    align dvd p \<and> p \<notin> fst ` set h \<and> (\<forall>r\<in>set h. apart (p, n) r))"

section \<open>The invariant\<close>

definition block_region :: "pool_block \<Rightarrow> region" where
  "block_region b = (pb_base b, pb_end b - pb_base b)"

fun headers :: "pool_block list \<Rightarrow> region list" where
  "headers [] = []"
| "headers (b # bs) = (pb_base b, sizeof_pool) # map (\<lambda>c. (pb_base c, sizeof_pool_data)) bs"

definition placed :: "pool_block list \<Rightarrow> region \<Rightarrow> bool" where
  "placed bs r \<longleftrightarrow> (\<exists>b\<in>set bs. pb_base b \<le> fst r \<and> fst r + snd r \<le> pb_last b)"

definition block_ok :: "nat \<Rightarrow> pool_block \<Rightarrow> bool" where
  "block_ok n b \<longleftrightarrow> 8 dvd pb_base b \<and> pb_base b \<le> pb_last b \<and> pb_last b \<le> pb_end b \<and> pb_end b = pb_base b + n"

definition pool_ok :: "nat \<Rightarrow> pool \<Rightarrow> bool" where
  "pool_ok n pl \<longleftrightarrow> 8 dvd n \<and> sizeof_pool \<le> n \<and> n < 2 ^ 63 \<and> pl_max pl \<le> n - sizeof_pool
    \<and> pl_current pl < length (pl_blocks pl) \<and> (\<forall>b\<in>set (pl_blocks pl). block_ok n b)"

text \<open>\<open>h0\<close> are the regions of the rest of the program, \<open>big\<close> the large ones of the pool, \<open>inner\<close> those in its blocks.\<close>

abbreviation owned :: "heap \<Rightarrow> pool_block list \<Rightarrow> region list \<Rightarrow> region list" where
  "owned h0 bs big \<equiv> h0 @ map block_region bs @ big"

definition heap_inv :: "heap \<Rightarrow> pool_block list \<Rightarrow> region list \<Rightarrow> heap \<Rightarrow> bool" where
  "heap_inv h0 bs big h \<longleftrightarrow> all_apart (owned h0 bs big) \<and> distinct (map fst (owned h0 bs big)) \<and> mset h = mset (owned h0 bs big)"

definition inner_inv :: "pool_block list \<Rightarrow> region list \<Rightarrow> bool" where
  "inner_inv bs inner \<longleftrightarrow> all_apart (headers bs @ inner) \<and> (\<forall>r\<in>set (headers bs @ inner). placed bs r)"

definition pool_inv :: "nat \<Rightarrow> heap \<Rightarrow> region list \<Rightarrow> region list \<Rightarrow> pool \<Rightarrow> heap \<Rightarrow> bool" where
  "pool_inv n h0 inner big pl h \<longleftrightarrow> pool_ok n pl \<and> heap_inv h0 (pl_blocks pl) big h \<and> inner_inv (pl_blocks pl) inner"

lemma heap_inv_owned:
  assumes "heap_inv h0 bs big h" and o: "mset (owned h0 bs' big') = mset (owned h0 bs big)"
  shows "heap_inv h0 bs' big' h"
proof -
  have "mset (map fst (owned h0 bs' big')) = mset (map fst (owned h0 bs big))" using o by (simp only: mset_map)
  then have "distinct (map fst (owned h0 bs' big')) = distinct (map fst (owned h0 bs big))" by (rule mset_eq_imp_distinct_iff)
  then show ?thesis using assms(1) o all_apart_mset [OF o] unfolding heap_inv_def by simp
qed

lemma heap_inv_mset: "heap_inv h0 bs big h \<Longrightarrow> mset big' = mset big \<Longrightarrow> heap_inv h0 bs big' h"
  by (rule heap_inv_owned) simp_all

lemma inner_inv_mset: "inner_inv bs inner \<Longrightarrow> mset inner' = mset inner \<Longrightarrow> inner_inv bs inner'"
proof -
  assume a: "inner_inv bs inner" and m: "mset inner' = mset inner"
  then have e: "mset (headers bs @ inner') = mset (headers bs @ inner)" by simp
  show ?thesis using a all_apart_mset [OF e] mset_eq_setD [OF e] unfolding inner_inv_def by simp
qed

lemma pool_inv_mset: "pool_inv n h0 inner big pl h \<Longrightarrow> mset inner' = mset inner \<Longrightarrow> mset big' = mset big \<Longrightarrow> pool_inv n h0 inner' big' pl h"
  using heap_inv_mset inner_inv_mset unfolding pool_inv_def by blast

section \<open>The C library\<close>

lemma memalign_ok:
  assumes "allocator_ok sys" and "heap_inv h0 bs big h" and "ngx_memalign sys align k h = (Some p, h1)"
  shows "heap_inv h0 bs ((p, k) # big) h1" and "align dvd p"
proof -
  have sys: "sys align k h = Some p" and h1: "h1 = (p, k) # h" using assms(3) by (auto simp: ngx_memalign_def split: option.splits)
  have law: "align dvd p" "p \<notin> fst ` set h" "\<forall>r\<in>set h. apart (p, k) r" using assms(1) sys by (auto simp: allocator_ok_def)
  have m: "mset h = mset (owned h0 bs big)" using assms(2) by (simp add: heap_inv_def)
  have s: "set h = set (owned h0 bs big)" using mset_eq_setD [OF m] .
  have o: "mset ((p, k) # owned h0 bs big) = mset (owned h0 bs ((p, k) # big))" by simp
  have "all_apart ((p, k) # owned h0 bs big)" using assms(2) law(3) s by (simp add: heap_inv_def)
  then have "all_apart (owned h0 bs ((p, k) # big))" by (simp only: all_apart_mset [OF o])
  moreover have "p \<notin> set (map fst (owned h0 bs big))" using law(2) unfolding set_map s .
  then have "distinct (map fst ((p, k) # owned h0 bs big))" using assms(2) by (simp add: heap_inv_def)
  then have "distinct (map fst (owned h0 bs ((p, k) # big)))" by auto
  ultimately show "heap_inv h0 bs ((p, k) # big) h1" using m h1 by (simp add: heap_inv_def)
  show "align dvd p" by (rule law(1))
qed

lemma memalign_None: "ngx_memalign sys align k h = (None, h1) \<Longrightarrow> h1 = h"
  by (simp add: ngx_memalign_def split: option.splits)

lemma free_ok:
  assumes "heap_inv h0 bs ((p, k) # big) h"
  shows "\<exists>h1. ngx_free (Some p) h = Ok h1 \<and> heap_inv h0 bs big h1"
proof -
  have m: "mset h = mset (owned h0 bs ((p, k) # big))" and d: "distinct (map fst (owned h0 bs ((p, k) # big)))"
    using assms by (simp_all add: heap_inv_def)
  have "p \<in> fst ` set h" using mset_eq_setD [OF m] by force
  then have f: "ngx_free (Some p) h = Ok (filter (\<lambda>r. fst r \<noteq> p) h)" by (simp add: ngx_free_def)
  have keep: "filter (\<lambda>r. fst r \<noteq> p) xs = xs" if "p \<notin> fst ` set xs" for xs :: "region list"
    using that by (auto simp: filter_id_conv)
  have "mset (filter (\<lambda>r. fst r \<noteq> p) h) = mset (filter (\<lambda>r. fst r \<noteq> p) (owned h0 bs ((p, k) # big)))"
    using m by (simp only: mset_filter)
  also have "filter (\<lambda>r. fst r \<noteq> p) (owned h0 bs ((p, k) # big)) = owned h0 bs big"
    using d by (auto simp: keep image_iff)
  finally have "heap_inv h0 bs big (filter (\<lambda>r. fst r \<noteq> p) h)"
    using assms by (auto simp: heap_inv_def sorted_wrt_append)
  with f show ?thesis by blast
qed

section \<open>Small requests\<close>

lemma align_ptr_8: "8 dvd ngx_align_ptr q 8" "q \<le> ngx_align_ptr q 8" "8 dvd e \<Longrightarrow> q \<le> e \<Longrightarrow> ngx_align_ptr q 8 \<le> e"
proof -
  show "8 dvd ngx_align_ptr q 8" by (simp add: ngx_align_ptr_def)
  show "q \<le> ngx_align_ptr q 8" unfolding ngx_align_ptr_def by presburger
  show "ngx_align_ptr q 8 \<le> e" if "8 dvd e" "q \<le> e" using that unfolding ngx_align_ptr_def by presburger
qed

lemma size_t_diff: "m \<le> e \<Longrightarrow> e - m < 2 ^ 64 \<Longrightarrow> size_t (int e - int m) = e - m"
  by (simp add: size_t_def of_nat_diff [symmetric] nat_mod_distrib del: of_nat_diff)

lemma find_room_ok:
  assumes "\<forall>b\<in>set bs. block_ok n b" and "8 dvd n" and "n < 2 ^ 63" and "find_room k align bs = Some (m, bs')"
  shows "\<exists>xs b ys. bs = xs @ b # ys \<and> bs' = xs @ b\<lparr>pb_last := m + k\<rparr> # ys \<and> pb_last b \<le> m \<and> m + k \<le> pb_end b \<and> (align \<longrightarrow> 8 dvd m)"
  using assms
proof (induction bs arbitrary: bs')
  case (Cons b bs)
  obtain M where M: "M = (if align then ngx_align_ptr (pb_last b) 8 else pb_last b)" by simp
  have step: "find_room k align (b # bs) = (if k \<le> size_t (int (pb_end b) - int M) then Some (M, b\<lparr>pb_last := M + k\<rparr> # bs)
      else map_option (\<lambda>(m, bs'). (m, b # bs')) (find_room k align bs))"
    by (simp only: find_room.simps Let_def NGX_ALIGNMENT_def M)
  have b: "block_ok n b" using Cons.prems(1) by simp
  then have e: "8 dvd pb_end b" using Cons.prems(2) by (simp add: block_ok_def)
  have m: "pb_last b \<le> M" "M \<le> pb_end b" "align \<longrightarrow> 8 dvd M"
    using b align_ptr_8(1,2) [of "pb_last b"] align_ptr_8(3) [OF e, of "pb_last b"] by (auto simp: block_ok_def M)
  have "pb_end b - M < 2 ^ 64" using b m Cons.prems(3) by (auto simp: block_ok_def)
  then have room: "size_t (int (pb_end b) - int M) = pb_end b - M" by (rule size_t_diff [OF m(2)])
  show ?case
  proof (cases "k \<le> pb_end b - M")
    case True
    then have "m = M" "bs' = b\<lparr>pb_last := M + k\<rparr> # bs"
      using Cons.prems(4) unfolding step room by auto
    then show ?thesis using m True by (intro exI [of _ "[]"] exI [of _ b] exI [of _ bs]) auto
  next
    case False
    then obtain cs where cs: "find_room k align bs = Some (m, cs)" "bs' = b # cs"
      using Cons.prems(4) unfolding step room by auto
    then obtain xs c ys where "bs = xs @ c # ys \<and> cs = xs @ c\<lparr>pb_last := m + k\<rparr> # ys \<and> pb_last c \<le> m \<and> m + k \<le> pb_end c \<and> (align \<longrightarrow> 8 dvd m)"
      using Cons.IH [of cs] Cons.prems(1-3) by auto
    then show ?thesis using cs(2) by (intro exI [of _ "b # xs"] exI [of _ c] exI [of _ ys]) simp
  qed
qed simp

lemma headers_cong: "map pb_base bs = map pb_base cs \<Longrightarrow> headers bs = headers cs"
proof -
  assume a: "map pb_base bs = map pb_base cs"
  have "headers xs = (case map pb_base xs of [] \<Rightarrow> [] | q # qs \<Rightarrow> (q, sizeof_pool) # map (\<lambda>q. (q, sizeof_pool_data)) qs)" for xs
    by (cases xs) simp_all
  then show ?thesis by (simp only: a)
qed

text \<open>A region after \<^verbatim>\<open>last\<close> of a block.\<close>

lemma place_region:
  assumes inv: "inner_inv (xs @ b # ys) inner" and blocks: "all_apart (map block_region (xs @ b # ys))" "\<forall>c\<in>set (xs @ b # ys). block_ok n c"
    and m: "pb_last b \<le> m" "m + k \<le> pb_end b"
  shows "inner_inv (xs @ b\<lparr>pb_last := m + k\<rparr> # ys) ((m, k) # inner)"
proof -
  let ?bs = "xs @ b # ys" and ?cs = "xs @ b\<lparr>pb_last := m + k\<rparr> # ys"
  have hd: "headers ?cs = headers ?bs" by (rule headers_cong) simp
  have b: "block_ok n b" using blocks(2) by simp
  have apart: "apart (m, k) r" if r: "r \<in> set (headers ?bs @ inner)" for r
  proof -
    obtain c where c: "c \<in> set ?bs" "pb_base c \<le> fst r" "fst r + snd r \<le> pb_last c"
      using inv r unfolding inner_inv_def placed_def by blast
    show ?thesis
    proof (cases "c = b")
      case True
      then show ?thesis using c m by (simp add: apart_def)
    next
      case False
      then have "apart (block_region b) (block_region c) \<or> apart (block_region c) (block_region b)"
        using c(1) blocks(1) by (auto simp: sorted_wrt_append)
      then have "apart (block_region b) (block_region c)" using apart_sym by blast
      moreover have "block_ok n c" using blocks(2) c(1) by blast
      then have "inside (m, k) (block_region b)" "inside r (block_region c)"
        using m b c(2,3) by (simp_all add: inside_def block_region_def block_ok_def)
      ultimately show ?thesis by (rule apart_inside)
    qed
  qed
  have "placed ?cs r" if "placed ?bs r" for r
    using that m unfolding placed_def by auto
  moreover have "placed ?cs (m, k)" using m b by (auto simp: placed_def block_ok_def)
  moreover have "all_apart ((m, k) # headers ?bs @ inner)" using inv apart by (auto simp: inner_inv_def)
  then have "all_apart (headers ?bs @ (m, k) # inner)" by (subst all_apart_mset [of _ "(m, k) # headers ?bs @ inner"]) simp_all
  ultimately show ?thesis using inv unfolding inner_inv_def hd by auto
qed

text \<open>A block at the end of the chain, with a region after its header.\<close>

lemma placed_inside:
  assumes "placed bs r" and "\<forall>c\<in>set bs. block_ok n c"
  obtains c where "c \<in> set bs" and "inside r (block_region c)"
proof -
  obtain c where c: "c \<in> set bs" "pb_base c \<le> fst r" "fst r + snd r \<le> pb_last c" using assms(1) by (auto simp: placed_def)
  then have "block_ok n c" using assms(2) by blast
  then show thesis using c by (intro that [OF c(1)]) (auto simp: inside_def block_region_def block_ok_def)
qed

lemma headers_snoc: "bs \<noteq> [] \<Longrightarrow> headers (bs @ [b]) = headers bs @ [(pb_base b, sizeof_pool_data)]"
  by (cases bs) simp_all

lemma new_block_inner:
  assumes inv: "inner_inv bs inner" and ne: "bs \<noteq> []" and blocks: "\<forall>c\<in>set bs. block_ok n c" "all_apart (map block_region bs @ [(pb_base b, n)])"
    and last: "pb_last b = pb_base b + sizeof_pool_data + k" and k: "k + sizeof_pool_data \<le> n"
  shows "inner_inv (bs @ [b]) ((pb_base b + sizeof_pool_data, k) # inner)"
proof -
  let ?r = "(pb_base b, sizeof_pool_data)" and ?s = "(pb_base b + sizeof_pool_data, k)"
  have "apart r ?r \<and> apart r ?s" if r: "r \<in> set (headers bs @ inner)" for r
  proof -
    have "placed bs r" using inv r by (simp only: inner_inv_def)
    then obtain c where c: "c \<in> set bs" "inside r (block_region c)" by (rule placed_inside [OF _ blocks(1)])
    have "apart (block_region c) (pb_base b, n)" using c(1) blocks(2) by (auto simp: sorted_wrt_append)
    moreover have "inside ?r (pb_base b, n)" "inside ?s (pb_base b, n)" using k by (simp_all add: inside_def)
    ultimately show ?thesis using apart_inside [OF _ c(2)] by blast
  qed
  moreover have "apart ?s ?r" by (simp add: apart_def)
  moreover have "all_apart (headers bs @ inner)" using inv by (simp add: inner_inv_def)
  ultimately have "all_apart ((headers bs @ inner) @ [?s, ?r])" by (auto simp: sorted_wrt_append)
  then have "all_apart (headers (bs @ [b]) @ ?s # inner)"
    unfolding headers_snoc [OF ne] by (subst all_apart_mset [of _ "(headers bs @ inner) @ [?s, ?r]"]) simp_all
  moreover have "placed (bs @ [b]) ?r" "placed (bs @ [b]) ?s" using last by (auto simp: placed_def)
  moreover have "placed (bs @ [b]) r" if "placed bs r" for r using that by (auto simp: placed_def)
  ultimately show ?thesis using inv unfolding inner_inv_def headers_snoc [OF ne] by auto
qed

text \<open>Counting failures changes no address.\<close>

definition same_place :: "pool_block list \<Rightarrow> pool_block list \<Rightarrow> bool" where
  "same_place bs cs \<longleftrightarrow> map (pb_failed_update (\<lambda>_. 0)) bs = map (pb_failed_update (\<lambda>_. 0)) cs"

lemma same_place_refl [simp]: "same_place bs bs"
  by (simp add: same_place_def)

lemma same_place_map:
  assumes "same_place bs cs" and "\<And>b. f (b\<lparr>pb_failed := 0\<rparr>) = f b"
  shows "map f bs = map f cs"
proof -
  have "map f bs = map f (map (pb_failed_update (\<lambda>_. 0)) bs)" for bs using assms(2) by simp
  then show ?thesis using assms(1) unfolding same_place_def by metis
qed

lemma same_place_Ball:
  assumes "same_place bs cs" and "\<And>b. P (b\<lparr>pb_failed := 0\<rparr>) = P b"
  shows "(\<forall>b\<in>set bs. P b) \<longleftrightarrow> (\<forall>b\<in>set cs. P b)"
  using arg_cong [OF same_place_map [where f = P, OF assms], of "\<lambda>xs. \<forall>x\<in>set xs. x"] by simp

lemma same_place_placed: "same_place bs cs \<Longrightarrow> placed bs r \<longleftrightarrow> placed cs r"
  using same_place_Ball [of bs cs "\<lambda>b. \<not> (pb_base b \<le> fst r \<and> fst r + snd r \<le> pb_last b)"] by (auto simp: placed_def)

lemma same_place_inv:
  assumes "same_place bs cs"
  shows "heap_inv h0 bs big h = heap_inv h0 cs big h" and "inner_inv bs inner = inner_inv cs inner"
    and "(\<forall>b\<in>set bs. block_ok n b) = (\<forall>b\<in>set cs. block_ok n b)" and "length bs = length cs"
proof -
  have "map block_region bs = map block_region cs" by (rule same_place_map [OF assms]) (simp add: block_region_def)
  then show "heap_inv h0 bs big h = heap_inv h0 cs big h" by (simp add: heap_inv_def)
  have "headers bs = headers cs" by (rule headers_cong, rule same_place_map [OF assms]) simp
  then show "inner_inv bs inner = inner_inv cs inner" using same_place_placed [OF assms] by (simp add: inner_inv_def)
  show "(\<forall>b\<in>set bs. block_ok n b) = (\<forall>b\<in>set cs. block_ok n b)" by (rule same_place_Ball [OF assms]) (simp add: block_ok_def)
  show "length bs = length cs" using assms by (auto simp: same_place_def dest: map_eq_imp_length_eq)
qed

lemma count_failed_ok:
  assumes "count_failed i bs cur = (bs', cur')" and "cur < i + length bs"
  shows "same_place bs' bs \<and> cur' < i + length bs"
  using assms
proof (induction i bs cur arbitrary: bs' cur' rule: count_failed.induct)
  case (1 i b c bs cur)
  let ?cur = "if 4 < pb_failed b then i + 1 else cur"
  obtain cs k where r: "count_failed (i + 1) (c # bs) ?cur = (cs, k)" by (cases "count_failed (i + 1) (c # bs) ?cur")
  then have "bs' = b\<lparr>pb_failed := pb_failed b + 1\<rparr> # cs" "cur' = k" using 1(2) by (simp_all add: Let_def)
  moreover have "same_place cs (c # bs) \<and> cur' < i + 1 + length (c # bs)" using 1(1) [OF r] 1(3) \<open>cur' = k\<close> by auto
  ultimately show ?case by (simp add: same_place_def)
qed simp_all

section \<open>The requests keep the invariant\<close>

text \<open>What a request leaves as it is.\<close>

definition same_lists :: "pool \<Rightarrow> pool \<Rightarrow> bool" where
  "same_lists pl pl' \<longleftrightarrow> pl_large pl' = pl_large pl \<and> pl_cleanup pl' = pl_cleanup pl \<and> pl_max pl' = pl_max pl"

lemma palloc_block_ok:
  assumes sys: "allocator_ok sys" and inv: "pool_inv n h0 inner big pl h" and k: "k + sizeof_pool_data \<le> n"
  shows "\<exists>q pl' h'. ngx_palloc_block sys k pl h = Ok (q, pl', h') \<and> same_lists pl pl' \<and>
    (case q of None \<Rightarrow> pool_inv n h0 inner big pl' h' | Some m \<Rightarrow> pool_inv n h0 ((m, k) # inner) big pl' h' \<and> 8 dvd m)"
proof -
  have ok: "pool_ok n pl" and hi: "heap_inv h0 (pl_blocks pl) big h" and ii: "inner_inv (pl_blocks pl) inner"
    using inv by (simp_all add: pool_inv_def)
  have cur: "pl_current pl < length (pl_blocks pl)" and bl: "\<forall>b\<in>set (pl_blocks pl). block_ok n b" using ok by (simp_all add: pool_ok_def)
  then obtain b bs where bs: "pl_blocks pl = b # bs" by (cases "pl_blocks pl") auto
  have psize: "pb_end b - pb_base b = n" using bl bs by (simp add: block_ok_def)
  obtain q h1 where a: "ngx_memalign sys 16 n h = (q, h1)" by fastforce
  show ?thesis
  proof (cases q)
    case None
    then show ?thesis
      using inv a memalign_None [of sys 16 n h h1] by (simp add: ngx_palloc_block_def bs psize NGX_POOL_ALIGNMENT_def same_lists_def)
  next
    case (Some p)
    let ?new = "\<lparr>pb_base = p, pb_last = p + sizeof_pool_data + k, pb_end = p + n, pb_failed = 0\<rparr>"
    note al = memalign_ok [OF sys hi a [unfolded Some]]
    then have p8: "8 dvd p" by (auto intro: dvd_trans [of 8 16])
    then have m: "ngx_align_ptr (p + sizeof_pool_data) NGX_ALIGNMENT = p + sizeof_pool_data"
      by (auto simp: ngx_align_ptr_def sizeof_defs NGX_ALIGNMENT_def dvd_def)
    let ?cur = "pl_current pl"
    obtain cs cur' where cf: "count_failed ?cur (drop ?cur (pl_blocks pl)) ?cur = (cs, cur')" by fastforce
    let ?cs = "take ?cur (pl_blocks pl) @ cs"
    have cs: "same_place cs (drop ?cur (pl_blocks pl))" "cur' < length (pl_blocks pl)"
      using count_failed_ok [OF cf] cur by auto
    have "same_place (take ?cur (pl_blocks pl) @ cs) (take ?cur (pl_blocks pl) @ drop ?cur (pl_blocks pl))"
      using cs(1) unfolding same_place_def map_append by (simp only:)
    then have place: "same_place ?cs (pl_blocks pl)" by simp
    note pi = same_place_inv [OF place]
    have run: "ngx_palloc_block sys k pl h = Ok (Some (p + sizeof_pool_data), pl\<lparr>pl_blocks := ?cs @ [?new], pl_current := cur'\<rparr>, h1)"
      using a Some cf m unfolding ngx_palloc_block_def bs by (simp add: psize NGX_POOL_ALIGNMENT_def Let_def)
    have ne: "?cs \<noteq> []" using pi(4) cur by auto
    have cheap: "heap_inv h0 ?cs ((p, n) # big) h1" using al(1) pi(1) by simp
    then have heap: "heap_inv h0 (?cs @ [?new]) big h1" by (rule heap_inv_owned) (simp add: block_region_def)
    have cok: "\<forall>c\<in>set ?cs. block_ok n c" using bl pi(3) by blast
    have "all_apart (map block_region ?cs @ [(p, n)])" using cheap by (auto simp: heap_inv_def sorted_wrt_append)
    then have inner: "inner_inv (?cs @ [?new]) ((p + sizeof_pool_data, k) # inner)"
      using new_block_inner [of ?cs inner n ?new k] pi(2) ii ne cok k by simp
    have "block_ok n ?new" using p8 k by (simp add: block_ok_def)
    then have "pool_ok n (pl\<lparr>pl_blocks := ?cs @ [?new], pl_current := cur'\<rparr>)"
      using ok cok cs(2) pi(4) by (auto simp: pool_ok_def)
    moreover have "8 dvd p + sizeof_pool_data" using p8 by (simp add: sizeof_defs)
    ultimately show ?thesis using run heap inner by (auto simp: pool_inv_def same_lists_def)
  qed
qed

lemma palloc_small_ok:
  assumes sys: "allocator_ok sys" and inv: "pool_inv n h0 inner big pl h" and k: "k + sizeof_pool_data \<le> n"
  shows "\<exists>q pl' h'. ngx_palloc_small sys k align pl h = Ok (q, pl', h') \<and> same_lists pl pl' \<and>
    (case q of None \<Rightarrow> pool_inv n h0 inner big pl' h' | Some m \<Rightarrow> pool_inv n h0 ((m, k) # inner) big pl' h' \<and> (align \<longrightarrow> 8 dvd m))"
proof -
  let ?cur = "pl_current pl" and ?bs = "pl_blocks pl"
  have ok: "pool_ok n pl" and hi: "heap_inv h0 ?bs big h" and ii: "inner_inv ?bs inner"
    using inv by (simp_all add: pool_inv_def)
  have cur: "\<not> length ?bs \<le> ?cur" and bl: "\<forall>b\<in>set ?bs. block_ok n b" "8 dvd n" "n < 2 ^ 63" using ok by (simp_all add: pool_ok_def)
  show ?thesis
  proof (cases "find_room k align (drop ?cur ?bs)")
    case None
    obtain q pl' h' where r: "ngx_palloc_block sys k pl h = Ok (q, pl', h')" "same_lists pl pl'"
      "case q of None \<Rightarrow> pool_inv n h0 inner big pl' h' | Some m \<Rightarrow> pool_inv n h0 ((m, k) # inner) big pl' h' \<and> 8 dvd m"
      using palloc_block_ok [OF sys inv k] by blast
    then show ?thesis using None cur by (auto simp: ngx_palloc_small_def split: option.splits)
  next
    case (Some mb)
    obtain m bs' where mb: "mb = (m, bs')" by fastforce
    have "\<forall>b\<in>set (drop ?cur ?bs). block_ok n b" using bl(1) by (auto dest: in_set_dropD)
    from find_room_ok [OF this bl(2,3) Some [unfolded mb]] obtain xs b ys where
      split: "drop ?cur ?bs = xs @ b # ys" "bs' = xs @ b\<lparr>pb_last := m + k\<rparr> # ys" "pb_last b \<le> m" "m + k \<le> pb_end b" "align \<longrightarrow> 8 dvd m" by blast
    obtain zs where zs: "take ?cur ?bs = zs" by simp
    let ?xs = "zs @ xs"
    have bs: "?bs = ?xs @ b # ys" using split(1) zs append_take_drop_id [of ?cur ?bs] by simp
    let ?cs = "?xs @ b\<lparr>pb_last := m + k\<rparr> # ys"
    have "all_apart (map block_region (?xs @ b # ys))" using hi unfolding bs by (auto simp: heap_inv_def sorted_wrt_append)
    then have inner: "inner_inv ?cs ((m, k) # inner)"
      using bl(1) unfolding bs by (rule place_region [OF ii [unfolded bs] _ _ split(3,4)])
    have b: "block_ok n b" using bl(1) bs by (metis in_set_conv_decomp)
    then have "block_ok n (b\<lparr>pb_last := m + k\<rparr>)" using split(3,4) by (auto simp: block_ok_def)
    moreover have "\<forall>c\<in>set ?xs \<union> set ys. block_ok n c" using bl(1) bs by (metis Un_iff set_append set_subset_Cons subsetD)
    moreover have "length ?cs = length ?bs" using arg_cong [OF bs, of length] by simp
    ultimately have pok: "pool_ok n (pl\<lparr>pl_blocks := ?cs\<rparr>)" using ok unfolding pool_ok_def by auto
    have "map block_region ?cs = map block_region ?bs"
      unfolding arg_cong [OF bs, of "map block_region"] by (simp add: block_region_def)
    then have "heap_inv h0 ?cs big h" using hi by (simp only: heap_inv_def)
    moreover have "ngx_palloc_small sys k align pl h = Ok (Some m, pl\<lparr>pl_blocks := ?cs\<rparr>, h)"
      using cur Some mb split(2) zs by (simp add: ngx_palloc_small_def)
    ultimately show ?thesis using inner pok split(5) by (auto simp: pool_inv_def same_lists_def)
  qed
qed

end
