(* ===== verification/Ngx_Palloc_Theorems.thy ===== *)
theory Ngx_Palloc_Theorems
  imports Ngx_Palloc_Inv
begin

text \<open>
  The pool with its large regions: every function keeps the invariant, over any sequence of calls, and what the pool has
  handed out is apart, aligned, inside memory of the C library, and given back at the end.
\<close>

section \<open>Runs of a pool\<close>

text \<open>\<open>al\<close> are the regions that were handed out and not freed; a reset takes all of them back.\<close>

datatype pool_op = Palloc nat | Pnalloc nat | Pmemalign nat nat | Pfree "nat option" | CleanupAdd nat | ResetPool

type_synonym pool_state = "pool \<times> heap \<times> region list"

definition hand_out :: "nat \<Rightarrow> region list \<Rightarrow> nat option \<times> pool \<times> heap \<Rightarrow> pool_state" where
  "hand_out k al r = (case r of (q, pl, h) \<Rightarrow> (pl, h, case q of None \<Rightarrow> al | Some m \<Rightarrow> (m, k) # al))"

definition take_back :: "nat option \<Rightarrow> heap \<Rightarrow> region list \<Rightarrow> region list" where
  "take_back q h al = (case q of None \<Rightarrow> al | Some p \<Rightarrow> (case map_of h p of None \<Rightarrow> al | Some k \<Rightarrow> remove1 (p, k) al))"

definition cleanup_regions :: "nat \<Rightarrow> pool_cleanup option \<Rightarrow> region list" where
  "cleanup_regions k c = (case c of None \<Rightarrow> []
    | Some c \<Rightarrow> (case pc_data c of None \<Rightarrow> [] | Some d \<Rightarrow> [(d, k)]) @ [(pc_node c, sizeof_pool_cleanup)])"

fun pool_step :: "allocator \<Rightarrow> pool_op \<Rightarrow> pool_state \<Rightarrow> pool_state res" where
  "pool_step sys (Palloc k) (pl, h, al) = bindR (ngx_palloc sys k pl h) (\<lambda>r. Ok (hand_out k al r))"
| "pool_step sys (Pnalloc k) (pl, h, al) = bindR (ngx_pnalloc sys k pl h) (\<lambda>r. Ok (hand_out k al r))"
| "pool_step sys (Pmemalign k a) (pl, h, al) = bindR (ngx_pmemalign sys k a pl h) (\<lambda>r. Ok (hand_out k al r))"
| "pool_step sys (Pfree q) (pl, h, al) =
    bindR (ngx_pfree q pl h) (\<lambda>(rc, pl1, h1). Ok (pl1, h1, if rc = NGX_OK then take_back q h al else al))"
| "pool_step sys (CleanupAdd k) (pl, h, al) =
    bindR (ngx_pool_cleanup_add sys k pl h) (\<lambda>(c, pl1, h1). Ok (pl1, h1, cleanup_regions k c @ al))"
| "pool_step sys ResetPool (pl, h, al) = bindR (ngx_reset_pool pl h) (\<lambda>(pl1, h1). Ok (pl1, h1, []))"

fun pool_run :: "allocator \<Rightarrow> pool_op list \<Rightarrow> pool_state \<Rightarrow> pool_state res" where
  "pool_run sys [] s = Ok s"
| "pool_run sys (op # ops) s = bindR (pool_step sys op s) (\<lambda>s1. pool_run sys ops s1)"

section \<open>Large regions\<close>

definition live_large :: "pool_large list \<Rightarrow> nat list" where
  "live_large ls = map the (filter (\<lambda>q. q \<noteq> None) (map pg_alloc ls))"

definition nodes :: "pool_large list \<Rightarrow> region list" where
  "nodes ls = map (\<lambda>l. (pg_node l, sizeof_pool_large)) ls"

lemma live_large_simps [simp]: "live_large [] = []"
  "live_large (l # ls) = (case pg_alloc l of None \<Rightarrow> live_large ls | Some p \<Rightarrow> p # live_large ls)"
  by (auto simp: live_large_def split: option.splits)

lemma nodes_simps [simp]: "nodes [] = []" "nodes (l # ls) = (pg_node l, sizeof_pool_large) # nodes ls"
  by (simp_all add: nodes_def)

text \<open>\<open>small\<close> are the regions in the blocks and \<open>big\<close> the large ones; a few may have been lost.\<close>

definition state_inv :: "nat \<Rightarrow> heap \<Rightarrow> pool_state \<Rightarrow> bool" where
  "state_inv n h0 s = (case s of (pl, h, al) \<Rightarrow> \<exists>small big. mset al \<subseteq># mset (small @ big)
    \<and> mset (map fst big) = mset (live_large (pl_large pl)) \<and> pool_inv n h0 (nodes (pl_large pl) @ small) big pl h)"

lemma reuse_large_ok:
  "reuse_large k p ls = Some ls' \<Longrightarrow> nodes ls' = nodes ls \<and> mset (live_large ls') = add_mset p (mset (live_large ls))"
  by (induction ls arbitrary: k ls') (auto split: if_splits option.splits)

lemma clear_large_ok:
  "clear_large q ls = Some ls' \<Longrightarrow> nodes ls' = nodes ls
    \<and> (case q of None \<Rightarrow> live_large ls' = live_large ls | Some p \<Rightarrow> mset (live_large ls) = add_mset p (mset (live_large ls')))"
  by (induction ls arbitrary: ls') (auto split: if_splits option.splits)

lemma pool_inv_large: "pool_inv n h0 inner big (pl\<lparr>pl_large := ls\<rparr>) h = pool_inv n h0 inner big pl h"
  by (simp add: pool_inv_def pool_ok_def)

lemma pool_inv_cleanup: "pool_inv n h0 inner big (pl\<lparr>pl_cleanup := cs\<rparr>) h = pool_inv n h0 inner big pl h"
  by (simp add: pool_inv_def pool_ok_def)

lemma pool_inv_size: "pool_inv n h0 inner big pl h \<Longrightarrow> sizeof_pool \<le> n \<and> pl_max pl \<le> n - sizeof_pool"
  by (simp add: pool_inv_def pool_ok_def)

lemma memalign_inv:
  assumes "allocator_ok sys" and "pool_inv n h0 inner big pl h" and "ngx_memalign sys a k h = (Some p, h1)"
  shows "pool_inv n h0 inner ((p, k) # big) pl h1" and "a dvd p"
  using memalign_ok [OF assms(1) _ assms(3)] assms(2) by (auto simp: pool_inv_def)

text \<open>Memory at \<open>p\<close> in \<open>big\<close> is freed.\<close>

lemma free_inv:
  assumes "pool_inv n h0 inner big pl h" and "(p, k) \<in> set big"
  shows "\<exists>h1. ngx_free (Some p) h = Ok h1 \<and> pool_inv n h0 inner (remove1 (p, k) big) pl h1"
proof -
  have "mset big = mset ((p, k) # remove1 (p, k) big)" using assms(2) by simp
  then have "heap_inv h0 (pl_blocks pl) ((p, k) # remove1 (p, k) big) h"
    using assms(1) heap_inv_mset by (metis pool_inv_def)
  from free_ok [OF this] show ?thesis using assms(1) by (auto simp: pool_inv_def)
qed

text \<open>A region of \<open>k\<close> bytes was handed out, or nothing was.\<close>

definition served :: "nat \<Rightarrow> heap \<Rightarrow> region list \<Rightarrow> nat \<Rightarrow> nat \<Rightarrow> (nat option \<times> pool \<times> heap) res \<Rightarrow> bool" where
  "served n h0 al k a r \<longleftrightarrow> (\<exists>q pl h. r = Ok (q, pl, h) \<and> state_inv n h0 (hand_out k al (q, pl, h)) \<and> (\<forall>m. q = Some m \<longrightarrow> a dvd m))"

lemma add_large_ok:
  assumes sys: "allocator_ok sys" and al: "mset al \<subseteq># mset (small @ big)" and live: "mset (map fst big) = mset (live_large (pl_large pl))"
    and inv: "pool_inv n h0 (nodes (pl_large pl) @ small) ((p, k) # big) pl h" and a: "a dvd p"
  shows "served n h0 al k a (add_large sys p pl h)"
proof -
  have "sizeof_pool_large + sizeof_pool_data \<le> n" using pool_inv_size [OF inv] by (simp add: sizeof_defs)
  from palloc_small_ok [OF sys inv this, of True] obtain q pl1 h1 where r: "ngx_palloc_small sys sizeof_pool_large True pl h = Ok (q, pl1, h1)"
    "same_lists pl pl1" "case q of None \<Rightarrow> pool_inv n h0 (nodes (pl_large pl) @ small) ((p, k) # big) pl1 h1
      | Some m \<Rightarrow> pool_inv n h0 ((m, sizeof_pool_large) # nodes (pl_large pl) @ small) ((p, k) # big) pl1 h1 \<and> (True \<longrightarrow> 8 dvd m)"
    by blast
  have ls: "pl_large pl1 = pl_large pl" using r(2) by (simp add: same_lists_def)
  show ?thesis
  proof (cases q)
    case None
    then have "pool_inv n h0 (nodes (pl_large pl) @ small) ((p, k) # big) pl1 h1" using r(3) by simp
    from free_inv [OF this, of p k] obtain h2 where h2: "ngx_free (Some p) h1 = Ok h2" "pool_inv n h0 (nodes (pl_large pl) @ small) big pl1 h2" by auto
    then have "state_inv n h0 (pl1, h2, al)" using al live ls by (auto simp: state_inv_def)
    then show ?thesis using None r(1) h2(1) by (simp add: served_def add_large_def hand_out_def)
  next
    case (Some node)
    let ?pl = "pl1\<lparr>pl_large := \<lparr>pg_node = node, pg_alloc = Some p\<rparr> # pl_large pl1\<rparr>"
    have "pool_inv n h0 (nodes (pl_large ?pl) @ small) ((p, k) # big) ?pl h1" using r(3) Some ls by (simp add: pool_inv_large)
    moreover have "mset (map fst ((p, k) # big)) = mset (live_large (pl_large ?pl))" using live ls by simp
    moreover have "mset ((p, k) # al) \<subseteq># mset (small @ (p, k) # big)" using al by simp
    ultimately have "state_inv n h0 (?pl, h1, (p, k) # al)" unfolding state_inv_def by blast
    then show ?thesis using Some r(1) a by (simp add: served_def add_large_def hand_out_def)
  qed
qed

lemma palloc_large_ok:
  assumes sys: "allocator_ok sys" and inv: "state_inv n h0 (pl, h, al)"
  shows "served n h0 al k 16 (ngx_palloc_large sys k pl h)"
proof -
  obtain small big where s: "mset al \<subseteq># mset (small @ big)" "mset (map fst big) = mset (live_large (pl_large pl))"
    "pool_inv n h0 (nodes (pl_large pl) @ small) big pl h" using inv by (auto simp: state_inv_def)
  obtain q h1 where q: "ngx_memalign sys 16 k h = (q, h1)" by fastforce
  show ?thesis
  proof (cases q)
    case None
    then show ?thesis using q inv memalign_None [of sys 16 k h h1] by (simp add: served_def ngx_palloc_large_def ngx_alloc_def hand_out_def)
  next
    case (Some p)
    note mi = memalign_inv [OF sys s(3) q [unfolded Some]]
    show ?thesis
    proof (cases "reuse_large 0 p (pl_large pl)")
      case None
      then show ?thesis
        using q Some add_large_ok [OF sys s(1,2) mi] by (simp add: ngx_palloc_large_def ngx_alloc_def)
    next
      case ls: (Some ls)
      have "state_inv n h0 (pl\<lparr>pl_large := ls\<rparr>, h1, (p, k) # al)"
        using mi(1) s(1,2) reuse_large_ok [OF ls] unfolding state_inv_def prod.case
        by (intro exI [of _ small] exI [of _ "(p, k) # big"]) (simp add: pool_inv_large)
      then show ?thesis using q Some ls mi(2) by (simp add: served_def ngx_palloc_large_def ngx_alloc_def hand_out_def)
    qed
  qed
qed

lemma pmemalign_served:
  assumes sys: "allocator_ok sys" and inv: "state_inv n h0 (pl, h, al)"
  shows "served n h0 al k a (ngx_pmemalign sys k a pl h)"
proof -
  obtain small big where s: "mset al \<subseteq># mset (small @ big)" "mset (map fst big) = mset (live_large (pl_large pl))"
    "pool_inv n h0 (nodes (pl_large pl) @ small) big pl h" using inv by (auto simp: state_inv_def)
  obtain q h1 where q: "ngx_memalign sys a k h = (q, h1)" by fastforce
  show ?thesis
  proof (cases q)
    case None
    then show ?thesis using q inv memalign_None [of sys a k h h1] by (simp add: served_def ngx_pmemalign_def hand_out_def)
  next
    case (Some p)
    then show ?thesis
      using q add_large_ok [OF sys s(1,2) memalign_inv [OF sys s(3) q [unfolded Some]]] by (simp add: ngx_pmemalign_def)
  qed
qed

lemma small_served:
  assumes sys: "allocator_ok sys" and inv: "state_inv n h0 (pl, h, al)" and k: "k \<le> pl_max pl"
  shows "served n h0 al k (if align then 8 else 1) (ngx_palloc_small sys k align pl h)"
proof -
  obtain small big where s: "mset al \<subseteq># mset (small @ big)" "mset (map fst big) = mset (live_large (pl_large pl))"
    "pool_inv n h0 (nodes (pl_large pl) @ small) big pl h" using inv by (auto simp: state_inv_def)
  have "k + sizeof_pool_data \<le> n" using pool_inv_size [OF s(3)] k by (auto simp: sizeof_defs)
  from palloc_small_ok [OF sys s(3) this, of align] obtain q pl1 h1 where r: "ngx_palloc_small sys k align pl h = Ok (q, pl1, h1)"
    "same_lists pl pl1" "case q of None \<Rightarrow> pool_inv n h0 (nodes (pl_large pl) @ small) big pl1 h1
      | Some m \<Rightarrow> pool_inv n h0 ((m, k) # nodes (pl_large pl) @ small) big pl1 h1 \<and> (align \<longrightarrow> 8 dvd m)"
    by blast
  have ls: "pl_large pl1 = pl_large pl" using r(2) by (simp add: same_lists_def)
  show ?thesis
  proof (cases q)
    case None
    then show ?thesis using s r ls by (auto simp: served_def hand_out_def state_inv_def)
  next
    case (Some m)
    then have "pool_inv n h0 (nodes (pl_large pl) @ (m, k) # small) big pl1 h1"
      using r(3) by (auto intro: pool_inv_mset)
    moreover have "mset ((m, k) # al) \<subseteq># mset (((m, k) # small) @ big)" using s(1) by simp
    ultimately have "state_inv n h0 (pl1, h1, (m, k) # al)" using s(2) ls unfolding state_inv_def prod.case by metis
    then show ?thesis using Some r by (auto simp: served_def hand_out_def)
  qed
qed

lemma served_dvd: "served n h0 al k a r \<Longrightarrow> b dvd a \<Longrightarrow> served n h0 al k b r"
proof -
  assume "served n h0 al k a r" and d: "b dvd a"
  then obtain q pl h where r: "r = Ok (q, pl, h)" "state_inv n h0 (hand_out k al (q, pl, h))" "\<forall>m. q = Some m \<longrightarrow> a dvd m" by (auto simp: served_def)
  have "\<forall>m. q = Some m \<longrightarrow> b dvd m" using r(3) dvd_trans [OF d] by blast
  with r show ?thesis unfolding served_def by blast
qed

lemma palloc_served: "allocator_ok sys \<Longrightarrow> state_inv n h0 (pl, h, al) \<Longrightarrow> served n h0 al k 8 (ngx_palloc sys k pl h)"
  using small_served [of sys n h0 pl h al k True] palloc_large_ok [of sys n h0 pl h al k] by (auto simp: ngx_palloc_def elim: served_dvd)

lemma pnalloc_served: "allocator_ok sys \<Longrightarrow> state_inv n h0 (pl, h, al) \<Longrightarrow> served n h0 al k 1 (ngx_pnalloc sys k pl h)"
  using small_served [of sys n h0 pl h al k False] palloc_large_ok [of sys n h0 pl h al k] by (auto simp: ngx_pnalloc_def elim: served_dvd)

section \<open>The other functions\<close>

lemma owned_big:
  assumes "pool_inv n h0 inner big pl h"
  shows "set big \<subseteq> set h" and "distinct (map fst h)"
proof -
  have m: "mset h = mset (owned h0 (pl_blocks pl) big)" and d: "distinct (map fst (owned h0 (pl_blocks pl) big))"
    using assms by (simp_all add: pool_inv_def heap_inv_def)
  show "set big \<subseteq> set h" using mset_eq_setD [OF m] by auto
  have "mset (map fst h) = mset (map fst (owned h0 (pl_blocks pl) big))" using m by (simp only: mset_map)
  then show "distinct (map fst h)" using d mset_eq_imp_distinct_iff by blast
qed

lemma diff_subset_mset: "A \<subseteq># B \<Longrightarrow> A - C \<subseteq># B - C"
  by (simp add: subseteq_mset_def diff_le_mono)

lemma pfree_ok:
  assumes inv: "state_inv n h0 (pl, h, al)"
  shows "\<exists>s. pool_step sys (Pfree q) (pl, h, al) = Ok s \<and> state_inv n h0 s"
proof -
  obtain small big where s: "mset al \<subseteq># mset (small @ big)" "mset (map fst big) = mset (live_large (pl_large pl))"
    "pool_inv n h0 (nodes (pl_large pl) @ small) big pl h" using inv by (auto simp: state_inv_def)
  show ?thesis
  proof (cases "clear_large q (pl_large pl)")
    case None
    then show ?thesis using inv by (simp add: ngx_pfree_def ngx_rc_defs)
  next
    case (Some ls)
    note cl = clear_large_ok [OF Some]
    show ?thesis
    proof (cases q)
      case None
      have "state_inv n h0 (pl\<lparr>pl_large := ls\<rparr>, h, al)"
        using s cl None by (auto simp: state_inv_def pool_inv_large)
      then show ?thesis using Some None by (simp add: ngx_pfree_def ngx_free_def take_back_def)
    next
      case p: (Some p)
      have "p \<in> set_mset (mset (map fst big))" using s(2) cl p by simp
      then obtain k where k: "(p, k) \<in> set big" by auto
      from free_inv [OF s(3) k] obtain h1 where h1: "ngx_free (Some p) h = Ok h1"
        "pool_inv n h0 (nodes (pl_large pl) @ small) (remove1 (p, k) big) pl h1" by blast
      have "map_of h p = Some k" using owned_big [OF s(3)] k by (auto intro: map_of_is_SomeI)
      then have tb: "take_back q h al = remove1 (p, k) al" using p by (simp add: take_back_def)
      obtain big' where big': "remove1 (p, k) big = big'" by simp
      have "mset big = mset ((p, k) # remove1 (p, k) big)" using k by simp
      then have "mset big = add_mset (p, k) (mset big')" unfolding big' by (simp only: mset.simps)
      then have "mset (small @ remove1 (p, k) big) = mset (small @ big) - {#(p, k)#}" unfolding big' by simp
      then have "mset (remove1 (p, k) al) \<subseteq># mset (small @ remove1 (p, k) big)" using diff_subset_mset [OF s(1)] by simp
      moreover have "mset (map fst (remove1 (p, k) big)) = mset (live_large ls)"
        using s(2) cl p k by (simp add: image_mset_Diff)
      ultimately have "state_inv n h0 (pl\<lparr>pl_large := ls\<rparr>, h1, take_back q h al)"
        using h1(2) cl unfolding state_inv_def prod.case tb by (intro exI [of _ small] exI [of _ "remove1 (p, k) big"]) (simp add: pool_inv_large)
      then show ?thesis using Some p h1(1) by (simp add: ngx_pfree_def)
    qed
  qed
qed

lemma state_inv_cleanup: "state_inv n h0 (pl\<lparr>pl_cleanup := cs\<rparr>, h, al) = state_inv n h0 (pl, h, al)"
  by (simp add: state_inv_def pool_inv_cleanup)

lemma state_inv_drop: "state_inv n h0 (pl, h, r # al) \<Longrightarrow> state_inv n h0 (pl, h, al)"
proof -
  assume "state_inv n h0 (pl, h, r # al)"
  moreover have "mset al \<subseteq># mset (r # al)" by simp
  ultimately show ?thesis using subset_mset.order_trans unfolding state_inv_def prod.case by blast
qed

lemma cleanup_ok:
  assumes sys: "allocator_ok sys" and inv: "state_inv n h0 (pl, h, al)"
  shows "\<exists>s. pool_step sys (CleanupAdd k) (pl, h, al) = Ok s \<and> state_inv n h0 s"
proof -
  obtain q pl1 h1 where r: "ngx_palloc sys sizeof_pool_cleanup pl h = Ok (q, pl1, h1)"
    "state_inv n h0 (hand_out sizeof_pool_cleanup al (q, pl1, h1))"
    using palloc_served [OF sys inv, of sizeof_pool_cleanup] by (auto simp: served_def)
  show ?thesis
  proof (cases q)
    case None
    then show ?thesis using r by (simp add: ngx_pool_cleanup_add_def hand_out_def cleanup_regions_def)
  next
    case (Some c)
    then have inv1: "state_inv n h0 (pl1, h1, (c, sizeof_pool_cleanup) # al)" using r(2) by (simp add: hand_out_def)
    obtain d pl2 h2 where r2: "ngx_palloc sys k pl1 h1 = Ok (d, pl2, h2)" "state_inv n h0 (hand_out k ((c, sizeof_pool_cleanup) # al) (d, pl2, h2))"
      using palloc_served [OF sys inv1, of k] by (auto simp: served_def)
    show ?thesis
    proof (cases "k = 0")
      case True
      then show ?thesis using r(1) Some inv1 by (simp add: ngx_pool_cleanup_add_def cleanup_regions_def state_inv_cleanup Let_def)
    next
      case False
      then show ?thesis
        using r(1) Some r2 state_inv_drop [of n h0 pl2 h2 "(c, sizeof_pool_cleanup)" al]
        by (cases d) (simp_all add: ngx_pool_cleanup_add_def cleanup_regions_def hand_out_def state_inv_cleanup Let_def)
    qed
  qed
qed

section \<open>Giving back\<close>

lemma free_all_big:
  assumes "heap_inv h0 bs big h" and "mset (map fst big) = mset ps"
  shows "\<exists>h1. free_all (map Some ps) h = Ok h1 \<and> heap_inv h0 bs [] h1"
  using assms
proof (induction ps arbitrary: big h)
  case (Cons p ps)
  have "p \<in># mset (map fst big)" using Cons.prems(2) by simp
  then obtain k where k: "(p, k) \<in> set big" by auto
  have "heap_inv h0 bs ((p, k) # remove1 (p, k) big) h" by (rule heap_inv_mset [OF Cons.prems(1)]) (use k in simp)
  from free_ok [OF this] obtain h1 where h1: "ngx_free (Some p) h = Ok h1" "heap_inv h0 bs (remove1 (p, k) big) h1" by blast
  have "mset (map fst (remove1 (p, k) big)) = mset ps" using Cons.prems(2) k by (simp add: image_mset_Diff)
  from Cons.IH [OF h1(2) this] show ?case using h1(1) by auto
qed auto

lemma filter_live: "filter (\<lambda>q. q \<noteq> None) (map pg_alloc ls) = map Some (live_large ls)"
  by (induction ls) (auto split: option.splits)

lemma free_large_ok:
  assumes "state_inv n h0 (pl, h, al)"
  obtains h1 where "free_large pl h = Ok h1" and "heap_inv h0 (pl_blocks pl) [] h1"
proof -
  obtain big where "mset (map fst big) = mset (live_large (pl_large pl))" "heap_inv h0 (pl_blocks pl) big h"
    using assms by (auto simp: state_inv_def pool_inv_def)
  then show thesis using free_all_big that unfolding free_large_def filter_live by blast
qed

lemma destroy_ok:
  assumes "state_inv n h0 (pl, h, al)"
  shows "\<exists>calls h'. ngx_destroy_pool pl h = Ok (calls, h') \<and> mset h' = mset h0"
proof -
  obtain h1 where h1: "free_large pl h = Ok h1" "heap_inv h0 (pl_blocks pl) [] h1" by (rule free_large_ok [OF assms])
  have "heap_inv h0 [] (map block_region (pl_blocks pl)) h1" by (rule heap_inv_owned [OF h1(2)]) simp
  moreover have "mset (map fst (map block_region (pl_blocks pl))) = mset (map pb_base (pl_blocks pl))"
    by (simp add: block_region_def comp_def)
  ultimately obtain h2 where h2: "free_all (map Some (map pb_base (pl_blocks pl))) h1 = Ok h2" "heap_inv h0 [] [] h2" using free_all_big by blast
  then have "ngx_destroy_pool pl h = Ok (concat (map (\<lambda>c. case pc_handler c of None \<Rightarrow> [] | Some f \<Rightarrow> [(f, pc_data c)]) (pl_cleanup pl)), h2)"
    using h1(1) by (simp add: ngx_destroy_pool_def comp_def)
  then show ?thesis using h2(2) by (simp add: heap_inv_def)
qed

lemma reset_ok:
  assumes inv: "state_inv n h0 (pl, h, al)"
  shows "\<exists>s. pool_step sys ResetPool (pl, h, al) = Ok s \<and> state_inv n h0 s"
proof -
  obtain h1 where h1: "free_large pl h = Ok h1" "heap_inv h0 (pl_blocks pl) [] h1" by (rule free_large_ok [OF inv])
  obtain inner where ok: "pool_ok n pl" and ii: "inner_inv (pl_blocks pl) inner" using inv by (auto simp: state_inv_def pool_inv_def)
  let ?bs = "map (\<lambda>b. b\<lparr>pb_last := pb_base b + sizeof_pool, pb_failed := 0\<rparr>) (pl_blocks pl)"
  let ?pl = "pl\<lparr>pl_blocks := ?bs, pl_current := 0, pl_large := []\<rparr>"
  have "map block_region ?bs = map block_region (pl_blocks pl)" by (simp add: block_region_def)
  then have "heap_inv h0 ?bs [] h1" using h1(2) unfolding heap_inv_def by (simp only:)
  moreover have hd: "headers ?bs = headers (pl_blocks pl)" by (rule headers_cong) simp
  have "placed ?bs r" if r: "r \<in> set (headers (pl_blocks pl))" for r
    using r by (cases "pl_blocks pl") (auto simp: placed_def sizeof_defs)
  then have "inner_inv ?bs []" using ii unfolding inner_inv_def hd by (auto simp: sorted_wrt_append)
  moreover have "pool_ok n ?pl" using ok by (auto simp: pool_ok_def block_ok_def)
  ultimately have "state_inv n h0 (?pl, h1, [])" by (auto simp: state_inv_def pool_inv_def)
  then show ?thesis using h1(1) by (simp add: ngx_reset_pool_def)
qed

lemma pool_step_ok:
  assumes "allocator_ok sys" and "state_inv n h0 s"
  shows "\<exists>s'. pool_step sys op s = Ok s' \<and> state_inv n h0 s'"
proof -
  obtain pl h al where s: "s = (pl, h, al)" by (cases s)
  note inv = assms(2) [unfolded s]
  have served: "\<exists>s'. bindR r (\<lambda>r. Ok (hand_out k al r)) = Ok s' \<and> state_inv n h0 s'" if sv: "served n h0 al k a r" for k a r
  proof -
    obtain x where "r = Ok x" "state_inv n h0 (hand_out k al x)" using sv by (auto simp: served_def)
    then show ?thesis by (intro exI [of _ "hand_out k al x"]) (simp only: bindR.simps simp_thms)
  qed
  show ?thesis
  proof (cases op)
    case (Palloc k)
    then show ?thesis using served [OF palloc_served [OF assms(1) inv, of k]] by (simp only: s pool_step.simps)
  next
    case (Pnalloc k)
    then show ?thesis using served [OF pnalloc_served [OF assms(1) inv, of k]] by (simp only: s pool_step.simps)
  next
    case (Pmemalign k a)
    then show ?thesis using served [OF pmemalign_served [OF assms(1) inv, of k a]] by (simp only: s pool_step.simps)
  next
    case (Pfree q)
    then show ?thesis using pfree_ok [OF inv] s by simp
  next
    case (CleanupAdd k)
    then show ?thesis using cleanup_ok [OF assms(1) inv] s by simp
  next
    case ResetPool
    then show ?thesis using reset_ok [OF inv] s by simp
  qed
qed

lemma pool_run_ok: "allocator_ok sys \<Longrightarrow> state_inv n h0 s \<Longrightarrow> \<exists>s'. pool_run sys ops s = Ok s' \<and> state_inv n h0 s'"
proof (induction ops arbitrary: s)
  case (Cons op ops)
  then obtain s1 where "pool_step sys op s = Ok s1" "state_inv n h0 s1" using pool_step_ok by blast
  then show ?case using Cons by auto
qed simp

section \<open>What the invariant says\<close>

lemma all_apart_subset:
  assumes "mset xs \<subseteq># mset ys" and "all_apart ys"
  shows "all_apart xs"
proof -
  obtain zs where "mset ys - mset xs = mset zs" using ex_mset by metis
  then have m: "mset ys = mset (xs @ zs)" using assms(1) by (metis mset_append subset_mset.add_diff_inverse)
  then have "all_apart (xs @ zs)" using assms(2) all_apart_mset [OF m] by blast
  then show ?thesis by (simp add: sorted_wrt_append)
qed

lemma pool_inv_apart:
  assumes inv: "pool_inv n h0 inner big pl h"
  shows "all_apart (headers (pl_blocks pl) @ inner @ big)" and "\<forall>r\<in>set (inner @ big). \<exists>R\<in>set h. inside r R"
proof -
  let ?bs = "pl_blocks pl"
  have m: "mset h = mset (owned h0 ?bs big)" and ap: "all_apart (owned h0 ?bs big)" and ii: "inner_inv ?bs inner" and bl: "\<forall>c\<in>set ?bs. block_ok n c"
    using inv by (simp_all add: pool_inv_def heap_inv_def pool_ok_def)
  have s: "set h = set (owned h0 ?bs big)" by (rule mset_eq_setD [OF m])
  have in_block: "\<exists>c\<in>set ?bs. inside r (block_region c)" if "r \<in> set (headers ?bs @ inner)" for r
  proof -
    have "placed ?bs r" using ii that by (simp only: inner_inv_def)
    then show ?thesis by (rule placed_inside [OF _ bl]) blast
  qed
  have "apart r s" if r: "r \<in> set (headers ?bs @ inner)" and s: "s \<in> set big" for r s
  proof -
    obtain c where "c \<in> set ?bs" "inside r (block_region c)" using in_block [OF r] by blast
    moreover have "apart (block_region c) s" using calculation(1) s ap by (auto simp: sorted_wrt_append)
    ultimately show ?thesis using apart_inside inside_refl by blast
  qed
  moreover have "all_apart (headers ?bs @ inner)" "all_apart big" using ii ap by (simp_all add: inner_inv_def sorted_wrt_append)
  ultimately have "all_apart ((headers ?bs @ inner) @ big)" by (simp only: sorted_wrt_append) blast
  then show "all_apart (headers ?bs @ inner @ big)" by simp
  show "\<forall>r\<in>set (inner @ big). \<exists>R\<in>set h. inside r R"
  proof
    fix r assume r: "r \<in> set (inner @ big)"
    show "\<exists>R\<in>set h. inside r R"
    proof (cases "r \<in> set big")
      case True
      then show ?thesis using s by (intro bexI [of _ r]) auto
    next
      case False
      then obtain c where "c \<in> set ?bs" "inside r (block_region c)" using in_block [of r] r by auto
      then show ?thesis using s by (intro bexI [of _ "block_region c"]) auto
    qed
  qed
qed

lemma state_inv_regions:
  assumes "state_inv n h0 (pl, h, al)"
  shows "all_apart (headers (pl_blocks pl) @ nodes (pl_large pl) @ al)" and "\<forall>r\<in>set al. \<exists>R\<in>set h. inside r R"
proof -
  obtain small big where s: "mset al \<subseteq># mset (small @ big)" "pool_inv n h0 (nodes (pl_large pl) @ small) big pl h"
    using assms by (auto simp: state_inv_def)
  note ap = pool_inv_apart [OF s(2)]
  have "mset (headers (pl_blocks pl) @ nodes (pl_large pl) @ al) \<subseteq># mset (headers (pl_blocks pl) @ (nodes (pl_large pl) @ small) @ big)"
    using s(1) by simp
  then show "all_apart (headers (pl_blocks pl) @ nodes (pl_large pl) @ al)" by (rule all_apart_subset [OF _ ap(1)])
  have "set al \<subseteq> set (small @ big)" using set_mset_mono [OF s(1)] by simp
  then show "\<forall>r\<in>set al. \<exists>R\<in>set h. inside r R" using ap(2) by auto
qed

text \<open>A new pool.\<close>

lemma create_inv:
  assumes sys: "allocator_ok sys" and h0: "all_apart h0" "distinct (map fst h0)" and n: "8 dvd n" "sizeof_pool \<le> n" "n < 2 ^ 63"
    and create: "ngx_create_pool sys pagesize n h0 = (Some pl, h)"
  shows "state_inv n h0 (pl, h, [])"
proof -
  obtain p where p: "ngx_memalign sys 16 n h0 = (Some p, h)"
    using create by (auto simp: ngx_create_pool_def NGX_POOL_ALIGNMENT_def split: prod.splits option.splits)
  let ?b = "\<lparr>pb_base = p, pb_last = p + sizeof_pool, pb_end = p + n, pb_failed = 0\<rparr>"
  have pl: "pl_blocks pl = [?b]" "pl_current pl = 0" "pl_large pl = []"
    and mx: "pl_max pl \<le> size_t (int n - int sizeof_pool)"
    using create p by (auto simp: ngx_create_pool_def NGX_POOL_ALIGNMENT_def Let_def)
  have "heap_inv h0 [] [] h0" using h0 by (simp add: heap_inv_def)
  note al = memalign_ok [OF sys this p]
  have "heap_inv h0 [?b] [] h" by (rule heap_inv_owned [OF al(1)]) (simp add: block_region_def)
  moreover have "inner_inv [?b] []" by (auto simp: inner_inv_def placed_def)
  moreover have "pl_max pl \<le> n - sizeof_pool" using mx size_t_diff [OF n(2)] n(3) by simp
  then have "pool_ok n pl" using n pl al(2) dvd_trans [of 8 16 p] by (simp add: pool_ok_def block_ok_def)
  ultimately show ?thesis by (auto simp: state_inv_def pool_inv_def pl)
qed

section \<open>Properties\<close>

text \<open>C25: Memory from a pool is safe to use.  For a pool whose size is a multiple of 8 and holds its header, with any allocator
  of the C library that keeps its contract, every sequence of calls returns, with no invalid pointer and no wrong \<^verbatim>\<open>free()\<close>; the regions
  handed out and not freed are apart from each other, from the headers of the blocks and from the nodes of the large regions, and each
  lies inside one region of the C library; what \<^verbatim>\<open>ngx_palloc\<close> returns is aligned to 8 bytes; and destroying the pool gives
  back exactly what it took, so that the rest of the program keeps its memory and nothing leaks.\<close>

theorem pool_is_safe:
  assumes "allocator_ok sys" and "all_apart h0" and "distinct (map fst h0)" and "8 dvd n" and "sizeof_pool \<le> n" and "n < 2 ^ 63"
    and "ngx_create_pool sys pagesize n h0 = (Some pl0, h1)"
  shows "\<exists>pl h al. pool_run sys ops (pl0, h1, []) = Ok (pl, h, al)
    \<and> all_apart (headers (pl_blocks pl) @ nodes (pl_large pl) @ al)
    \<and> (\<forall>r\<in>set al. \<exists>R\<in>set h. inside r R)
    \<and> (\<exists>q pl' h'. ngx_palloc sys k pl h = Ok (q, pl', h') \<and> (\<forall>m. q = Some m \<longrightarrow> 8 dvd m))
    \<and> (\<exists>calls h'. ngx_destroy_pool pl h = Ok (calls, h') \<and> mset h' = mset h0)"
proof -
  have "state_inv n h0 (pl0, h1, [])" by (rule create_inv [OF assms])
  from pool_run_ok [OF assms(1) this, of ops] obtain pl h al where r: "pool_run sys ops (pl0, h1, []) = Ok (pl, h, al)" "state_inv n h0 (pl, h, al)"
    by (auto simp del: pool_run.simps)
  moreover have "\<exists>q pl' h'. ngx_palloc sys k pl h = Ok (q, pl', h') \<and> (\<forall>m. q = Some m \<longrightarrow> 8 dvd m)"
    using palloc_served [OF assms(1) r(2), of k] by (auto simp: served_def)
  ultimately show ?thesis using state_inv_regions [OF r(2)] destroy_ok [OF r(2)] by blast
qed

text \<open>An allocator that keeps the contract: it puts every region behind all others.\<close>

definition bump_allocator :: allocator where
  "bump_allocator align k h =
    (if align = 0 then None else Some (ngx_align_ptr (Suc (foldr (\<lambda>r m. max (fst r + snd r) m) h 0)) align))"

lemma align_ptr_ge: "0 < a \<Longrightarrow> q \<le> ngx_align_ptr q a"
proof -
  assume "0 < a"
  then have "q + (a - 1) < ngx_align_ptr q a + a"
    unfolding ngx_align_ptr_def using mod_less_divisor [of a "q + (a - 1)"] div_mult_mod_eq [of "q + (a - 1)" a] by linarith
  then show ?thesis using \<open>0 < a\<close> by simp
qed

lemma bump_allocator_ok: "allocator_ok bump_allocator"
  unfolding allocator_ok_def
proof (intro allI impI)
  fix align n h p
  assume a: "bump_allocator align n h = Some p"
  let ?top = "foldr (\<lambda>r m. max (fst r + snd r) m) h 0"
  have top: "r \<in> set h \<Longrightarrow> fst r + snd r \<le> ?top" for r by (induction h) auto
  have p: "p = ngx_align_ptr (Suc ?top) align" "0 < align" using a by (simp_all add: bump_allocator_def split: if_splits)
  then have "Suc ?top \<le> p" using align_ptr_ge by simp
  then have "\<forall>r\<in>set h. fst r + snd r < p" using top by fastforce
  then show "align dvd p \<and> p \<notin> fst ` set h \<and> (\<forall>r\<in>set h. apart (p, n) r)"
    using p by (fastforce simp: apart_def ngx_align_ptr_def)
qed

theorem pool_is_safe_witness:
  "\<exists>pl0 h1 pl h al. ngx_create_pool bump_allocator 4096 1024 [(64, 100)] = (Some pl0, h1)
    \<and> pool_run bump_allocator [Palloc 10, Pnalloc 5, Palloc 900, Palloc 5000, CleanupAdd 8] (pl0, h1, []) = Ok (pl, h, al)
    \<and> all_apart (headers (pl_blocks pl) @ nodes (pl_large pl) @ al)"
proof -
  let ?c = "ngx_create_pool bump_allocator 4096 1024 [(64, 100)]"
  obtain pl0 h1 where c: "?c = (Some pl0, h1)"
    by (auto simp: ngx_create_pool_def ngx_memalign_def bump_allocator_def NGX_POOL_ALIGNMENT_def)
  from pool_is_safe [OF bump_allocator_ok _ _ _ _ _ c, of "[Palloc 10, Pnalloc 5, Palloc 900, Palloc 5000, CleanupAdd 8]" 1]
  show ?thesis unfolding c by (auto simp: sizeof_defs simp del: pool_run.simps)
qed

text \<open>The sizes that the configuration accepts are fit for the theorem.\<close>

lemma accepted_pool_size: "ngx_http_core_pool_size n \<Longrightarrow> 8 dvd n \<and> sizeof_pool \<le> n"
proof -
  assume "ngx_http_core_pool_size n"
  then have "112 \<le> n" "n mod 16 = 0"
    by (simp_all add: ngx_http_core_pool_size_def NGX_MIN_POOL_SIZE_def NGX_POOL_ALIGNMENT_def ngx_align_ptr_def sizeof_defs split: if_splits)
  then show ?thesis using dvd_trans [of 8 16 n] by (auto simp: sizeof_defs)
qed

text \<open>
  The check is needed: in a block whose end is not aligned the aligned pointer can pass the end, the difference becomes a huge
  \<^verbatim>\<open>size_t\<close>, and the request is served from behind the block.
\<close>

lemmas pool_eval = ngx_create_pool_def ngx_memalign_def bump_allocator_def ngx_palloc_def ngx_palloc_small_def hand_out_def size_t_def
  ngx_align_ptr_def sizeof_defs NGX_POOL_ALIGNMENT_def NGX_ALIGNMENT_def inside_def

lemma unaligned_pool_overruns:
  "\<exists>pl0 h1 pl. ngx_create_pool bump_allocator 4096 84 [] = (Some pl0, h1) \<and> h1 = [(16, 84)]
    \<and> pool_run bump_allocator [Palloc 1, Palloc 1] (pl0, h1, []) = Ok (pl, h1, [(104, 1), (96, 1)]) \<and> \<not> inside (104, 1) (16, 84)"
  by (simp add: pool_eval)

text \<open>A reset keeps the list of the cleanup handlers, although it takes back the memory of its nodes.\<close>

lemma reset_keeps_cleanup:
  "\<exists>pl0 h1 pl. ngx_create_pool bump_allocator 4096 1024 [] = (Some pl0, h1)
    \<and> pool_run bump_allocator [CleanupAdd 0, ResetPool, Palloc 24] (pl0, h1, []) = Ok (pl, h1, [(96, 24)]) \<and> map pc_node (pl_cleanup pl) = [96]"
  by (simp add: pool_eval ngx_pool_cleanup_add_def cleanup_regions_def ngx_reset_pool_def free_large_def Let_def)

end
