(* ===== verification/Ngx_Radix.thy ===== *)
theory Ngx_Radix
  imports Ngx_Prelude
begin

unbundle bit_operations_syntax

text \<open>
  The radix tree of \<^verbatim>\<open>src/core/ngx_radix_tree.c\<close> that maps networks to values (32-bit and 128-bit keys), on an
  explicit heap: nodes have pointers to their children and their parent, and freed nodes are kept in a
  list that is linked through \<^verbatim>\<open>right\<close>.
\<close>

section \<open>Data\<close>

definition NGX_RADIX_NO_VALUE :: "64 word" where "NGX_RADIX_NO_VALUE = - 1"

record radix_node =
  rn_right :: "nat option"
  rn_left :: "nat option"
  rn_parent :: "nat option"
  rn_value :: "64 word"

text \<open>\<open>rx_start\<close> is the next unused node of the page and \<open>rx_size\<close> the bytes left there.\<close>

record radix_tree =
  rx_root :: nat
  rx_free :: "nat option"
  rx_start :: nat
  rx_size :: nat
  rx_heap :: "nat \<Rightarrow> radix_node option"

definition ngx_pagesize :: nat where "ngx_pagesize = 4096"

definition radix_node_size :: nat where "radix_node_size = 32"

text \<open>\<open>mem\<close> says whether the allocation of a page for the given node succeeds.  The result is \<open>None\<close> for \<^verbatim>\<open>NULL\<close>.\<close>

definition ngx_radix_alloc :: "(nat \<Rightarrow> bool) \<Rightarrow> radix_tree \<Rightarrow> (nat option \<times> radix_tree) res" where
  "ngx_radix_alloc mem t =
    (case rx_free t of
       Some p \<Rightarrow>
         (case rx_heap t p of
            None \<Rightarrow> Fault UseAfterFree
          | Some nd \<Rightarrow> Ok (Some p, t\<lparr>rx_free := rn_right nd\<rparr>))
     | None \<Rightarrow>
         if rx_size t < radix_node_size \<and> \<not> mem (rx_start t) then Ok (None, t)
         else let sz = (if rx_size t < radix_node_size then ngx_pagesize else rx_size t)
              in Ok (Some (rx_start t), t\<lparr>rx_start := rx_start t + 1, rx_size := sz - radix_node_size\<rparr>))"

section \<open>Insertion\<close>

definition top_bit :: "32 word" where "top_bit = 0x80000000"

definition node_at :: "radix_tree \<Rightarrow> nat \<Rightarrow> radix_node res" where
  "node_at t a = derefR UseAfterFree (rx_heap t a)"

definition put_node :: "radix_tree \<Rightarrow> nat \<Rightarrow> radix_node \<Rightarrow> radix_tree" where
  "put_node t a nd = t\<lparr>rx_heap := (rx_heap t)(a \<mapsto> nd)\<rparr>"

definition child :: "'a::len word \<Rightarrow> 'a word \<Rightarrow> radix_node \<Rightarrow> nat option" where
  "child key b nd = (if key AND b \<noteq> 0 then rn_right nd else rn_left nd)"

definition set_child :: "'a::len word \<Rightarrow> 'a word \<Rightarrow> nat option \<Rightarrow> radix_node \<Rightarrow> radix_node" where
  "set_child key b p nd = (if key AND b \<noteq> 0 then nd\<lparr>rn_right := p\<rparr> else nd\<lparr>rn_left := p\<rparr>)"

lemma shift_less: "b AND msk' \<noteq> 0 \<Longrightarrow> unat (drop_bit (Suc 0) (b :: 'a::len word)) < unat b"
proof -
  assume "b AND msk' \<noteq> 0"
  then have "b \<noteq> 0" by auto
  then have "0 < unat b" by (simp add: unat_gt_0)
  then show ?thesis by (simp add: drop_bit_eq_div unat_div_distrib)
qed

text \<open>The first loop goes down existing nodes: the node, the bit and whether \<^verbatim>\<open>next\<close> is set.\<close>

function insert_walk :: "radix_tree \<Rightarrow> 32 word \<Rightarrow> 32 word \<Rightarrow> 32 word \<Rightarrow> nat \<Rightarrow> (nat \<times> 32 word \<times> bool) res" where
  "insert_walk t key msk b node =
    (if b AND msk = 0 then Ok (node, b, True)
     else bindR (node_at t node) (\<lambda>nd.
       case child key b nd of
         None \<Rightarrow> Ok (node, b, False)
       | Some nxt \<Rightarrow> insert_walk t key msk (drop_bit 1 b) nxt))"
  by pat_completeness auto
termination
  by (relation "measure (\<lambda>(t, key, msk, b, node). unat b)") (simp_all add: shift_less)

declare insert_walk.simps [simp del]

text \<open>The second loop adds nodes; the node is \<open>None\<close> when an allocation failed.\<close>

function insert_grow ::
  "(nat \<Rightarrow> bool) \<Rightarrow> radix_tree \<Rightarrow> 32 word \<Rightarrow> 32 word \<Rightarrow> 32 word \<Rightarrow> nat \<Rightarrow> (nat option \<times> radix_tree) res" where
  "insert_grow mem t key msk b node =
    (if b AND msk = 0 then Ok (Some node, t)
     else bindR (ngx_radix_alloc mem t) (\<lambda>(p, t1).
       case p of
         None \<Rightarrow> Ok (None, t1)
       | Some nxt \<Rightarrow>
           let t2 = put_node t1 nxt \<lparr>rn_right = None, rn_left = None, rn_parent = Some node, rn_value = NGX_RADIX_NO_VALUE\<rparr>
           in bindR (node_at t2 node) (\<lambda>nd.
              insert_grow mem (put_node t2 node (set_child key b (Some nxt) nd)) key msk (drop_bit 1 b) nxt)))"
  by pat_completeness auto
termination
  by (relation "measure (\<lambda>(mem, t, key, msk, b, node). unat b)") (simp_all add: shift_less)

declare insert_grow.simps [simp del]

definition ngx_radix32tree_insert ::
  "(nat \<Rightarrow> bool) \<Rightarrow> radix_tree \<Rightarrow> 32 word \<Rightarrow> 32 word \<Rightarrow> 64 word \<Rightarrow> (int \<times> radix_tree) res" where
  "ngx_radix32tree_insert mem t key msk v =
    bindR (insert_walk t key msk top_bit (rx_root t)) (\<lambda>(node, b, nxt).
      if nxt then
        bindR (node_at t node) (\<lambda>nd.
          if rn_value nd \<noteq> NGX_RADIX_NO_VALUE then Ok (NGX_BUSY, t)
          else Ok (NGX_OK, put_node t node (nd\<lparr>rn_value := v\<rparr>)))
      else
        bindR (insert_grow mem t key msk b node) (\<lambda>(p, t1).
          case p of
            None \<Rightarrow> Ok (NGX_ERROR, t1)
          | Some a \<Rightarrow> bindR (node_at t1 a) (\<lambda>nd. Ok (NGX_OK, put_node t1 a (nd\<lparr>rn_value := v\<rparr>)))))"

section \<open>Deletion\<close>

function delete_walk :: "radix_tree \<Rightarrow> 32 word \<Rightarrow> 32 word \<Rightarrow> 32 word \<Rightarrow> nat option \<Rightarrow> nat option res" where
  "delete_walk t key msk b node =
    (case node of
       None \<Rightarrow> Ok None
     | Some a \<Rightarrow>
         if b AND msk = 0 then Ok (Some a)
         else bindR (node_at t a) (\<lambda>nd. delete_walk t key msk (drop_bit 1 b) (child key b nd)))"
  by pat_completeness auto
termination
  by (relation "measure (\<lambda>(t, key, msk, b, node). unat b)") (simp_all add: shift_less)

declare delete_walk.simps [simp del]

text \<open>One turn of the loop that removes the node \<open>a\<close> from its parent: the new tree and the parent.\<close>

definition unlink :: "radix_tree \<Rightarrow> nat \<Rightarrow> (radix_tree \<times> nat) res" where
  "unlink t a =
    bindR (node_at t a) (\<lambda>nd.
    bindR (derefR NullDeref (rn_parent nd)) (\<lambda>p.
    bindR (node_at t p) (\<lambda>pn.
    let t1 = put_node t p (if rn_right pn = Some a then pn\<lparr>rn_right := None\<rparr> else pn\<lparr>rn_left := None\<rparr>)
    in bindR (node_at t1 a) (\<lambda>nd1.
       Ok ((put_node t1 a (nd1\<lparr>rn_right := rx_free t1\<rparr>))\<lparr>rx_free := Some a\<rparr>, p)))))"

text \<open>The loop up the tree; \<open>None\<close> would be a loop that never ends.\<close>

partial_function (option) delete_up :: "radix_tree \<Rightarrow> nat \<Rightarrow> radix_tree res option" where
  "delete_up t a =
    (case unlink t a of
       Fault e \<Rightarrow> Some (Fault e)
     | Ok (t1, p) \<Rightarrow>
         (case node_at t1 p of
            Fault e \<Rightarrow> Some (Fault e)
          | Ok nd \<Rightarrow>
              if rn_right nd \<noteq> None \<or> rn_left nd \<noteq> None then Some (Ok t1)
              else if rn_value nd \<noteq> NGX_RADIX_NO_VALUE then Some (Ok t1)
              else if rn_parent nd = None then Some (Ok t1)
              else delete_up t1 p))"

declare delete_up.simps [code]

definition ngx_radix32tree_delete :: "radix_tree \<Rightarrow> 32 word \<Rightarrow> 32 word \<Rightarrow> (int \<times> radix_tree) res option" where
  "ngx_radix32tree_delete t key msk =
    (case delete_walk t key msk top_bit (Some (rx_root t)) of
       Fault e \<Rightarrow> Some (Fault e)
     | Ok None \<Rightarrow> Some (Ok (NGX_ERROR, t))
     | Ok (Some a) \<Rightarrow>
         (case node_at t a of
            Fault e \<Rightarrow> Some (Fault e)
          | Ok nd \<Rightarrow>
              if rn_right nd \<noteq> None \<or> rn_left nd \<noteq> None then
                (if rn_value nd \<noteq> NGX_RADIX_NO_VALUE
                 then Some (Ok (NGX_OK, put_node t a (nd\<lparr>rn_value := NGX_RADIX_NO_VALUE\<rparr>)))
                 else Some (Ok (NGX_ERROR, t)))
              else map_option (\<lambda>r. bindR r (\<lambda>t1. Ok (NGX_OK, t1))) (delete_up t a)))"

section \<open>Search\<close>

partial_function (option) find_loop :: "radix_tree \<Rightarrow> 32 word \<Rightarrow> 32 word \<Rightarrow> nat option \<Rightarrow> 64 word \<Rightarrow> 64 word res option" where
  "find_loop t key b node v =
    (case node of
       None \<Rightarrow> Some (Ok v)
     | Some a \<Rightarrow>
         (case node_at t a of
            Fault e \<Rightarrow> Some (Fault e)
          | Ok nd \<Rightarrow>
              find_loop t key (drop_bit 1 b) (child key b nd) (if rn_value nd \<noteq> NGX_RADIX_NO_VALUE then rn_value nd else v)))"

declare find_loop.simps [code]

definition ngx_radix32tree_find :: "radix_tree \<Rightarrow> 32 word \<Rightarrow> 64 word res option" where
  "ngx_radix32tree_find t key = find_loop t key top_bit (Some (rx_root t)) NGX_RADIX_NO_VALUE"

section \<open>Creation\<close>

text \<open>The inner loop inserts a key at every step of \<open>inc\<close> until the key wraps around; the result is \<open>None\<close> for
  \<^verbatim>\<open>NULL\<close>.  The outer option is \<open>None\<close> for a loop that never ends.\<close>

partial_function (option) prealloc_level ::
  "(nat \<Rightarrow> bool) \<Rightarrow> radix_tree \<Rightarrow> 32 word \<Rightarrow> 32 word \<Rightarrow> 32 word \<Rightarrow> radix_tree option res option" where
  "prealloc_level mem t key msk inc =
    (case ngx_radix32tree_insert mem t key msk NGX_RADIX_NO_VALUE of
       Fault e \<Rightarrow> Some (Fault e)
     | Ok (rc, t1) \<Rightarrow>
         if rc \<noteq> NGX_OK then Some (Ok None)
         else if key + inc \<noteq> 0 then prealloc_level mem t1 (key + inc) msk inc
         else Some (Ok (Some t1)))"

declare prealloc_level.simps [code]

primrec prealloc :: "nat \<Rightarrow> (nat \<Rightarrow> bool) \<Rightarrow> radix_tree \<Rightarrow> 32 word \<Rightarrow> 32 word \<Rightarrow> radix_tree option res option" where
  "prealloc 0 mem t msk inc = Some (Ok (Some t))"
| "prealloc (Suc n) mem t msk inc =
    (let mask1 = drop_bit 1 msk OR 0x80000000
     in case prealloc_level mem t 0 mask1 inc of
          Some (Ok (Some t1)) \<Rightarrow> prealloc n mem t1 mask1 (drop_bit 1 inc)
        | r \<Rightarrow> r)"

definition empty_radix :: radix_tree where
  "empty_radix = \<lparr>rx_root = 0, rx_free = None, rx_start = 0, rx_size = 0, rx_heap = Map.empty\<rparr>"

definition prealloc_bits :: "int \<Rightarrow> nat" where
  "prealloc_bits n = (if n = -1 then (let k = ngx_pagesize div radix_node_size in if k = 128 then 6 else if k = 256 then 7 else 8) else nat n)"

definition ngx_radix_tree_create :: "bool \<Rightarrow> (nat \<Rightarrow> bool) \<Rightarrow> int \<Rightarrow> radix_tree option res option" where
  "ngx_radix_tree_create palloc mem preallocate =
    (if \<not> palloc then Some (Ok None)
     else case ngx_radix_alloc mem empty_radix of
       Fault e \<Rightarrow> Some (Fault e)
     | Ok (None, t) \<Rightarrow> Some (Ok None)
     | Ok (Some a, t) \<Rightarrow>
         prealloc (prealloc_bits preallocate) mem
           ((put_node t a \<lparr>rn_right = None, rn_left = None, rn_parent = None, rn_value = NGX_RADIX_NO_VALUE\<rparr>)\<lparr>rx_root := a\<rparr>)
           0 top_bit)"

section \<open>Keys of 128 bits\<close>

text \<open>Keys and masks are arrays of 16 bytes; the position is the index of a byte and a bit in it.\<close>

function insert_walk128 ::
  "radix_tree \<Rightarrow> 8 word list \<Rightarrow> 8 word list \<Rightarrow> nat \<times> 8 word \<Rightarrow> nat \<Rightarrow> (nat \<times> (nat \<times> 8 word) \<times> bool) res" where
  "insert_walk128 t key msk (i, b) node =
    bindR (byte_at msk i) (\<lambda>mi.
      if b AND mi = 0 then Ok (node, (i, b), True)
      else bindR (byte_at key i) (\<lambda>ki. bindR (node_at t node) (\<lambda>nd.
        case child ki b nd of
          None \<Rightarrow> Ok (node, (i, b), False)
        | Some nxt \<Rightarrow>
            if drop_bit 1 b = 0 then
              if i + 1 = 16 then Ok (nxt, (i + 1, 0), True)
              else insert_walk128 t key msk (i + 1, 0x80) nxt
            else insert_walk128 t key msk (i, drop_bit 1 b) nxt)))"
  by pat_completeness auto
termination
  by (relation "measures [\<lambda>(t, key, msk, (i, b), node). length msk - i, \<lambda>(t, key, msk, (i, b), node). unat b]")
     (auto simp: byte_at_Ok shift_less)

declare insert_walk128.simps [simp del]

function insert_grow128 ::
  "(nat \<Rightarrow> bool) \<Rightarrow> radix_tree \<Rightarrow> 8 word list \<Rightarrow> 8 word list \<Rightarrow> nat \<times> 8 word \<Rightarrow> nat \<Rightarrow> (nat option \<times> radix_tree) res" where
  "insert_grow128 mem t key msk (i, b) node =
    bindR (byte_at msk i) (\<lambda>mi.
      if b AND mi = 0 then Ok (Some node, t)
      else bindR (ngx_radix_alloc mem t) (\<lambda>(p, t1).
        case p of
          None \<Rightarrow> Ok (None, t1)
        | Some nxt \<Rightarrow>
            let t2 = put_node t1 nxt \<lparr>rn_right = None, rn_left = None, rn_parent = Some node, rn_value = NGX_RADIX_NO_VALUE\<rparr>
            in bindR (byte_at key i) (\<lambda>ki. bindR (node_at t2 node) (\<lambda>nd.
               let t3 = put_node t2 node (set_child ki b (Some nxt) nd)
               in if drop_bit 1 b = 0 then
                    if i + 1 = 16 then Ok (Some nxt, t3)
                    else insert_grow128 mem t3 key msk (i + 1, 0x80) nxt
                  else insert_grow128 mem t3 key msk (i, drop_bit 1 b) nxt))))"
  by pat_completeness auto
termination
  by (relation "measures [\<lambda>(mem, t, key, msk, (i, b), node). length msk - i, \<lambda>(mem, t, key, msk, (i, b), node). unat b]")
     (auto simp: byte_at_Ok shift_less)

declare insert_grow128.simps [simp del]

definition ngx_radix128tree_insert ::
  "(nat \<Rightarrow> bool) \<Rightarrow> radix_tree \<Rightarrow> 8 word list \<Rightarrow> 8 word list \<Rightarrow> 64 word \<Rightarrow> (int \<times> radix_tree) res" where
  "ngx_radix128tree_insert mem t key msk v =
    bindR (insert_walk128 t key msk (0, 0x80) (rx_root t)) (\<lambda>(node, pos, nxt).
      if nxt then
        bindR (node_at t node) (\<lambda>nd.
          if rn_value nd \<noteq> NGX_RADIX_NO_VALUE then Ok (NGX_BUSY, t)
          else Ok (NGX_OK, put_node t node (nd\<lparr>rn_value := v\<rparr>)))
      else
        bindR (insert_grow128 mem t key msk pos node) (\<lambda>(p, t1).
          case p of
            None \<Rightarrow> Ok (NGX_ERROR, t1)
          | Some a \<Rightarrow> bindR (node_at t1 a) (\<lambda>nd. Ok (NGX_OK, put_node t1 a (nd\<lparr>rn_value := v\<rparr>)))))"

function delete_walk128 :: "radix_tree \<Rightarrow> 8 word list \<Rightarrow> 8 word list \<Rightarrow> nat \<times> 8 word \<Rightarrow> nat option \<Rightarrow> nat option res" where
  "delete_walk128 t key msk (i, b) node =
    (case node of
       None \<Rightarrow> Ok None
     | Some a \<Rightarrow>
         bindR (byte_at msk i) (\<lambda>mi.
           if b AND mi = 0 then Ok (Some a)
           else bindR (byte_at key i) (\<lambda>ki. bindR (node_at t a) (\<lambda>nd.
             if drop_bit 1 b = 0 then
               if i + 1 = 16 then Ok (child ki b nd)
               else delete_walk128 t key msk (i + 1, 0x80) (child ki b nd)
             else delete_walk128 t key msk (i, drop_bit 1 b) (child ki b nd)))))"
  by pat_completeness auto
termination
  by (relation "measures [\<lambda>(t, key, msk, (i, b), node). length msk - i, \<lambda>(t, key, msk, (i, b), node). unat b]")
     (auto simp: byte_at_Ok shift_less)

declare delete_walk128.simps [simp del]

text \<open>The loop up the tree is that of the 32-bit variant.\<close>

definition ngx_radix128tree_delete :: "radix_tree \<Rightarrow> 8 word list \<Rightarrow> 8 word list \<Rightarrow> (int \<times> radix_tree) res option" where
  "ngx_radix128tree_delete t key msk =
    (case delete_walk128 t key msk (0, 0x80) (Some (rx_root t)) of
       Fault e \<Rightarrow> Some (Fault e)
     | Ok None \<Rightarrow> Some (Ok (NGX_ERROR, t))
     | Ok (Some a) \<Rightarrow>
         (case node_at t a of
            Fault e \<Rightarrow> Some (Fault e)
          | Ok nd \<Rightarrow>
              if rn_right nd \<noteq> None \<or> rn_left nd \<noteq> None then
                (if rn_value nd \<noteq> NGX_RADIX_NO_VALUE
                 then Some (Ok (NGX_OK, put_node t a (nd\<lparr>rn_value := NGX_RADIX_NO_VALUE\<rparr>)))
                 else Some (Ok (NGX_ERROR, t)))
              else map_option (\<lambda>r. bindR r (\<lambda>t1. Ok (NGX_OK, t1))) (delete_up t a)))"

partial_function (option) find_loop128 ::
  "radix_tree \<Rightarrow> 8 word list \<Rightarrow> nat \<Rightarrow> 8 word \<Rightarrow> nat option \<Rightarrow> 64 word \<Rightarrow> 64 word res option" where
  "find_loop128 t key i b node v =
    (case node of
       None \<Rightarrow> Some (Ok v)
     | Some a \<Rightarrow>
         (case node_at t a of
            Fault e \<Rightarrow> Some (Fault e)
          | Ok nd \<Rightarrow>
              (case byte_at key i of
                 Fault e \<Rightarrow> Some (Fault e)
               | Ok ki \<Rightarrow>
                   let v1 = (if rn_value nd \<noteq> NGX_RADIX_NO_VALUE then rn_value nd else v)
                   in if drop_bit 1 b = 0 then find_loop128 t key (i + 1) 0x80 (child ki b nd) v1
                      else find_loop128 t key i (drop_bit 1 b) (child ki b nd) v1)))"

declare find_loop128.simps [code]

definition ngx_radix128tree_find :: "radix_tree \<Rightarrow> 8 word list \<Rightarrow> 64 word res option" where
  "ngx_radix128tree_find t key = find_loop128 t key 0 0x80 (Some (rx_root t)) NGX_RADIX_NO_VALUE"

end
