(* ===== verification/Ngx_Radix_Rep.thy ===== *)
theory Ngx_Radix_Rep
  imports Ngx_Radix
begin

unbundle bit_operations_syntax

text \<open>
  What the nodes on the heap stand for.  A node is reached from the root by a path of bits, left or right;
  \<open>P\<close> gives the node at a path and \<open>V\<close> its value.  The steps of the operations are updates of
  these functions.
\<close>

section \<open>Networks\<close>

text \<open>A network is given by the bits of a key and of a mask: the bits of the key below the leading ones of the mask.\<close>

definition leading :: "bool list \<Rightarrow> nat" where
  "leading m = length (takeWhile id m)"

definition network :: "bool list \<Rightarrow> bool list \<Rightarrow> bool list" where
  "network k m = take (leading m) k"

lemma leading_le: "leading m \<le> length m"
  by (simp add: leading_def length_takeWhile_le)

lemma leading_iff:
  assumes "n \<le> leading m" and "n < length m"
  shows "m ! n \<longleftrightarrow> n \<noteq> leading m"
proof (cases "n = leading m")
  case True
  then show ?thesis using nth_length_takeWhile [of id m] assms(2) by (simp add: leading_def)
next
  case False
  then have n: "n < length (takeWhile id m)" using assms(1) by (simp add: leading_def)
  then have "takeWhile id m ! n \<in> set (takeWhile id m)" by (rule nth_mem)
  then have "id (takeWhile id m ! n)" by (blast dest: set_takeWhileD)
  then show ?thesis using False takeWhile_nth [OF n] by simp
qed

section \<open>The representation\<close>

type_synonym paths = "bool list \<Rightarrow> nat option"
type_synonym path_values = "bool list \<Rightarrow> 64 word"

definition node_of :: "paths \<Rightarrow> path_values \<Rightarrow> bool list \<Rightarrow> radix_node" where
  "node_of P V p = \<lparr>rn_right = P (p @ [True]), rn_left = P (p @ [False]),
     rn_parent = (if p = [] then None else P (butlast p)), rn_value = V p\<rparr>"

primrec free_list :: "(nat \<Rightarrow> radix_node option) \<Rightarrow> nat option \<Rightarrow> nat list \<Rightarrow> bool" where
  "free_list h q [] \<longleftrightarrow> q = None"
| "free_list h q (a # as) \<longleftrightarrow> q = Some a \<and> (\<exists>nd. h a = Some nd \<and> free_list h (rn_right nd) as)"

definition paths_ok :: "nat \<Rightarrow> nat \<Rightarrow> paths \<Rightarrow> path_values \<Rightarrow> bool" where
  "paths_ok D r P V \<longleftrightarrow> P [] = Some r \<and> (\<forall>p b. P (p @ [b]) \<noteq> None \<longrightarrow> P p \<noteq> None)
    \<and> (\<forall>p q a. P p = Some a \<longrightarrow> P q = Some a \<longrightarrow> p = q) \<and> (\<forall>p. P p = None \<longrightarrow> V p = NGX_RADIX_NO_VALUE)
    \<and> (\<forall>p. P p \<noteq> None \<longrightarrow> length p \<le> D)"

lemma paths_okI:
  assumes "P [] = Some r" and "\<And>p b a. P (p @ [b]) = Some a \<Longrightarrow> P p \<noteq> None" and "\<And>p q a. P p = Some a \<Longrightarrow> P q = Some a \<Longrightarrow> p = q"
    and "\<And>p. P p = None \<Longrightarrow> V p = NGX_RADIX_NO_VALUE" and "\<And>p a. P p = Some a \<Longrightarrow> length p \<le> D"
  shows "paths_ok D r P V"
  using assms unfolding paths_ok_def by (metis not_None_eq)

definition radix_rep :: "nat \<Rightarrow> radix_tree \<Rightarrow> paths \<Rightarrow> path_values \<Rightarrow> nat list \<Rightarrow> bool" where
  "radix_rep D t P V as \<longleftrightarrow> paths_ok D (rx_root t) P V
    \<and> (\<forall>p a. P p = Some a \<longrightarrow> rx_heap t a = Some (node_of P V p) \<and> a < rx_start t)
    \<and> free_list (rx_heap t) (rx_free t) as \<and> distinct as \<and> (\<forall>a\<in>set as. a < rx_start t \<and> (\<forall>p. P p \<noteq> Some a))"

lemma free_list_upd: "a \<notin> set as \<Longrightarrow> free_list (h(a := x)) q as = free_list h q as"
  by (induction as arbitrary: q) auto

lemma repD:
  assumes "radix_rep D t P V as"
  shows "P [] = Some (rx_root t)" and "P (p @ [b]) \<noteq> None \<Longrightarrow> P p \<noteq> None" and "P p = Some a \<Longrightarrow> P q = Some a \<Longrightarrow> p = q"
    and "P p = None \<Longrightarrow> V p = NGX_RADIX_NO_VALUE" and "P p \<noteq> None \<Longrightarrow> length p \<le> D"
    and "P p = Some a \<Longrightarrow> node_at t a = Ok (node_of P V p)" and "P p = Some a \<Longrightarrow> a < rx_start t"
    and "P p = Some a \<Longrightarrow> a \<notin> set as"
proof -
  have r: "P [] = Some (rx_root t)" "\<forall>p b. P (p @ [b]) \<noteq> None \<longrightarrow> P p \<noteq> None" "\<forall>p q a. P p = Some a \<longrightarrow> P q = Some a \<longrightarrow> p = q"
    "\<forall>p. P p = None \<longrightarrow> V p = NGX_RADIX_NO_VALUE" "\<forall>p. P p \<noteq> None \<longrightarrow> length p \<le> D"
    "\<forall>p a. P p = Some a \<longrightarrow> rx_heap t a = Some (node_of P V p) \<and> a < rx_start t" "\<forall>a\<in>set as. \<forall>p. P p \<noteq> Some a"
    using assms unfolding radix_rep_def paths_ok_def by blast+
  show "P [] = Some (rx_root t)" by (rule r(1))
  show "P (p @ [b]) \<noteq> None \<Longrightarrow> P p \<noteq> None" using r(2) by blast
  show "P p = Some a \<Longrightarrow> P q = Some a \<Longrightarrow> p = q" using r(3) by blast
  show "P p = None \<Longrightarrow> V p = NGX_RADIX_NO_VALUE" using r(4) by blast
  show "P p \<noteq> None \<Longrightarrow> length p \<le> D" using r(5) by blast
  show "P p = Some a \<Longrightarrow> node_at t a = Ok (node_of P V p)" using r(6) by (simp add: node_at_def)
  show "P p = Some a \<Longrightarrow> a < rx_start t" using r(6) by blast
  show "P p = Some a \<Longrightarrow> a \<notin> set as" using r(7) by blast
qed

lemma rep_prefix:
  assumes "radix_rep D t P V as" and "P p \<noteq> None"
  shows "P (take n p) \<noteq> None"
  using assms(2)
proof (induction p rule: rev_induct)
  case (snoc b p)
  then have "P p \<noteq> None" using repD(2) [OF assms(1)] by blast
  with snoc show ?case by (cases "n \<le> length p") auto
qed simp

lemma rep_prefix_None: "radix_rep D t P V as \<Longrightarrow> P (take n p) = None \<Longrightarrow> P p = None"
  using rep_prefix [of D t P V as p n] by (cases "P p") auto

lemma rep_mono: "radix_rep D t P V as \<Longrightarrow> D \<le> D' \<Longrightarrow> radix_rep D' t P V as"
  unfolding radix_rep_def paths_ok_def by (meson le_trans)

section \<open>Steps\<close>

lemma butlast_neq: "butlast p \<noteq> p @ [b]"
  by (rule notI, drule arg_cong [where f = length]) simp

text \<open>The value of a node changes.\<close>

lemma rep_set_value:
  assumes rep: "radix_rep D t P V as" and p: "P p = Some a"
  shows "radix_rep D (put_node t a (node_of P V p\<lparr>rn_value := v\<rparr>)) P (V(p := v)) as"
proof -
  let ?t = "put_node t a (node_of P V p\<lparr>rn_value := v\<rparr>)"
  have "rx_heap ?t c = Some (node_of P (V(p := v)) q) \<and> c < rx_start t" if q: "P q = Some c" for q c
  proof (cases "c = a")
    case True
    then have "q = p" using repD(3) [OF rep q] p by blast
    then show ?thesis using True repD(7) [OF rep q] by (simp add: put_node_def node_of_def)
  next
    case False
    then have "q \<noteq> p" using p q by auto
    then have "node_of P (V(p := v)) q = node_of P V q" by (simp add: node_of_def)
    then show ?thesis using rep q False by (simp add: put_node_def radix_rep_def)
  qed
  moreover have "paths_ok D (rx_root t) P (V(p := v))"
    using rep p by (auto simp: radix_rep_def paths_ok_def)
  ultimately show ?thesis
    using rep repD(8) [OF rep p] by (auto simp: radix_rep_def put_node_def free_list_upd)
qed

text \<open>A node \<open>a\<close> that is not in use becomes a child of the node at \<open>p\<close>.\<close>

lemma rep_link:
  assumes rep: "radix_rep D t P V as" and p: "P p = Some n" and b: "P (p @ [b]) = None" and len: "length p < D"
    and a: "a < rx_start t" "a \<notin> set as" "\<And>q. P q \<noteq> Some a"
    and t2: "t2 = put_node t a \<lparr>rn_right = None, rn_left = None, rn_parent = Some n, rn_value = NGX_RADIX_NO_VALUE\<rparr>"
    and nd: "nd = (if b then node_of P V p\<lparr>rn_right := Some a\<rparr> else node_of P V p\<lparr>rn_left := Some a\<rparr>)"
  shows "radix_rep D (put_node t2 n nd) (P(p @ [b] \<mapsto> a)) V as"
proof -
  let ?P = "P(p @ [b] \<mapsto> a)"
  have new: "P (p @ [b] @ q) = None" for q
  proof (rule ccontr)
    assume "P (p @ [b] @ q) \<noteq> None"
    from rep_prefix [OF rep this, of "Suc (length p)"] b show False by simp
  qed
  have leaf: "node_of ?P V (p @ [b]) = \<lparr>rn_right = None, rn_left = None, rn_parent = Some n, rn_value = NGX_RADIX_NO_VALUE\<rparr>"
    using new [of "[True]"] new [of "[False]"] p repD(4) [OF rep b] by (simp add: node_of_def)
  have upper: "node_of ?P V p = nd"
    by (simp add: node_of_def nd butlast_neq)
  have other: "node_of ?P V q = node_of P V q" if "q \<noteq> p" "P q \<noteq> None" for q
  proof -
    have "butlast q \<noteq> p @ [b]" if "q \<noteq> []"
      using new [of "[last q]"] \<open>P q \<noteq> None\<close> append_butlast_last_id [OF that] by (metis append.assoc)
    then show ?thesis using that by (simp add: node_of_def)
  qed
  have n: "n \<notin> set as" "n \<noteq> a" "n < rx_start t"
    using repD(7,8) [OF rep p] a(3) p by auto
  have "paths_ok D (rx_root t) ?P V"
  proof (rule paths_okI)
    show "?P q \<noteq> None" if "?P (q @ [c]) = Some x" for q c x
      using that p repD(2) [OF rep, of q c] by (cases "q @ [c] = p @ [b]") auto
    show "q = r" if "?P q = Some c" "?P r = Some c" for q r c
      using that a(3) repD(3) [OF rep, of q c r] by (auto split: if_splits)
  qed (use repD(1,4,5) [OF rep] len in \<open>auto split: if_splits\<close>)
  moreover have "rx_heap (put_node t2 n nd) c = Some (node_of ?P V q) \<and> c < rx_start t" if "?P q = Some c" for q c
  proof (cases "q = p @ [b]")
    case True
    then show ?thesis using that leaf n a(1) by (simp add: t2 put_node_def)
  next
    case False
    then have q: "P q = Some c" using that by simp
    then have "c \<noteq> a" "c = n \<longleftrightarrow> q = p" using a(3) [of q] repD(3) [OF rep q, of p] p by auto
    then show ?thesis
      using q upper other rep n by (auto simp: t2 put_node_def radix_rep_def)
  qed
  ultimately show ?thesis
    using rep a n by (auto simp: radix_rep_def put_node_def t2 free_list_upd)
qed

text \<open>Where a new node comes from.\<close>

lemma alloc_rep:
  assumes rep: "radix_rep D t P V as"
  obtains (null) "ngx_radix_alloc mem t = Ok (None, t)" and "\<not> mem (rx_start t)"
  | (node) a t' as' where "ngx_radix_alloc mem t = Ok (Some a, t')" and "radix_rep D t' P V as'" and "a < rx_start t'"
      and "a \<notin> set as'" and "\<And>p. P p \<noteq> Some a" and "rx_root t' = rx_root t"
proof (cases "rx_free t")
  case (Some a)
  then obtain as' where as: "as = a # as'"
    using rep by (cases as) (auto simp: radix_rep_def)
  then obtain nd where nd: "rx_heap t a = Some nd" "free_list (rx_heap t) (rn_right nd) as'"
    using rep by (auto simp: radix_rep_def)
  show thesis
  proof (rule node)
    show "ngx_radix_alloc mem t = Ok (Some a, t\<lparr>rx_free := rn_right nd\<rparr>)"
      using Some nd(1) by (simp add: ngx_radix_alloc_def)
    show "radix_rep D (t\<lparr>rx_free := rn_right nd\<rparr>) P V as'"
      using rep as nd(2) by (auto simp: radix_rep_def)
  qed (use rep as in \<open>auto simp: radix_rep_def\<close>)
next
  case None
  then have as: "as = []"
    using rep by (cases as) (auto simp: radix_rep_def)
  show thesis
  proof (cases "rx_size t < radix_node_size \<and> \<not> mem (rx_start t)")
    case True
    then show thesis using None by (intro null) (simp_all add: ngx_radix_alloc_def)
  next
    case False
    let ?t = "t\<lparr>rx_start := rx_start t + 1, rx_size := (if rx_size t < radix_node_size then ngx_pagesize else rx_size t) - radix_node_size\<rparr>"
    show thesis
    proof (rule node)
      show "ngx_radix_alloc mem t = Ok (Some (rx_start t), ?t)"
        using None False by (auto simp: ngx_radix_alloc_def)
      show "radix_rep D ?t P V as"
        using rep None as by (auto simp: radix_rep_def less_SucI)
      show "P p \<noteq> Some (rx_start t)" for p
        using rep by (auto simp: radix_rep_def)
    qed (use as in auto)
  qed
qed

text \<open>A leaf is taken off and freed.\<close>

lemma rep_unlink:
  assumes rep: "radix_rep D t P V as" and p: "P (p @ [b]) = Some a" and leaf: "P (p @ [b, True]) = None" "P (p @ [b, False]) = None"
  obtains t' n where "unlink t a = Ok (t', n)" and "P p = Some n" and "rx_root t' = rx_root t"
    and "radix_rep D t' (P(p @ [b] := None)) (V(p @ [b] := NGX_RADIX_NO_VALUE)) (a # as)"
proof -
  let ?P = "P(p @ [b] := None)" and ?V = "V(p @ [b] := NGX_RADIX_NO_VALUE)"
  obtain n where n: "P p = Some n" using repD(2) [OF rep, of p b] p by auto
  have an: "a \<noteq> n" using repD(3) [OF rep p, of p] n by auto
  let ?nd = "if b then node_of P V p\<lparr>rn_right := None\<rparr> else node_of P V p\<lparr>rn_left := None\<rparr>"
  let ?t1 = "put_node t n ?nd"
  let ?t = "(put_node ?t1 a (node_of P V (p @ [b])\<lparr>rn_right := rx_free t\<rparr>))\<lparr>rx_free := Some a\<rparr>"
  have right: "rn_right (node_of P V p) = Some a \<longleftrightarrow> b"
    using p repD(3) [OF rep p, of "p @ [True]"] by (auto simp: node_of_def)
  have parent: "rn_parent (node_of P V (p @ [b])) = Some n"
    using n by (simp add: node_of_def)
  have "node_at ?t1 a = Ok (node_of P V (p @ [b]))"
    using repD(6) [OF rep p] an by (simp add: node_at_def put_node_def)
  then have u: "unlink t a = Ok (?t, n)"
    using repD(6) [OF rep p] repD(6) [OF rep n] parent right
    by (simp add: unlink_def Let_def) (simp add: put_node_def)
  have upper: "node_of ?P ?V p = ?nd"
    by (simp add: node_of_def butlast_neq)
  have below: "P (p @ [b] @ [x]) = None" for x
    using leaf by (cases x) simp_all
  have other: "node_of ?P ?V q = node_of P V q" if "q \<noteq> p" "q \<noteq> p @ [b]" "P q \<noteq> None" for q
  proof -
    have "butlast q \<noteq> p @ [b]" if "q \<noteq> []"
      using below [of "last q"] \<open>P q \<noteq> None\<close> append_butlast_last_id [OF that] by (metis append.assoc)
    then show ?thesis using that by (simp add: node_of_def)
  qed
  have "paths_ok D (rx_root t) ?P ?V"
  proof (rule paths_okI)
    show "?P q \<noteq> None" if "?P (q @ [c]) = Some x" for q c x
      using that below [of c] repD(2) [OF rep, of q c] by (cases "q = p @ [b]") (auto split: if_splits)
    show "q = r" if "?P q = Some c" "?P r = Some c" for q r c
      using that repD(3) [OF rep, of q c r] by (auto split: if_splits)
  qed (use repD(1,4,5) [OF rep] in \<open>auto split: if_splits\<close>)
  moreover have "rx_heap ?t c = Some (node_of ?P ?V q) \<and> c < rx_start t" if "?P q = Some c" for q c
  proof -
    have q: "P q = Some c" "q \<noteq> p @ [b]" using that by (auto split: if_splits)
    then have "c \<noteq> a" "c = n \<longleftrightarrow> q = p" using repD(3) [OF rep q(1), of "p @ [b]"] repD(3) [OF rep q(1), of p] p n q(2) by auto
    then show ?thesis
      using q upper other rep an by (auto simp: put_node_def radix_rep_def)
  qed
  moreover have "free_list (rx_heap ?t) (Some a) (a # as)"
    using rep repD(8) [OF rep p] repD(8) [OF rep n] by (simp add: radix_rep_def put_node_def free_list_upd)
  ultimately have "radix_rep D ?t ?P ?V (a # as)"
    using rep repD(7,8) [OF rep p] p by (auto simp: radix_rep_def put_node_def) (metis repD(3) [OF rep])
  then show thesis
    using u n by (intro that) (simp_all add: put_node_def)
qed

end
