(* ===== verification/Ngx_Radix_Walk.thy ===== *)
theory Ngx_Radix_Walk
  imports Ngx_Radix_Rep
begin

text \<open>
  The operations on 32-bit and on 128-bit keys differ in how they step through the bits of a key.
  The locale \<open>radix_walk\<close> says what their loops do at the bit number \<open>n\<close>; insertion and deletion are proved from it
  once.
\<close>

definition side :: "bool \<Rightarrow> radix_node \<Rightarrow> nat option" where
  "side b nd = (if b then rn_right nd else rn_left nd)"

definition set_side :: "bool \<Rightarrow> nat option \<Rightarrow> radix_node \<Rightarrow> radix_node" where
  "set_side b p nd = (if b then nd\<lparr>rn_right := p\<rparr> else nd\<lparr>rn_left := p\<rparr>)"

lemma side_node:
  assumes "n < length k"
  shows "side (k ! n) (node_of P V (take n k)) = P (take (Suc n) k)"
proof -
  have "take (Suc n) k = take n k @ [k ! n]"
    using assms by (simp add: take_Suc_conv_app_nth)
  then show ?thesis
    by (cases "k ! n") (simp_all add: side_def node_of_def)
qed

section \<open>The loop up the tree\<close>

lemma delete_up_rep:
  assumes "radix_rep D t P V as" and "P (p @ [b]) = Some a" and "P (p @ [b, True]) = None" and "P (p @ [b, False]) = None"
  shows "\<exists>t' P' as'. delete_up t a = Some (Ok t') \<and> radix_rep D t' P' (V(p @ [b] := NGX_RADIX_NO_VALUE)) as' \<and> P' \<subseteq>\<^sub>m P(p @ [b] := None)"
  using assms
proof (induction p arbitrary: b t P V as a rule: rev_induct)
  case Nil
  obtain t1 n where u: "unlink t a = Ok (t1, n)" "P [] = Some n"
    and rep1: "radix_rep D t1 (P([] @ [b] := None)) (V([] @ [b] := NGX_RADIX_NO_VALUE)) (a # as)"
    by (rule rep_unlink [OF Nil(1,2,3,4)]) blast
  have "node_at t1 n = Ok (node_of (P([b] := None)) (V([b] := NGX_RADIX_NO_VALUE)) [])"
    using repD(6) [OF rep1, of "[]" n] u(2) by simp
  then have "delete_up t a = Some (Ok t1)"
    using u(1) by (subst delete_up.simps) (simp add: node_of_def)
  with rep1 show ?case using map_le_refl [of "P([] @ [b] := None)"] by blast
next
  case (snoc c p)
  let ?q = "(p @ [c]) @ [b]"
  let ?P = "P(?q := None)" and ?V = "V(?q := NGX_RADIX_NO_VALUE)"
  obtain t1 n where u: "unlink t a = Ok (t1, n)" "P (p @ [c]) = Some n" and rep1: "radix_rep D t1 ?P ?V (a # as)"
    by (rule rep_unlink [OF snoc.prems(1,2,3,4)]) blast
  have n: "?P (p @ [c]) = Some n" using u(2) by simp
  have at: "node_at t1 n = Ok (node_of ?P ?V (p @ [c]))" by (rule repD(6) [OF rep1 n])
  show ?case
  proof (cases "?P (p @ [c, True]) = None \<and> ?P (p @ [c, False]) = None \<and> ?V (p @ [c]) = NGX_RADIX_NO_VALUE")
    case True
    obtain r where "?P p = Some r" using repD(2) [OF rep1, of p c] n by auto
    with True have "delete_up t a = delete_up t1 n"
      using u(1) at by (subst delete_up.simps) (simp add: node_of_def)
    moreover have "?V(p @ [c] := NGX_RADIX_NO_VALUE) = ?V"
      using True by (simp add: fun_upd_idem)
    moreover have "\<exists>t' P' as'. delete_up t1 n = Some (Ok t') \<and> radix_rep D t' P' (?V(p @ [c] := NGX_RADIX_NO_VALUE)) as' \<and> P' \<subseteq>\<^sub>m ?P(p @ [c] := None)"
      by (rule snoc.IH [OF rep1 n]) (use True in simp_all)
    moreover have "?P(p @ [c] := None) \<subseteq>\<^sub>m ?P" by (rule upd_None_map_le)
    ultimately show ?thesis using map_le_trans by (simp only:) blast
  next
    case False
    then have "delete_up t a = Some (Ok t1)"
      using u(1) at by (subst delete_up.simps) (auto simp: node_of_def)
    then show ?thesis using rep1 map_le_refl [of ?P] by blast
  qed
qed


text \<open>All nodes of full depth have values.\<close>

definition deep :: "nat \<Rightarrow> paths \<Rightarrow> path_values \<Rightarrow> bool" where
  "deep D P V \<longleftrightarrow> (\<forall>p. length p = D \<longrightarrow> P p \<noteq> None \<longrightarrow> V p \<noteq> NGX_RADIX_NO_VALUE)"

lemma deep_remove: "deep D P V \<Longrightarrow> P' \<subseteq>\<^sub>m P(q := None) \<Longrightarrow> deep D P' (V(q := NGX_RADIX_NO_VALUE))"
  unfolding deep_def map_le_def by (metis domIff fun_upd_apply)

lemma deep_grow:
  assumes "deep D P V" and "\<forall>q. P1 q \<noteq> None \<longrightarrow> P q \<noteq> None \<or> length q < len \<or> q = g" and "len \<le> D"
    and "\<And>q. q \<noteq> g \<Longrightarrow> V1 q = V q" and "P1 g \<noteq> None \<Longrightarrow> V1 g \<noteq> NGX_RADIX_NO_VALUE"
  shows "deep D P1 V1"
  unfolding deep_def
proof (intro allI impI)
  fix q assume q: "length q = D" "P1 q \<noteq> None"
  then have "P q \<noteq> None \<or> q = g" using assms(2) [rule_format, of q] assms(3) by simp
  then show "V1 q \<noteq> NGX_RADIX_NO_VALUE"
    using assms(1,4,5) q unfolding deep_def by (cases "q = g") auto
qed

section \<open>Insertion and deletion\<close>

locale radix_walk =
  fixes D :: nat and k :: "bool list" and len :: nat and cur :: "nat \<Rightarrow> 'c"
    and walk :: "radix_tree \<Rightarrow> 'c \<Rightarrow> nat \<Rightarrow> (nat \<times> 'c \<times> bool) res"
    and grow :: "(nat \<Rightarrow> bool) \<Rightarrow> radix_tree \<Rightarrow> 'c \<Rightarrow> nat \<Rightarrow> (nat option \<times> radix_tree) res"
    and dwalk :: "radix_tree \<Rightarrow> 'c \<Rightarrow> nat option \<Rightarrow> nat option res"
    and ins :: "(nat \<Rightarrow> bool) \<Rightarrow> radix_tree \<Rightarrow> 64 word \<Rightarrow> (int \<times> radix_tree) res"
    and del :: "radix_tree \<Rightarrow> (int \<times> radix_tree) res option"
  assumes depth: "0 < D" "len \<le> D" "length k = D"
    and walk_eq: "n < D \<Longrightarrow> n \<le> len \<Longrightarrow> walk t (cur n) node =
      (if n = len then Ok (node, cur n, True)
       else bindR (node_at t node) (\<lambda>nd. case side (k ! n) nd of
           None \<Rightarrow> Ok (node, cur n, False)
         | Some nxt \<Rightarrow> if Suc n = D then Ok (nxt, cur D, True) else walk t (cur (Suc n)) nxt))"
    and grow_eq: "n < D \<Longrightarrow> n \<le> len \<Longrightarrow> grow mem t (cur n) node =
      (if n = len then Ok (Some node, t)
       else bindR (ngx_radix_alloc mem t) (\<lambda>(p, t1). case p of
           None \<Rightarrow> Ok (None, t1)
         | Some nxt \<Rightarrow>
             let t2 = put_node t1 nxt \<lparr>rn_right = None, rn_left = None, rn_parent = Some node, rn_value = NGX_RADIX_NO_VALUE\<rparr>
             in bindR (node_at t2 node) (\<lambda>nd. let t3 = put_node t2 node (set_side (k ! n) (Some nxt) nd)
                in if Suc n = D then Ok (Some nxt, t3) else grow mem t3 (cur (Suc n)) nxt)))"
    and dwalk_eq: "n < D \<Longrightarrow> n \<le> len \<Longrightarrow> dwalk t (cur n) start =
      (case start of
         None \<Rightarrow> Ok None
       | Some a \<Rightarrow>
           if n = len then Ok (Some a)
           else bindR (node_at t a) (\<lambda>nd. if Suc n = D then Ok (side (k ! n) nd) else dwalk t (cur (Suc n)) (side (k ! n) nd)))"
    and ins_eq: "ins mem t v = bindR (walk t (cur 0) (rx_root t)) (\<lambda>(node, c, nxt).
      if nxt then
        bindR (node_at t node) (\<lambda>nd.
          if rn_value nd \<noteq> NGX_RADIX_NO_VALUE then Ok (NGX_BUSY, t)
          else Ok (NGX_OK, put_node t node (nd\<lparr>rn_value := v\<rparr>)))
      else
        bindR (grow mem t c node) (\<lambda>(p, t1).
          case p of
            None \<Rightarrow> Ok (NGX_ERROR, t1)
          | Some a \<Rightarrow> bindR (node_at t1 a) (\<lambda>nd. Ok (NGX_OK, put_node t1 a (nd\<lparr>rn_value := v\<rparr>)))))"
    and del_eq: "del t = (case dwalk t (cur 0) (Some (rx_root t)) of
       Fault e \<Rightarrow> Some (Fault e)
     | Ok None \<Rightarrow> Some (Ok (NGX_ERROR, t))
     | Ok (Some a) \<Rightarrow>
         (case node_at t a of
            Fault e \<Rightarrow> Some (Fault e)
          | Ok nd \<Rightarrow>
              if rn_right nd \<noteq> None \<or> rn_left nd \<noteq> None then
                (if rn_value nd \<noteq> NGX_RADIX_NO_VALUE
                 then Some (Ok (NGX_OK, put_node t a (nd\<lparr>rn_value := NGX_RADIX_NO_VALUE\<rparr>)))
                 else Some (Ok (NGX_ERROR, t)))
              else map_option (\<lambda>r. bindR r (\<lambda>t1. Ok (NGX_OK, t1))) (delete_up t a)))"
begin

abbreviation goal :: "bool list" where "goal \<equiv> take len k"

lemma walk_rep:
  assumes rep: "radix_rep D t P V as" and "n < D" and "n \<le> len" and "P (take n k) = Some node"
  shows "\<exists>m a. n \<le> m \<and> m \<le> len \<and> P (take m k) = Some a \<and> walk t (cur n) node = Ok (a, cur m, m = len)
    \<and> (m < len \<longrightarrow> P (take (Suc m) k) = None)"
  using assms(2-4)
proof (induction "len - n" arbitrary: n node)
  case 0
  then show ?case
    by (intro exI [of _ n] exI [of _ node]) (simp add: walk_eq)
next
  case (Suc d)
  then have n: "n < len" "n < length k" using depth by auto
  have step: "walk t (cur n) node = (case P (take (Suc n) k) of
      None \<Rightarrow> Ok (node, cur n, False) | Some nxt \<Rightarrow> if Suc n = D then Ok (nxt, cur D, True) else walk t (cur (Suc n)) nxt)"
    using n Suc.prems repD(6) [OF rep Suc.prems(3)] by (subst walk_eq) (simp_all add: side_node)
  show ?case
  proof (cases "P (take (Suc n) k)")
    case None
    then show ?thesis
      using step Suc.prems n by (intro exI [of _ n] exI [of _ node]) simp
  next
    case (Some nxt)
    show ?thesis
    proof (cases "Suc n = D")
      case True
      then have "len = D" "Suc n = len" using n depth by auto
      then show ?thesis using step Some True by (intro exI [of _ D] exI [of _ nxt]) simp
    next
      case False
      have "\<exists>m a. Suc n \<le> m \<and> m \<le> len \<and> P (take m k) = Some a \<and> walk t (cur (Suc n)) nxt = Ok (a, cur m, m = len)
        \<and> (m < len \<longrightarrow> P (take (Suc m) k) = None)"
        by (rule Suc.hyps(1)) (use Suc.hyps(2) Suc.prems(1) n Some False in auto)
      then show ?thesis
        using step Some False Suc_leD by (simp only: option.case if_False) blast
    qed
  qed
qed

lemma dwalk_rep:
  assumes rep: "radix_rep D t P V as" and "n < D" and "n \<le> len"
  shows "dwalk t (cur n) (P (take n k)) = Ok (P goal)"
  using assms(2,3)
proof (induction "len - n" arbitrary: n)
  case 0
  then show ?case
    by (auto simp: dwalk_eq split: option.splits)
next
  case (Suc d)
  then have n: "n < len" "n < length k" using depth by auto
  show ?case
  proof (cases "P (take n k)")
    case None
    have "P goal = None"
      by (rule rep_prefix_None [OF rep, of n]) (use None n in \<open>simp add: min_def\<close>)
    with None Suc.prems show ?thesis by (simp add: dwalk_eq)
  next
    case (Some a)
    have "dwalk t (cur (Suc n)) (P (take (Suc n) k)) = Ok (P goal)" if "Suc n \<noteq> D"
      by (rule Suc.hyps(1)) (use Suc.hyps(2) Suc.prems n that in auto)
    moreover have "Suc n = D \<Longrightarrow> len = Suc n" using n depth by simp
    ultimately show ?thesis
      using Some n Suc.prems repD(6) [OF rep Some] by (subst dwalk_eq) (auto simp: side_node)
  qed
qed

lemma grow_rep:
  assumes "radix_rep D t P V as" and "n < len" and "P (take n k) = Some node" and "P (take (Suc n) k) = None"
  shows "\<exists>p t' P' as'. grow mem t (cur n) node = Ok (p, t') \<and> radix_rep D t' P' V as' \<and> rx_root t' = rx_root t
    \<and> (p = None \<and> (\<exists>a. \<not> mem a) \<and> P' goal = None \<or> p = P' goal \<and> p \<noteq> None)
    \<and> (\<forall>q. P' q \<noteq> None \<longrightarrow> P q \<noteq> None \<or> length q < len \<or> q = goal)"
  using assms
proof (induction "len - n" arbitrary: n node t P as)
  case 0
  then show ?case by simp
next
  case (Suc d)
  note rep = Suc.prems(1)
  have n: "n < len" "n < length k" "n < D" using Suc.prems(2) depth by auto
  let ?p = "take n k" and ?b = "k ! n"
  have path: "take (Suc n) k = ?p @ [?b]"
    using n by (simp add: take_Suc_conv_app_nth)
  show ?case
  proof (cases rule: alloc_rep [OF rep, of mem])
    case 1
    then have "grow mem t (cur n) node = Ok (None, t)"
      using n by (subst grow_eq) simp_all
    moreover have "P goal = None"
      by (rule rep_prefix_None [OF rep, of "Suc n"]) (use Suc.prems(4) n in \<open>simp add: min_def\<close>)
    ultimately show ?thesis using rep 1(2) by blast
  next
    case (2 a t1 as1)
    let ?t2 = "put_node t1 a \<lparr>rn_right = None, rn_left = None, rn_parent = Some node, rn_value = NGX_RADIX_NO_VALUE\<rparr>"
    let ?nd = "if ?b then node_of P V ?p\<lparr>rn_right := Some a\<rparr> else node_of P V ?p\<lparr>rn_left := Some a\<rparr>"
    let ?t3 = "put_node ?t2 node ?nd"
    let ?P = "P(?p @ [?b] \<mapsto> a)"
    have none: "P (?p @ [?b]) = None"
      using Suc.prems(4) path by simp
    have link: "radix_rep D ?t3 ?P V as1"
      using n depth by (intro rep_link [OF 2(2) Suc.prems(3) none _ 2(3,4,5) refl refl]) simp
    have "node \<noteq> a" using 2(5) Suc.prems(3) by auto
    then have "node_at ?t2 node = Ok (node_of P V ?p)"
      using repD(6) [OF 2(2) Suc.prems(3)] by (simp add: node_at_def put_node_def)
    then have step: "grow mem t (cur n) node = (if Suc n = D then Ok (Some a, ?t3) else grow mem ?t3 (cur (Suc n)) a)"
      using n 2(1) by (subst grow_eq) (simp_all add: Let_def set_side_def)
    have at: "?P (take (Suc n) k) = Some a"
      using path by simp
    have root: "rx_root ?t3 = rx_root t"
      using 2(6) by (simp add: put_node_def)
    have new: "?P q \<noteq> None \<longrightarrow> P q \<noteq> None \<or> length q = Suc n \<and> q = take (Suc n) k" for q
      using path n by auto
    show ?thesis
    proof (cases "Suc n = len")
      case True
      then have "grow mem t (cur n) node = Ok (Some a, ?t3)"
        using step n depth by (cases "Suc n = D") (simp_all add: grow_eq)
      moreover have "?P goal = Some a"
        using at True by simp
      moreover have "\<forall>q. ?P q \<noteq> None \<longrightarrow> P q \<noteq> None \<or> length q < len \<or> q = goal"
        using new True by metis
      ultimately show ?thesis
        using link root by (metis option.distinct(1))
    next
      case False
      then have D: "Suc n < len" "Suc n < D" using n depth by auto
      have "P (take (Suc n) k @ q) = None" for q
        by (rule rep_prefix_None [OF rep, of "Suc n"]) (use Suc.prems(4) n in \<open>simp add: min_def\<close>)
      then have "?P (take (Suc (Suc n)) k) = None"
        using D depth path by (simp add: take_Suc_conv_app_nth [of "Suc n"])
      then obtain p t' P' as' where g: "grow mem ?t3 (cur (Suc n)) a = Ok (p, t')" "radix_rep D t' P' V as'" "rx_root t' = rx_root ?t3"
        "p = None \<and> (\<exists>a. \<not> mem a) \<and> P' goal = None \<or> p = P' goal \<and> p \<noteq> None"
        "\<forall>q. P' q \<noteq> None \<longrightarrow> ?P q \<noteq> None \<or> length q < len \<or> q = goal"
        using Suc.hyps(1) [OF _ link D(1) at] Suc.hyps(2) by fastforce
      have "grow mem t (cur n) node = Ok (p, t')" using step g(1) D by simp
      moreover have "\<forall>q. P' q \<noteq> None \<longrightarrow> P q \<noteq> None \<or> length q < len \<or> q = goal"
        using g(5) new D(1) by metis
      ultimately show ?thesis
        using g(2,4) unfolding g(3) [unfolded root, symmetric] by blast
    qed
  qed
qed

lemma ins_rep:
  assumes rep: "radix_rep D t P V as"
  shows "\<exists>rc t' P' V' as'. ins mem t v = Ok (rc, t') \<and> radix_rep D t' P' V' as'
    \<and> (rc = NGX_OK \<and> V goal = NGX_RADIX_NO_VALUE \<and> V' = V(goal := v)
     \<or> rc = NGX_BUSY \<and> V goal \<noteq> NGX_RADIX_NO_VALUE \<and> V' = V
     \<or> rc = NGX_ERROR \<and> (\<exists>a. \<not> mem a) \<and> V goal = NGX_RADIX_NO_VALUE \<and> V' = V)
    \<and> (v \<noteq> NGX_RADIX_NO_VALUE \<longrightarrow> deep D P V \<longrightarrow> deep D P' V')"
proof -
  obtain m a where m: "m \<le> len" "P (take m k) = Some a" and w: "walk t (cur 0) (rx_root t) = Ok (a, cur m, m = len)"
    and gap: "m < len \<longrightarrow> P (take (Suc m) k) = None"
    using walk_rep [OF rep depth(1)] repD(1) [OF rep] by auto
  show ?thesis
  proof (cases "m = len")
    case True
    then have q: "P goal = Some a" using m by simp
    show ?thesis
    proof (cases "V goal = NGX_RADIX_NO_VALUE")
      case no: True
      then have "ins mem t v = Ok (NGX_OK, put_node t a (node_of P V goal\<lparr>rn_value := v\<rparr>))"
        using w True repD(6) [OF rep q] by (simp add: ins_eq node_of_def)
      moreover have "v \<noteq> NGX_RADIX_NO_VALUE \<longrightarrow> deep D P V \<longrightarrow> deep D P (V(goal := v))"
        by (simp add: deep_def)
      ultimately show ?thesis
        using rep_set_value [OF rep q] no by blast
    next
      case False
      then have "ins mem t v = Ok (NGX_BUSY, t)"
        using w True repD(6) [OF rep q] by (simp add: ins_eq node_of_def)
      then show ?thesis
        using rep False by blast
    qed
  next
    case False
    then have lt: "m < len" using m by simp
    then have none: "P (take (Suc m) k) = None" using gap by blast
    have "P goal = None"
      by (rule rep_prefix_None [OF rep, of "Suc m"]) (use none lt in \<open>simp add: min_def\<close>)
    then have no: "V goal = NGX_RADIX_NO_VALUE" by (rule repD(4) [OF rep])
    obtain p t1 P1 as1 where g: "grow mem t (cur m) a = Ok (p, t1)" "radix_rep D t1 P1 V as1" "rx_root t1 = rx_root t"
      "p = None \<and> (\<exists>a. \<not> mem a) \<and> P1 goal = None \<or> p = P1 goal \<and> p \<noteq> None"
      "\<forall>q. P1 q \<noteq> None \<longrightarrow> P q \<noteq> None \<or> length q < len \<or> q = goal"
      using grow_rep [OF rep lt m(2) none, of mem] by (elim exE conjE) (rule that)
    show ?thesis
    proof (cases p)
      case None
      then have "ins mem t v = Ok (NGX_ERROR, t1)"
        using w False g(1) by (simp add: ins_eq)
      moreover have c: "\<exists>a. \<not> mem a" "P1 goal = None" using None g(4) by auto
      moreover have "deep D P V \<longrightarrow> deep D P1 V"
        using deep_grow [OF _ g(5) depth(2), of V V] c(2) by simp
      ultimately show ?thesis using g(2) no by blast
    next
      case (Some c)
      then have q: "P1 goal = Some c" using g(4) by simp
      have "ins mem t v = Ok (NGX_OK, put_node t1 c (node_of P1 V goal\<lparr>rn_value := v\<rparr>))"
        using w False g(1) Some repD(6) [OF g(2) q] by (simp add: ins_eq)
      moreover have "v \<noteq> NGX_RADIX_NO_VALUE \<longrightarrow> deep D P V \<longrightarrow> deep D P1 (V(goal := v))"
        using deep_grow [OF _ g(5) depth(2), of V "V(goal := v)"] by simp
      moreover note rep_set_value [OF g(2) q, of v]
      ultimately show ?thesis
        using no by blast
    qed
  qed
qed

lemma del_rep:
  assumes rep: "radix_rep D t P V as" and q: "goal \<noteq> [] \<or> P [True] \<noteq> None \<or> P [False] \<noteq> None"
  shows "\<exists>rc t' P' as'. del t = Some (Ok (rc, t')) \<and> radix_rep D t' P' (V(goal := NGX_RADIX_NO_VALUE)) as'
    \<and> (rc = NGX_OK \<or> rc = NGX_ERROR \<and> V goal = NGX_RADIX_NO_VALUE)
    \<and> (deep D P V \<longrightarrow> deep D P' (V(goal := NGX_RADIX_NO_VALUE)))"
proof -
  have w: "dwalk t (cur 0) (Some (rx_root t)) = Ok (P goal)"
    using dwalk_rep [OF rep depth(1)] repD(1) [OF rep] by simp
  have upd: "V(goal := NGX_RADIX_NO_VALUE) = V" if "V goal = NGX_RADIX_NO_VALUE"
    using that by (simp add: fun_upd_idem)
  show ?thesis
  proof (cases "P goal")
    case None
    then have "del t = Some (Ok (NGX_ERROR, t))"
      using w by (simp add: del_eq)
    moreover have no: "V goal = NGX_RADIX_NO_VALUE" by (rule repD(4) [OF rep None])
    ultimately show ?thesis using rep unfolding upd [OF no] by blast
  next
    case (Some a)
    note at = repD(6) [OF rep Some]
    show ?thesis
    proof (cases "P (goal @ [True]) = None \<and> P (goal @ [False]) = None")
      case leaf: True
      then obtain p b where pb: "goal = p @ [b]"
        using q by (cases goal rule: rev_cases) auto
      then obtain t' P' as' where "delete_up t a = Some (Ok t')" "radix_rep D t' P' (V(goal := NGX_RADIX_NO_VALUE)) as'"
        "P' \<subseteq>\<^sub>m P(goal := None)"
        using delete_up_rep [OF rep, of p b a] Some leaf by auto
      moreover have "del t = map_option (\<lambda>r. bindR r (\<lambda>t1. Ok (NGX_OK, t1))) (delete_up t a)"
        using w Some at leaf by (simp add: del_eq node_of_def)
      ultimately show ?thesis using deep_remove by auto
    next
      case inner: False
      show ?thesis
      proof (cases "V goal = NGX_RADIX_NO_VALUE")
        case no: True
        then have "del t = Some (Ok (NGX_ERROR, t))"
          using w Some at inner by (auto simp: del_eq node_of_def)
        then show ?thesis using rep no unfolding upd [OF no] by blast
      next
        case False
        then have "del t = Some (Ok (NGX_OK, put_node t a (node_of P V goal\<lparr>rn_value := NGX_RADIX_NO_VALUE\<rparr>)))"
          using w Some at inner by (auto simp: del_eq node_of_def)
        moreover have "length goal \<noteq> D"
          using inner repD(5) [OF rep, of "goal @ [True]"] repD(5) [OF rep, of "goal @ [False]"] by auto
        then have "deep D P V \<longrightarrow> deep D P (V(goal := NGX_RADIX_NO_VALUE))"
          by (auto simp: deep_def)
        ultimately show ?thesis using rep_set_value [OF rep Some] by blast
      qed
    qed
  qed
qed

text \<open>The empty prefix is deleted from a root without children through a null parent.\<close>

lemma del_root_leaf:
  assumes rep: "radix_rep D t P V as" and "len = 0" and "P [True] = None" "P [False] = None"
  shows "del t = Some (Fault NullDeref)"
proof -
  have w: "dwalk t (cur 0) (Some (rx_root t)) = Ok (Some (rx_root t))"
    using dwalk_rep [OF rep depth(1)] repD(1) [OF rep] assms(2) by simp
  have at: "node_at t (rx_root t) = Ok (node_of P V [])" by (rule repD(6) [OF rep repD(1) [OF rep]])
  then have "delete_up t (rx_root t) = Some (Fault NullDeref)"
    by (subst delete_up.simps) (simp add: unlink_def node_of_def)
  then show ?thesis
    using w at assms(3,4) by (simp add: del_eq node_of_def)
qed

end

section \<open>Search\<close>

text \<open>The best match among the prefixes of length \<open>n\<close> to \<open>N\<close>, without \<open>N\<close>; \<open>v\<close> when there is none.\<close>

definition best_match :: "path_values \<Rightarrow> bool list \<Rightarrow> nat \<Rightarrow> nat \<Rightarrow> 64 word \<Rightarrow> 64 word \<Rightarrow> bool" where
  "best_match V k n N v w \<longleftrightarrow>
    (\<exists>m. n \<le> m \<and> m < N \<and> V (take m k) = w \<and> w \<noteq> NGX_RADIX_NO_VALUE
       \<and> (\<forall>i. m < i \<and> i < N \<longrightarrow> V (take i k) = NGX_RADIX_NO_VALUE))
    \<or> w = v \<and> (\<forall>i. n \<le> i \<and> i < N \<longrightarrow> V (take i k) = NGX_RADIX_NO_VALUE)"

abbreviation newer :: "path_values \<Rightarrow> bool list \<Rightarrow> 64 word \<Rightarrow> 64 word" where
  "newer V p v \<equiv> if V p \<noteq> NGX_RADIX_NO_VALUE then V p else v"

lemma best_match_empty: "best_match V k n n v v"
  by (auto simp: best_match_def)

lemma best_match_next:
  assumes "best_match V k n N v w" and "n \<le> N"
  shows "best_match V k n (Suc N) v (newer V (take N k) w)"
proof (cases "V (take N k) = NGX_RADIX_NO_VALUE")
  case True
  then have "V (take i k) = NGX_RADIX_NO_VALUE" if "m < i \<and> i < N \<longrightarrow> V (take i k) = NGX_RADIX_NO_VALUE" "m < i \<and> i < Suc N" for m i
    using that by (cases "i = N") auto
  moreover have "V (take i k) = NGX_RADIX_NO_VALUE" if "n \<le> i \<and> i < N \<longrightarrow> V (take i k) = NGX_RADIX_NO_VALUE" "n \<le> i \<and> i < Suc N" for i
    using that True by (cases "i = N") auto
  ultimately show ?thesis
    using assms True unfolding best_match_def by (metis less_Suc_eq)
next
  case False
  then show ?thesis
    using assms(2) unfolding best_match_def by (intro disjI1 exI [of _ N]) auto
qed

text \<open>What a search loop does at the bit number \<open>n\<close>; \<open>fin\<close> is what it does behind the last bit.\<close>

locale radix_search =
  fixes D :: nat and k :: "bool list"
    and look :: "radix_tree \<Rightarrow> nat \<Rightarrow> nat option \<Rightarrow> 64 word \<Rightarrow> 64 word res option"
  assumes length_k: "length k = D"
    and look_None: "look t n None v = Some (Ok v)"
    and look_Some: "n < D \<Longrightarrow> node_at t a = Ok nd \<Longrightarrow>
      look t n (Some a) v = look t (Suc n) (side (k ! n) nd) (if rn_value nd \<noteq> NGX_RADIX_NO_VALUE then rn_value nd else v)"
begin

lemma look_step:
  assumes rep: "radix_rep D t P V as" and n: "n < D"
  shows "look t n (P (take n k)) v = look t (Suc n) (P (take (Suc n) k)) (newer V (take n k) v)"
proof (cases "P (take n k)")
  case None
  have "P (take (Suc n) k) = None"
    by (rule rep_prefix_None [OF rep, of n]) (use None in \<open>simp add: min_def\<close>)
  then show ?thesis using None repD(4) [OF rep None] by (simp add: look_None)
next
  case (Some a)
  then show ?thesis
    using look_Some [OF n repD(6) [OF rep Some], of v] n length_k side_node [of n k P V] by (simp add: node_of_def)
qed

lemma look_to_end:
  assumes rep: "radix_rep D t P V as" and "n \<le> D"
  shows "\<exists>w. look t 0 (Some (rx_root t)) v = look t n (P (take n k)) w \<and> best_match V k 0 n v w"
  using assms(2)
proof (induction n)
  case 0
  then show ?case using repD(1) [OF rep] best_match_empty by auto
next
  case (Suc n)
  then obtain w where w: "look t 0 (Some (rx_root t)) v = look t n (P (take n k)) w" "best_match V k 0 n v w" by auto
  then show ?case
    using look_step [OF rep, of n w] Suc.prems best_match_next [OF w(2)] by auto
qed

end

end
