(* ===== verification/Ngx_Radix_Keys.thy ===== *)
theory Ngx_Radix_Keys
  imports Ngx_Radix_Walk
begin

unbundle bit_operations_syntax

text \<open>
  The loops over the bits of 32-bit and of 128-bit keys are instances of \<open>radix_walk\<close> and \<open>radix_search\<close>.  Creation with
  preallocated levels gives a tree without values.
\<close>

section \<open>Keys of 32 bits\<close>

definition key_bits :: "32 word \<Rightarrow> bool list" where
  "key_bits key = map (\<lambda>i. bit key (31 - i)) [0..<32]"

lemma length_key_bits [simp]: "length (key_bits key) = 32"
  by (simp add: key_bits_def)

lemma top_bit_exp: "top_bit = 2 ^ 31"
  by (simp add: top_bit_def)

lemma bit_top_bit: "bit top_bit j \<longleftrightarrow> j = 31"
  unfolding top_bit_exp bit_exp_iff by auto

lemma drop_top_bit: "drop_bit n top_bit = (if n < 32 then 2 ^ (31 - n) else 0)"
proof (rule bit_word_eqI)
  show "bit (drop_bit n top_bit) i = bit (if n < 32 then 2 ^ (31 - n) else 0 :: 32 word) i" for i
    by (auto simp: bit_drop_bit_eq bit_top_bit bit_exp_iff)
qed

lemma and_bit: "key AND drop_bit n top_bit \<noteq> 0 \<longleftrightarrow> n < 32 \<and> key_bits key ! n"
  by (simp add: drop_top_bit key_bits_def and_exp_eq_0_iff_not_bit)

lemma in_mask:
  assumes "n \<le> leading (key_bits msk)"
  shows "drop_bit n top_bit AND msk = 0 \<longleftrightarrow> n = leading (key_bits msk)"
proof -
  have "drop_bit n top_bit AND msk = 0 \<longleftrightarrow> \<not> (n < 32 \<and> key_bits msk ! n)"
    using and_bit [of msk n] by (simp only: and.commute) blast
  then show ?thesis
    using leading_iff [OF assms] leading_le [of "key_bits msk"] assms by (cases "n < 32") auto
qed

lemma child_side: "n < 32 \<Longrightarrow> child key (drop_bit n top_bit) nd = side (key_bits key ! n) nd"
  by (simp add: child_def side_def and_bit)

lemma set_child_side: "n < 32 \<Longrightarrow> set_child key (drop_bit n top_bit) p nd = set_side (key_bits key ! n) p nd"
  by (simp add: set_child_def set_side_def and_bit)

lemma drop_top_end: "drop_bit 32 top_bit = 0"
  by (simp add: drop_top_bit)

text \<open>The bit is 0 behind the last one, and the loops end there.\<close>

lemma drop_Suc_top: "drop_bit 1 (drop_bit n top_bit) = (if Suc n = 32 then 0 else drop_bit (Suc n) top_bit)"
  using drop_top_end by (cases "Suc n = 32") simp_all

lemma insert_walk_next: "insert_walk t key msk (drop_bit 1 (drop_bit n top_bit)) a =
    (if Suc n = 32 then Ok (a, drop_bit 32 top_bit, True) else insert_walk t key msk (drop_bit (Suc n) top_bit) a)"
  unfolding drop_Suc_top by (simp add: insert_walk.simps [of _ _ _ 0] drop_top_end)

lemma insert_grow_next: "insert_grow mem t key msk (drop_bit 1 (drop_bit n top_bit)) a =
    (if Suc n = 32 then Ok (Some a, t) else insert_grow mem t key msk (drop_bit (Suc n) top_bit) a)"
  unfolding drop_Suc_top by (simp add: insert_grow.simps [of _ _ _ _ 0])

lemma delete_walk_next: "delete_walk t key msk (drop_bit 1 (drop_bit n top_bit)) q =
    (if Suc n = 32 then Ok q else delete_walk t key msk (drop_bit (Suc n) top_bit) q)"
  unfolding drop_Suc_top by (simp add: delete_walk.simps [of _ _ _ 0] split: option.split)

interpretation r32: radix_walk 32 "key_bits key" "leading (key_bits msk)" "\<lambda>n. drop_bit n top_bit" "\<lambda>t. insert_walk t key msk"
  "\<lambda>mem t. insert_grow mem t key msk" "\<lambda>t. delete_walk t key msk" "\<lambda>mem t. ngx_radix32tree_insert mem t key msk"
  "\<lambda>t. ngx_radix32tree_delete t key msk" for key msk :: "32 word"
proof
  show "leading (key_bits msk) \<le> 32" using leading_le [of "key_bits msk"] by simp
  fix n :: nat assume n: "n < 32" "n \<le> leading (key_bits msk)"
  show "insert_walk t key msk (drop_bit n top_bit) node =
      (if n = leading (key_bits msk) then Ok (node, drop_bit n top_bit, True)
       else bindR (node_at t node) (\<lambda>nd. case side (key_bits key ! n) nd of
           None \<Rightarrow> Ok (node, drop_bit n top_bit, False)
         | Some nxt \<Rightarrow> if Suc n = 32 then Ok (nxt, drop_bit 32 top_bit, True) else insert_walk t key msk (drop_bit (Suc n) top_bit) nxt))" for t node
    using n by (subst insert_walk.simps) (simp add: in_mask child_side insert_walk_next del: One_nat_def drop_bit_drop_bit cong: option.case_cong)
  show "insert_grow mem t key msk (drop_bit n top_bit) node =
      (if n = leading (key_bits msk) then Ok (Some node, t)
       else bindR (ngx_radix_alloc mem t) (\<lambda>(p, t1). case p of
           None \<Rightarrow> Ok (None, t1)
         | Some nxt \<Rightarrow>
             let t2 = put_node t1 nxt \<lparr>rn_right = None, rn_left = None, rn_parent = Some node, rn_value = NGX_RADIX_NO_VALUE\<rparr>
             in bindR (node_at t2 node) (\<lambda>nd. let t3 = put_node t2 node (set_side (key_bits key ! n) (Some nxt) nd)
                in if Suc n = 32 then Ok (Some nxt, t3) else insert_grow mem t3 key msk (drop_bit (Suc n) top_bit) nxt)))" for mem t node
    using n by (subst insert_grow.simps) (simp add: in_mask set_child_side insert_grow_next Let_def del: One_nat_def drop_bit_drop_bit cong: option.case_cong)
  show "delete_walk t key msk (drop_bit n top_bit) start =
      (case start of
         None \<Rightarrow> Ok None
       | Some a \<Rightarrow>
           if n = leading (key_bits msk) then Ok (Some a)
           else bindR (node_at t a) (\<lambda>nd. if Suc n = 32 then Ok (side (key_bits key ! n) nd)
             else delete_walk t key msk (drop_bit (Suc n) top_bit) (side (key_bits key ! n) nd)))" for t start
    using n by (subst delete_walk.simps, cases start) (simp_all add: in_mask child_side delete_walk_next del: One_nat_def drop_bit_drop_bit)
qed (simp_all add: ngx_radix32tree_insert_def ngx_radix32tree_delete_def)

interpretation s32: radix_search 32 "key_bits key" "\<lambda>t n. find_loop t key (drop_bit n top_bit)" for key :: "32 word"
proof
  show "find_loop t key (drop_bit n top_bit) None v = Some (Ok v)" for t n v
    by (simp add: find_loop.simps)
  show "find_loop t key (drop_bit n top_bit) (Some a) v =
      find_loop t key (drop_bit (Suc n) top_bit) (side (key_bits key ! n) nd) (if rn_value nd \<noteq> NGX_RADIX_NO_VALUE then rn_value nd else v)"
    if "n < 32" "node_at t a = Ok nd" for n t a v nd
    using that by (subst find_loop.simps) (simp add: child_side)
qed simp

text \<open>Behind the last bit the search goes to the left, where no node is.\<close>

lemma find_rep:
  assumes rep: "radix_rep 32 t P V as"
  shows "\<exists>w. ngx_radix32tree_find t key = Some (Ok w) \<and> best_match V (key_bits key) 0 33 NGX_RADIX_NO_VALUE w"
proof -
  let ?k = "key_bits key"
  obtain w where w: "find_loop t key top_bit (Some (rx_root t)) NGX_RADIX_NO_VALUE = find_loop t key 0 (P ?k) w"
    "best_match V ?k 0 32 NGX_RADIX_NO_VALUE w"
    using s32.look_to_end [OF rep, of 32 key NGX_RADIX_NO_VALUE] by (auto simp: drop_top_end)
  have "find_loop t key 0 (P ?k) w = Some (Ok (newer V ?k w))"
  proof (cases "P ?k")
    case None
    then show ?thesis using repD(4) [OF rep None] by (subst find_loop.simps) simp
  next
    case (Some a)
    have "P (?k @ [False]) = None"
      using repD(5) [OF rep, of "?k @ [False]"] by (cases "P (?k @ [False])") auto
    then have "child key 0 (node_of P V ?k) = None" by (simp add: child_def node_of_def)
    then show ?thesis
      unfolding Some using repD(6) [OF rep Some]
      by (subst find_loop.simps) (simp add: find_loop.simps [of _ _ _ None] node_of_def)
  qed
  then show ?thesis
    using w best_match_next [OF w(2)] by (auto simp: ngx_radix32tree_find_def)
qed

section \<open>Keys of 128 bits\<close>

definition key_bits128 :: "8 word list \<Rightarrow> bool list" where
  "key_bits128 key = map (\<lambda>n. bit (key ! (n div 8)) (7 - n mod 8)) [0..<128]"

lemma length_key_bits128 [simp]: "length (key_bits128 key) = 128"
  by (simp add: key_bits128_def)

text \<open>The position of a bit: the byte and the bit in it.\<close>

definition pos128 :: "nat \<Rightarrow> nat \<times> 8 word" where
  "pos128 n = (if n < 128 then (n div 8, drop_bit (n mod 8) 0x80) else (16, 0))"

lemma high_bit_exp: "(0x80 :: 8 word) = 2 ^ 7"
  by simp

lemma bit_high_bit: "bit (0x80 :: 8 word) i \<longleftrightarrow> i = 7"
  unfolding high_bit_exp bit_exp_iff by auto

lemma drop_high_bit: "drop_bit j (0x80 :: 8 word) = (if j < 8 then 2 ^ (7 - j) else 0)"
proof (rule bit_word_eqI)
  show "bit (drop_bit j (0x80 :: 8 word)) i = bit (if j < 8 then 2 ^ (7 - j) else 0 :: 8 word) i" for i
    by (simp only: bit_drop_bit_eq o_def bit_high_bit) (auto simp: bit_exp_iff)
qed

lemma and_bit128: "n < 128 \<Longrightarrow> key ! (n div 8) AND snd (pos128 n) \<noteq> 0 \<longleftrightarrow> key_bits128 key ! n"
  by (simp add: pos128_def drop_high_bit key_bits128_def and_exp_eq_0_iff_not_bit)

lemma next_pos128:
  assumes "n < 128"
  shows "drop_bit 1 (snd (pos128 n)) = 0 \<longleftrightarrow> n mod 8 = 7"
    and "n mod 8 = 7 \<Longrightarrow> Suc n < 128 \<Longrightarrow> pos128 (Suc n) = (n div 8 + 1, 0x80)"
    and "n mod 8 \<noteq> 7 \<Longrightarrow> pos128 (Suc n) = (n div 8, drop_bit 1 (snd (pos128 n)))"
proof -
  have n: "n div 8 < 16" using assms by simp
  have lt: "n mod 8 < 8" by simp
  have d: "drop_bit 1 (snd (pos128 n)) = drop_bit (Suc (n mod 8)) 0x80"
    using assms by (simp add: pos128_def)
  show "drop_bit 1 (snd (pos128 n)) = 0 \<longleftrightarrow> n mod 8 = 7"
    unfolding d using lt by (auto simp: drop_high_bit simp del: mod_less_divisor)
  show "n mod 8 = 7 \<Longrightarrow> Suc n < 128 \<Longrightarrow> pos128 (Suc n) = (n div 8 + 1, 0x80)"
    by (simp add: pos128_def mod_Suc div_Suc)
  show "n mod 8 \<noteq> 7 \<Longrightarrow> pos128 (Suc n) = (n div 8, drop_bit 1 (snd (pos128 n)))"
    unfolding d using assms by (cases "n = 127") (auto simp: pos128_def mod_Suc div_Suc)
qed

lemma in_mask128:
  assumes "n \<le> leading (key_bits128 msk)" and "n < 128"
  shows "snd (pos128 n) AND msk ! (n div 8) = 0 \<longleftrightarrow> n = leading (key_bits128 msk)"
  using and_bit128 [OF assms(2), of msk] leading_iff [OF assms(1)] assms(2) by (simp only: and.commute length_key_bits128) blast

lemma child_side128: "n < 128 \<Longrightarrow> child (key ! (n div 8)) (snd (pos128 n)) nd = side (key_bits128 key ! n) nd"
  by (simp only: child_def side_def and_bit128)

lemma set_child_side128: "n < 128 \<Longrightarrow> set_child (key ! (n div 8)) (snd (pos128 n)) p nd = set_side (key_bits128 key ! n) p nd"
  by (simp only: set_child_def set_side_def and_bit128)

lemma pos128_pair: "n < 128 \<Longrightarrow> pos128 n = (n div 8, snd (pos128 n))"
  by (simp add: pos128_def)

lemma byte_at_pos: "length xs = 16 \<Longrightarrow> n < 128 \<Longrightarrow> byte_at xs (n div 8) = Ok (xs ! (n div 8))"
  by (simp add: byte_at_def)

text \<open>What the loops see at a bit, and the step to the next one; the last step leaves the loop.\<close>

lemma step_pos128:
  assumes "n < 128"
  shows "drop_bit 1 (snd (pos128 n)) = 0 \<and> n div 8 + 1 = 16 \<and> Suc n = 128
    \<or> drop_bit 1 (snd (pos128 n)) = 0 \<and> n div 8 + 1 \<noteq> 16 \<and> Suc n \<noteq> 128 \<and> pos128 (Suc n) = (n div 8 + 1, 0x80)
    \<or> drop_bit 1 (snd (pos128 n)) \<noteq> 0 \<and> Suc n \<noteq> 128 \<and> pos128 (Suc n) = (n div 8, drop_bit 1 (snd (pos128 n)))"
proof (cases "n mod 8 = 7")
  case True
  have "n div 8 + 1 = 16 \<longleftrightarrow> Suc n = 128"
    using True assms div_mult_mod_eq [of n 8] by presburger
  then show ?thesis
    using True next_pos128(1,2) [OF assms] assms by (cases "Suc n = 128") simp_all
next
  case False
  then have "Suc n \<noteq> 128" by auto
  then show ?thesis
    using False next_pos128(1,3) [OF assms] by simp
qed

lemma pos128E:
  assumes "length key = 16" "length msk = 16" and n: "n < 128" "n \<le> leading (key_bits128 msk)"
  obtains i b where "pos128 n = (i, b)" and "byte_at key i = Ok (key ! i)" and "byte_at msk i = Ok (msk ! i)"
    and "b AND msk ! i = 0 \<longleftrightarrow> n = leading (key_bits128 msk)"
    and "\<And>nd. child (key ! i) b nd = side (key_bits128 key ! n) nd" and "\<And>q nd. set_child (key ! i) b q nd = set_side (key_bits128 key ! n) q nd"
    and "drop_bit 1 b = 0 \<and> i + 1 = 16 \<and> Suc n = 128 \<or> drop_bit 1 b = 0 \<and> i + 1 \<noteq> 16 \<and> Suc n \<noteq> 128 \<and> pos128 (Suc n) = (i + 1, 0x80)
      \<or> drop_bit 1 b \<noteq> 0 \<and> Suc n \<noteq> 128 \<and> pos128 (Suc n) = (i, drop_bit 1 b)"
  by (rule that [OF pos128_pair [OF n(1)] byte_at_pos [OF assms(1) n(1)] byte_at_pos [OF assms(2) n(1)] in_mask128 [OF n(2,1)]
        child_side128 [OF n(1)] set_child_side128 [OF n(1)] step_pos128 [OF n(1)]])

text \<open>The loops are instances for arrays of 16 bytes, so the locales are used through their predicates.\<close>

lemma walk128_end: "pos128 128 = (16, 0)"
  by (simp add: pos128_def)

lemma insert_walk128_eq:
  assumes "length key = 16" "length msk = 16" and n: "n < 128" "n \<le> leading (key_bits128 msk)"
  shows "insert_walk128 t key msk (pos128 n) node =
      (if n = leading (key_bits128 msk) then Ok (node, pos128 n, True)
       else bindR (node_at t node) (\<lambda>nd. case side (key_bits128 key ! n) nd of
           None \<Rightarrow> Ok (node, pos128 n, False)
         | Some nxt \<Rightarrow> if Suc n = 128 then Ok (nxt, pos128 128, True) else insert_walk128 t key msk (pos128 (Suc n)) nxt))"
proof (rule pos128E [OF assms])
  fix i b assume p: "pos128 n = (i, b)" "byte_at key i = Ok (key ! i)" "byte_at msk i = Ok (msk ! i)"
    "b AND msk ! i = 0 \<longleftrightarrow> n = leading (key_bits128 msk)" "\<And>nd. child (key ! i) b nd = side (key_bits128 key ! n) nd"
    and c: "drop_bit 1 b = 0 \<and> i + 1 = 16 \<and> Suc n = 128 \<or> drop_bit 1 b = 0 \<and> i + 1 \<noteq> 16 \<and> Suc n \<noteq> 128 \<and> pos128 (Suc n) = (i + 1, 0x80)
      \<or> drop_bit 1 b \<noteq> 0 \<and> Suc n \<noteq> 128 \<and> pos128 (Suc n) = (i, drop_bit 1 b)"
  from c show ?thesis
    unfolding p(1) insert_walk128.simps [of t key msk i b node]
    by (elim disjE conjE) (simp_all only: p bindR.simps walk128_end simp_thms if_True if_False)
qed

lemma insert_grow128_eq:
  assumes "length key = 16" "length msk = 16" and n: "n < 128" "n \<le> leading (key_bits128 msk)"
  shows "insert_grow128 mem t key msk (pos128 n) node =
      (if n = leading (key_bits128 msk) then Ok (Some node, t)
       else bindR (ngx_radix_alloc mem t) (\<lambda>(p, t1). case p of
           None \<Rightarrow> Ok (None, t1)
         | Some nxt \<Rightarrow>
             let t2 = put_node t1 nxt \<lparr>rn_right = None, rn_left = None, rn_parent = Some node, rn_value = NGX_RADIX_NO_VALUE\<rparr>
             in bindR (node_at t2 node) (\<lambda>nd. let t3 = put_node t2 node (set_side (key_bits128 key ! n) (Some nxt) nd)
                in if Suc n = 128 then Ok (Some nxt, t3) else insert_grow128 mem t3 key msk (pos128 (Suc n)) nxt)))"
proof (rule pos128E [OF assms])
  fix i b assume p: "pos128 n = (i, b)" "byte_at key i = Ok (key ! i)" "byte_at msk i = Ok (msk ! i)"
    "b AND msk ! i = 0 \<longleftrightarrow> n = leading (key_bits128 msk)" "\<And>q nd. set_child (key ! i) b q nd = set_side (key_bits128 key ! n) q nd"
    and c: "drop_bit 1 b = 0 \<and> i + 1 = 16 \<and> Suc n = 128 \<or> drop_bit 1 b = 0 \<and> i + 1 \<noteq> 16 \<and> Suc n \<noteq> 128 \<and> pos128 (Suc n) = (i + 1, 0x80)
      \<or> drop_bit 1 b \<noteq> 0 \<and> Suc n \<noteq> 128 \<and> pos128 (Suc n) = (i, drop_bit 1 b)"
  from c show ?thesis
    unfolding p(1) insert_grow128.simps [of mem t key msk i b node]
    by (elim disjE conjE) (simp_all only: p bindR.simps simp_thms if_True if_False)
qed

lemma delete_walk128_eq:
  assumes "length key = 16" "length msk = 16" and n: "n < 128" "n \<le> leading (key_bits128 msk)"
  shows "delete_walk128 t key msk (pos128 n) start =
      (case start of
         None \<Rightarrow> Ok None
       | Some a \<Rightarrow>
           if n = leading (key_bits128 msk) then Ok (Some a)
           else bindR (node_at t a) (\<lambda>nd. if Suc n = 128 then Ok (side (key_bits128 key ! n) nd)
             else delete_walk128 t key msk (pos128 (Suc n)) (side (key_bits128 key ! n) nd)))"
proof (rule pos128E [OF assms])
  fix i b assume p: "pos128 n = (i, b)" "byte_at key i = Ok (key ! i)" "byte_at msk i = Ok (msk ! i)"
    "b AND msk ! i = 0 \<longleftrightarrow> n = leading (key_bits128 msk)" "\<And>nd. child (key ! i) b nd = side (key_bits128 key ! n) nd"
    and c: "drop_bit 1 b = 0 \<and> i + 1 = 16 \<and> Suc n = 128 \<or> drop_bit 1 b = 0 \<and> i + 1 \<noteq> 16 \<and> Suc n \<noteq> 128 \<and> pos128 (Suc n) = (i + 1, 0x80)
      \<or> drop_bit 1 b \<noteq> 0 \<and> Suc n \<noteq> 128 \<and> pos128 (Suc n) = (i, drop_bit 1 b)"
  from c show ?thesis
    unfolding p(1) delete_walk128.simps [of t key msk i b start]
    by (elim disjE conjE) (simp_all only: p bindR.simps simp_thms if_True if_False)
qed

lemma pos128_0: "pos128 0 = (0, 0x80)"
  by (simp add: pos128_def)

lemma walk128:
  assumes "length key = 16" "length msk = 16"
  shows "radix_walk 128 (key_bits128 key) (leading (key_bits128 msk)) pos128 (\<lambda>t. insert_walk128 t key msk)
    (\<lambda>mem t. insert_grow128 mem t key msk) (\<lambda>t. delete_walk128 t key msk) (\<lambda>mem t. ngx_radix128tree_insert mem t key msk)
    (\<lambda>t. ngx_radix128tree_delete t key msk)"
proof
  show "leading (key_bits128 msk) \<le> 128" using leading_le [of "key_bits128 msk"] by simp
qed (simp_all add: insert_walk128_eq [OF assms] insert_grow128_eq [OF assms] delete_walk128_eq [OF assms]
      ngx_radix128tree_insert_def ngx_radix128tree_delete_def pos128_0)

lemma search128:
  assumes "length key = 16"
  shows "radix_search 128 (key_bits128 key) (\<lambda>t n. find_loop128 t key (fst (pos128 n)) (if n < 128 then snd (pos128 n) else 0x80))"
proof
  let ?look = "\<lambda>t n. find_loop128 t key (fst (pos128 n)) (if n < 128 then snd (pos128 n) else 0x80)"
  show "?look t n None v = Some (Ok v)" for t n v
    by (simp add: find_loop128.simps)
  show "?look t n (Some a) v = ?look t (Suc n) (side (key_bits128 key ! n) nd) (if rn_value nd \<noteq> NGX_RADIX_NO_VALUE then rn_value nd else v)"
    if n: "n < 128" and nd: "node_at t a = Ok nd" for n t a v nd
  proof -
    let ?i = "n div 8" and ?b = "snd (pos128 n)"
    let ?v = "if rn_value nd \<noteq> NGX_RADIX_NO_VALUE then rn_value nd else v"
    have p: "fst (pos128 n) = ?i" using n by (simp add: pos128_def)
    have step: "find_loop128 t key ?i ?b (Some a) v
        = (if drop_bit 1 ?b = 0 then find_loop128 t key (?i + 1) 0x80 (side (key_bits128 key ! n) nd) ?v
           else find_loop128 t key ?i (drop_bit 1 ?b) (side (key_bits128 key ! n) nd) ?v)"
      by (subst find_loop128.simps) (simp only: option.case res.case nd byte_at_pos [OF assms n] child_side128 [OF n] Let_def)
    show ?thesis
      using step_pos128 [OF n] n unfolding p if_P [OF n] step
      by (elim disjE conjE) (simp_all add: walk128_end)
  qed
qed simp

text \<open>Behind the last bit the search reads the byte behind the key, when a node is there.\<close>

lemma find128_rep:
  assumes rep: "radix_rep 128 t P V as" and key: "length key = 16"
  shows "if P (key_bits128 key) \<noteq> None then ngx_radix128tree_find t key = Some (Fault OutOfBounds)
    else \<exists>w. ngx_radix128tree_find t key = Some (Ok w) \<and> best_match V (key_bits128 key) 0 129 NGX_RADIX_NO_VALUE w"
proof -
  let ?k = "key_bits128 key"
  obtain w where w: "ngx_radix128tree_find t key = find_loop128 t key 16 0x80 (P ?k) w" "best_match V ?k 0 128 NGX_RADIX_NO_VALUE w"
    using radix_search.look_to_end [OF search128 [OF key] rep, of 128 NGX_RADIX_NO_VALUE]
    by (auto simp: ngx_radix128tree_find_def pos128_0 walk128_end)
  show ?thesis
  proof (cases "P ?k")
    case None
    then have "V (take 128 ?k) = NGX_RADIX_NO_VALUE" using repD(4) [OF rep None] by simp
    then have "best_match V ?k 0 129 NGX_RADIX_NO_VALUE w" using best_match_next [OF w(2)] by simp
    with None show ?thesis using w(1) by (simp add: find_loop128.simps)
  next
    case (Some a)
    have "byte_at key 16 = Fault OutOfBounds" using key by (simp add: byte_at_def)
    then have "find_loop128 t key 16 0x80 (P ?k) w = Some (Fault OutOfBounds)"
      unfolding Some using repD(6) [OF rep Some] by (subst find_loop128.simps) simp
    then show ?thesis using w(1) Some by simp
  qed
qed

section \<open>Creation\<close>

lemma unat_power_word:
  assumes "k < 32"
  shows "unat (2 ^ k :: 32 word) = 2 ^ k"
proof -
  have "(2 ^ k :: nat) < 2 ^ 32" using assms by (intro power_strict_increasing) auto
  then have "unat (of_nat (2 ^ k) :: 32 word) = 2 ^ k" by (subst unat_of_nat) simp
  then show ?thesis by simp
qed

lemma key_step:
  fixes key :: "32 word"
  assumes "2 ^ (31 - n) dvd unat key" and "n < 32" and "key + drop_bit n top_bit \<noteq> 0"
  shows "unat (key + drop_bit n top_bit) = unat key + 2 ^ (31 - n)"
proof -
  have inc: "unat (drop_bit n top_bit) = 2 ^ (31 - n)"
    using assms(2) by (simp add: drop_top_bit unat_power_word)
  have key: "unat key < 2 ^ 32" using unsigned_less [of key] by simp
  obtain j where j: "unat key = 2 ^ (31 - n) * j" using assms(1) by blast
  have top: "(2 ^ 32 :: nat) = 2 ^ (31 - n) * 2 ^ Suc n"
    using assms(2) by (simp flip: power_add)
  have "j < 2 ^ Suc n" using key unfolding j top by simp
  then have le: "unat key + 2 ^ (31 - n) \<le> 2 ^ 32"
    unfolding j top by (metis Suc_leI mult.commute mult_Suc mult_le_mono1 add.commute)
  moreover have "unat key + 2 ^ (31 - n) \<noteq> 2 ^ 32"
  proof
    assume "unat key + 2 ^ (31 - n) = 2 ^ 32"
    then have "unat (key + drop_bit n top_bit) = 0" by (simp add: unat_word_ariths inc)
    with assms(3) show False by (simp add: unat_eq_zero)
  qed
  ultimately show ?thesis by (simp add: unat_word_ariths inc)
qed

text \<open>A tree without values.\<close>

definition blank :: "radix_tree \<Rightarrow> bool" where
  "blank t \<longleftrightarrow> (\<exists>P as. radix_rep 32 t P (\<lambda>_. NGX_RADIX_NO_VALUE) as)"

lemma insert_blank:
  assumes "blank t"
  shows "\<exists>rc t'. ngx_radix32tree_insert mem t key msk NGX_RADIX_NO_VALUE = Ok (rc, t') \<and> blank t' \<and> (rc = NGX_OK \<or> (\<exists>a. \<not> mem a))"
proof -
  obtain P as where "radix_rep 32 t P (\<lambda>_. NGX_RADIX_NO_VALUE) as" using assms by (auto simp: blank_def)
  from r32.ins_rep [OF this, of mem key msk NGX_RADIX_NO_VALUE] show ?thesis
    by (auto simp: blank_def fun_upd_idem)
qed

definition built :: "bool \<Rightarrow> radix_tree option res option \<Rightarrow> bool" where
  "built full r \<longleftrightarrow> (case r of Some (Ok None) \<Rightarrow> full | Some (Ok (Some t)) \<Rightarrow> blank t | _ \<Rightarrow> False)"

lemma prealloc_level_built:
  assumes "blank t" and "n < 32 \<longrightarrow> 2 ^ (31 - n) dvd unat key" and "n < 32 \<or> key = 0"
  shows "built (\<exists>a. \<not> mem a) (prealloc_level mem t key msk (drop_bit n top_bit))"
  using assms
proof (induction "2 ^ 32 - unat key" arbitrary: key t rule: less_induct)
  case less
  let ?inc = "drop_bit n top_bit"
  obtain rc t1 where i: "ngx_radix32tree_insert mem t key msk NGX_RADIX_NO_VALUE = Ok (rc, t1)" "blank t1" "rc = NGX_OK \<or> (\<exists>a. \<not> mem a)"
    using insert_blank [OF less.prems(1), of mem key msk] by blast
  show ?case
  proof (cases "rc = NGX_OK \<and> key + ?inc \<noteq> 0")
    case False
    then show ?thesis using i by (subst prealloc_level.simps) (auto simp: built_def)
  next
    case True
    then have n: "n < 32" using less.prems(3) by (cases "n < 32") (auto simp: drop_top_bit)
    have step: "unat (key + ?inc) = unat key + 2 ^ (31 - n)"
      using key_step [of n key] less.prems(2) n True by blast
    then have "2 ^ 32 - unat (key + ?inc) < 2 ^ 32 - unat key"
      using unsigned_less [where ?'a = nat, of key] by (intro diff_less_mono2) simp_all
    moreover have "2 ^ (31 - n) dvd unat (key + ?inc)"
      using step less.prems(2) n by simp
    ultimately have "built (\<exists>a. \<not> mem a) (prealloc_level mem t1 (key + ?inc) msk ?inc)"
      using n by (intro less.hyps i(2)) auto
    then show ?thesis using i(1) True by (subst prealloc_level.simps) simp
  qed
qed

lemma prealloc_built:
  assumes "blank t"
  shows "built (\<exists>a. \<not> mem a) (prealloc k mem t msk (drop_bit n top_bit))"
  using assms
proof (induction k arbitrary: t msk n)
  case 0
  then show ?case by (simp add: built_def)
next
  case (Suc k)
  let ?m = "drop_bit 1 msk OR 0x80000000"
  have level: "built (\<exists>a. \<not> mem a) (prealloc_level mem t 0 ?m (drop_bit n top_bit))"
    using Suc.prems by (intro prealloc_level_built) auto
  show ?case
  proof (cases "\<exists>t1. prealloc_level mem t 0 ?m (drop_bit n top_bit) = Some (Ok (Some t1))")
    case True
    then obtain t1 where t1: "prealloc_level mem t 0 ?m (drop_bit n top_bit) = Some (Ok (Some t1))" by blast
    then have "blank t1" using level by (simp add: built_def)
    from Suc.IH [OF this, of ?m "Suc n"] t1 show ?thesis by (simp add: Let_def)
  next
    case False
    with level have "prealloc_level mem t 0 ?m (drop_bit n top_bit) = Some (Ok None)"
      by (auto simp: built_def split: option.splits res.splits)
    then show ?thesis using level by (simp add: Let_def built_def)
  qed
qed

lemma create_built: "built (\<not> palloc \<or> (\<exists>a. \<not> mem a)) (ngx_radix_tree_create palloc mem pre)"
proof -
  let ?nd = "\<lparr>rn_right = None, rn_left = None, rn_parent = None, rn_value = NGX_RADIX_NO_VALUE\<rparr>"
  have "blank ((put_node (t\<lparr>rx_start := Suc 0\<rparr>) 0 ?nd)\<lparr>rx_root := 0, rx_free := None\<rparr>)" for t
    unfolding blank_def
    by (intro exI [of _ "\<lambda>p. if p = [] then Some 0 else None"] exI [of _ "[]"])
       (auto simp: radix_rep_def put_node_def node_of_def intro!: paths_okI split: if_splits)
  from this [of "empty_radix\<lparr>rx_size := ngx_pagesize - radix_node_size\<rparr>"]
  have "blank ((put_node (empty_radix\<lparr>rx_start := Suc 0, rx_size := ngx_pagesize - radix_node_size\<rparr>) 0 ?nd)\<lparr>rx_root := 0\<rparr>)"
    by (simp add: empty_radix_def put_node_def)
  from prealloc_built [OF this, of mem "prealloc_bits pre" 0 0]
  have "built (\<not> palloc \<or> (\<exists>a. \<not> mem a)) (prealloc (prealloc_bits pre) mem
    ((put_node (empty_radix\<lparr>rx_start := Suc 0, rx_size := ngx_pagesize - radix_node_size\<rparr>) 0 ?nd)\<lparr>rx_root := 0\<rparr>) 0 top_bit)"
    by (auto simp: built_def split: option.splits res.splits)
  then show ?thesis
    by (cases "palloc \<and> mem 0")
       (auto simp: ngx_radix_tree_create_def ngx_radix_alloc_def empty_radix_def radix_node_size_def, auto simp: built_def)
qed

end
