(* ===== verification/Ngx_Radix_Map.thy ===== *)
theory Ngx_Radix_Map
  imports Ngx_Radix_Keys
begin

text \<open>
  The contract of the radix tree: it is a map from networks (prefixes of bits) to values, and a search gives the
  value of the longest prefix of the key.  The contract is a locale, whose client is any sequence of insertions
  and deletions; the interpretation discharges it for the nodes on the heap.
\<close>

section \<open>The contract\<close>

type_synonym net_map = "bool list \<Rightarrow> 64 word option"

datatype 'k net_op = Net_Insert 'k 'k "64 word" | Net_Delete 'k 'k

text \<open>What an operation may answer and do: \<open>bits\<close> are the bits of a key, and \<open>full\<close> says that memory can run out.\<close>

primrec net_step :: "('k \<Rightarrow> bool list) \<Rightarrow> bool \<Rightarrow> net_map \<Rightarrow> 'k net_op \<Rightarrow> int \<Rightarrow> net_map \<Rightarrow> bool" where
  "net_step bits full M (Net_Insert key msk v) rc M' \<longleftrightarrow>
    (let q = network (bits key) (bits msk)
     in if M q \<noteq> None then rc = NGX_BUSY \<and> M' = M
        else rc = NGX_OK \<and> M' = M(q \<mapsto> v) \<or> full \<and> rc = NGX_ERROR \<and> M' = M)"
| "net_step bits full M (Net_Delete key msk) rc M' \<longleftrightarrow>
    (let q = network (bits key) (bits msk)
     in M' = M(q := None) \<and> (rc = NGX_OK \<or> rc = NGX_ERROR \<and> M q = None))"

fun net_steps :: "('k \<Rightarrow> bool list) \<Rightarrow> bool \<Rightarrow> net_map \<Rightarrow> 'k net_op list \<Rightarrow> int list \<Rightarrow> net_map \<Rightarrow> bool" where
  "net_steps bits full M [] [] M' \<longleftrightarrow> M' = M"
| "net_steps bits full M (x # xs) (rc # rcs) M' \<longleftrightarrow> (\<exists>M1. net_step bits full M x rc M1 \<and> net_steps bits full M1 xs rcs M')"
| "net_steps bits full M _ _ M' \<longleftrightarrow> False"

text \<open>The operations the code may be given: a key of the right form, no reserved value, and no deletion of the whole
  address space.\<close>

primrec net_op_ok :: "('k \<Rightarrow> bool) \<Rightarrow> ('k \<Rightarrow> bool list) \<Rightarrow> 'k net_op \<Rightarrow> bool" where
  "net_op_ok ok bits (Net_Insert key msk v) \<longleftrightarrow> ok key \<and> ok msk \<and> v \<noteq> NGX_RADIX_NO_VALUE"
| "net_op_ok ok bits (Net_Delete key msk) \<longleftrightarrow> ok key \<and> ok msk \<and> network (bits key) (bits msk) \<noteq> []"

text \<open>\<open>w\<close> is the value of the longest network of a key in \<open>M\<close>, or the reserved value without one.\<close>

definition longest_match :: "net_map \<Rightarrow> bool list \<Rightarrow> 64 word \<Rightarrow> bool" where
  "longest_match M k w \<longleftrightarrow>
    (\<exists>m\<le>length k. M (take m k) = Some w \<and> (\<forall>i\<le>length k. m < i \<longrightarrow> M (take i k) = None))
    \<or> w = NGX_RADIX_NO_VALUE \<and> (\<forall>i\<le>length k. M (take i k) = None)"

fun net_run :: "('t \<Rightarrow> 'k net_op \<Rightarrow> (int \<times> 't) res option) \<Rightarrow> 't \<Rightarrow> 'k net_op list \<Rightarrow> (int list \<times> 't) res option" where
  "net_run ex t [] = Some (Ok ([], t))"
| "net_run ex t (x # xs) =
    (case ex t x of
       None \<Rightarrow> None
     | Some (Fault e) \<Rightarrow> Some (Fault e)
     | Some (Ok (rc, t1)) \<Rightarrow> map_option (\<lambda>r. bindR r (\<lambda>(rcs, t2). Ok (rc # rcs, t2))) (net_run ex t1 xs))"

locale prefix_map =
  fixes ok :: "'k \<Rightarrow> bool" and bits :: "'k \<Rightarrow> bool list" and abs :: "'t \<Rightarrow> net_map \<Rightarrow> bool"
    and ex :: "'t \<Rightarrow> 'k net_op \<Rightarrow> (int \<times> 't) res option" and look :: "'t \<Rightarrow> 'k \<Rightarrow> 64 word res option" and full :: bool
    and beyond :: "net_map \<Rightarrow> bool list \<Rightarrow> bool"
  assumes ex_step: "abs t M \<Longrightarrow> net_op_ok ok bits x
      \<Longrightarrow> \<exists>rc t' M'. ex t x = Some (Ok (rc, t')) \<and> net_step bits full M x rc M' \<and> abs t' M'"
    and look_longest: "abs t M \<Longrightarrow> ok key \<Longrightarrow> \<not> beyond M (bits key) \<Longrightarrow> \<exists>w. look t key = Some (Ok w) \<and> longest_match M (bits key) w"
    and look_beyond: "abs t M \<Longrightarrow> ok key \<Longrightarrow> beyond M (bits key) \<Longrightarrow> look t key = Some (Fault OutOfBounds)"
begin

lemma run_steps:
  "abs t M \<Longrightarrow> list_all (net_op_ok ok bits) xs
    \<Longrightarrow> \<exists>rcs t' M'. net_run ex t xs = Some (Ok (rcs, t')) \<and> net_steps bits full M xs rcs M' \<and> abs t' M'"
proof (induction xs arbitrary: t M)
  case Nil
  then show ?case by fastforce
next
  case (Cons x xs)
  then obtain rc t1 M1 where x: "ex t x = Some (Ok (rc, t1))" "net_step bits full M x rc M1" "abs t1 M1"
    using ex_step by fastforce
  then obtain rcs t' M' where "net_run ex t1 xs = Some (Ok (rcs, t'))" "net_steps bits full M1 xs rcs M'" "abs t' M'"
    using Cons.IH [of t1 M1] Cons.prems by fastforce
  with x show ?case by (intro exI [of _ "rc # rcs"] exI [of _ t'] exI [of _ M']) auto
qed

lemma run_look:
  assumes "abs t M" and "list_all (net_op_ok ok bits) xs"
  shows "\<exists>rcs t' M'. net_run ex t xs = Some (Ok (rcs, t')) \<and> net_steps bits full M xs rcs M'
    \<and> (\<forall>key. ok key \<longrightarrow> (if beyond M' (bits key) then look t' key = Some (Fault OutOfBounds)
         else \<exists>w. look t' key = Some (Ok w) \<and> longest_match M' (bits key) w))"
proof -
  obtain rcs t' M' where r: "net_run ex t xs = Some (Ok (rcs, t'))" "net_steps bits full M xs rcs M'" "abs t' M'"
    using run_steps [OF assms] by blast
  then show ?thesis
    using look_longest [OF r(3)] look_beyond [OF r(3)] by (intro exI [of _ rcs] exI [of _ t'] exI [of _ M']) simp
qed

end

section \<open>The tree implements it\<close>

definition map_of_values :: "path_values \<Rightarrow> net_map" where
  "map_of_values V = (\<lambda>p. if V p = NGX_RADIX_NO_VALUE then None else Some (V p))"

text \<open>The map of a tree of depth \<open>D\<close>, and with the invariant that every node of full depth has a value.\<close>

definition radix_abs :: "nat \<Rightarrow> radix_tree \<Rightarrow> net_map \<Rightarrow> bool" where
  "radix_abs D t M \<longleftrightarrow> (\<exists>P V as. radix_rep D t P V as \<and> M = map_of_values V)"

definition radix_deep :: "nat \<Rightarrow> radix_tree \<Rightarrow> net_map \<Rightarrow> bool" where
  "radix_deep D t M \<longleftrightarrow> (\<exists>P V as. radix_rep D t P V as \<and> deep D P V \<and> M = map_of_values V)"

lemma radix_absI: "radix_rep D t P V as \<Longrightarrow> radix_abs D t (map_of_values V)"
  by (auto simp: radix_abs_def)

lemma radix_deepI: "radix_rep D t P V as \<Longrightarrow> deep D P V \<Longrightarrow> radix_deep D t (map_of_values V)"
  by (auto simp: radix_deep_def)

primrec radix_op :: "(nat \<Rightarrow> bool) \<Rightarrow> radix_tree \<Rightarrow> 32 word net_op \<Rightarrow> (int \<times> radix_tree) res option" where
  "radix_op mem t (Net_Insert key msk v) = Some (ngx_radix32tree_insert mem t key msk v)"
| "radix_op mem t (Net_Delete key msk) = ngx_radix32tree_delete t key msk"

primrec radix_op128 :: "(nat \<Rightarrow> bool) \<Rightarrow> radix_tree \<Rightarrow> 8 word list net_op \<Rightarrow> (int \<times> radix_tree) res option" where
  "radix_op128 mem t (Net_Insert key msk v) = Some (ngx_radix128tree_insert mem t key msk v)"
| "radix_op128 mem t (Net_Delete key msk) = ngx_radix128tree_delete t key msk"

lemma map_of_values_upd:
  "map_of_values (V(p := v)) = (if v = NGX_RADIX_NO_VALUE then (map_of_values V)(p := None) else (map_of_values V)(p \<mapsto> v))"
  by (auto simp: map_of_values_def fun_eq_iff)

lemma map_of_values_None [simp]: "map_of_values V p = None \<longleftrightarrow> V p = NGX_RADIX_NO_VALUE"
  by (simp add: map_of_values_def)

lemma best_longest: "best_match V k 0 (Suc (length k)) NGX_RADIX_NO_VALUE w \<Longrightarrow> longest_match (map_of_values V) k w"
  unfolding best_match_def longest_match_def map_of_values_def by (auto simp: less_Suc_eq_le)

text \<open>An insertion or a deletion with the loops of \<open>radix_walk\<close> is a step of the contract.\<close>

context radix_walk
begin

lemma ins_step:
  assumes "radix_rep D t P V as" and "v \<noteq> NGX_RADIX_NO_VALUE" and "goal = network (bits key) (bits msk)"
  shows "\<exists>rc t' P' V' as'. ins mem t v = Ok (rc, t') \<and> radix_rep D t' P' V' as' \<and> (deep D P V \<longrightarrow> deep D P' V')
    \<and> net_step bits (\<exists>a. \<not> mem a) (map_of_values V) (Net_Insert key msk v) rc (map_of_values V')"
proof -
  obtain rc t' P' V' as' where i: "ins mem t v = Ok (rc, t')" "radix_rep D t' P' V' as'"
    and c: "rc = NGX_OK \<and> V goal = NGX_RADIX_NO_VALUE \<and> V' = V(goal := v)
     \<or> rc = NGX_BUSY \<and> V goal \<noteq> NGX_RADIX_NO_VALUE \<and> V' = V
     \<or> rc = NGX_ERROR \<and> (\<exists>a. \<not> mem a) \<and> V goal = NGX_RADIX_NO_VALUE \<and> V' = V"
    and d: "v \<noteq> NGX_RADIX_NO_VALUE \<longrightarrow> deep D P V \<longrightarrow> deep D P' V'"
    using ins_rep [OF assms(1), of mem v] by (elim exE conjE) (rule that)
  have "net_step bits (\<exists>a. \<not> mem a) (map_of_values V) (Net_Insert key msk v) rc (map_of_values V')"
    using c assms(2,3) by (auto simp: map_of_values_upd Let_def)
  with i d assms(2) show ?thesis by blast
qed

lemma del_step:
  assumes "radix_rep D t P V as" and "goal = network (bits key) (bits msk)" and "network (bits key) (bits msk) \<noteq> []"
  shows "\<exists>rc t' P' V' as'. del t = Some (Ok (rc, t')) \<and> radix_rep D t' P' V' as' \<and> (deep D P V \<longrightarrow> deep D P' V')
    \<and> net_step bits full (map_of_values V) (Net_Delete key msk) rc (map_of_values V')"
proof -
  obtain rc t' P' as' where i: "del t = Some (Ok (rc, t'))" "radix_rep D t' P' (V(goal := NGX_RADIX_NO_VALUE)) as'"
    and rc: "rc = NGX_OK \<or> rc = NGX_ERROR \<and> V goal = NGX_RADIX_NO_VALUE"
    and d: "deep D P V \<longrightarrow> deep D P' (V(goal := NGX_RADIX_NO_VALUE))"
    using del_rep [OF assms(1)] assms(2,3) by (auto simp only: simp_thms)
  have "net_step bits full (map_of_values V) (Net_Delete key msk) rc (map_of_values (V(goal := NGX_RADIX_NO_VALUE)))"
    using rc assms(2) by (auto simp: map_of_values_upd Let_def)
  with i d show ?thesis by blast
qed

end

interpretation radix: prefix_map "\<lambda>_. True" key_bits "radix_abs 32" "radix_op mem" ngx_radix32tree_find "\<exists>a. \<not> mem a" "\<lambda>_ _. False"
  for mem :: "nat \<Rightarrow> bool"
proof
  show "\<exists>rc t' M'. radix_op mem t x = Some (Ok (rc, t')) \<and> net_step key_bits (\<exists>a. \<not> mem a) M x rc M' \<and> radix_abs 32 t' M'"
    if abs: "radix_abs 32 t M" and x: "net_op_ok (\<lambda>_. True) key_bits x" for t M x
  proof -
    obtain P V as where rep: "radix_rep 32 t P V as" and M: "M = map_of_values V" using abs by (auto simp: radix_abs_def)
    show ?thesis
    proof (cases x)
      case (Net_Insert key msk v)
      then show ?thesis
        using r32.ins_step [OF rep, of v msk key key_bits key msk mem] x by (fastforce simp: M network_def simp del: net_step.simps intro: radix_absI)
    next
      case (Net_Delete key msk)
      then show ?thesis
        using r32.del_step [OF rep, of msk key key_bits key msk "\<exists>a. \<not> mem a"] x by (fastforce simp: M network_def simp del: net_step.simps intro: radix_absI)
    qed
  qed
  show "\<exists>w. ngx_radix32tree_find t key = Some (Ok w) \<and> longest_match M (key_bits key) w" if abs: "radix_abs 32 t M" for t M key
  proof -
    obtain P V as where rep: "radix_rep 32 t P V as" and M: "M = map_of_values V" using abs by (auto simp: radix_abs_def)
    show ?thesis using find_rep [OF rep, of key] best_longest [of V "key_bits key"] by (auto simp: M)
  qed
qed simp

text \<open>With 128-bit keys a search reads past the key exactly when the map has the address itself as a network.\<close>

abbreviation host_route :: "net_map \<Rightarrow> bool list \<Rightarrow> bool" where
  "host_route M k \<equiv> M k \<noteq> None"

interpretation radix128: prefix_map "\<lambda>key. length key = 16" key_bits128 "radix_deep 128" "radix_op128 mem" ngx_radix128tree_find
  "\<exists>a. \<not> mem a" host_route for mem :: "nat \<Rightarrow> bool"
proof
  show "\<exists>rc t' M'. radix_op128 mem t x = Some (Ok (rc, t')) \<and> net_step key_bits128 (\<exists>a. \<not> mem a) M x rc M' \<and> radix_deep 128 t' M'"
    if abs: "radix_deep 128 t M" and x: "net_op_ok (\<lambda>key. length key = 16) key_bits128 x" for t M x
  proof -
    obtain P V as where rep: "radix_rep 128 t P V as" and M: "M = map_of_values V" and d: "deep 128 P V"
      using abs by (auto simp: radix_deep_def)
    show ?thesis
    proof (cases x)
      case (Net_Insert key msk v)
      then show ?thesis
        using radix_walk.ins_step [OF walk128 rep, of key msk v key_bits128 key msk mem] x d
        by (fastforce simp: M network_def simp del: net_step.simps intro: radix_deepI)
    next
      case (Net_Delete key msk)
      then show ?thesis
        using radix_walk.del_step [OF walk128 rep, of key msk key_bits128 key msk "\<exists>a. \<not> mem a"] x d
        by (fastforce simp: M network_def simp del: net_step.simps intro: radix_deepI)
    qed
  qed
  have search: "if M (key_bits128 key) \<noteq> None then ngx_radix128tree_find t key = Some (Fault OutOfBounds)
      else \<exists>w. ngx_radix128tree_find t key = Some (Ok w) \<and> longest_match M (key_bits128 key) w"
    if abs: "radix_deep 128 t M" and len: "length key = 16" for t M key
  proof -
    obtain P V as where rep: "radix_rep 128 t P V as" and M: "M = map_of_values V" and d: "deep 128 P V"
      using abs by (auto simp: radix_deep_def)
    have "P (key_bits128 key) \<noteq> None \<longleftrightarrow> M (key_bits128 key) \<noteq> None"
      using d repD(4) [OF rep, of "key_bits128 key"] by (auto simp: deep_def M)
    then show ?thesis
      using find128_rep [OF rep len] best_longest [of V "key_bits128 key"] by (auto simp: M split: if_splits)
  qed
  show "\<exists>w. ngx_radix128tree_find t key = Some (Ok w) \<and> longest_match M (key_bits128 key) w"
    if "radix_deep 128 t M" "length key = 16" "\<not> host_route M (key_bits128 key)" for t M key
    using search [OF that(1,2)] that(3) by simp
  show "ngx_radix128tree_find t key = Some (Fault OutOfBounds)"
    if "radix_deep 128 t M" "length key = 16" "host_route M (key_bits128 key)" for t M key
    using search [OF that(1,2)] that(3) by simp
qed

lemma blank_abs: "blank t \<Longrightarrow> radix_abs 32 t Map.empty"
  unfolding blank_def radix_abs_def map_of_values_def by fastforce

lemma blank_deep:
  assumes "blank t"
  shows "radix_deep 128 t Map.empty"
proof -
  obtain P as where rep: "radix_rep 32 t P (\<lambda>_. NGX_RADIX_NO_VALUE) as" using assms by (auto simp: blank_def)
  then have "radix_rep 128 t P (\<lambda>_. NGX_RADIX_NO_VALUE) as" by (rule rep_mono) simp
  moreover have "deep 128 P (\<lambda>_. NGX_RADIX_NO_VALUE)"
    using repD(5) [OF rep] by (fastforce simp: deep_def)
  ultimately show ?thesis by (fastforce simp: radix_deep_def map_of_values_def)
qed

lemma create_cases:
  obtains r where "ngx_radix_tree_create palloc mem preallocate = Some (Ok r)" and "\<forall>t. r = Some t \<longrightarrow> blank t"
    and "r = None \<longrightarrow> \<not> palloc \<or> (\<exists>a. \<not> mem a)"
  using create_built [of palloc mem preallocate] by (auto simp: built_def split: option.splits res.splits)

text \<open>C39: A tree made by \<open>ngx_radix_tree_create\<close>, with any number of preallocated levels, is the empty map from networks,
  and creation always ends and fails only without memory.  After any sequence of insertions and deletions of 32-bit
  networks (no reserved value, not the whole address space) every operation has ended and answered as on a map: an
  insertion adds the value, answers busy when the network has one, and fails only when memory can run out; a deletion
  leaves the network without a value.  A search then ends with the value of the longest network of the key.\<close>

theorem radix_tree_is_prefix_map:
  assumes "-1 \<le> preallocate"
  shows "\<exists>r. ngx_radix_tree_create palloc mem preallocate = Some (Ok r)
    \<and> (r = None \<longrightarrow> \<not> palloc \<or> (\<exists>a. \<not> mem a))
    \<and> (\<forall>t xs. r = Some t \<longrightarrow> list_all (net_op_ok (\<lambda>_. True) key_bits) xs \<longrightarrow>
        (\<exists>rcs t' M. net_run (radix_op mem) t xs = Some (Ok (rcs, t')) \<and> net_steps key_bits (\<exists>a. \<not> mem a) Map.empty xs rcs M
          \<and> (\<forall>key. \<exists>w. ngx_radix32tree_find t' key = Some (Ok w) \<and> longest_match M (key_bits key) w)))"
proof (rule create_cases [of palloc mem preallocate])
  fix r assume "ngx_radix_tree_create palloc mem preallocate = Some (Ok r)" "\<forall>t. r = Some t \<longrightarrow> blank t"
    "r = None \<longrightarrow> \<not> palloc \<or> (\<exists>a. \<not> mem a)"
  then show ?thesis
    using radix.run_look [OF blank_abs] by (intro exI [of _ r]) auto
qed

lemma example_network: "take 8 (key_bits 0x0A010203) = network (key_bits 0x0A000000) (key_bits 0xFF000000)"
  by code_simp

theorem radix_tree_is_prefix_map_witness:
  "-1 \<le> (6 :: int) \<and> list_all (net_op_ok (\<lambda>_. True) key_bits) [Net_Insert 0x0A000000 0xFF000000 7]
    \<and> (\<exists>t t'. ngx_radix_tree_create True (\<lambda>_. True) 6 = Some (Ok (Some t))
      \<and> net_run (radix_op (\<lambda>_. True)) t [Net_Insert 0x0A000000 0xFF000000 7] = Some (Ok ([NGX_OK], t'))
      \<and> ngx_radix32tree_find t' 0x0A010203 = Some (Ok 7))"
proof -
  let ?xs = "[Net_Insert 0x0A000000 0xFF000000 7] :: 32 word net_op list"
  have ok: "list_all (net_op_ok (\<lambda>_. True) key_bits) ?xs" by (simp add: NGX_RADIX_NO_VALUE_def)
  obtain t where t: "ngx_radix_tree_create True (\<lambda>_. True) 6 = Some (Ok (Some t))"
    and run: "\<exists>rcs t' M. net_run (radix_op (\<lambda>_. True)) t ?xs = Some (Ok (rcs, t')) \<and> net_steps key_bits False Map.empty ?xs rcs M
          \<and> (\<forall>key. \<exists>w. ngx_radix32tree_find t' key = Some (Ok w) \<and> longest_match M (key_bits key) w)"
    using radix_tree_is_prefix_map [of 6 True "\<lambda>_. True"] ok by fastforce
  then obtain rcs t' M where r: "net_run (radix_op (\<lambda>_. True)) t ?xs = Some (Ok (rcs, t'))" "net_steps key_bits False Map.empty ?xs rcs M"
    "\<forall>key. \<exists>w. ngx_radix32tree_find t' key = Some (Ok w) \<and> longest_match M (key_bits key) w"
    by blast
  from r(2) have M: "rcs = [NGX_OK]" "M = [network (key_bits 0x0A000000) (key_bits 0xFF000000) \<mapsto> 7]"
    by (cases rcs; cases "tl rcs"; simp)+
  obtain w where w: "ngx_radix32tree_find t' 0x0A010203 = Some (Ok w)" "longest_match M (key_bits 0x0A010203) w" using r(3) by blast
  have "\<not> (\<forall>i\<le>32. M (take i (key_bits 0x0A010203)) = None)"
  proof
    assume "\<forall>i\<le>32. M (take i (key_bits 0x0A010203)) = None"
    from this [rule_format, of 8] show False by (simp add: M example_network)
  qed
  then have "w = 7" using w(2) by (auto simp: longest_match_def M split: if_splits)
  with t r(1) M(1) w(1) ok show ?thesis by auto
qed

text \<open>C40: The same for networks of 128-bit keys, arrays of 16 bytes, except for the search: it gives the value of the
  longest network, unless the map has the address itself as a network of 128 bits.  Then, and only then, the search reads
  the byte behind the key.\<close>

theorem radix128_tree_is_prefix_map:
  assumes "-1 \<le> preallocate" and "ngx_radix_tree_create palloc mem preallocate = Some (Ok (Some t))"
    and "list_all (net_op_ok (\<lambda>key. length key = 16) key_bits128) xs"
  shows "\<exists>rcs t' M. net_run (radix_op128 mem) t xs = Some (Ok (rcs, t')) \<and> net_steps key_bits128 (\<exists>a. \<not> mem a) Map.empty xs rcs M
    \<and> (\<forall>key. length key = 16 \<longrightarrow>
        (if M (key_bits128 key) \<noteq> None then ngx_radix128tree_find t' key = Some (Fault OutOfBounds)
         else \<exists>w. ngx_radix128tree_find t' key = Some (Ok w) \<and> longest_match M (key_bits128 key) w))"
proof (rule create_cases [of palloc mem preallocate])
  fix r assume "ngx_radix_tree_create palloc mem preallocate = Some (Ok r)" "\<forall>t. r = Some t \<longrightarrow> blank t"
  then have "blank t" using assms(2) by simp
  then show ?thesis by (rule radix128.run_look [OF blank_deep assms(3)])
qed

lemma example_network128:
  "take 8 (key_bits128 (0x20 # replicate 15 1)) = network (key_bits128 (0x20 # replicate 15 0)) (key_bits128 (0xFF # replicate 15 0))"
  by code_simp

theorem radix128_tree_is_prefix_map_witness:
  "\<exists>t t' x. x = Net_Insert (0x20 # replicate 15 0) (0xFF # replicate 15 0) 7
    \<and> -1 \<le> (6 :: int) \<and> ngx_radix_tree_create True (\<lambda>_. True) 6 = Some (Ok (Some t))
    \<and> list_all (net_op_ok (\<lambda>key. length key = 16) key_bits128) [x]
    \<and> net_run (radix_op128 (\<lambda>_. True)) t [x] = Some (Ok ([NGX_OK], t'))
    \<and> ngx_radix128tree_find t' (0x20 # replicate 15 1) = Some (Ok 7)"
proof -
  let ?key = "0x20 # replicate 15 1 :: 8 word list"
  let ?x = "Net_Insert (0x20 # replicate 15 0) (0xFF # replicate 15 0) 7 :: 8 word list net_op"
  let ?q = "network (key_bits128 (0x20 # replicate 15 0)) (key_bits128 (0xFF # replicate 15 0))"
  have ok: "list_all (net_op_ok (\<lambda>key. length key = 16) key_bits128) [?x]" by (simp add: NGX_RADIX_NO_VALUE_def)
  obtain t where t: "ngx_radix_tree_create True (\<lambda>_. True) 6 = Some (Ok (Some t))"
    by (rule create_cases [of True "\<lambda>_. True" 6]) auto
  obtain rcs t' M where r: "net_run (radix_op128 (\<lambda>_. True)) t [?x] = Some (Ok (rcs, t'))" "net_steps key_bits128 False Map.empty [?x] rcs M"
    and look: "length ?key = 16 \<longrightarrow> (if M (key_bits128 ?key) \<noteq> None then ngx_radix128tree_find t' ?key = Some (Fault OutOfBounds)
         else \<exists>w. ngx_radix128tree_find t' ?key = Some (Ok w) \<and> longest_match M (key_bits128 ?key) w)"
    using radix128_tree_is_prefix_map [OF _ t ok] by fastforce
  from r(2) have M: "rcs = [NGX_OK]" "M = [?q \<mapsto> 7]"
    by (cases rcs; cases "tl rcs"; simp)+
  have q: "length ?q = 8" unfolding example_network128 [symmetric] by simp
  have "key_bits128 ?key \<noteq> ?q"
  proof
    assume "key_bits128 ?key = ?q"
    from arg_cong [OF this, of length] q show False by simp
  qed
  then obtain w where w: "ngx_radix128tree_find t' ?key = Some (Ok w)" "longest_match M (key_bits128 ?key) w"
    using look by (auto simp: M)
  have "\<not> (\<forall>i\<le>128. M (take i (key_bits128 ?key)) = None)"
  proof
    assume "\<forall>i\<le>128. M (take i (key_bits128 ?key)) = None"
    from this [rule_format, of 8] show False unfolding example_network128 by (simp add: M)
  qed
  then have "w = 7" using w(2) by (auto simp: longest_match_def M split: if_splits)
  with t r(1) M(1) w(1) ok show ?thesis by auto
qed

end
