(* ===== verification/Stream_RR.thy ===== *)
theory Stream_RR
  imports Ngx_Prelude
begin

unbundle bit_operations_syntax

text \<open>
  The smooth weighted round robin balancer of the stream module,
  \<^verbatim>\<open>src/stream/ngx_stream_upstream_round_robin.c\<close>, and its user in
  \<^verbatim>\<open>src/stream/ngx_stream_proxy_module.c\<close>.  The HTTP balancer of this repository replaced the same
  algorithm (theories \<open>LB_\<dots>\<close>).

  The groups of an upstream are a list, the primary servers first; \<^verbatim>\<open>peers->next\<close> of a group is the
  next element.  A pointer to a peer is the number of its group and its position there.  A bitmap
  \<^verbatim>\<open>tried\<close> is a list of 64-bit words, and an access past its end is the fault \<open>OutOfBounds\<close>.
  The locks do not appear: every operation is one critical section.
\<close>

section \<open>Data\<close>

record stream_peer =
  sp_sockaddr :: "u_char list"
  sp_name :: string
  sp_server :: string
  sp_current_weight :: ngx_int_t
  sp_effective_weight :: ngx_int_t
  sp_weight :: ngx_int_t
  sp_conns :: ngx_uint_t
  sp_max_conns :: ngx_uint_t
  sp_fails :: ngx_uint_t
  sp_accessed :: time_t
  sp_checked :: time_t
  sp_max_fails :: ngx_uint_t
  sp_fail_timeout :: time_t
  sp_down :: bool

record stream_peers =
  sps_number :: ngx_uint_t
  sps_total_weight :: ngx_uint_t
  sps_tries :: ngx_uint_t
  sps_single :: bool
  sps_weighted :: bool
  sps_name :: string
  sps_peer :: "stream_peer list"

text \<open>\<^verbatim>\<open>ngx_stream_upstream_rr_peer_data_t\<close> and the fields of \<^verbatim>\<open>ngx_peer_connection_t\<close> the balancer uses.\<close>

record stream_rrp =
  srp_peers :: nat
  srp_current :: "(nat \<times> nat) option"
  srp_tried :: "64 word list"

record stream_pc =
  spc_sockaddr :: "u_char list option"
  spc_name :: string
  spc_tries :: ngx_uint_t

abbreviation upd_peers :: "stream_peers list \<Rightarrow> nat \<Rightarrow> stream_peer list \<Rightarrow> stream_peers list" where
  "upd_peers us g ps \<equiv> us[g := (us ! g)\<lparr>sps_peer := ps\<rparr>]"

section \<open>Configuration\<close>

record stream_server =
  ss_name :: string
  ss_addrs :: "(u_char list \<times> string) list"
  ss_weight :: ngx_uint_t
  ss_max_conns :: ngx_uint_t
  ss_max_fails :: ngx_uint_t
  ss_fail_timeout :: time_t
  ss_down :: bool
  ss_backup :: bool

record stream_srv_conf =
  sc_servers :: "stream_server list option"
  sc_host :: string
  sc_port :: int

text \<open>The counting loop over the servers of one group: addresses, weight and tries.\<close>

fun count_stream :: "bool \<Rightarrow> stream_server list \<Rightarrow> ngx_uint_t \<times> ngx_uint_t \<times> ngx_uint_t \<Rightarrow> ngx_uint_t \<times> ngx_uint_t \<times> ngx_uint_t" where
  "count_stream b [] nwt = nwt"
| "count_stream b (s # ss) (n, w, t) =
    (if ss_backup s \<noteq> b then count_stream b ss (n, w, t)
     else let k = of_nat (length (ss_addrs s))
          in count_stream b ss (n + k, w + k * ss_weight s, if ss_down s then t else t + k))"

definition new_stream_peer :: "stream_server \<Rightarrow> u_char list \<times> string \<Rightarrow> stream_peer" where
  "new_stream_peer s a =
    \<lparr>sp_sockaddr = fst a, sp_name = snd a, sp_server = ss_name s, sp_current_weight = 0,
     sp_effective_weight = sint (ss_weight s), sp_weight = sint (ss_weight s), sp_conns = 0,
     sp_max_conns = ss_max_conns s, sp_fails = 0, sp_accessed = 0, sp_checked = 0,
     sp_max_fails = ss_max_fails s, sp_fail_timeout = ss_fail_timeout s, sp_down = ss_down s\<rparr>"

definition default_stream_peer :: "u_char list \<times> string \<Rightarrow> stream_peer" where
  "default_stream_peer a =
    \<lparr>sp_sockaddr = fst a, sp_name = snd a, sp_server = [], sp_current_weight = 0,
     sp_effective_weight = 1, sp_weight = 1, sp_conns = 0, sp_max_conns = 0, sp_fails = 0,
     sp_accessed = 0, sp_checked = 0, sp_max_fails = 1, sp_fail_timeout = 10, sp_down = False\<rparr>"

text \<open>The peers of a group, in configuration order.\<close>

definition stream_group :: "bool \<Rightarrow> stream_server list \<Rightarrow> stream_peer list" where
  "stream_group b ss = concat (map (\<lambda>s. map (new_stream_peer s) (ss_addrs s)) (filter (\<lambda>s. ss_backup s = b) ss))"

definition new_stream_peers :: "string \<Rightarrow> ngx_uint_t \<times> ngx_uint_t \<times> ngx_uint_t \<Rightarrow> stream_peer list \<Rightarrow> stream_peers" where
  "new_stream_peers h nwt ps = (case nwt of (n, w, t) \<Rightarrow>
    \<lparr>sps_number = n, sps_total_weight = w, sps_tries = t, sps_single = (n = 1), sps_weighted = (w \<noteq> n),
     sps_name = h, sps_peer = ps\<rparr>)"

text \<open>
  The return code and the groups; \<open>pal k\<close> says whether the \<open>k\<close>-th \<^verbatim>\<open>ngx_pcalloc\<close> succeeds, and
  \<open>resolve\<close> is \<^verbatim>\<open>ngx_inet_resolve_host\<close> (the system resolver).
\<close>

definition ngx_stream_upstream_init_round_robin ::
  "(nat \<Rightarrow> bool) \<Rightarrow> (string \<Rightarrow> int \<Rightarrow> (u_char list \<times> string) list option) \<Rightarrow> stream_srv_conf \<Rightarrow> int \<times> stream_peers list" where
  "ngx_stream_upstream_init_round_robin pal resolve us =
    (case sc_servers us of
       Some ss \<Rightarrow>
         (let nwt = count_stream False ss (0, 0, 0); ps = new_stream_peers (sc_host us) nwt (stream_group False ss);
              bwt = count_stream True ss (0, 0, 0); bs = new_stream_peers (sc_host us) bwt (stream_group True ss)
          in if fst nwt = 0 \<or> \<not> pal 0 \<or> \<not> pal 1 then (NGX_ERROR, [])
             else if fst bwt = 0 then (NGX_OK, [ps])
             else if \<not> pal 2 \<or> \<not> pal 3 then (NGX_ERROR, [ps])
             else (NGX_OK, [ps\<lparr>sps_single := False\<rparr>, bs\<lparr>sps_single := False\<rparr>]))
     | None \<Rightarrow>
         if sc_port us = 0 then (NGX_ERROR, [])
         else (case resolve (sc_host us) (sc_port us) of
             None \<Rightarrow> (NGX_ERROR, [])
           | Some as \<Rightarrow>
               if \<not> pal 0 \<or> \<not> pal 1 then (NGX_ERROR, [])
               else let n = of_nat (length as)
                    in (NGX_OK, [new_stream_peers (sc_host us) (n, n, n) (map default_stream_peer as)])))"

section \<open>A session\<close>

definition ngx_stream_upstream_tries :: "stream_peers list \<Rightarrow> ngx_uint_t" where
  "ngx_stream_upstream_tries us =
    (case us of [] \<Rightarrow> 0 | [p] \<Rightarrow> sps_tries p | p # b # _ \<Rightarrow> sps_tries p + sps_tries b)"

definition stream_tried_words :: "ngx_uint_t \<Rightarrow> nat" where
  "stream_tried_words n = unat ((n + 63) div 64)"

text \<open>\<open>Inl\<close> is \<^verbatim>\<open>NGX_ERROR\<close>; \<open>have\<close> says that the session already has a peer data record.\<close>

definition ngx_stream_upstream_init_round_robin_peer ::
  "bool \<Rightarrow> bool \<Rightarrow> bool \<Rightarrow> stream_peers list \<Rightarrow> stream_pc \<Rightarrow> (int + stream_rrp \<times> stream_pc) res" where
  "ngx_stream_upstream_init_round_robin_peer exists_rrp palloc pcalloc us pc =
    (case us of
       [] \<Rightarrow> Fault NullDeref
     | p # ps \<Rightarrow>
         if \<not> exists_rrp \<and> \<not> palloc then Ok (Inl NGX_ERROR)
         else let n = (case ps of b # _ \<Rightarrow> if sps_number b > sps_number p then sps_number b else sps_number p
                                | [] \<Rightarrow> sps_number p)
              in if n > 64 \<and> \<not> pcalloc then Ok (Inl NGX_ERROR)
                 else Ok (Inr (\<lparr>srp_peers = 0, srp_current = None,
                                srp_tried = (if n \<le> 64 then [0] else replicate (stream_tried_words n) 0)\<rparr>,
                               pc\<lparr>spc_tries := ngx_stream_upstream_tries us\<rparr>)))"

section \<open>Selection\<close>

text \<open>The tests that make the loop skip a peer, \<^verbatim>\<open>tried\<close> apart.\<close>

definition stream_usable :: "time_t \<Rightarrow> stream_peer \<Rightarrow> bool" where
  "stream_usable now p \<longleftrightarrow>
    \<not> sp_down p
    \<and> \<not> (sp_max_fails p \<noteq> 0 \<and> sp_fails p \<ge> sp_max_fails p \<and> now - sp_checked p \<le> sp_fail_timeout p)
    \<and> \<not> (sp_max_conns p \<noteq> 0 \<and> sp_conns p \<ge> sp_max_conns p)"

definition stream_tried_bit :: "64 word list \<Rightarrow> nat \<Rightarrow> bool res" where
  "stream_tried_bit tried i =
    (if i div 64 < length tried then Ok (tried ! (i div 64) AND push_bit (i mod 64) 1 \<noteq> 0)
     else Fault OutOfBounds)"

definition set_tried :: "64 word list \<Rightarrow> nat \<Rightarrow> 64 word list" where
  "set_tried tried i = tried[i div 64 := tried ! (i div 64) OR push_bit (i mod 64) 1]"

definition clear_stream_tried :: "ngx_uint_t \<Rightarrow> 64 word list \<Rightarrow> 64 word list res" where
  "clear_stream_tried n tried =
    (if stream_tried_words n \<le> length tried then Ok (replicate (stream_tried_words n) 0 @ drop (stream_tried_words n) tried)
     else Fault OutOfBounds)"

definition add_weight :: "stream_peer \<Rightarrow> stream_peer" where
  "add_weight p = p\<lparr>sp_current_weight := sp_current_weight p + sp_effective_weight p,
     sp_effective_weight := (if sp_effective_weight p < sp_weight p then sp_effective_weight p + 1 else sp_effective_weight p)\<rparr>"

definition heavier :: "stream_peer list \<Rightarrow> nat option \<Rightarrow> nat \<Rightarrow> nat option" where
  "heavier ps best i =
    (case best of
       None \<Rightarrow> Some i
     | Some b \<Rightarrow> if sp_current_weight (ps ! i) > sp_current_weight (ps ! b) then Some i else best)"

text \<open>
  The loop over the positions \<open>is\<close>; \<open>ok ps best i\<close> says that the peer at \<open>i\<close> is not skipped.  The state is
  the peers, \<^verbatim>\<open>best\<close> and \<^verbatim>\<open>total\<close>.
\<close>

fun weight_loop ::
  "(stream_peer list \<Rightarrow> nat option \<Rightarrow> nat \<Rightarrow> bool) \<Rightarrow> 64 word list \<Rightarrow> nat list \<Rightarrow> stream_peer list \<Rightarrow> nat option \<Rightarrow> int
    \<Rightarrow> (stream_peer list \<times> nat option \<times> int) res" where
  "weight_loop ok tried [] ps best tot = Ok (ps, best, tot)"
| "weight_loop ok tried (i # is) ps best tot =
    bindR (stream_tried_bit tried i) (\<lambda>t.
      if t \<or> \<not> ok ps best i then weight_loop ok tried is ps best tot
      else let ps' = ps[i := add_weight (ps ! i)]
           in weight_loop ok tried is ps' (heavier ps' best i) (tot + sp_effective_weight (ps ! i)))"

definition rr_ok :: "time_t \<Rightarrow> stream_peer list \<Rightarrow> nat option \<Rightarrow> nat \<Rightarrow> bool" where
  "rr_ok now ps best i = stream_usable now (ps ! i)"

text \<open>What happens to the peer that was chosen.\<close>

definition take_weight :: "time_t \<Rightarrow> int \<Rightarrow> stream_peer \<Rightarrow> stream_peer" where
  "take_weight now tot p = p\<lparr>sp_current_weight := sp_current_weight p - tot,
     sp_checked := (if now - sp_checked p > sp_fail_timeout p then now else sp_checked p)\<rparr>"

definition ngx_stream_upstream_get_peer ::
  "time_t \<Rightarrow> stream_rrp \<Rightarrow> stream_peer list \<Rightarrow> (nat option \<times> stream_rrp \<times> stream_peer list) res" where
  "ngx_stream_upstream_get_peer now rrp ps0 =
    bindR (weight_loop (rr_ok now) (srp_tried rrp) [0..<length ps0] ps0 None 0) (\<lambda>(ps, best, tot).
      case best of
        None \<Rightarrow> Ok (None, rrp, ps)
      | Some b \<Rightarrow>
          Ok (Some b, rrp\<lparr>srp_current := Some (srp_peers rrp, b), srp_tried := set_tried (srp_tried rrp) b\<rparr>,
              ps[b := take_weight now tot (ps ! b)]))"

definition single_peer :: "stream_rrp \<Rightarrow> stream_peer list \<Rightarrow> (nat option \<times> stream_rrp \<times> stream_peer list) res" where
  "single_peer rrp ps =
    (case ps of
       [] \<Rightarrow> Fault NullDeref
     | p # _ \<Rightarrow>
         if sp_down p \<or> sp_max_conns p \<noteq> 0 \<and> sp_conns p \<ge> sp_max_conns p then Ok (None, rrp, ps)
         else Ok (Some 0, rrp\<lparr>srp_current := Some (srp_peers rrp, 0)\<rparr>, ps))"

definition add_conn :: "stream_peer \<Rightarrow> stream_peer" where
  "add_conn p = p\<lparr>sp_conns := sp_conns p + 1\<rparr>"

text \<open>The choice in one group; \<open>sel\<close> is the loop over several peers, which the least-connections balancer
  replaces, and \<open>pick\<close> below the whole choice.\<close>

definition in_group ::
  "(stream_rrp \<Rightarrow> stream_peer list \<Rightarrow> (nat option \<times> stream_rrp \<times> stream_peer list) res)
    \<Rightarrow> stream_peers \<Rightarrow> stream_rrp \<Rightarrow> (nat option \<times> stream_rrp \<times> stream_peer list) res" where
  "in_group sel grp rrp = (if sps_single grp then single_peer rrp (sps_peer grp) else sel rrp (sps_peer grp))"

function get_from_groups ::
  "(stream_peers \<Rightarrow> stream_rrp \<Rightarrow> (nat option \<times> stream_rrp \<times> stream_peer list) res) \<Rightarrow> stream_peers list \<Rightarrow> stream_rrp \<Rightarrow> stream_pc
    \<Rightarrow> (int \<times> stream_peers list \<times> stream_rrp \<times> stream_pc) res" where
  "get_from_groups pick us rrp pc =
    (let g = srp_peers rrp in
     if length us \<le> g then Fault NullDeref
     else bindR (pick (us ! g) rrp) (\<lambda>(best, rrp1, ps).
       case best of
         Some b \<Rightarrow>
           Ok (NGX_OK, upd_peers us g (ps[b := add_conn (ps ! b)]), rrp1,
               pc\<lparr>spc_sockaddr := Some (sp_sockaddr (ps ! b)), spc_name := sp_name (ps ! b)\<rparr>)
       | None \<Rightarrow>
           if Suc g < length us then
             bindR (clear_stream_tried (sps_number (us ! Suc g)) (srp_tried rrp1)) (\<lambda>t.
             bindR (get_from_groups pick (upd_peers us g ps) (rrp1\<lparr>srp_peers := Suc g, srp_tried := t\<rparr>) pc) (\<lambda>(rc, us2, rrp2, pc2).
               if rc \<noteq> NGX_BUSY then Ok (rc, us2, rrp2, pc2)
               else Ok (NGX_BUSY, us2, rrp2, pc2\<lparr>spc_name := sps_name (us ! g)\<rparr>)))
           else Ok (NGX_BUSY, upd_peers us g ps, rrp1, pc\<lparr>spc_name := sps_name (us ! g)\<rparr>)))"
  by pat_completeness auto
termination
  by (relation "measure (\<lambda>(pick, us, rrp, pc). length us - srp_peers rrp)") auto

declare get_from_groups.simps [simp del]

definition ngx_stream_upstream_get_round_robin_peer ::
  "time_t \<Rightarrow> stream_peers list \<Rightarrow> stream_rrp \<Rightarrow> stream_pc \<Rightarrow> (int \<times> stream_peers list \<times> stream_rrp \<times> stream_pc) res" where
  "ngx_stream_upstream_get_round_robin_peer now us rrp pc = get_from_groups (in_group (ngx_stream_upstream_get_peer now)) us rrp pc"

section \<open>Release\<close>

text \<open>\<^verbatim>\<open>peer->effective_weight -= peer->weight / peer->max_fails\<close> is computed with unsigned operands.\<close>

definition stream_failed :: "time_t \<Rightarrow> stream_peer \<Rightarrow> stream_peer" where
  "stream_failed now p =
    (let ew = (if sp_max_fails p \<noteq> 0
               then sint ((of_int (sp_effective_weight p) :: ngx_uint_t) - of_int (sp_weight p) div sp_max_fails p)
               else sp_effective_weight p)
     in p\<lparr>sp_fails := sp_fails p + 1, sp_accessed := now, sp_checked := now,
          sp_effective_weight := (if ew < 0 then 0 else ew)\<rparr>)"

definition mark_live :: "stream_peer \<Rightarrow> stream_peer" where
  "mark_live p = (if sp_accessed p < sp_checked p then p\<lparr>sp_fails := 0\<rparr> else p)"

definition drop_conn :: "stream_peer \<Rightarrow> stream_peer" where
  "drop_conn p = p\<lparr>sp_conns := sp_conns p - 1\<rparr>"

text \<open>The peer \<^verbatim>\<open>rrp->current\<close> points to is changed by \<open>f\<close>.\<close>

definition upd_current :: "stream_peers list \<Rightarrow> stream_rrp \<Rightarrow> (stream_peer \<Rightarrow> stream_peer) \<Rightarrow> stream_peers list res" where
  "upd_current us rrp f =
    (case srp_current rrp of
       None \<Rightarrow> Fault NullDeref
     | Some (g, i) \<Rightarrow>
         if g < length us \<and> i < length (sps_peer (us ! g))
         then Ok (upd_peers us g ((sps_peer (us ! g))[i := f (sps_peer (us ! g) ! i)]))
         else Fault UseAfterFree)"

definition ngx_stream_upstream_free_round_robin_peer ::
  "time_t \<Rightarrow> stream_peers list \<Rightarrow> stream_rrp \<Rightarrow> stream_pc \<Rightarrow> ngx_uint_t \<Rightarrow> (stream_peers list \<times> stream_pc) res" where
  "ngx_stream_upstream_free_round_robin_peer now us rrp pc state =
    (if length us \<le> srp_peers rrp then Fault NullDeref
     else if sps_single (us ! srp_peers rrp) then
       bindR (upd_current us rrp drop_conn) (\<lambda>us'. Ok (us', pc\<lparr>spc_tries := 0\<rparr>))
     else
       bindR (upd_current us rrp (drop_conn \<circ> (if state AND NGX_PEER_FAILED \<noteq> 0 then stream_failed now else mark_live)))
         (\<lambda>us'. Ok (us', if spc_tries pc \<noteq> 0 then pc\<lparr>spc_tries := spc_tries pc - 1\<rparr> else pc)))"

definition NGX_STREAM_UPSTREAM_NOTIFY_CONNECT :: ngx_uint_t where "NGX_STREAM_UPSTREAM_NOTIFY_CONNECT = 1"

definition ngx_stream_upstream_notify_round_robin_peer ::
  "bool \<Rightarrow> stream_peers list \<Rightarrow> stream_rrp \<Rightarrow> ngx_uint_t \<Rightarrow> stream_peers list res" where
  "ngx_stream_upstream_notify_round_robin_peer sock_stream us rrp type =
    (if type = NGX_STREAM_UPSTREAM_NOTIFY_CONNECT \<and> sock_stream then upd_current us rrp mark_live else Ok us)"

end
