(* ===== verification/Stream_Choice.thy ===== *)
theory Stream_Choice
  imports Stream_RR
begin

unbundle bit_operations_syntax

text \<open>
  What one pass over a group does: the weights it adds, the peer it chooses, and the sum of the current
  weights, which no operation of the balancer changes.
\<close>

section \<open>The bitmap of tried peers\<close>

definition is_tried :: "64 word list \<Rightarrow> nat \<Rightarrow> bool" where
  "is_tried tried i = bit (tried ! (i div 64)) (i mod 64)"

definition tried_fits :: "64 word list \<Rightarrow> 'a list \<Rightarrow> bool" where
  "tried_fits tried ps \<longleftrightarrow> length ps \<le> 64 * length tried"

lemma tried_fits_div: "tried_fits tried ps \<Longrightarrow> i < length ps \<Longrightarrow> i div 64 < length tried"
  by (auto simp: tried_fits_def)

lemma stream_tried_bit_eq: "i div 64 < length tried \<Longrightarrow> stream_tried_bit tried i = Ok (is_tried tried i)"
  by (simp add: stream_tried_bit_def is_tried_def push_bit_of_1 and_exp_eq_0_iff_not_bit)

lemma is_tried_set:
  assumes "b div 64 < length tried"
  shows "is_tried (set_tried tried b) i \<longleftrightarrow> i = b \<or> is_tried tried i"
proof (cases "i div 64 = b div 64")
  case True
  then have "i = b \<longleftrightarrow> i mod 64 = b mod 64"
    by (metis div_mult_mod_eq)
  with True assms show ?thesis
    by (auto simp: is_tried_def set_tried_def bit_or_iff push_bit_of_1 bit_exp_iff)
next
  case False
  with assms show ?thesis
    by (auto simp: is_tried_def set_tried_def)
qed

lemma length_set_tried [simp]: "length (set_tried tried b) = length tried"
  by (simp add: set_tried_def)

lemma stream_tried_words_eq:
  assumes "n < 2 ^ 64 - 64"
  shows "stream_tried_words (of_nat n) = (n + 63) div 64"
proof -
  have "(of_nat n :: 64 word) + 63 = of_nat (n + 63)"
    by simp
  moreover have "unat (of_nat (n + 63) :: 64 word) = n + 63"
    by (subst unat_of_nat, rule mod_less) (use assms in simp)
  ultimately show ?thesis
    by (simp only: stream_tried_words_def unat_div_distrib) simp
qed

lemma clear_stream_tried_eq:
  assumes "tried_fits tried ps" and "length ps < 2 ^ 64 - 64"
  obtains t where "clear_stream_tried (of_nat (length ps)) tried = Ok t" and "length t = length tried"
    and "\<And>i. i < length ps \<Longrightarrow> \<not> is_tried t i"
proof -
  let ?k = "stream_tried_words (of_nat (length ps))"
  have k: "?k = (length ps + 63) div 64"
    by (rule stream_tried_words_eq [OF assms(2)])
  then have le: "?k \<le> length tried"
    using assms(1) by (simp add: tried_fits_def)
  have lt: "i div 64 < ?k" if "i < length ps" for i
    using that k by (simp add: div_less_iff_less_mult)
  show thesis
  proof
    show "clear_stream_tried (of_nat (length ps)) tried = Ok (replicate ?k 0 @ drop ?k tried)"
      using le by (simp add: clear_stream_tried_def)
    show "length (replicate ?k 0 @ drop ?k tried) = length tried"
      using le by simp
    show "\<not> is_tried (replicate ?k 0 @ drop ?k tried) i" if "i < length ps" for i
      using lt [OF that] by (simp add: is_tried_def nth_append)
  qed
qed

section \<open>One pass\<close>

text \<open>A peer without its weights.\<close>

definition static :: "stream_peer \<Rightarrow> stream_peer" where
  "static p = p\<lparr>sp_current_weight := 0, sp_effective_weight := 0\<rparr>"

lemma static_add_weight [simp]: "static (add_weight p) = static p"
  by (simp add: static_def add_weight_def)

lemma usable_static: "static p = static q \<Longrightarrow> stream_usable now p = stream_usable now q"
  by (cases p, cases q) (simp add: static_def stream_usable_def)

definition bumped :: "nat set \<Rightarrow> stream_peer list \<Rightarrow> stream_peer list" where
  "bumped S ps = map (\<lambda>i. if i \<in> S then add_weight (ps ! i) else ps ! i) [0..<length ps]"

lemma length_bumped [simp]: "length (bumped S ps) = length ps"
  by (simp add: bumped_def)

lemma nth_bumped [simp]:
  "i < length ps \<Longrightarrow> bumped S ps ! i = (if i \<in> S then add_weight (ps ! i) else ps ! i)"
  by (simp add: bumped_def)

lemma bumped_empty [simp]: "bumped {} ps = ps"
  by (simp add: list_eq_iff_nth_eq)

lemma bumped_update:
  "i < length ps \<Longrightarrow> i \<notin> S \<Longrightarrow> bumped S (ps[i := add_weight (ps ! i)]) = bumped (insert i S) ps"
  by (simp add: list_eq_iff_nth_eq nth_list_update)

lemma map_static_update: "map static (ps[i := add_weight (ps ! i)]) = map static ps"
  by (cases "i < length ps") (simp_all add: map_update list_update_same_conv list_update_beyond)

text \<open>\<open>b\<close> has the greatest current weight of \<open>S\<close>.\<close>

definition heaviest :: "stream_peer list \<Rightarrow> nat set \<Rightarrow> nat \<Rightarrow> bool" where
  "heaviest ps S b \<longleftrightarrow> b \<in> S \<and> (\<forall>j\<in>S. sp_current_weight (ps ! j) \<le> sp_current_weight (ps ! b))"

definition effective_sum :: "stream_peer list \<Rightarrow> nat set \<Rightarrow> int" where
  "effective_sum ps S = (\<Sum>i\<in>S. sp_effective_weight (ps ! i))"

lemma effective_sum_update:
  "i \<notin> S \<Longrightarrow> effective_sum (ps[i := p]) S = effective_sum ps S"
  unfolding effective_sum_def by (rule sum.cong) (simp, metis nth_list_update_neq)

lemma heavier_heaviest:
  assumes "\<And>b. best = Some b \<Longrightarrow> heaviest qs S b" and "best = None \<Longrightarrow> S = {}"
  shows "\<exists>b. heavier qs best i = Some b \<and> heaviest qs (insert i S) b"
  using assms by (cases best) (auto simp: heavier_def heaviest_def intro: order_trans less_imp_le)

text \<open>
  The loop, for a test \<open>ok\<close> that does not depend on the weights: it adds their weights to the peers that
  pass, sums these weights, and leaves the heaviest one, also of the set \<open>S\<close> it started with.
\<close>

lemma weight_loop_spec:
  assumes "distinct is" and "set is \<subseteq> {..<length ps}" and "tried_fits tried ps"
    and "\<And>qs b i. map static qs = map static ps \<Longrightarrow> I b \<Longrightarrow> i \<in> set is \<Longrightarrow> ok qs b i = P i"
    and "\<And>i. i \<in> set is \<Longrightarrow> P i \<Longrightarrow> I (Some i)" and "I best"
    and "S \<inter> set is = {}" and "S \<subseteq> {..<length ps}" and "\<And>b. best = Some b \<Longrightarrow> heaviest ps S b" and "best = None \<Longrightarrow> S = {}"
    and "E = {i \<in> set is. \<not> is_tried tried i \<and> P i}"
  shows "\<exists>best'. weight_loop ok tried is ps best t = Ok (bumped E ps, best', t + effective_sum ps E)
    \<and> (\<forall>b. best' = Some b \<longrightarrow> heaviest (bumped E ps) (S \<union> E) b) \<and> (best' = None \<longrightarrow> S \<union> E = {})"
  using assms
proof (induction "is" arbitrary: ps best t S E)
  case Nil
  then show ?case by (simp add: effective_sum_def)
next
  case (Cons i "is")
  let ?F = "{j \<in> set is. \<not> is_tried tried j \<and> P j}"
  have i: "i < length ps" "i \<notin> set is" "i \<notin> ?F"
    using Cons.prems(1,2) by auto
  have bit: "stream_tried_bit tried i = Ok (is_tried tried i)"
    by (rule stream_tried_bit_eq) (rule tried_fits_div [OF Cons.prems(3) i(1)])
  have ok: "ok ps best i = P i"
    using Cons.prems(4)[of ps best i] Cons.prems(6) by simp
  show ?case
  proof (cases "is_tried tried i \<or> \<not> P i")
    case True
    then have "E = ?F"
      using Cons.prems(11) by auto
    moreover have "\<exists>best'. weight_loop ok tried is ps best t = Ok (bumped ?F ps, best', t + effective_sum ps ?F)
      \<and> (\<forall>b. best' = Some b \<longrightarrow> heaviest (bumped ?F ps) (S \<union> ?F) b) \<and> (best' = None \<longrightarrow> S \<union> ?F = {})"
      using Cons.prems by (intro Cons.IH) auto
    ultimately show ?thesis
      using True ok bit by simp
  next
    case False
    let ?ps = "ps[i := add_weight (ps ! i)]" and ?best = "heavier (ps[i := add_weight (ps ! i)]) best i"
    have E: "E = insert i ?F"
      using False Cons.prems(11) by auto
    have "heaviest ?ps S b" if "best = Some b" for b
    proof -
      have "i \<notin> S" using Cons.prems(7) by auto
      then have eq: "?ps ! j = ps ! j" if "j \<in> S" for j using that by (metis nth_list_update_neq)
      then show ?thesis
        using Cons.prems(9)[OF that] by (simp add: heaviest_def)
    qed
    then obtain b where b: "?best = Some b" "heaviest ?ps (insert i S) b"
      using heavier_heaviest [of best ?ps S i] Cons.prems(10) by blast
    have static: "map static ?ps = map static ps"
      by (rule map_static_update)
    have "b = i \<or> best = Some b"
      using b(1) by (auto simp: heavier_def split: option.splits if_splits)
    then have I: "I (Some b)"
      using Cons.prems(5)[of i] Cons.prems(6) False by auto
    have "\<exists>best'. weight_loop ok tried is ?ps ?best (t + sp_effective_weight (ps ! i))
        = Ok (bumped ?F ?ps, best', t + sp_effective_weight (ps ! i) + effective_sum ?ps ?F)
      \<and> (\<forall>b. best' = Some b \<longrightarrow> heaviest (bumped ?F ?ps) (insert i S \<union> ?F) b) \<and> (best' = None \<longrightarrow> insert i S \<union> ?F = {})"
    proof (rule Cons.IH)
      show "ok qs b i = P i" if "map static qs = map static ?ps" "I b" "i \<in> set is" for qs b i
        using Cons.prems(4)[of qs b i] that static by simp
    qed (use Cons.prems b i I in \<open>auto simp: tried_fits_def\<close>)
    moreover have "effective_sum ps E = sp_effective_weight (ps ! i) + effective_sum ps ?F"
      using i(3) by (simp add: E effective_sum_def)
    moreover have "insert i S \<union> ?F = S \<union> E"
      by (auto simp: E)
    ultimately show ?thesis
      using False ok bit i by (auto simp: bumped_update effective_sum_update E [symmetric] add.assoc Let_def)
  qed
qed

section \<open>The sum of the current weights\<close>

definition weight_sum :: "stream_peer list \<Rightarrow> int" where
  "weight_sum ps = (\<Sum>i<length ps. sp_current_weight (ps ! i))"

lemma weight_sum_bumped:
  assumes "E \<subseteq> {..<length ps}"
  shows "weight_sum (bumped E ps) = weight_sum ps + effective_sum ps E"
proof -
  have "weight_sum (bumped E ps) = (\<Sum>i<length ps. sp_current_weight (ps ! i) + (if i \<in> E then sp_effective_weight (ps ! i) else 0))"
    unfolding weight_sum_def by (rule sum.cong) (auto simp: add_weight_def)
  also have "\<dots> = weight_sum ps + (\<Sum>i\<in>{..<length ps} \<inter> E. sp_effective_weight (ps ! i))"
    by (simp add: sum.distrib weight_sum_def sum.inter_restrict)
  also have "{..<length ps} \<inter> E = E"
    using assms by auto
  finally show ?thesis
    by (simp add: effective_sum_def)
qed

lemma weight_sum_update:
  assumes "i < length ps"
  shows "weight_sum (ps[i := p]) = weight_sum ps - sp_current_weight (ps ! i) + sp_current_weight p"
proof -
  have "weight_sum qs = (\<Sum>j\<in>{..<length qs} - {i}. sp_current_weight (qs ! j)) + sp_current_weight (qs ! i)"
    if "i < length qs" for qs
    using that by (simp add: weight_sum_def sum.remove [of _ i])
  note this [of "ps[i := p]"] this [of ps]
  moreover have "(\<Sum>j\<in>{..<length ps} - {i}. sp_current_weight (ps[i := p] ! j)) = (\<Sum>j\<in>{..<length ps} - {i}. sp_current_weight (ps ! j))"
    by (rule sum.cong) auto
  ultimately show ?thesis
    using assms by simp
qed

lemma weight_sum_same:
  "i < length ps \<Longrightarrow> sp_current_weight p = sp_current_weight (ps ! i) \<Longrightarrow> weight_sum (ps[i := p]) = weight_sum ps"
  by (simp add: weight_sum_update)

end
