(* ===== verification/Stream_Group.thy ===== *)
theory Stream_Group
  imports Stream_Choice
begin

text \<open>
  The contract of a balancing method inside one group, as a locale, and what the fallback to the backup
  group makes of it; the round robin of \<^verbatim>\<open>ngx_stream_upstream_round_robin.c\<close> is an instance.
\<close>

section \<open>What a choice may change\<close>

text \<open>A peer without the fields that a choice changes.\<close>

definition frame :: "stream_peer \<Rightarrow> stream_peer" where
  "frame p = p\<lparr>sp_current_weight := 0, sp_effective_weight := 0, sp_checked := 0\<rparr>"

definition weight_ok :: "stream_peer \<Rightarrow> bool" where
  "weight_ok p \<longleftrightarrow> 0 \<le> sp_effective_weight p \<and> sp_effective_weight p \<le> sp_weight p"

definition kept :: "stream_peer list \<Rightarrow> stream_peer list \<Rightarrow> bool" where
  "kept ps qs \<longleftrightarrow> map frame qs = map frame ps \<and> weight_sum qs = weight_sum ps
    \<and> (list_all weight_ok ps \<longrightarrow> list_all weight_ok qs)"

lemma kept_refl [simp]: "kept ps ps"
  by (simp add: kept_def)

lemma kept_length: "kept ps qs \<Longrightarrow> length qs = length ps"
  unfolding kept_def by (metis length_map)

lemma kept_frame: "kept ps qs \<Longrightarrow> i < length ps \<Longrightarrow> frame (qs ! i) = frame (ps ! i)"
  unfolding kept_def by (metis length_map nth_map)

lemma frame_fields:
  assumes "frame p = frame q"
  shows "sp_conns p = sp_conns q" and "sp_weight p = sp_weight q" and "sp_sockaddr p = sp_sockaddr q" and "sp_name p = sp_name q"
    and "sp_down p = sp_down q" and "sp_max_conns p = sp_max_conns q" and "sp_max_fails p = sp_max_fails q" and "sp_fails p = sp_fails q"
  using assms by (cases p, cases q, simp add: frame_def)+

lemma frame_add_weight [simp]: "frame (add_weight p) = frame p"
  by (simp add: frame_def add_weight_def)

lemma frame_take_weight [simp]: "frame (take_weight now t p) = frame p"
  by (simp add: frame_def take_weight_def)

lemma weight_ok_add_weight: "weight_ok p \<Longrightarrow> weight_ok (add_weight p)"
  by (auto simp: weight_ok_def add_weight_def)

lemma weight_ok_take_weight [simp]: "weight_ok (take_weight now t p) = weight_ok p"
  by (simp add: weight_ok_def take_weight_def)

text \<open>A pass that adds weights to \<open>E\<close> and takes their sum from \<open>b\<close>.\<close>

lemma kept_pass:
  assumes "E \<subseteq> {..<length ps}" and "b < length ps"
  shows "kept ps ((bumped E ps)[b := take_weight now (effective_sum ps E) (bumped E ps ! b)])"
proof -
  have "weight_sum ((bumped E ps)[b := take_weight now (effective_sum ps E) (bumped E ps ! b)]) = weight_sum ps"
    using assms by (simp only: weight_sum_update length_bumped weight_sum_bumped) (simp add: take_weight_def)
  then show ?thesis
    using assms by (auto simp: kept_def list_eq_iff_nth_eq list_all_length nth_list_update weight_ok_add_weight)
qed

section \<open>The interface of a balancing method\<close>

definition group_ok :: "64 word list \<Rightarrow> stream_peers \<Rightarrow> bool" where
  "group_ok tried grp \<longleftrightarrow> tried_fits tried (sps_peer grp) \<and> (sps_single grp \<longrightarrow> sps_peer grp \<noteq> [])
    \<and> sps_number grp = of_nat (length (sps_peer grp)) \<and> length (sps_peer grp) < 2 ^ 64 - 64"

lemma group_ok_length: "length t = length t' \<Longrightarrow> group_ok t grp = group_ok t' grp"
  by (simp add: group_ok_def tried_fits_def)

text \<open>\<open>able grp T\<close> are the peers the method may choose in a group when \<open>T\<close> were tried.\<close>

locale group_pick =
  fixes pick :: "stream_peers \<Rightarrow> stream_rrp \<Rightarrow> (nat option \<times> stream_rrp \<times> stream_peer list) res"
    and able :: "stream_peers \<Rightarrow> (nat \<Rightarrow> bool) \<Rightarrow> nat set"
  assumes able_range: "able grp T \<subseteq> {..<length (sps_peer grp)}"
    and able_cong: "(\<And>i. i < length (sps_peer grp) \<Longrightarrow> T i = T' i) \<Longrightarrow> able grp T = able grp T'"
    and pick_none: "group_ok (srp_tried rrp) grp \<Longrightarrow> able grp (is_tried (srp_tried rrp)) = {} \<Longrightarrow>
      pick grp rrp = Ok (None, rrp, sps_peer grp)"
    and pick_some: "group_ok (srp_tried rrp) grp \<Longrightarrow> able grp (is_tried (srp_tried rrp)) \<noteq> {} \<Longrightarrow>
      \<exists>b ps t. pick grp rrp = Ok (Some b, rrp\<lparr>srp_current := Some (srp_peers rrp, b), srp_tried := t\<rparr>, ps)
        \<and> b \<in> able grp (is_tried (srp_tried rrp)) \<and> kept (sps_peer grp) ps \<and> length t = length (srp_tried rrp)
        \<and> (\<forall>i < length (sps_peer grp). \<not> sps_single grp \<longrightarrow> is_tried t i = (i = b \<or> is_tried (srp_tried rrp) i))"
begin

text \<open>The peers that may be chosen in group \<open>h\<close>: a group that is entered is entered with no peer tried.\<close>

definition able_at :: "stream_peers list \<Rightarrow> stream_rrp \<Rightarrow> nat \<Rightarrow> nat set" where
  "able_at us rrp h = able (us ! h) (if h = srp_peers rrp then is_tried (srp_tried rrp) else (\<lambda>_. False))"

text \<open>The step to the next group, with the bitmap \<open>t\<close>.\<close>

definition moves :: "stream_peers list \<Rightarrow> stream_rrp \<Rightarrow> stream_rrp \<Rightarrow> bool" where
  "moves us rrp r \<longleftrightarrow>
    (\<exists>t. r = rrp\<lparr>srp_peers := Suc (srp_peers rrp), srp_tried := t\<rparr> \<and> length t = length (srp_tried rrp))
    \<and> (\<forall>h. Suc (srp_peers rrp) \<le> h \<longrightarrow> able_at us r h = able_at us rrp h)
    \<and> (\<forall>i < length (sps_peer (us ! srp_peers r)). \<not> is_tried (srp_tried r) i)
    \<and> (\<forall>pc. get_from_groups pick us rrp pc = bindR (get_from_groups pick us r pc) (\<lambda>(rc, us2, rrp2, pc2).
        if rc \<noteq> NGX_BUSY then Ok (rc, us2, rrp2, pc2)
        else Ok (NGX_BUSY, us2, rrp2, pc2\<lparr>spc_name := sps_name (us ! srp_peers rrp)\<rparr>)))"

lemma next_group:
  assumes "list_all (group_ok (srp_tried rrp)) us" and "Suc (srp_peers rrp) < length us"
    and "able_at us rrp (srp_peers rrp) = {}"
  shows "\<exists>r. moves us rrp r"
proof -
  let ?g = "srp_peers rrp"
  have ok: "group_ok (srp_tried rrp) (us ! ?g)" "group_ok (srp_tried rrp) (us ! Suc ?g)"
    using assms(1,2) by (auto simp: list_all_length)
  obtain t where t: "clear_stream_tried (sps_number (us ! Suc ?g)) (srp_tried rrp) = Ok t" "length t = length (srp_tried rrp)"
    "\<And>i. i < length (sps_peer (us ! Suc ?g)) \<Longrightarrow> \<not> is_tried t i"
    using ok(2) clear_stream_tried_eq [of "srp_tried rrp" "sps_peer (us ! Suc ?g)"] unfolding group_ok_def by metis
  let ?r = "rrp\<lparr>srp_peers := Suc ?g, srp_tried := t\<rparr>"
  have pick: "pick (us ! ?g) rrp = Ok (None, rrp, sps_peer (us ! ?g))"
    using pick_none [OF ok(1)] assms(3) by (simp add: able_at_def)
  have "able_at us ?r h = able_at us rrp h" if "Suc ?g \<le> h" for h
    using that able_cong [of "us ! h" "is_tried t" "\<lambda>_. False"] t(3) by (auto simp: able_at_def)
  moreover have "get_from_groups pick us rrp pc = bindR (get_from_groups pick us ?r pc) (\<lambda>(rc, us2, rrp2, pc2).
        if rc \<noteq> NGX_BUSY then Ok (rc, us2, rrp2, pc2)
        else Ok (NGX_BUSY, us2, rrp2, pc2\<lparr>spc_name := sps_name (us ! ?g)\<rparr>))" for pc
    using assms(2) pick t(1) by (subst get_from_groups.simps) (simp add: Let_def)
  ultimately have "moves us rrp ?r"
    using t(2,3) by (auto simp: moves_def)
  then show ?thesis ..
qed

lemma movesD:
  assumes "moves us rrp r"
  shows "srp_peers r = Suc (srp_peers rrp)" and "length (srp_tried r) = length (srp_tried rrp)"
    and "srp_current r = srp_current rrp"
    and "Suc (srp_peers rrp) \<le> h \<Longrightarrow> able_at us r h = able_at us rrp h"
    and "i < length (sps_peer (us ! Suc (srp_peers rrp))) \<Longrightarrow> \<not> is_tried (srp_tried r) i"
    and "r\<lparr>srp_peers := k, srp_current := c, srp_tried := t\<rparr> = rrp\<lparr>srp_peers := k, srp_current := c, srp_tried := t\<rparr>"
    and "get_from_groups pick us rrp pc = bindR (get_from_groups pick us r pc) (\<lambda>(rc, us2, rrp2, pc2).
        if rc \<noteq> NGX_BUSY then Ok (rc, us2, rrp2, pc2)
        else Ok (NGX_BUSY, us2, rrp2, pc2\<lparr>spc_name := sps_name (us ! srp_peers rrp)\<rparr>))"
  using assms unfolding moves_def by (elim conjE exE, simp)+

text \<open>The peer comes from the first group that has one.\<close>

lemma get_some:
  assumes "list_all (group_ok (srp_tried rrp)) us" and "srp_peers rrp \<le> h" and "h < length us"
    and "able_at us rrp h \<noteq> {}" and "\<And>k. srp_peers rrp \<le> k \<Longrightarrow> k < h \<Longrightarrow> able_at us rrp k = {}"
  shows "\<exists>b ps t. get_from_groups pick us rrp pc = Ok (NGX_OK, upd_peers us h (ps[b := add_conn (ps ! b)]),
      rrp\<lparr>srp_peers := h, srp_current := Some (h, b), srp_tried := t\<rparr>,
      pc\<lparr>spc_sockaddr := Some (sp_sockaddr (sps_peer (us ! h) ! b)), spc_name := sp_name (sps_peer (us ! h) ! b)\<rparr>)
    \<and> b \<in> able_at us rrp h \<and> kept (sps_peer (us ! h)) ps \<and> length t = length (srp_tried rrp)
    \<and> (\<forall>i < length (sps_peer (us ! h)). \<not> sps_single (us ! h) \<longrightarrow>
        is_tried t i = (i = b \<or> h = srp_peers rrp \<and> is_tried (srp_tried rrp) i))"
  using assms
proof (induction "h - srp_peers rrp" arbitrary: rrp)
  case 0
  then have h: "h = srp_peers rrp" by simp
  have ok: "group_ok (srp_tried rrp) (us ! h)"
    using 0 by (simp add: list_all_length)
  obtain b ps t where p: "pick (us ! h) rrp = Ok (Some b, rrp\<lparr>srp_current := Some (srp_peers rrp, b), srp_tried := t\<rparr>, ps)"
    "b \<in> able (us ! h) (is_tried (srp_tried rrp))" "kept (sps_peer (us ! h)) ps" "length t = length (srp_tried rrp)"
    "\<forall>i < length (sps_peer (us ! h)). \<not> sps_single (us ! h) \<longrightarrow> is_tried t i = (i = b \<or> is_tried (srp_tried rrp) i)"
    using pick_some [OF ok] 0(5) h by (auto simp: able_at_def)
  have "b < length (sps_peer (us ! h))"
    using p(2) able_range by blast
  then have "sp_sockaddr (ps ! b) = sp_sockaddr (sps_peer (us ! h) ! b)" "sp_name (ps ! b) = sp_name (sps_peer (us ! h) ! b)"
    using kept_frame [OF p(3)] frame_fields(3,4) by blast+
  then have "get_from_groups pick us rrp pc = Ok (NGX_OK, upd_peers us h (ps[b := add_conn (ps ! b)]),
      rrp\<lparr>srp_peers := h, srp_current := Some (h, b), srp_tried := t\<rparr>,
      pc\<lparr>spc_sockaddr := Some (sp_sockaddr (sps_peer (us ! h) ! b)), spc_name := sp_name (sps_peer (us ! h) ! b)\<rparr>)"
    using p(1) 0(4) h by (subst get_from_groups.simps) (simp add: Let_def)
  moreover have "b \<in> able_at us rrp h"
    using p(2) h by (simp add: able_at_def)
  ultimately show ?case
    using p(3-5) h by blast
next
  case (Suc d)
  have lt: "srp_peers rrp < h" using Suc.hyps(2) by simp
  have ok: "Suc (srp_peers rrp) < length us" using lt Suc.prems(3) by simp
  obtain r where r: "moves us rrp r"
    using next_group [OF Suc.prems(1) ok] Suc.prems(5) lt by blast
  have "\<exists>b ps t. get_from_groups pick us r pc = Ok (NGX_OK, upd_peers us h (ps[b := add_conn (ps ! b)]),
      r\<lparr>srp_peers := h, srp_current := Some (h, b), srp_tried := t\<rparr>,
      pc\<lparr>spc_sockaddr := Some (sp_sockaddr (sps_peer (us ! h) ! b)), spc_name := sp_name (sps_peer (us ! h) ! b)\<rparr>)
    \<and> b \<in> able_at us r h \<and> kept (sps_peer (us ! h)) ps \<and> length t = length (srp_tried r)
    \<and> (\<forall>i < length (sps_peer (us ! h)). \<not> sps_single (us ! h) \<longrightarrow>
        is_tried t i = (i = b \<or> h = srp_peers r \<and> is_tried (srp_tried r) i))"
  proof (rule Suc.hyps(1))
    show "list_all (group_ok (srp_tried r)) us"
      using Suc.prems(1) group_ok_length [OF movesD(2) [OF r]] by (simp add: list_all_length)
    show "able_at us r k = {}" if "srp_peers r \<le> k" "k < h" for k
      using that Suc.prems(5) [of k] movesD(1,4) [OF r] by simp
  qed (use Suc.hyps(2) Suc.prems(2-4) lt movesD(1,4) [OF r] in auto)
  then obtain b ps t where g: "get_from_groups pick us r pc = Ok (NGX_OK, upd_peers us h (ps[b := add_conn (ps ! b)]),
      r\<lparr>srp_peers := h, srp_current := Some (h, b), srp_tried := t\<rparr>,
      pc\<lparr>spc_sockaddr := Some (sp_sockaddr (sps_peer (us ! h) ! b)), spc_name := sp_name (sps_peer (us ! h) ! b)\<rparr>)"
    and b: "b \<in> able_at us r h" "kept (sps_peer (us ! h)) ps" "length t = length (srp_tried r)"
    and t: "\<forall>i < length (sps_peer (us ! h)). \<not> sps_single (us ! h) \<longrightarrow>
        is_tried t i = (i = b \<or> h = srp_peers r \<and> is_tried (srp_tried r) i)"
    by blast
  have "get_from_groups pick us rrp pc = Ok (NGX_OK, upd_peers us h (ps[b := add_conn (ps ! b)]),
      rrp\<lparr>srp_peers := h, srp_current := Some (h, b), srp_tried := t\<rparr>,
      pc\<lparr>spc_sockaddr := Some (sp_sockaddr (sps_peer (us ! h) ! b)), spc_name := sp_name (sps_peer (us ! h) ! b)\<rparr>)"
    by (simp add: movesD(6,7) [OF r] g ngx_rc_defs)
  moreover have "b \<in> able_at us rrp h" "length t = length (srp_tried rrp)"
    using b movesD(2,4) [OF r] lt by auto
  moreover have "\<forall>i < length (sps_peer (us ! h)). \<not> sps_single (us ! h) \<longrightarrow>
        is_tried t i = (i = b \<or> h = srp_peers rrp \<and> is_tried (srp_tried rrp) i)"
    using t lt movesD(1,5) [OF r] by auto
  ultimately show ?case
    using b(2) by blast
qed

text \<open>Without such a group the session is told that the upstream is busy, and nothing changes.\<close>

lemma get_busy:
  assumes "list_all (group_ok (srp_tried rrp)) us" and "srp_peers rrp < length us"
    and "\<And>k. srp_peers rrp \<le> k \<Longrightarrow> k < length us \<Longrightarrow> able_at us rrp k = {}"
  shows "\<exists>t. get_from_groups pick us rrp pc = Ok (NGX_BUSY, us,
      rrp\<lparr>srp_peers := length us - 1, srp_tried := t\<rparr>, pc\<lparr>spc_name := sps_name (us ! srp_peers rrp)\<rparr>)
    \<and> length t = length (srp_tried rrp)"
  using assms
proof (induction "length us - Suc (srp_peers rrp)" arbitrary: rrp)
  case 0
  then have g: "srp_peers rrp = length us - 1" "group_ok (srp_tried rrp) (us ! srp_peers rrp)"
    by (auto simp: list_all_length)
  have "pick (us ! srp_peers rrp) rrp = Ok (None, rrp, sps_peer (us ! srp_peers rrp))"
    using pick_none [OF g(2)] 0(3) 0(4) [of "srp_peers rrp"] by (simp add: able_at_def)
  then have "get_from_groups pick us rrp pc = Ok (NGX_BUSY, us, rrp, pc\<lparr>spc_name := sps_name (us ! srp_peers rrp)\<rparr>)"
    using 0(1,3) by (subst get_from_groups.simps) (simp add: Let_def)
  moreover have "rrp = rrp\<lparr>srp_peers := length us - 1, srp_tried := srp_tried rrp\<rparr>"
    using g(1) by simp
  ultimately show ?case by metis
next
  case (Suc d)
  then have ok: "Suc (srp_peers rrp) < length us" by simp
  obtain r where r: "moves us rrp r"
    using next_group [OF Suc.prems(1) ok] Suc.prems(2,3) by blast
  have "\<exists>t. get_from_groups pick us r pc = Ok (NGX_BUSY, us,
      r\<lparr>srp_peers := length us - 1, srp_tried := t\<rparr>, pc\<lparr>spc_name := sps_name (us ! srp_peers r)\<rparr>)
    \<and> length t = length (srp_tried r)"
  proof (rule Suc.hyps(1))
    show "list_all (group_ok (srp_tried r)) us"
      using Suc.prems(1) group_ok_length [OF movesD(2) [OF r]] by (simp add: list_all_length)
    show "able_at us r k = {}" if "srp_peers r \<le> k" "k < length us" for k
      using that Suc.prems(3) [of k] movesD(1,4) [OF r] by simp
  qed (use Suc.hyps(2) ok movesD(1) [OF r] in auto)
  then obtain t where g: "get_from_groups pick us r pc = Ok (NGX_BUSY, us,
      r\<lparr>srp_peers := length us - 1, srp_tried := t\<rparr>, pc\<lparr>spc_name := sps_name (us ! srp_peers r)\<rparr>)"
    and t: "length t = length (srp_tried r)"
    by blast
  have "r\<lparr>srp_peers := length us - 1, srp_tried := t\<rparr> = rrp\<lparr>srp_peers := length us - 1, srp_tried := t\<rparr>"
    using movesD(3) [OF r] by (cases r, cases rrp) simp
  then show ?case
    using t movesD(2) [OF r] by (auto simp: movesD(7) [OF r] g)
qed

end

section \<open>Round robin is a balancing method\<close>

definition not_full :: "stream_peer \<Rightarrow> bool" where
  "not_full p \<longleftrightarrow> \<not> sp_down p \<and> \<not> (sp_max_conns p \<noteq> 0 \<and> sp_conns p \<ge> sp_max_conns p)"

lemma usable_not_full: "stream_usable now p \<Longrightarrow> not_full p"
  by (simp add: stream_usable_def not_full_def)

text \<open>The peers round robin may choose; the only peer of an upstream is used even when it failed.\<close>

definition rr_able :: "time_t \<Rightarrow> stream_peers \<Rightarrow> (nat \<Rightarrow> bool) \<Rightarrow> nat set" where
  "rr_able now grp T =
    (if sps_single grp then {i. i = 0 \<and> i < length (sps_peer grp) \<and> not_full (sps_peer grp ! i)}
     else {i. i < length (sps_peer grp) \<and> \<not> T i \<and> stream_usable now (sps_peer grp ! i)})"

lemma get_peer_spec:
  assumes "tried_fits (srp_tried rrp) ps" and "E = {i. i < length ps \<and> \<not> is_tried (srp_tried rrp) i \<and> stream_usable now (ps ! i)}"
  shows "E = {} \<and> ngx_stream_upstream_get_peer now rrp ps = Ok (None, rrp, ps)
    \<or> (\<exists>b. heaviest (bumped E ps) E b \<and> ngx_stream_upstream_get_peer now rrp ps =
        Ok (Some b, rrp\<lparr>srp_current := Some (srp_peers rrp, b), srp_tried := set_tried (srp_tried rrp) b\<rparr>,
          (bumped E ps)[b := take_weight now (effective_sum ps E) (bumped E ps ! b)]))"
proof -
  have "\<exists>best. weight_loop (rr_ok now) (srp_tried rrp) [0..<length ps] ps None 0 = Ok (bumped E ps, best, 0 + effective_sum ps E)
    \<and> (\<forall>b. best = Some b \<longrightarrow> heaviest (bumped E ps) ({} \<union> E) b) \<and> (best = None \<longrightarrow> {} \<union> E = {})"
  proof (rule weight_loop_spec [where I = "\<lambda>_. True" and P = "\<lambda>i. stream_usable now (ps ! i)"])
    show "rr_ok now qs b i = stream_usable now (ps ! i)" if "map static qs = map static ps" "i \<in> set [0..<length ps]" for qs b i
      using that usable_static [of "qs ! i" "ps ! i"] unfolding rr_ok_def list_eq_iff_nth_eq by simp
  qed (use assms in auto)
  then obtain best where loop: "weight_loop (rr_ok now) (srp_tried rrp) [0..<length ps] ps None 0 = Ok (bumped E ps, best, effective_sum ps E)"
    and best: "\<And>b. best = Some b \<Longrightarrow> heaviest (bumped E ps) E b" "best = None \<Longrightarrow> E = {}"
    by auto
  show ?thesis
  proof (cases best)
    case None
    then show ?thesis
      using loop best(2) by (simp add: ngx_stream_upstream_get_peer_def)
  next
    case (Some b)
    then show ?thesis
      using loop best(1) by (intro disjI2 exI [of _ b]) (simp add: ngx_stream_upstream_get_peer_def)
  qed
qed

text \<open>A loop that adds the weights of some peers and takes them from the one it chooses, as round robin and least
  connections both do, is a balancing method.\<close>

locale pass_method =
  fixes sel :: "stream_rrp \<Rightarrow> stream_peer list \<Rightarrow> (nat option \<times> stream_rrp \<times> stream_peer list) res"
    and now :: time_t
  assumes sel: "tried_fits (srp_tried rrp) ps \<Longrightarrow>
    E = {i. i < length ps \<and> \<not> is_tried (srp_tried rrp) i \<and> stream_usable now (ps ! i)} \<Longrightarrow>
    E = {} \<and> sel rrp ps = Ok (None, rrp, ps)
    \<or> (\<exists>b F. b \<in> E \<and> F \<subseteq> {..<length ps} \<and> sel rrp ps =
        Ok (Some b, rrp\<lparr>srp_current := Some (srp_peers rrp, b), srp_tried := set_tried (srp_tried rrp) b\<rparr>,
          (bumped F ps)[b := take_weight now (effective_sum ps F) (bumped F ps ! b)]))"

sublocale pass_method \<subseteq> grp: group_pick "in_group sel" "rr_able now"
proof
  show "rr_able now grp T \<subseteq> {..<length (sps_peer grp)}" for grp T
    by (auto simp: rr_able_def)
  show "rr_able now grp T = rr_able now grp T'" if "\<And>i. i < length (sps_peer grp) \<Longrightarrow> T i = T' i" for grp T T'
    using that by (auto simp: rr_able_def)
next
  fix rrp :: stream_rrp and grp :: stream_peers
  assume ok: "group_ok (srp_tried rrp) grp" and e: "rr_able now grp (is_tried (srp_tried rrp)) = {}"
  show "in_group sel grp rrp = Ok (None, rrp, sps_peer grp)"
  proof (cases "sps_single grp")
    case True
    then show ?thesis
      using ok e by (cases "sps_peer grp") (auto simp: in_group_def single_peer_def group_ok_def rr_able_def not_full_def)
  next
    case False
    then show ?thesis
      using ok e sel [OF _ refl, of rrp "sps_peer grp"]
      by (auto simp: in_group_def group_ok_def rr_able_def)
  qed
next
  fix rrp :: stream_rrp and grp :: stream_peers
  let ?E = "rr_able now grp (is_tried (srp_tried rrp))" and ?ps = "sps_peer grp"
  assume ok: "group_ok (srp_tried rrp) grp" and ne: "?E \<noteq> {}"
  show "\<exists>b ps t. in_group sel grp rrp = Ok (Some b, rrp\<lparr>srp_current := Some (srp_peers rrp, b), srp_tried := t\<rparr>, ps)
        \<and> b \<in> ?E \<and> kept ?ps ps \<and> length t = length (srp_tried rrp)
        \<and> (\<forall>i < length ?ps. \<not> sps_single grp \<longrightarrow> is_tried t i = (i = b \<or> is_tried (srp_tried rrp) i))"
  proof (cases "sps_single grp")
    case True
    then have "in_group sel grp rrp = Ok (Some 0, rrp\<lparr>srp_current := Some (srp_peers rrp, 0), srp_tried := srp_tried rrp\<rparr>, ?ps)"
      using ne by (cases ?ps) (auto simp: in_group_def single_peer_def rr_able_def not_full_def)
    moreover have "0 \<in> ?E"
      using ne True by (auto simp: rr_able_def)
    ultimately show ?thesis
      using True kept_refl by blast
  next
    case False
    then have E: "?E = {i. i < length ?ps \<and> \<not> is_tried (srp_tried rrp) i \<and> stream_usable now (?ps ! i)}"
      by (simp add: rr_able_def)
    have fits: "tried_fits (srp_tried rrp) ?ps"
      using ok by (simp add: group_ok_def)
    obtain b F where b: "b \<in> ?E" "F \<subseteq> {..<length ?ps}" and p: "in_group sel grp rrp =
        Ok (Some b, rrp\<lparr>srp_current := Some (srp_peers rrp, b), srp_tried := set_tried (srp_tried rrp) b\<rparr>,
          (bumped F ?ps)[b := take_weight now (effective_sum ?ps F) (bumped F ?ps ! b)])"
      using sel [OF fits E] ne False by (auto simp: in_group_def)
    have "b < length ?ps"
      using b(1) E by auto
    then have "kept ?ps ((bumped F ?ps)[b := take_weight now (effective_sum ?ps F) (bumped F ?ps ! b)])"
      "\<forall>i. is_tried (set_tried (srp_tried rrp) b) i = (i = b \<or> is_tried (srp_tried rrp) i)"
      using kept_pass [OF b(2)] is_tried_set tried_fits_div [OF fits] by blast+
    with b(1) show ?thesis
      using p length_set_tried by blast
  qed
qed

lemma get_peer_pass:
  assumes "tried_fits (srp_tried rrp) ps" and "E = {i. i < length ps \<and> \<not> is_tried (srp_tried rrp) i \<and> stream_usable now (ps ! i)}"
  shows "E = {} \<and> ngx_stream_upstream_get_peer now rrp ps = Ok (None, rrp, ps)
    \<or> (\<exists>b F. b \<in> E \<and> F \<subseteq> {..<length ps} \<and> ngx_stream_upstream_get_peer now rrp ps =
        Ok (Some b, rrp\<lparr>srp_current := Some (srp_peers rrp, b), srp_tried := set_tried (srp_tried rrp) b\<rparr>,
          (bumped F ps)[b := take_weight now (effective_sum ps F) (bumped F ps ! b)]))"
proof -
  have "E \<subseteq> {..<length ps}" using assms(2) by auto
  with get_peer_spec [OF assms] show ?thesis
    unfolding heaviest_def by blast
qed

interpretation rr: pass_method "ngx_stream_upstream_get_peer now" now
  by unfold_locales (rule get_peer_pass)

end
