(* ===== verification/Stream_Fair.thy ===== *)
theory Stream_Fair
  imports Stream_Group
begin

text \<open>
  The point of the smooth weighted round robin: over any period as long as the sum of the weights every
  peer is chosen exactly as often as its weight says, and never much ahead of its share in between.
\<close>

section \<open>A new session\<close>

lemma init_peer_tried:
  assumes "ngx_stream_upstream_init_round_robin_peer e a c us pc = Ok (Inr (rrp, pc'))"
    and "length us \<le> 2" and "\<And>grp. grp \<in> set us \<Longrightarrow> sps_number grp = of_nat (length (sps_peer grp)) \<and> length (sps_peer grp) < 2 ^ 64 - 64"
  shows "srp_peers rrp = 0" and "\<And>i. i < 64 * length (srp_tried rrp) \<Longrightarrow> \<not> is_tried (srp_tried rrp) i"
    and "\<And>grp. grp \<in> set us \<Longrightarrow> tried_fits (srp_tried rrp) (sps_peer grp)"
    and "pc' = pc\<lparr>spc_tries := ngx_stream_upstream_tries us\<rparr>" and "srp_current rrp = None"
proof -
  obtain p ps where us: "us = p # ps"
    using assms(1) by (cases us) (auto simp: ngx_stream_upstream_init_round_robin_peer_def)
  define big where "big = (case ps of b # _ \<Rightarrow> if sps_number b > sps_number p then b else p | [] \<Rightarrow> p)"
  define m where "m = length (sps_peer big)"
  have "big \<in> set us"
    by (auto simp: us big_def split: list.splits)
  then have num: "sps_number big = of_nat m" and m: "m < 2 ^ 64 - 64"
    using assms(3) [of big] by (simp_all add: m_def)
  have "(case ps of b # _ \<Rightarrow> if sps_number b > sps_number p then sps_number b else sps_number p | [] \<Rightarrow> sps_number p) = sps_number big"
    by (simp add: big_def split: list.splits)
  note n = this [unfolded num]
  have eq: "rrp = \<lparr>srp_peers = 0, srp_current = None, srp_tried = (if (of_nat m :: ngx_uint_t) \<le> 64 then [0] else replicate (stream_tried_words (of_nat m)) 0)\<rparr>"
    "pc' = pc\<lparr>spc_tries := ngx_stream_upstream_tries us\<rparr>"
    using assms(1) by (auto simp: ngx_stream_upstream_init_round_robin_peer_def us n Let_def split: if_splits)
  show "srp_peers rrp = 0" "srp_current rrp = None" "pc' = pc\<lparr>spc_tries := ngx_stream_upstream_tries us\<rparr>"
    by (simp_all add: eq)
  show "\<not> is_tried (srp_tried rrp) i" if "i < 64 * length (srp_tried rrp)" for i
    using that by (auto simp: eq is_tried_def less_mult_imp_div_less mult.commute split: if_splits)
  have unat: "unat (of_nat k :: 64 word) = k" if "k < 2 ^ 64 - 64" for k
    using that by (simp add: unat_of_nat)
  have le: "length (sps_peer grp) \<le> m" if "grp \<in> set us" for grp
  proof -
    have "unat (sps_number grp) \<le> unat (sps_number big)"
    proof (cases ps)
      case Nil
      then show ?thesis using that by (simp add: us big_def)
    next
      case (Cons b bs)
      then have "grp = p \<or> grp = b" using that us assms(2) by simp
      then show ?thesis by (auto simp: Cons big_def word_less_nat_alt)
    qed
    moreover have "unat (sps_number grp) = length (sps_peer grp)"
      using assms(3) [OF that] unat by simp
    ultimately show ?thesis
      by (simp add: num unat [OF m])
  qed
  show "tried_fits (srp_tried rrp) (sps_peer grp)" if "grp \<in> set us" for grp
    using le [OF that] m by (auto simp: tried_fits_def eq word_le_nat_alt unat stream_tried_words_eq)
qed

text \<open>A run of sessions, each of which takes a peer; the positions of the peers are collected.\<close>

definition fresh_pc :: stream_pc where
  "fresh_pc = \<lparr>spc_sockaddr = None, spc_name = [], spc_tries = 0\<rparr>"

fun serve :: "time_t list \<Rightarrow> stream_peers list \<Rightarrow> (nat list \<times> stream_peers list) res" where
  "serve [] us = Ok ([], us)"
| "serve (now # ts) us =
    bindR (ngx_stream_upstream_init_round_robin_peer False True True us fresh_pc) (\<lambda>r.
      case r of
        Inl e \<Rightarrow> serve ts us
      | Inr (rrp, pc) \<Rightarrow>
          bindR (ngx_stream_upstream_get_round_robin_peer now us rrp pc) (\<lambda>(rc, us', rrp', pc').
          bindR (serve ts us') (\<lambda>(is, us'').
            Ok (case srp_current rrp' of Some (g, i) \<Rightarrow> i # is | None \<Rightarrow> is, us''))))"

section \<open>Balanced weights\<close>

text \<open>A peer that is never skipped, with the weight it was configured with.\<close>

definition healthy :: "stream_peer \<Rightarrow> bool" where
  "healthy p \<longleftrightarrow> \<not> sp_down p \<and> sp_max_conns p = 0 \<and> (sp_max_fails p = 0 \<or> sp_fails p < sp_max_fails p)
    \<and> sp_effective_weight p = sp_weight p \<and> 0 \<le> sp_weight p"

definition total_weight :: "stream_peer list \<Rightarrow> int" where
  "total_weight ps = (\<Sum>i<length ps. sp_weight (ps ! i))"

definition balanced :: "stream_peer list \<Rightarrow> bool" where
  "balanced ps \<longleftrightarrow> list_all healthy ps \<and> weight_sum ps = 0 \<and> list_all (\<lambda>p. - total_weight ps < sp_current_weight p) ps"

lemma healthy_usable: "healthy p \<Longrightarrow> stream_usable now p"
  by (auto simp: healthy_def stream_usable_def)

lemma heaviest_positive:
  assumes "heaviest qs {..<length qs} b" and "0 < weight_sum qs"
  shows "0 < sp_current_weight (qs ! b)"
proof (rule ccontr)
  assume "\<not> 0 < sp_current_weight (qs ! b)"
  then have "sp_current_weight (qs ! i) \<le> 0" if "i < length qs" for i
    using assms(1) that by (force simp: heaviest_def)
  then have "weight_sum qs \<le> 0"
    unfolding weight_sum_def by (intro sum_nonpos) simp
  with assms(2) show False by simp
qed

text \<open>The peers after a choice of \<open>b\<close>.\<close>

definition turn :: "nat \<Rightarrow> stream_peer list \<Rightarrow> stream_peer list \<Rightarrow> bool" where
  "turn b ps qs \<longleftrightarrow> b < length ps \<and> length qs = length ps \<and> (\<forall>i<length ps.
    sp_current_weight (qs ! i) = sp_current_weight (ps ! i) + sp_weight (ps ! i) - (if i = b then total_weight ps else 0)
    \<and> sp_weight (qs ! i) = sp_weight (ps ! i) \<and> (healthy (ps ! i) \<longrightarrow> healthy (qs ! i)))"

lemma turn_total: "turn b ps qs \<Longrightarrow> total_weight qs = total_weight ps"
  unfolding turn_def total_weight_def by (auto intro: sum.cong)

lemma pass_turn:
  assumes "list_all healthy ps" and "b < length ps" and "E = {..<length ps}"
  shows "turn b ps ((bumped E ps)[b := take_weight now (effective_sum ps E) (bumped E ps ! b)])"
proof -
  have h: "healthy (ps ! i)" if "i < length ps" for i
    using assms(1) that by (simp add: list_all_length)
  have "effective_sum ps E = total_weight ps"
    unfolding effective_sum_def total_weight_def assms(3) by (rule sum.cong) (use h in \<open>auto simp: healthy_def\<close>)
  then show ?thesis
    using h assms(2,3) by (auto simp: turn_def nth_list_update add_weight_def take_weight_def healthy_def)
qed

lemma turn_balanced:
  assumes "balanced ps" and "turn b ps qs" and "0 < sp_current_weight (ps ! b) + sp_weight (ps ! b)"
  shows "balanced qs"
proof -
  have b: "b < length ps" "length qs = length ps" and h: "list_all healthy ps"
    using assms(1,2) by (auto simp: turn_def balanced_def)
  have "weight_sum qs = (\<Sum>i<length ps. sp_current_weight (ps ! i) + sp_weight (ps ! i) - (if i = b then total_weight ps else 0))"
    unfolding weight_sum_def b(2) by (rule sum.cong) (use assms(2) in \<open>auto simp: turn_def\<close>)
  also have "\<dots> = weight_sum ps + total_weight ps - total_weight ps"
    using b(1) by (simp add: sum.distrib sum_subtractf weight_sum_def total_weight_def sum.delta)
  finally have "weight_sum qs = 0"
    using assms(1) by (simp add: balanced_def)
  moreover have "- total_weight ps < sp_current_weight (qs ! i) \<and> healthy (qs ! i)" if "i < length ps" for i
  proof -
    have "- total_weight ps < sp_current_weight (ps ! i)" "healthy (ps ! i)"
      using assms(1) that by (auto simp: balanced_def list_all_length)
    moreover from this have "0 \<le> sp_weight (ps ! i)" by (simp add: healthy_def)
    ultimately show ?thesis
      using assms(2,3) that by (cases "i = b") (auto simp: turn_def)
  qed
  ultimately show ?thesis
    by (simp add: balanced_def list_all_length b(2) turn_total [OF assms(2)])
qed

section \<open>A run\<close>

definition one_group :: "stream_peers list \<Rightarrow> bool" where
  "one_group us \<longleftrightarrow> length us = 1 \<and> \<not> sps_single (us ! 0) \<and> sps_number (us ! 0) = of_nat (length (sps_peer (us ! 0)))
    \<and> length (sps_peer (us ! 0)) < 2 ^ 64 - 64"

lemma session_turn:
  assumes "one_group us" and "balanced (sps_peer (us ! 0))" and "0 < total_weight (sps_peer (us ! 0))"
  obtains b qs pc where "turn b (sps_peer (us ! 0)) qs" and "balanced qs" and "one_group (upd_peers us 0 qs)"
    and "\<And>ts. serve (now # ts) us = bindR (serve ts (upd_peers us 0 qs)) (\<lambda>(is, us'). Ok (b # is, us'))"
proof -
  obtain grp where us: "us = [grp]" using assms(1) by (auto simp: one_group_def length_Suc_conv)
  let ?ps = "sps_peer grp"
  obtain rrp pc where i: "ngx_stream_upstream_init_round_robin_peer False True True us fresh_pc = Ok (Inr (rrp, pc))"
    by (auto simp: ngx_stream_upstream_init_round_robin_peer_def us Let_def)
  have ok: "length us \<le> 2" "\<And>g. g \<in> set us \<Longrightarrow> sps_number g = of_nat (length (sps_peer g)) \<and> length (sps_peer g) < 2 ^ 64 - 64"
    using assms(1) by (auto simp: us one_group_def)
  note t = init_peer_tried [OF i ok]
  have fits: "tried_fits (srp_tried rrp) ?ps" using t(3) us by simp
  have E: "{..<length ?ps} = {i. i < length ?ps \<and> \<not> is_tried (srp_tried rrp) i \<and> stream_usable now (?ps ! i)}"
    using t(2) fits assms(2) by (auto simp: tried_fits_def balanced_def list_all_length us intro: healthy_usable)
  have ne: "?ps \<noteq> []" using assms(3) by (auto simp: us total_weight_def)
  let ?E = "{..<length ?ps}"
  obtain b where b: "heaviest (bumped ?E ?ps) ?E b" and g: "ngx_stream_upstream_get_peer now rrp ?ps =
        Ok (Some b, rrp\<lparr>srp_current := Some (srp_peers rrp, b), srp_tried := set_tried (srp_tried rrp) b\<rparr>,
          (bumped ?E ?ps)[b := take_weight now (effective_sum ?ps ?E) (bumped ?E ?ps ! b)])"
    using get_peer_spec [OF fits E] ne by auto
  let ?q = "(bumped ?E ?ps)[b := take_weight now (effective_sum ?ps ?E) (bumped ?E ?ps ! b)]"
  have bl: "b < length ?ps" using b by (simp add: heaviest_def)
  have h: "list_all healthy ?ps" using assms(2) by (simp add: us balanced_def)
  have turn: "turn b ?ps ?q" by (rule pass_turn [OF h bl refl])
  have "effective_sum ?ps ?E = total_weight ?ps"
    unfolding effective_sum_def total_weight_def by (rule sum.cong) (use h in \<open>auto simp: healthy_def list_all_length\<close>)
  then have "0 < weight_sum (bumped ?E ?ps)"
    using assms(2,3) by (simp add: us weight_sum_bumped balanced_def)
  then have "0 < sp_current_weight (bumped ?E ?ps ! b)"
    by (intro heaviest_positive) (use b in simp)
  then have pos: "0 < sp_current_weight (?ps ! b) + sp_weight (?ps ! b)"
    using bl h by (simp add: add_weight_def healthy_def list_all_length)
  have turn2: "turn b ?ps (?q[b := add_conn (?q ! b)])"
    using turn bl by (auto simp: turn_def nth_list_update add_conn_def healthy_def)
  show thesis
  proof (rule that)
    show "turn b (sps_peer (us ! 0)) (?q[b := add_conn (?q ! b)])" using turn2 by (simp add: us)
    show "balanced (?q[b := add_conn (?q ! b)])"
      using turn_balanced [OF _ turn2 pos] assms(2) by (simp add: us)
    show "one_group (upd_peers us 0 (?q[b := add_conn (?q ! b)]))"
      using assms(1) by (simp add: us one_group_def)
    show "serve (now # ts) us = bindR (serve ts (upd_peers us 0 (?q[b := add_conn (?q ! b)]))) (\<lambda>(is, us'). Ok (b # is, us'))" for ts
      using assms(1) t(1) g unfolding serve.simps i ngx_stream_upstream_get_round_robin_peer_def
      by (subst get_from_groups.simps) (simp add: us in_group_def one_group_def)
  qed
qed

lemma serve_weights:
  assumes "one_group us" and "balanced (sps_peer (us ! 0))" and "0 < total_weight (sps_peer (us ! 0))"
  shows "\<exists>is us'. serve ts us = Ok (is, us') \<and> length is = length ts \<and> set is \<subseteq> {..<length (sps_peer (us ! 0))}
    \<and> balanced (sps_peer (us' ! 0)) \<and> length (sps_peer (us' ! 0)) = length (sps_peer (us ! 0))
    \<and> total_weight (sps_peer (us' ! 0)) = total_weight (sps_peer (us ! 0))
    \<and> (\<forall>i<length (sps_peer (us ! 0)). sp_current_weight (sps_peer (us' ! 0) ! i) =
         sp_current_weight (sps_peer (us ! 0) ! i) + int (length ts) * sp_weight (sps_peer (us ! 0) ! i)
         - total_weight (sps_peer (us ! 0)) * int (count_list is i))"
  using assms
proof (induction ts arbitrary: us)
  case Nil
  then show ?case by simp
next
  case (Cons now ts)
  let ?ps = "sps_peer (us ! 0)"
  obtain b qs where turn: "turn b ?ps qs" and bal: "balanced qs" and one: "one_group (upd_peers us 0 qs)"
    and s: "serve (now # ts) us = bindR (serve ts (upd_peers us 0 qs)) (\<lambda>(is, us'). Ok (b # is, us'))"
    using session_turn [OF Cons.prems, of now] by metis
  have q: "sps_peer (upd_peers us 0 qs ! 0) = qs"
    using one by (simp add: one_group_def)
  have tot: "total_weight qs = total_weight ?ps" by (rule turn_total [OF turn])
  obtain "is" us' where r: "serve ts (upd_peers us 0 qs) = Ok (is, us')" "length is = length ts" "set is \<subseteq> {..<length qs}"
    "balanced (sps_peer (us' ! 0))" "length (sps_peer (us' ! 0)) = length qs" "total_weight (sps_peer (us' ! 0)) = total_weight ?ps"
    "\<forall>i<length qs. sp_current_weight (sps_peer (us' ! 0) ! i) =
         sp_current_weight (qs ! i) + int (length ts) * sp_weight (qs ! i) - total_weight ?ps * int (count_list is i)"
    using Cons.IH [OF one] bal tot Cons.prems(3) unfolding q by auto
  have "sp_current_weight (sps_peer (us' ! 0) ! i) = sp_current_weight (?ps ! i) + int (length (now # ts)) * sp_weight (?ps ! i)
         - total_weight ?ps * int (count_list (b # is) i)" if "i < length ?ps" for i
    using r(7) turn that by (auto simp: turn_def algebra_simps)
  then show ?case
    using r turn s by (intro exI [of _ "b # is"] exI [of _ us']) (auto simp: turn_def)
qed

section \<open>Fairness\<close>

lemma sum_counts:
  fixes f g :: "nat \<Rightarrow> int"
  assumes "\<And>i. i < n \<Longrightarrow> f i \<le> g i" and "(\<Sum>i<n. f i) = (\<Sum>i<n. g i)" and "i < n"
  shows "f i = g i"
proof -
  have "(\<Sum>i<n. g i - f i) = 0"
    using assms(2) by (simp add: sum_subtractf)
  then have "\<forall>i\<in>{..<n}. g i - f i = 0"
    using assms(1) by (subst (asm) sum_nonneg_eq_0_iff) auto
  then show ?thesis
    using assms(3) by simp
qed

lemma count_bound:
  fixes W :: int
  assumes "- W < k * W * w - W * c" and "0 < W"
  shows "c \<le> k * w"
proof -
  have "W * (c - k * w) < W * 1"
    using assms(1) by (simp add: algebra_simps)
  then have "c - k * w < 1"
    using assms(2) by (simp only: mult_less_cancel_left_pos)
  then show ?thesis by simp
qed

text \<open>C32: On an upstream with several servers that are all available, a run of sessions gives every server
  exactly its share: after \<open>k\<close> times the sum of the weights \<open>W\<close> sessions, a server of weight \<open>w\<close> was chosen
  \<open>k * w\<close> times and every current weight is zero again.  After any number \<open>t\<close> of sessions it was
  chosen less than \<open>t * w / W + 1\<close> times.\<close>

theorem stream_fair:
  assumes "one_group us" and "\<forall>p\<in>set (sps_peer (us ! 0)). healthy p \<and> sp_current_weight p = 0"
    and "W = total_weight (sps_peer (us ! 0))" and "0 < W"
  shows "\<exists>is us'. serve ts us = Ok (is, us') \<and> length is = length ts
    \<and> (\<forall>i<length (sps_peer (us ! 0)). W * int (count_list is i) < int (length ts) * sp_weight (sps_peer (us ! 0) ! i) + W)
    \<and> (\<forall>k. int (length ts) = k * W \<longrightarrow> (\<forall>i<length (sps_peer (us ! 0)).
        int (count_list is i) = k * sp_weight (sps_peer (us ! 0) ! i) \<and> sp_current_weight (sps_peer (us' ! 0) ! i) = 0))"
proof -
  let ?ps = "sps_peer (us ! 0)"
  have bal: "balanced ?ps"
    using assms by (auto simp: balanced_def list_all_length weight_sum_def)
  have zero: "sp_current_weight (?ps ! i) = 0" if "i < length ?ps" for i
    using assms(2) that by simp
  obtain "is" us' where r: "serve ts us = Ok (is, us')" "length is = length ts" "set is \<subseteq> {..<length ?ps}"
    "balanced (sps_peer (us' ! 0))" "length (sps_peer (us' ! 0)) = length ?ps" "total_weight (sps_peer (us' ! 0)) = W"
    "\<forall>i<length ?ps. sp_current_weight (sps_peer (us' ! 0) ! i) =
       sp_current_weight (?ps ! i) + int (length ts) * sp_weight (?ps ! i) - W * int (count_list is i)"
    using serve_weights [OF assms(1) bal, of ts] assms(3,4) by metis
  have lower: "- W < int (length ts) * sp_weight (?ps ! i) - W * int (count_list is i)" if "i < length ?ps" for i
    using r(4-7) zero that by (auto simp: balanced_def list_all_length)
  have exact: "int (count_list is i) = k * sp_weight (?ps ! i)" if k: "int (length ts) = k * W" and i: "i < length ?ps" for k i
  proof (rule sum_counts [OF _ _ i])
    show "int (count_list is j) \<le> k * sp_weight (?ps ! j)" if "j < length ?ps" for j
      using lower [OF that] assms(4) by (intro count_bound) (simp_all add: k)
    have "(\<Sum>i<length ?ps. int (count_list is i)) = int (sum (count_list is) {..<length ?ps})"
      by simp
    also have "sum (count_list is) {..<length ?ps} = length is"
      by (rule sum_count_set) (use r(3) in auto)
    also have "int (length is) = (\<Sum>i<length ?ps. k * sp_weight (?ps ! i))"
      by (simp add: r(2) k assms(3) total_weight_def sum_distrib_left)
    finally show "(\<Sum>i<length ?ps. int (count_list is i)) = (\<Sum>i<length ?ps. k * sp_weight (?ps ! i))" .
  qed
  have "sp_current_weight (sps_peer (us' ! 0) ! i) = 0" if "int (length ts) = k * W" "i < length ?ps" for k i
    using r(7) zero [OF that(2)] exact [OF that] that by simp
  then show ?thesis
    using r(1,2) lower exact by (intro exI [of _ "is"] exI [of _ us']) (auto simp: algebra_simps)
qed

text \<open>Three servers of weights 5, 1 and 1.\<close>

definition demo_group :: "stream_peers list" where
  "demo_group = [new_stream_peers [] (3, 7, 3) (map (\<lambda>w. (default_stream_peer ([], []))
     \<lparr>sp_weight := w, sp_effective_weight := w\<rparr>) [5, 1, 1])]"

theorem stream_fair_witness:
  "\<exists>is us'. serve (replicate 7 100) demo_group = Ok (is, us') \<and> int (count_list is 0) = 5"
proof -
  have ps: "sps_peer (demo_group ! 0) = map (\<lambda>w. (default_stream_peer ([], []))\<lparr>sp_weight := w, sp_effective_weight := w\<rparr>) [5, 1, 1]"
    by (simp add: demo_group_def new_stream_peers_def)
  have "one_group demo_group"
    by (simp add: one_group_def ps) (simp add: demo_group_def new_stream_peers_def)
  moreover have "\<forall>p\<in>set (sps_peer (demo_group ! 0)). healthy p \<and> sp_current_weight p = 0"
    by (simp add: ps healthy_def default_stream_peer_def)
  moreover have "(7 :: int) = total_weight (sps_peer (demo_group ! 0))"
    by (simp add: ps total_weight_def lessThan_nat_numeral lessThan_Suc)
  moreover have "sp_weight (sps_peer (demo_group ! 0) ! 0) = 5"
    by (simp add: ps)
  ultimately show ?thesis
    using stream_fair [of demo_group 7 "replicate 7 100"] by (auto simp: ps)
qed

end
