(* ===== verification/Stream_Least_Conn.thy ===== *)
theory Stream_Least_Conn
  imports Stream_Group
begin

text \<open>
  \<^verbatim>\<open>src/stream/ngx_stream_upstream_least_conn_module.c\<close>: the peer with the fewest connections for its weight,
  and round robin between those that are equal.
\<close>

section \<open>The choice\<close>

text \<open>\<^verbatim>\<open>peer->conns * best->weight\<close>, an unsigned product.\<close>

definition load :: "stream_peer \<Rightarrow> stream_peer \<Rightarrow> ngx_uint_t" where
  "load p q = sp_conns p * of_int (sp_weight q)"

text \<open>The first loop, with \<^verbatim>\<open>best\<close> and \<^verbatim>\<open>many\<close>; \<^verbatim>\<open>p\<close> is the position of \<^verbatim>\<open>best\<close>.\<close>

fun least_loop :: "time_t \<Rightarrow> 64 word list \<Rightarrow> nat list \<Rightarrow> stream_peer list \<Rightarrow> nat option \<Rightarrow> bool \<Rightarrow> (nat option \<times> bool) res" where
  "least_loop now tried [] ps best many = Ok (best, many)"
| "least_loop now tried (i # is) ps best many =
    bindR (stream_tried_bit tried i) (\<lambda>t.
      if t \<or> \<not> stream_usable now (ps ! i) then least_loop now tried is ps best many
      else case best of
        None \<Rightarrow> least_loop now tried is ps (Some i) False
      | Some b \<Rightarrow>
          if load (ps ! i) (ps ! b) < load (ps ! b) (ps ! i) then least_loop now tried is ps (Some i) False
          else if load (ps ! i) (ps ! b) = load (ps ! b) (ps ! i) then least_loop now tried is ps best True
          else least_loop now tried is ps best many)"

text \<open>The test of the second loop, which runs from \<^verbatim>\<open>best\<close> on.\<close>

definition tie_ok :: "time_t \<Rightarrow> stream_peer list \<Rightarrow> nat option \<Rightarrow> nat \<Rightarrow> bool" where
  "tie_ok now ps best i \<longleftrightarrow> stream_usable now (ps ! i)
    \<and> (case best of None \<Rightarrow> True | Some b \<Rightarrow> load (ps ! i) (ps ! b) = load (ps ! b) (ps ! i))"

definition tie_break ::
  "time_t \<Rightarrow> 64 word list \<Rightarrow> stream_peer list \<Rightarrow> nat \<Rightarrow> bool \<Rightarrow> (stream_peer list \<times> nat option \<times> int) res" where
  "tie_break now tried ps p many =
    (if many then weight_loop (tie_ok now) tried [p..<length ps] ps (Some p) 0 else Ok (ps, Some p, 0))"

definition least_peer :: "time_t \<Rightarrow> stream_rrp \<Rightarrow> stream_peer list \<Rightarrow> (nat option \<times> stream_rrp \<times> stream_peer list) res" where
  "least_peer now rrp ps0 =
    bindR (least_loop now (srp_tried rrp) [0..<length ps0] ps0 None False) (\<lambda>(best, many).
      case best of
        None \<Rightarrow> Ok (None, rrp, ps0)
      | Some p \<Rightarrow>
          bindR (tie_break now (srp_tried rrp) ps0 p many) (\<lambda>(ps, best', tot).
            case best' of
              None \<Rightarrow> Fault NullDeref
            | Some b \<Rightarrow>
                Ok (Some b, rrp\<lparr>srp_current := Some (srp_peers rrp, b), srp_tried := set_tried (srp_tried rrp) b\<rparr>,
                    ps[b := take_weight now tot (ps ! b)])))"

text \<open>For an upstream with one peer the function calls the round robin, which has no other group to turn to.\<close>

definition ngx_stream_upstream_get_least_conn_peer ::
  "time_t \<Rightarrow> stream_peers list \<Rightarrow> stream_rrp \<Rightarrow> stream_pc \<Rightarrow> (int \<times> stream_peers list \<times> stream_rrp \<times> stream_pc) res" where
  "ngx_stream_upstream_get_least_conn_peer now us rrp pc = get_from_groups (in_group (least_peer now)) us rrp pc"

section \<open>The loops\<close>

text \<open>The second loop, for any test: it adds weights to some peers \<open>E\<close> that pass, and \<^verbatim>\<open>best\<close> is one of them or the
  one it started with.\<close>

lemma weight_loop_any:
  assumes "distinct is" and "set is \<subseteq> {..<length ps}" and "tried_fits tried ps"
    and "\<And>qs b i. map static qs = map static ps \<Longrightarrow> I b \<Longrightarrow> i \<in> set is \<Longrightarrow> \<not> is_tried tried i \<Longrightarrow> ok qs (Some b) i \<Longrightarrow> I i"
    and "I b"
  shows "\<exists>E b'. weight_loop ok tried is ps (Some b) t = Ok (bumped E ps, Some b', t + effective_sum ps E) \<and> E \<subseteq> set is \<and> I b'"
  using assms
proof (induction "is" arbitrary: ps b t)
  case Nil
  then show ?case by (intro exI [of _ "{}"]) (simp add: effective_sum_def)
next
  case (Cons i "is")
  have i: "i < length ps" "i \<notin> set is" using Cons.prems(1,2) by auto
  have bit: "stream_tried_bit tried i = Ok (is_tried tried i)"
    by (rule stream_tried_bit_eq) (rule tried_fits_div [OF Cons.prems(3) i(1)])
  show ?case
  proof (cases "is_tried tried i \<or> \<not> ok ps (Some b) i")
    case True
    have "\<exists>E b'. weight_loop ok tried is ps (Some b) t = Ok (bumped E ps, Some b', t + effective_sum ps E) \<and> E \<subseteq> set is \<and> I b'"
    proof (rule Cons.IH)
      show "I j" if "map static qs = map static ps" "I c" "j \<in> set is" "\<not> is_tried tried j" "ok qs (Some c) j" for qs c j
        using that Cons.prems(4) [of qs c j] by simp
    qed (use Cons.prems(1-3,5) in auto)
    then obtain E b' where "weight_loop ok tried is ps (Some b) t = Ok (bumped E ps, Some b', t + effective_sum ps E)" "E \<subseteq> set is" "I b'"
      by blast
    then show ?thesis using True bit by (intro exI [of _ E] exI [of _ b']) auto
  next
    case False
    let ?ps = "ps[i := add_weight (ps ! i)]"
    obtain b1 where b1: "heavier ?ps (Some b) i = Some b1" "b1 = i \<or> b1 = b"
      by (cases "sp_current_weight (?ps ! b) < sp_current_weight (?ps ! i)") (auto simp: heavier_def)
    have "I b1"
      using b1(2) Cons.prems(4) [of ps b i] Cons.prems(5) False by auto
    then have "\<exists>E b'. weight_loop ok tried is ?ps (Some b1) (t + sp_effective_weight (ps ! i))
        = Ok (bumped E ?ps, Some b', t + sp_effective_weight (ps ! i) + effective_sum ?ps E) \<and> E \<subseteq> set is \<and> I b'"
    proof (intro Cons.IH)
      show "I j" if "map static qs = map static ?ps" "I c" "j \<in> set is" "\<not> is_tried tried j" "ok qs (Some c) j" for qs c j
        using that Cons.prems(4) [of qs c j] by (simp only: map_static_update) simp
    qed (use Cons.prems(1-3) in \<open>auto simp: tried_fits_def\<close>)
    then obtain E b' where E: "weight_loop ok tried is ?ps (Some b1) (t + sp_effective_weight (ps ! i))
        = Ok (bumped E ?ps, Some b', t + sp_effective_weight (ps ! i) + effective_sum ?ps E)" "E \<subseteq> set is" "I b'"
      by blast
    have n: "i \<notin> E" "finite E" using E(2) i(2) by (auto intro: finite_subset)
    have "weight_loop ok tried (i # is) ps (Some b) t = Ok (bumped (insert i E) ps, Some b', t + effective_sum ps (insert i E))"
      using False bit b1(1) E(1) n i(1) by (simp add: Let_def bumped_update effective_sum_update) (simp add: effective_sum_def)
    then show ?thesis
      using E(2,3) by (intro exI [of _ "insert i E"] exI [of _ b']) auto
  qed
qed

text \<open>The first loop, with a property \<open>J\<close> of the positions that were passed and \<^verbatim>\<open>best\<close>.\<close>

lemma least_loop_inv:
  assumes "set is \<subseteq> {..<length ps}" and "tried_fits tried ps" and "J S best"
    and "\<And>S i. i \<in> set is \<Longrightarrow> \<not> is_tried tried i \<Longrightarrow> stream_usable now (ps ! i) \<Longrightarrow> J S None \<Longrightarrow> J (insert i S) (Some i)"
    and "\<And>S i b. i \<in> set is \<Longrightarrow> \<not> is_tried tried i \<Longrightarrow> stream_usable now (ps ! i) \<Longrightarrow> J S (Some b) \<Longrightarrow>
      load (ps ! i) (ps ! b) < load (ps ! b) (ps ! i) \<Longrightarrow> J (insert i S) (Some i)"
    and "\<And>S i b. i \<in> set is \<Longrightarrow> \<not> is_tried tried i \<Longrightarrow> stream_usable now (ps ! i) \<Longrightarrow> J S (Some b) \<Longrightarrow>
      load (ps ! b) (ps ! i) \<le> load (ps ! i) (ps ! b) \<Longrightarrow> J (insert i S) (Some b)"
  shows "\<exists>best' many'. least_loop now tried is ps best many = Ok (best', many')
    \<and> J (S \<union> {i \<in> set is. \<not> is_tried tried i \<and> stream_usable now (ps ! i)}) best'"
  using assms
proof (induction "is" arbitrary: best many S)
  case Nil
  then show ?case by simp
next
  case (Cons i "is")
  have bit: "stream_tried_bit tried i = Ok (is_tried tried i)"
    by (rule stream_tried_bit_eq) (use tried_fits_div [OF Cons.prems(2)] Cons.prems(1) in auto)
  have IH: "\<exists>best' many'. least_loop now tried is ps c m = Ok (best', many')
    \<and> J (T \<union> {i \<in> set is. \<not> is_tried tried i \<and> stream_usable now (ps ! i)}) best'" if "J T c" for T c m
    by (rule Cons.IH) (use Cons.prems that in \<open>auto simp: Cons.prems\<close>)
  show ?case
  proof (cases "is_tried tried i \<or> \<not> stream_usable now (ps ! i)")
    case True
    then have "S \<union> {j \<in> set (i # is). \<not> is_tried tried j \<and> stream_usable now (ps ! j)}
      = S \<union> {j \<in> set is. \<not> is_tried tried j \<and> stream_usable now (ps ! j)}" by auto
    then show ?thesis
      using True bit IH [OF Cons.prems(3)] by simp
  next
    case False
    then have S: "S \<union> {j \<in> set (i # is). \<not> is_tried tried j \<and> stream_usable now (ps ! j)}
      = insert i S \<union> {j \<in> set is. \<not> is_tried tried j \<and> stream_usable now (ps ! j)}" by auto
    show ?thesis
    proof (cases best)
      case None
      then have "J (insert i S) (Some i)"
        using Cons.prems(3,4) False by auto
      then show ?thesis
        unfolding S using False bit None IH [of "insert i S" "Some i" False] by simp
    next
      case (Some b)
      show ?thesis
      proof (cases "load (ps ! i) (ps ! b) < load (ps ! b) (ps ! i)")
        case True
        then have "J (insert i S) (Some i)"
          using Cons.prems(3,5) False Some by auto
        then show ?thesis
          unfolding S using False bit Some True IH [of "insert i S" "Some i" False] by simp
      next
        case le: False
        then have "J (insert i S) (Some b)"
          using Cons.prems(3,6) False Some by auto
        then show ?thesis
          unfolding S using False bit Some le IH [of "insert i S" "Some b"] by simp
      qed
    qed
  qed
qed

section \<open>Connections for a weight\<close>

text \<open>\<open>p\<close> has at most as many connections for its weight as \<open>q\<close>.\<close>

definition lighter :: "stream_peer \<Rightarrow> stream_peer \<Rightarrow> bool" where
  "lighter p q \<longleftrightarrow> uint (sp_conns p) * sp_weight q \<le> uint (sp_conns q) * sp_weight p"

text \<open>The products do not wrap around.\<close>

definition small :: "stream_peer \<Rightarrow> bool" where
  "small p \<longleftrightarrow> 0 < sp_weight p \<and> sp_weight p < 2 ^ 31 \<and> uint (sp_conns p) < 2 ^ 32"

lemma uint_load:
  assumes "small p" and "small q"
  shows "uint (load p q) = uint (sp_conns p) * sp_weight q"
proof -
  have q: "0 < sp_weight q" "sp_weight q < 2 ^ 31" and c: "uint (sp_conns p) < 2 ^ 32"
    using assms by (auto simp: small_def)
  have "uint (sp_conns p) * sp_weight q < 2 ^ 32 * 2 ^ 31"
    using q c by (intro mult_strict_mono) auto
  moreover have "0 \<le> uint (sp_conns p) * sp_weight q"
    using q by simp
  moreover have "uint (of_int (sp_weight q) :: 64 word) = sp_weight q"
    using q by (simp add: unsigned_of_int take_bit_int_eq_self)
  ultimately show ?thesis
    by (simp add: load_def uint_word_ariths(3) mod_pos_pos_trivial)
qed

lemma load_le: "small p \<Longrightarrow> small q \<Longrightarrow> load p q \<le> load q p \<longleftrightarrow> lighter p q"
  by (simp add: word_le_def uint_load lighter_def)

lemma lighter_refl [simp]: "lighter p p"
  by (simp add: lighter_def)

lemma lighter_trans:
  assumes "lighter p q" and "lighter q r" and "small p" and "small q" and "small r"
  shows "lighter p r"
proof -
  let ?c = "\<lambda>p. uint (sp_conns p)" and ?w = sp_weight
  have w: "0 < ?w p" "0 < ?w q" "0 < ?w r" using assms(3-5) by (auto simp: small_def)
  have "(?c p * ?w q) * ?w r \<le> (?c q * ?w p) * ?w r"
    using assms(1) w by (intro mult_right_mono) (auto simp: lighter_def)
  also have "\<dots> = (?c q * ?w r) * ?w p" by simp
  also have "\<dots> \<le> (?c r * ?w q) * ?w p"
    using assms(2) w by (intro mult_right_mono) (auto simp: lighter_def)
  finally have "(?c p * ?w r) * ?w q \<le> (?c r * ?w p) * ?w q"
    by (simp add: mult_ac)
  then show ?thesis
    using w(2) by (simp add: lighter_def)
qed

lemma load_static: "static p = static p' \<Longrightarrow> static q = static q' \<Longrightarrow> load p q = load p' q'"
  by (cases p, cases p', cases q, cases q') (simp add: load_def static_def)

lemma static_nth: "map static qs = map static ps \<Longrightarrow> i < length ps \<Longrightarrow> static (qs ! i) = static (ps ! i)"
  by (metis length_map nth_map)

section \<open>The choice is the least\<close>

definition least :: "stream_peer list \<Rightarrow> nat set \<Rightarrow> nat \<Rightarrow> bool" where
  "least ps E b \<longleftrightarrow> (list_all small ps \<longrightarrow> (\<forall>j\<in>E. lighter (ps ! b) (ps ! j)))"

lemma least_loop_spec:
  assumes "tried_fits tried ps" and "E = {i. i < length ps \<and> \<not> is_tried tried i \<and> stream_usable now (ps ! i)}"
  obtains (none) many where "least_loop now tried [0..<length ps] ps None False = Ok (None, many)" and "E = {}"
  | (some) b many where "least_loop now tried [0..<length ps] ps None False = Ok (Some b, many)" and "b \<in> E" and "least ps E b"
proof -
  define J where "J S best \<longleftrightarrow> S \<subseteq> {..<length ps} \<and> (case best of None \<Rightarrow> S = {} | Some b \<Rightarrow> b \<in> S \<and> least ps S b)" for S best
  have sm: "small (ps ! i)" if "list_all small ps" "i < length ps" for i
    using that by (simp add: list_all_length)
  have "\<exists>best many. least_loop now tried [0..<length ps] ps None False = Ok (best, many)
    \<and> J ({} \<union> {i \<in> set [0..<length ps]. \<not> is_tried tried i \<and> stream_usable now (ps ! i)}) best"
  proof (rule least_loop_inv)
    show "J {} None" by (simp add: J_def)
    show "J (insert i S) (Some i)" if "i \<in> set [0..<length ps]" "J S None" for S i
      using that by (simp add: J_def least_def)
    show "J (insert i S) (Some i)" if "i \<in> set [0..<length ps]" "J S (Some b)" "load (ps ! i) (ps ! b) < load (ps ! b) (ps ! i)" for S i b
    proof -
      have "lighter (ps ! i) (ps ! j)" if all: "list_all small ps" and j: "j \<in> S" for j
      proof (rule lighter_trans)
        show "lighter (ps ! i) (ps ! b)"
          using \<open>load _ _ < _\<close> \<open>J S (Some b)\<close> \<open>i \<in> _\<close> sm [OF all] by (subst load_le [symmetric]) (auto simp: J_def)
        show "lighter (ps ! b) (ps ! j)"
          using \<open>J S (Some b)\<close> all j by (simp add: J_def least_def)
      qed (use \<open>J S (Some b)\<close> \<open>i \<in> _\<close> j sm [OF all] in \<open>auto simp: J_def\<close>)
      then show ?thesis
        using that(1,2) by (auto simp: J_def least_def)
    qed
    show "J (insert i S) (Some b)" if "i \<in> set [0..<length ps]" "J S (Some b)" "load (ps ! b) (ps ! i) \<le> load (ps ! i) (ps ! b)" for S i b
    proof -
      have "lighter (ps ! b) (ps ! i)" if "list_all small ps"
        using \<open>load _ _ \<le> _\<close> \<open>J S (Some b)\<close> \<open>i \<in> _\<close> sm [OF that] by (subst load_le [symmetric]) (auto simp: J_def)
      then show ?thesis
        using that(1,2) by (auto simp: J_def least_def)
    qed
  qed (use assms(1) in auto)
  then obtain best many where r: "least_loop now tried [0..<length ps] ps None False = Ok (best, many)" "J E best"
    unfolding assms(2) by auto
  show thesis
  proof (cases best)
    case None
    with r show thesis by (intro none) (auto simp: J_def)
  next
    case (Some b)
    with r show thesis by (intro some) (auto simp: J_def)
  qed
qed

lemma tie_break_spec:
  assumes fits: "tried_fits tried ps" and E: "E = {i. i < length ps \<and> \<not> is_tried tried i \<and> stream_usable now (ps ! i)}"
    and p: "p \<in> E" "least ps E p"
  shows "\<exists>F b. tie_break now tried ps p many = Ok (bumped F ps, Some b, effective_sum ps F) \<and> F \<subseteq> {..<length ps} \<and> b \<in> E \<and> least ps E b"
proof (cases many)
  case False
  then show ?thesis
    using p by (intro exI [of _ "{}"]) (simp add: tie_break_def effective_sum_def)
next
  case True
  define I where "I c \<longleftrightarrow> c \<in> E \<and> (list_all small ps \<longrightarrow> lighter (ps ! c) (ps ! p))" for c
  have sm: "small (ps ! i)" if "list_all small ps" "i \<in> E" for i
    using that E by (auto simp: list_all_length)
  have "\<exists>F b. weight_loop (tie_ok now) tried [p..<length ps] ps (Some p) 0 = Ok (bumped F ps, Some b, 0 + effective_sum ps F)
    \<and> F \<subseteq> set [p..<length ps] \<and> I b"
  proof (rule weight_loop_any)
    show "I i" if st: "map static qs = map static ps" and c: "I c" and i: "i \<in> set [p..<length ps]" "\<not> is_tried tried i" and ok: "tie_ok now qs (Some c) i"
      for qs c i
    proof -
      have cl: "c < length ps" "i < length ps" using c i E by (auto simp: I_def)
      have "stream_usable now (ps ! i)"
        using ok usable_static [OF static_nth [OF st cl(2)]] by (simp add: tie_ok_def)
      then have iE: "i \<in> E" using i cl E by simp
      have "load (ps ! i) (ps ! c) = load (ps ! c) (ps ! i)"
        using ok load_static [OF static_nth [OF st cl(2)] static_nth [OF st cl(1)]] load_static [OF static_nth [OF st cl(1)] static_nth [OF st cl(2)]]
        by (simp add: tie_ok_def)
      then have "lighter (ps ! i) (ps ! c)" if "list_all small ps"
        using c iE sm [OF that] by (subst load_le [symmetric]) (auto simp: I_def)
      then have "lighter (ps ! i) (ps ! p)" if "list_all small ps"
        using c iE p(1) sm [OF that] that lighter_trans [of "ps ! i" "ps ! c" "ps ! p"] by (simp add: I_def)
      with iE show "I i" by (simp add: I_def)
    qed
  qed (use fits p in \<open>auto simp: I_def\<close>)
  then obtain F b where r: "weight_loop (tie_ok now) tried [p..<length ps] ps (Some p) 0 = Ok (bumped F ps, Some b, effective_sum ps F)"
    "F \<subseteq> set [p..<length ps]" "I b" by auto
  have "least ps E b"
    unfolding least_def
  proof (intro impI ballI)
    fix j
    assume all: "list_all small ps" and j: "j \<in> E"
    show "lighter (ps ! b) (ps ! j)"
      by (rule lighter_trans [of _ "ps ! p"]) (use r(3) p j all sm [OF all] in \<open>auto simp: I_def least_def\<close>)
  qed
  then show ?thesis
    using r True by (intro exI [of _ F] exI [of _ b]) (auto simp: tie_break_def I_def)
qed

lemma least_peer_spec:
  assumes fits: "tried_fits (srp_tried rrp) ps"
    and E: "E = {i. i < length ps \<and> \<not> is_tried (srp_tried rrp) i \<and> stream_usable now (ps ! i)}"
  shows "E = {} \<and> least_peer now rrp ps = Ok (None, rrp, ps)
    \<or> (\<exists>b F. b \<in> E \<and> least ps E b \<and> F \<subseteq> {..<length ps} \<and> least_peer now rrp ps =
        Ok (Some b, rrp\<lparr>srp_current := Some (srp_peers rrp, b), srp_tried := set_tried (srp_tried rrp) b\<rparr>,
          (bumped F ps)[b := take_weight now (effective_sum ps F) (bumped F ps ! b)]))"
proof (cases rule: least_loop_spec [OF fits E])
  case (1 many)
  then show ?thesis by (simp add: least_peer_def)
next
  case (2 p many)
  then obtain F b where "tie_break now (srp_tried rrp) ps p many = Ok (bumped F ps, Some b, effective_sum ps F)"
    "F \<subseteq> {..<length ps}" "b \<in> E" "least ps E b"
    using tie_break_spec [OF fits E] by blast
  then show ?thesis
    using 2(1) by (intro disjI2 exI [of _ b] exI [of _ F]) (simp add: least_peer_def)
qed

lemma least_peer_pass:
  assumes "tried_fits (srp_tried rrp) ps" and "E = {i. i < length ps \<and> \<not> is_tried (srp_tried rrp) i \<and> stream_usable now (ps ! i)}"
  shows "E = {} \<and> least_peer now rrp ps = Ok (None, rrp, ps)
    \<or> (\<exists>b F. b \<in> E \<and> F \<subseteq> {..<length ps} \<and> least_peer now rrp ps =
        Ok (Some b, rrp\<lparr>srp_current := Some (srp_peers rrp, b), srp_tried := set_tried (srp_tried rrp) b\<rparr>,
          (bumped F ps)[b := take_weight now (effective_sum ps F) (bumped F ps ! b)]))"
  using least_peer_spec [OF assms] by blast

interpretation lc: pass_method "least_peer now" now
  by unfold_locales (rule least_peer_pass)

text \<open>C35: With the least-connections method the chosen peer is one that may be used, and no other such peer has
  fewer connections for its weight, as long as the products of connections and weights do not wrap around.
  Without such a peer nothing changes.\<close>

theorem least_conn_least:
  assumes "tried_fits (srp_tried rrp) ps" and "list_all small ps"
    and "E = {i. i < length ps \<and> \<not> is_tried (srp_tried rrp) i \<and> stream_usable now (ps ! i)}"
  shows "E = {} \<and> least_peer now rrp ps = Ok (None, rrp, ps)
    \<or> (\<exists>b rrp' ps'. least_peer now rrp ps = Ok (Some b, rrp', ps') \<and> b \<in> E
      \<and> (\<forall>j\<in>E. uint (sp_conns (ps ! b)) * sp_weight (ps ! j) \<le> uint (sp_conns (ps ! j)) * sp_weight (ps ! b))
      \<and> srp_current rrp' = Some (srp_peers rrp, b) \<and> weight_sum ps' = weight_sum ps)"
proof -
  have ws: "weight_sum ((bumped F ps)[b := take_weight now (effective_sum ps F) (bumped F ps ! b)]) = weight_sum ps"
    if "F \<subseteq> {..<length ps}" "b \<in> E" for F b
    using kept_pass [OF that(1), of b now] that(2) assms(3) by (auto simp: kept_def)
  show ?thesis
    using least_peer_spec [OF assms(1,3)]
  proof (elim disjE exE conjE)
    fix b F
    assume b: "b \<in> E" "least ps E b" "F \<subseteq> {..<length ps}" and p: "least_peer now rrp ps =
        Ok (Some b, rrp\<lparr>srp_current := Some (srp_peers rrp, b), srp_tried := set_tried (srp_tried rrp) b\<rparr>,
          (bumped F ps)[b := take_weight now (effective_sum ps F) (bumped F ps ! b)])"
    have "\<forall>j\<in>E. uint (sp_conns (ps ! b)) * sp_weight (ps ! j) \<le> uint (sp_conns (ps ! j)) * sp_weight (ps ! b)"
      using b(2) assms(2) by (simp add: least_def lighter_def)
    then show ?thesis
      using p b(1) ws [OF b(3,1)]
      by (intro disjI2 exI [of _ b] exI [of _ "rrp\<lparr>srp_current := Some (srp_peers rrp, b), srp_tried := set_tried (srp_tried rrp) b\<rparr>"]
          exI [of _ "(bumped F ps)[b := take_weight now (effective_sum ps F) (bumped F ps ! b)]"]) simp
  qed simp
qed

theorem least_conn_least_witness:
  "\<exists>b rrp' ps'. least_peer 100 \<lparr>srp_peers = 0, srp_current = None, srp_tried = [0]\<rparr>
     [(default_stream_peer ([], []))\<lparr>sp_conns := 3\<rparr>, (default_stream_peer ([], []))\<lparr>sp_conns := 2\<rparr>] = Ok (Some b, rrp', ps') \<and> b < 2"
  using least_conn_least [of "\<lparr>srp_peers = 0, srp_current = None, srp_tried = [0]\<rparr>"
      "[(default_stream_peer ([], []))\<lparr>sp_conns := 3\<rparr>, (default_stream_peer ([], []))\<lparr>sp_conns := 2\<rparr>]", OF _ _ refl, of 100]
  by (auto simp: tried_fits_def small_def default_stream_peer_def is_tried_def stream_usable_def)

end
