(* ===== verification/Stream_Session.thy ===== *)
theory Stream_Session
  imports Stream_Fair Stream_Least_Conn
begin

unbundle bit_operations_syntax

text \<open>
  The sessions of \<^verbatim>\<open>src/stream/ngx_stream_proxy_module.c\<close> that share an upstream, as a step relation.  A session
  holds a peer while \<^verbatim>\<open>u->peer.sockaddr\<close> is set.
\<close>

section \<open>The steps\<close>

type_synonym sessions = "nat \<Rightarrow> (stream_rrp \<times> stream_pc) option"

text \<open>The peer is released by \<^verbatim>\<open>ngx_stream_proxy_next_upstream\<close> (with \<^verbatim>\<open>NGX_PEER_FAILED\<close>) and by
  \<^verbatim>\<open>ngx_stream_proxy_finalize\<close>.\<close>

definition proxy_release ::
  "time_t \<Rightarrow> stream_peers list \<Rightarrow> stream_rrp \<Rightarrow> stream_pc \<Rightarrow> ngx_uint_t \<Rightarrow> (stream_peers list \<times> stream_pc) res" where
  "proxy_release now us rrp pc state =
    (if spc_sockaddr pc \<noteq> None then
       bindR (ngx_stream_upstream_free_round_robin_peer now us rrp pc state) (\<lambda>(us', pc'). Ok (us', pc'\<lparr>spc_sockaddr := None\<rparr>))
     else Ok (us, pc))"

text \<open>The balancing methods that an upstream can be configured with.\<close>

datatype stream_balancer = Round_Robin | Least_Conn

definition stream_get ::
  "stream_balancer \<Rightarrow> time_t \<Rightarrow> stream_peers list \<Rightarrow> stream_rrp \<Rightarrow> stream_pc \<Rightarrow> (int \<times> stream_peers list \<times> stream_rrp \<times> stream_pc) res" where
  "stream_get m = (case m of Round_Robin \<Rightarrow> ngx_stream_upstream_get_round_robin_peer
     | Least_Conn \<Rightarrow> ngx_stream_upstream_get_least_conn_peer)"

inductive stream_step :: "stream_peers list \<times> sessions \<Rightarrow> stream_peers list \<times> sessions \<Rightarrow> bool" where
  Start: "ss sid = None \<Longrightarrow> spc_sockaddr pc = None \<Longrightarrow>
    ngx_stream_upstream_init_round_robin_peer e a c us pc = Ok (Inr (rrp, pc')) \<Longrightarrow>
    stream_step (us, ss) (us, ss(sid \<mapsto> (rrp, pc')))"
| Connect: "ss sid = Some (rrp, pc) \<Longrightarrow> spc_sockaddr pc = None \<Longrightarrow>
    stream_get m now us rrp pc = Ok (rc, us', rrp', pc') \<Longrightarrow>
    stream_step (us, ss) (us', ss(sid \<mapsto> (rrp', pc')))"
| NextUpstream: "ss sid = Some (rrp, pc) \<Longrightarrow> proxy_release now us rrp pc NGX_PEER_FAILED = Ok (us', pc') \<Longrightarrow>
    stream_step (us, ss) (us', ss(sid \<mapsto> (rrp, pc')))"
| Finalize: "ss sid = Some (rrp, pc) \<Longrightarrow> state \<in> {0, NGX_PEER_FAILED} \<Longrightarrow>
    proxy_release now us rrp pc state = Ok (us', pc') \<Longrightarrow> stream_step (us, ss) (us', ss(sid := None))"
| Notify: "ss sid = Some (rrp, pc) \<Longrightarrow> spc_sockaddr pc \<noteq> None \<Longrightarrow>
    ngx_stream_upstream_notify_round_robin_peer sock us rrp ty = Ok us' \<Longrightarrow> stream_step (us, ss) (us', ss)"

section \<open>Invariants of the groups\<close>

definition grp_inv :: "stream_peers \<Rightarrow> bool" where
  "grp_inv grp \<longleftrightarrow> sps_number grp = of_nat (length (sps_peer grp)) \<and> length (sps_peer grp) < 2 ^ 64 - 64
    \<and> (sps_single grp \<longrightarrow> sps_peer grp \<noteq> []) \<and> weight_sum (sps_peer grp) = 0
    \<and> list_all (\<lambda>p. weight_ok p \<and> sp_weight p < 2 ^ 63) (sps_peer grp)"

definition groups_inv :: "stream_peers list \<Rightarrow> bool" where
  "groups_inv us \<longleftrightarrow> us \<noteq> [] \<and> length us \<le> 2 \<and> list_all grp_inv us"

definition valid_peer :: "stream_peers list \<Rightarrow> nat \<times> nat \<Rightarrow> bool" where
  "valid_peer us k \<longleftrightarrow> fst k < length us \<and> snd k < length (sps_peer (us ! fst k))"

abbreviation peer_at :: "stream_peers list \<Rightarrow> nat \<times> nat \<Rightarrow> stream_peer" where
  "peer_at us k \<equiv> sps_peer (us ! fst k) ! snd k"

text \<open>The peers changed, and their connection counters by \<open>c\<close>.\<close>

definition change :: "stream_peers list \<Rightarrow> stream_peers list \<Rightarrow> (nat \<times> nat \<Rightarrow> ngx_uint_t) \<Rightarrow> bool" where
  "change us us' c \<longleftrightarrow> length us' = length us \<and> (\<forall>g<length us. length (sps_peer (us' ! g)) = length (sps_peer (us ! g)))
    \<and> (\<forall>k. valid_peer us k \<longrightarrow> sp_conns (peer_at us' k) = sp_conns (peer_at us k) + c k
        \<and> sp_max_conns (peer_at us' k) = sp_max_conns (peer_at us k))"

lemma change_refl [simp]: "change us us (\<lambda>_. 0)"
  by (simp add: change_def)

lemma change_valid: "change us us' c \<Longrightarrow> valid_peer us' k = valid_peer us k"
  by (auto simp: change_def valid_peer_def)

text \<open>One group gets new peers.\<close>

lemma upd_peers_inv:
  assumes "groups_inv us" and "g < length us" and "length qs = length (sps_peer (us ! g))"
    and "weight_sum qs = weight_sum (sps_peer (us ! g))" and "list_all (\<lambda>p. weight_ok p \<and> sp_weight p < 2 ^ 63) qs"
  shows "groups_inv (upd_peers us g qs)"
proof -
  have "grp_inv (us ! g)"
    using assms(1,2) by (simp add: groups_inv_def list_all_length)
  then have "grp_inv ((us ! g)\<lparr>sps_peer := qs\<rparr>)"
    using assms(3-5) by (auto simp: grp_inv_def)
  then show ?thesis
    using assms(1,2) by (auto simp: groups_inv_def list_all_length nth_list_update)
qed

lemma upd_peers_change:
  assumes "g < length us" and "length qs = length (sps_peer (us ! g))"
    and "\<And>i. i < length qs \<Longrightarrow> sp_conns (qs ! i) = sp_conns (sps_peer (us ! g) ! i) + c (g, i)
      \<and> sp_max_conns (qs ! i) = sp_max_conns (sps_peer (us ! g) ! i)"
    and "\<And>h i. h \<noteq> g \<Longrightarrow> c (h, i) = 0"
  shows "change us (upd_peers us g qs) c"
  using assms by (auto simp: change_def valid_peer_def nth_list_update)

section \<open>The operations keep them\<close>

definition sess_ok :: "stream_peers list \<Rightarrow> stream_rrp \<Rightarrow> stream_pc \<Rightarrow> bool" where
  "sess_ok us rrp pc \<longleftrightarrow> srp_peers rrp < length us \<and> list_all (\<lambda>grp. tried_fits (srp_tried rrp) (sps_peer grp)) us
    \<and> (spc_sockaddr pc \<noteq> None \<longrightarrow> (\<exists>i. srp_current rrp = Some (srp_peers rrp, i) \<and> valid_peer us (srp_peers rrp, i)))"

lemma sess_ok_change: "change us us' c \<Longrightarrow> sess_ok us rrp pc \<Longrightarrow> sess_ok us' rrp pc"
  using change_valid [of us us' c] by (auto simp: sess_ok_def change_def list_all_length tried_fits_def)

context pass_method
begin

lemma get_effect:
  assumes inv: "groups_inv us" and sess: "sess_ok us rrp pc" and free: "spc_sockaddr pc = None"
  obtains (busy) rrp' pc' where "get_from_groups (in_group sel) us rrp pc = Ok (NGX_BUSY, us, rrp', pc')"
      and "spc_sockaddr pc' = None" and "sess_ok us rrp' pc'"
      and "\<And>h. srp_peers rrp \<le> h \<Longrightarrow> h < length us \<Longrightarrow> grp.able_at us rrp h = {}"
  | (taken) us' rrp' pc' h b where "get_from_groups (in_group sel) us rrp pc = Ok (NGX_OK, us', rrp', pc')"
      and "spc_sockaddr pc' \<noteq> None" and "sess_ok us' rrp' pc'" and "srp_current rrp' = Some (h, b)"
      and "valid_peer us (h, b)" and "not_full (peer_at us (h, b))" and "groups_inv us'"
      and "change us us' (\<lambda>k. if k = (h, b) then 1 else 0)"
      and "srp_peers rrp \<le> h" and "b \<in> grp.able_at us rrp h" and "\<And>k. srp_peers rrp \<le> k \<Longrightarrow> k < h \<Longrightarrow> grp.able_at us rrp k = {}"
      and "spc_sockaddr pc' = Some (sp_sockaddr (peer_at us (h, b)))"
proof -
  have ok: "list_all (group_ok (srp_tried rrp)) us"
    using inv sess by (auto simp: groups_inv_def sess_ok_def list_all_length grp_inv_def group_ok_def)
  show thesis
  proof (cases "\<exists>h. srp_peers rrp \<le> h \<and> h < length us \<and> grp.able_at us rrp h \<noteq> {}")
    case False
    then obtain t where g: "get_from_groups (in_group sel) us rrp pc = Ok (NGX_BUSY, us,
        rrp\<lparr>srp_peers := length us - 1, srp_tried := t\<rparr>, pc\<lparr>spc_name := sps_name (us ! srp_peers rrp)\<rparr>)"
      and t: "length t = length (srp_tried rrp)"
      using grp.get_busy [OF ok, of pc] sess unfolding sess_ok_def by blast
    show thesis
    proof (rule busy [OF g])
      show "sess_ok us (rrp\<lparr>srp_peers := length us - 1, srp_tried := t\<rparr>) (pc\<lparr>spc_name := sps_name (us ! srp_peers rrp)\<rparr>)"
        using t inv sess free by (auto simp: sess_ok_def groups_inv_def list_all_length tried_fits_def)
    qed (use False free in auto)
  next
    case True
    define h where "h = (LEAST h. srp_peers rrp \<le> h \<and> h < length us \<and> grp.able_at us rrp h \<noteq> {})"
    have h: "srp_peers rrp \<le> h" "h < length us" "grp.able_at us rrp h \<noteq> {}"
      using LeastI_ex [OF True] unfolding h_def by auto
    have first: "grp.able_at us rrp k = {}" if "srp_peers rrp \<le> k" "k < h" for k
      using not_less_Least [OF that(2) [unfolded h_def]] that h(2) by simp
    obtain b ps t where g: "get_from_groups (in_group sel) us rrp pc = Ok (NGX_OK, upd_peers us h (ps[b := add_conn (ps ! b)]),
        rrp\<lparr>srp_peers := h, srp_current := Some (h, b), srp_tried := t\<rparr>,
        pc\<lparr>spc_sockaddr := Some (sp_sockaddr (sps_peer (us ! h) ! b)), spc_name := sp_name (sps_peer (us ! h) ! b)\<rparr>)"
      and b: "b \<in> grp.able_at us rrp h" and kept: "kept (sps_peer (us ! h)) ps" and t: "length t = length (srp_tried rrp)"
      using grp.get_some [OF ok h first, of pc] by blast
    let ?us = "upd_peers us h (ps[b := add_conn (ps ! b)])"
    have bl: "b < length (sps_peer (us ! h))" and full: "not_full (sps_peer (us ! h) ! b)"
      using b by (auto simp: grp.able_at_def rr_able_def split: if_splits intro: usable_not_full)
    have len: "length ps = length (sps_peer (us ! h))" by (rule kept_length [OF kept])
    have fr: "frame (ps ! i) = frame (sps_peer (us ! h) ! i)" if "i < length ps" for i
      using kept_frame [OF kept] that len by simp
    have ch: "change us ?us (\<lambda>k. if k = (h, b) then 1 else 0)"
      by (rule upd_peers_change) (use h(2) len bl frame_fields(1,6) [OF fr] in \<open>auto simp: nth_list_update add_conn_def\<close>)
    have "list_all (\<lambda>p. weight_ok p \<and> sp_weight p < 2 ^ 63) (sps_peer (us ! h))" "weight_sum ps = weight_sum (sps_peer (us ! h))"
      using inv h(2) kept by (auto simp: groups_inv_def grp_inv_def list_all_length kept_def)
    moreover from this have "list_all weight_ok ps" "list_all (\<lambda>p. sp_weight p < 2 ^ 63) ps"
      using kept frame_fields(2) [OF fr] len by (auto simp: kept_def list_all_length)
    ultimately have inv': "groups_inv ?us"
      using h(2) len bl by (intro upd_peers_inv [OF inv])
        (auto simp: weight_sum_update add_conn_def list_all_length nth_list_update weight_ok_def)
    show thesis
    proof (rule taken)
      show "get_from_groups (in_group sel) us rrp pc = Ok (NGX_OK, ?us,
        rrp\<lparr>srp_peers := h, srp_current := Some (h, b), srp_tried := t\<rparr>,
        pc\<lparr>spc_sockaddr := Some (sp_sockaddr (sps_peer (us ! h) ! b)), spc_name := sp_name (sps_peer (us ! h) ! b)\<rparr>)"
        by (rule g)
      show "valid_peer us (h, b)" using h(2) bl by (simp add: valid_peer_def)
      then show "sess_ok ?us (rrp\<lparr>srp_peers := h, srp_current := Some (h, b), srp_tried := t\<rparr>)
        (pc\<lparr>spc_sockaddr := Some (sp_sockaddr (sps_peer (us ! h) ! b)), spc_name := sp_name (sps_peer (us ! h) ! b)\<rparr>)"
        using sess h(2) t len change_valid [OF ch] by (auto simp: sess_ok_def list_all_length tried_fits_def nth_list_update)
    qed (use h b first full inv' ch in auto)
  qed
qed

lemma get_returns:
  assumes "groups_inv us" and "sess_ok us rrp pc" and "spc_sockaddr pc = None"
  shows "\<exists>x. get_from_groups (in_group sel) us rrp pc = Ok x"
  by (rule get_effect [OF assms]) blast+

lemma get_first:
  assumes "groups_inv us" and "sess_ok us rrp pc" and "spc_sockaddr pc = None"
    and "E = (\<lambda>h. rr_able now (us ! h) (if h = srp_peers rrp then is_tried (srp_tried rrp) else (\<lambda>_. False)))"
  shows "(\<exists>rrp' pc'. get_from_groups (in_group sel) us rrp pc = Ok (NGX_BUSY, us, rrp', pc')
        \<and> spc_sockaddr pc' = None \<and> (\<forall>h. srp_peers rrp \<le> h \<and> h < length us \<longrightarrow> E h = {}))
    \<or> (\<exists>us' rrp' pc' h b. get_from_groups (in_group sel) us rrp pc = Ok (NGX_OK, us', rrp', pc')
        \<and> srp_current rrp' = Some (h, b) \<and> spc_sockaddr pc' = Some (sp_sockaddr (peer_at us (h, b)))
        \<and> srp_peers rrp \<le> h \<and> b \<in> E h \<and> (\<forall>k. srp_peers rrp \<le> k \<and> k < h \<longrightarrow> E k = {})
        \<and> sp_conns (peer_at us' (h, b)) = sp_conns (peer_at us (h, b)) + 1)"
proof (rule get_effect [OF assms(1-3)])
  have E: "E h = grp.able_at us rrp h" for h
    by (simp add: assms(4) grp.able_at_def)
  fix us' rrp' pc' h b
  assume g: "get_from_groups (in_group sel) us rrp pc = Ok (NGX_OK, us', rrp', pc')"
    "srp_current rrp' = Some (h, b)" "spc_sockaddr pc' = Some (sp_sockaddr (peer_at us (h, b)))"
    "srp_peers rrp \<le> h" "b \<in> grp.able_at us rrp h" "\<And>k. srp_peers rrp \<le> k \<Longrightarrow> k < h \<Longrightarrow> grp.able_at us rrp k = {}"
    and v: "valid_peer us (h, b)" "change us us' (\<lambda>k. if k = (h, b) then 1 else 0)"
  have "sp_conns (peer_at us' (h, b)) = sp_conns (peer_at us (h, b)) + 1"
    using v unfolding change_def by auto
  with g show ?thesis unfolding E by blast
qed (unfold assms(4) grp.able_at_def, blast)

end

text \<open>What a release or a notification may do to a peer.\<close>

definition gentle :: "ngx_uint_t \<Rightarrow> (stream_peer \<Rightarrow> stream_peer) \<Rightarrow> bool" where
  "gentle d f \<longleftrightarrow> (\<forall>p. sp_conns (f p) = sp_conns p + d \<and> sp_max_conns (f p) = sp_max_conns p
    \<and> sp_current_weight (f p) = sp_current_weight p \<and> sp_weight (f p) = sp_weight p
    \<and> (weight_ok p \<and> sp_weight p < 2 ^ 63 \<longrightarrow> weight_ok (f p)))"

lemma int_div_bounds: "0 \<le> w \<Longrightarrow> 0 \<le> m \<Longrightarrow> 0 \<le> w div m \<and> w div m \<le> (w :: int)"
  using zdiv_mono2 [of w 1 m] by (cases "m = 0") (auto simp: pos_imp_zdiv_nonneg_iff)

lemma sint_diff64:
  assumes "uint q = k" and "0 \<le> e" and "e < 2 ^ 63" and "0 \<le> k" and "k < 2 ^ 63"
  shows "sint ((of_int e :: 64 word) - q) = e - k"
proof -
  have "(of_int e :: 64 word) - q = of_int (e - k)"
    using assms(1) by (metis of_int_diff word_of_int_uint)
  then show ?thesis
    using assms(2-) by (simp only: signed_of_int) (simp add: signed_take_bit_int_eq_self)
qed

lemma gentle_failed: "gentle 0 (stream_failed now)"
proof -
  have "weight_ok (stream_failed now p)" if w: "weight_ok p" "sp_weight p < 2 ^ 63" for p
  proof -
    let ?e = "sp_effective_weight p" and ?w = "sp_weight p" and ?m = "sp_max_fails p"
    have e: "0 \<le> ?e" "?e \<le> ?w"
      using w by (auto simp: weight_ok_def)
    then have q: "uint ((of_int ?w :: 64 word) div ?m) = ?w div uint ?m"
      using w(2) by (simp add: uint_div_distrib unsigned_of_int take_bit_int_eq_self)
    have b: "0 \<le> ?w div uint ?m \<and> ?w div uint ?m \<le> ?w"
      by (rule int_div_bounds) (use e in auto)
    have "sint ((of_int ?e :: 64 word) - of_int ?w div ?m) = ?e - ?w div uint ?m"
      by (rule sint_diff64 [OF q]) (use e b w(2) in auto)
    then show ?thesis
      using e b by (auto simp: stream_failed_def weight_ok_def Let_def)
  qed
  then show ?thesis
    by (auto simp: gentle_def stream_failed_def Let_def)
qed

lemma gentle_live: "gentle 0 mark_live"
  by (auto simp: gentle_def mark_live_def weight_ok_def)

lemma gentle_drop: "gentle 0 f \<Longrightarrow> gentle (- 1) (drop_conn \<circ> f)"
  by (auto simp: gentle_def drop_conn_def weight_ok_def)

lemma gentle_drop1: "gentle (- 1) drop_conn"
  by (auto simp: gentle_def drop_conn_def weight_ok_def)

lemma upd_current_effect:
  assumes inv: "groups_inv us" and cur: "srp_current rrp = Some k" and k: "valid_peer us k" and f: "gentle d f"
  obtains us' where "upd_current us rrp f = Ok us'" and "groups_inv us'" and "change us us' (\<lambda>j. if j = k then d else 0)"
proof -
  obtain g i where gi: "k = (g, i)" "g < length us" "i < length (sps_peer (us ! g))"
    using k by (cases k) (simp add: valid_peer_def)
  let ?ps = "sps_peer (us ! g)"
  have ok: "list_all (\<lambda>p. weight_ok p \<and> sp_weight p < 2 ^ 63) ?ps"
    using inv gi(2) by (simp add: groups_inv_def grp_inv_def list_all_length)
  show thesis
  proof (rule that)
    show "upd_current us rrp f = Ok (upd_peers us g (?ps[i := f (?ps ! i)]))"
      using gi cur by (simp add: upd_current_def)
    show "groups_inv (upd_peers us g (?ps[i := f (?ps ! i)]))"
      using gi ok f by (intro upd_peers_inv [OF inv]) (auto simp: weight_sum_update gentle_def list_all_length nth_list_update)
    show "change us (upd_peers us g (?ps[i := f (?ps ! i)])) (\<lambda>j. if j = k then d else 0)"
      using gi f by (intro upd_peers_change) (auto simp: gentle_def nth_list_update)
  qed
qed

lemma release_effect:
  assumes inv: "groups_inv us" and sess: "sess_ok us rrp pc" and held: "spc_sockaddr pc \<noteq> None"
  obtains us' pc' k where "proxy_release now us rrp pc state = Ok (us', pc')" and "spc_sockaddr pc' = None" and "groups_inv us'"
    and "srp_current rrp = Some k" and "valid_peer us k" and "change us us' (\<lambda>j. if j = k then - 1 else 0)"
proof -
  obtain k where k: "srp_current rrp = Some k" "valid_peer us k" and lt: "srp_peers rrp < length us"
    using sess held by (auto simp: sess_ok_def)
  let ?f = "drop_conn \<circ> (if state AND NGX_PEER_FAILED \<noteq> 0 then stream_failed now else mark_live)"
  have f: "gentle (- 1) ?f"
    by (rule gentle_drop) (use gentle_failed gentle_live in auto)
  obtain us1 where 1: "upd_current us rrp drop_conn = Ok us1" "groups_inv us1" "change us us1 (\<lambda>j. if j = k then - 1 else 0)"
    by (rule upd_current_effect [OF inv k gentle_drop1])
  obtain us2 where 2: "upd_current us rrp ?f = Ok us2" "groups_inv us2" "change us us2 (\<lambda>j. if j = k then - 1 else 0)"
    by (rule upd_current_effect [OF inv k f])
  show thesis
  proof (cases "sps_single (us ! srp_peers rrp)")
    case True
    then show thesis
      using that [of us1 "pc\<lparr>spc_tries := 0, spc_sockaddr := None\<rparr>" k] k 1 lt held
      by (simp add: proxy_release_def ngx_stream_upstream_free_round_robin_peer_def)
  next
    case False
    then show thesis
      using that [of us2 "(if spc_tries pc \<noteq> 0 then pc\<lparr>spc_tries := spc_tries pc - 1\<rparr> else pc)\<lparr>spc_sockaddr := None\<rparr>" k] k 2 lt held
      by (simp add: proxy_release_def ngx_stream_upstream_free_round_robin_peer_def)
  qed
qed

lemma notify_effect:
  assumes inv: "groups_inv us" and sess: "sess_ok us rrp pc" and held: "spc_sockaddr pc \<noteq> None"
  obtains us' where "ngx_stream_upstream_notify_round_robin_peer sock us rrp ty = Ok us'" and "groups_inv us'"
    and "change us us' (\<lambda>_. 0)"
proof -
  obtain k where k: "srp_current rrp = Some k" "valid_peer us k"
    using sess held by (auto simp: sess_ok_def)
  obtain us1 where "upd_current us rrp mark_live = Ok us1" "groups_inv us1" "change us us1 (\<lambda>j. if j = k then 0 else 0)"
    by (rule upd_current_effect [OF inv k gentle_live])
  then show thesis
    using that [of us1] that [of us] inv
    by (cases "ty = NGX_STREAM_UPSTREAM_NOTIFY_CONNECT \<and> sock") (auto simp: ngx_stream_upstream_notify_round_robin_peer_def)
qed

section \<open>Accounting\<close>

definition holders :: "sessions \<Rightarrow> nat \<times> nat \<Rightarrow> nat set" where
  "holders ss k = {sid. \<exists>rrp pc. ss sid = Some (rrp, pc) \<and> spc_sockaddr pc \<noteq> None \<and> srp_current rrp = Some k}"

definition account :: "stream_peers list \<Rightarrow> sessions \<Rightarrow> bool" where
  "account us ss \<longleftrightarrow> finite (dom ss) \<and> (\<forall>k. valid_peer us k \<longrightarrow>
    sp_conns (peer_at us k) = of_nat (card (holders ss k))
    \<and> (sp_max_conns (peer_at us k) \<noteq> 0 \<longrightarrow> card (holders ss k) \<le> unat (sp_max_conns (peer_at us k))))"

definition stream_inv :: "stream_peers list \<times> sessions \<Rightarrow> bool" where
  "stream_inv s \<longleftrightarrow> groups_inv (fst s) \<and> account (fst s) (snd s)
    \<and> (\<forall>sid rrp pc. snd s sid = Some (rrp, pc) \<longrightarrow> sess_ok (fst s) rrp pc)"

lemma finite_holders: "finite (dom ss) \<Longrightarrow> finite (holders ss k)"
  by (rule finite_subset [of _ "dom ss"]) (auto simp: holders_def)

lemma holders_upd:
  "holders (ss(sid := x)) k = (if \<exists>rrp pc. x = Some (rrp, pc) \<and> spc_sockaddr pc \<noteq> None \<and> srp_current rrp = Some k
     then insert sid (holders ss k) else holders ss k - {sid})"
  by (auto simp: holders_def)

lemma not_holder: "\<not> (\<exists>rrp pc. ss sid = Some (rrp, pc) \<and> spc_sockaddr pc \<noteq> None) \<Longrightarrow> sid \<notin> holders ss k"
  by (auto simp: holders_def)

lemma accountD:
  assumes "account us ss" and "valid_peer us k"
  shows "sp_conns (peer_at us k) = of_nat (card (holders ss k))"
    and "sp_max_conns (peer_at us k) \<noteq> 0 \<Longrightarrow> card (holders ss k) \<le> unat (sp_max_conns (peer_at us k))"
  using assms unfolding account_def by blast+

lemma changeD:
  assumes "change us us' c" and "valid_peer us k"
  shows "sp_conns (peer_at us' k) = sp_conns (peer_at us k) + c k" and "sp_max_conns (peer_at us' k) = sp_max_conns (peer_at us k)"
  using assms unfolding change_def by blast+

text \<open>The accounts after a change, from those of each peer.\<close>

lemma account_changeI:
  assumes acc: "account us ss" and ch: "change us us' c" and fin: "finite (dom ss')"
    and conns: "\<And>j. valid_peer us j \<Longrightarrow> (of_nat (card (holders ss' j)) :: 64 word) = of_nat (card (holders ss j)) + c j"
    and limit: "\<And>j. valid_peer us j \<Longrightarrow> sp_max_conns (peer_at us j) \<noteq> 0 \<Longrightarrow> card (holders ss' j) \<le> unat (sp_max_conns (peer_at us j))"
  shows "account us' ss'"
  unfolding account_def
proof (intro conjI allI impI)
  fix j
  assume "valid_peer us' j"
  then have v: "valid_peer us j" by (simp add: change_valid [OF ch])
  show "sp_conns (peer_at us' j) = of_nat (card (holders ss' j))"
    by (simp only: changeD(1) [OF ch v] conns [OF v] accountD(1) [OF acc v])
  show "card (holders ss' j) \<le> unat (sp_max_conns (peer_at us' j))" if "sp_max_conns (peer_at us' j) \<noteq> 0"
    using limit [OF v] that unfolding changeD(2) [OF ch v] by blast
qed (rule fin)

lemma account_same:
  assumes "account us ss" and "change us us' (\<lambda>_. 0)" and "finite (dom ss')" and "\<And>k. holders ss' k = holders ss k"
  shows "account us' ss'"
  using assms(3) by (rule account_changeI [OF assms(1,2)]) (simp_all only: assms(4) add_0_right accountD(2) [OF assms(1)] not_False_eq_True)

lemma account_take:
  assumes acc: "account us ss" and ch: "change us us' (\<lambda>j. if j = k then 1 else 0)" and k: "valid_peer us k" "not_full (peer_at us k)"
    and fin: "finite (dom ss')" and sid: "sid \<notin> holders ss k" and h: "\<And>j. holders ss' j = (if j = k then insert sid (holders ss k) else holders ss j)"
  shows "account us' ss'"
proof (rule account_changeI [OF acc ch fin])
  have card: "card (holders ss' k) = Suc (card (holders ss k))"
    using acc sid by (simp add: h account_def finite_holders)
  show "(of_nat (card (holders ss' j)) :: 64 word) = of_nat (card (holders ss j)) + (if j = k then 1 else 0)" for j
    using card h by (cases "j = k") simp_all
  show "card (holders ss' j) \<le> unat (sp_max_conns (peer_at us j))" if j: "valid_peer us j" and m: "sp_max_conns (peer_at us j) \<noteq> 0" for j
  proof (cases "j = k")
    case True
    have "unat (of_nat (card (holders ss k)) :: 64 word) = card (holders ss k)"
      using accountD(2) [OF acc j m] True by (intro le_unat_uoi) simp
    then show ?thesis
      using k(2) m accountD(1) [OF acc k(1)] card True by (simp add: not_full_def word_less_nat_alt not_le)
  qed (use accountD(2) [OF acc j m] h in simp)
qed

lemma account_drop:
  assumes acc: "account us ss" and ch: "change us us' (\<lambda>j. if j = k then - 1 else 0)" and k: "valid_peer us k"
    and fin: "finite (dom ss')" and sid: "sid \<in> holders ss k" and h: "\<And>j. holders ss' j = (if j = k then holders ss k - {sid} else holders ss j)"
  shows "account us' ss'"
proof (rule account_changeI [OF acc ch fin])
  have "finite (holders ss k)" using acc by (simp add: account_def finite_holders)
  from card.remove [OF this sid] have card: "card (holders ss k) = Suc (card (holders ss' k))"
    by (simp add: h)
  show "(of_nat (card (holders ss' j)) :: 64 word) = of_nat (card (holders ss j)) + (if j = k then - 1 else 0)" for j
    using card h by (cases "j = k") simp_all
  show "card (holders ss' j) \<le> unat (sp_max_conns (peer_at us j))" if j: "valid_peer us j" and m: "sp_max_conns (peer_at us j) \<noteq> 0" for j
    using accountD(2) [OF acc j m] card h by (cases "j = k") auto
qed

section \<open>The invariant\<close>

lemma stream_invD:
  assumes "stream_inv (us, ss)"
  shows "groups_inv us" and "account us ss" and "ss sid = Some (rrp, pc) \<Longrightarrow> sess_ok us rrp pc"
  using assms by (auto simp: stream_inv_def)

text \<open>A session is replaced, and the peers change with it.\<close>

lemma stream_inv_upd:
  assumes "stream_inv (us, ss)" and "groups_inv us'" and "account us' (ss(sid := x))" and "change us us' c"
    and "\<And>rrp pc. x = Some (rrp, pc) \<Longrightarrow> sess_ok us' rrp pc"
  shows "stream_inv (us', ss(sid := x))"
  using assms sess_ok_change [OF assms(4)] by (auto simp: stream_inv_def)

lemma dom_upd_finite: "account us ss \<Longrightarrow> finite (dom (ss(sid := x)))"
  by (cases x) (simp_all add: account_def)

lemma proxy_release_inv:
  assumes inv: "stream_inv (us, ss)" and sid: "ss sid = Some (rrp, pc)" and r: "proxy_release now us rrp pc state = Ok (us', pc')"
    and x: "x = None \<or> x = Some (rrp, pc')"
  shows "stream_inv (us', ss(sid := x))"
proof (cases "spc_sockaddr pc = None")
  case True
  then have eq: "us' = us" "pc' = pc" using r by (simp_all add: proxy_release_def)
  have h: "holders (ss(sid := x)) k = holders ss k" for k
    using x True sid eq not_holder [of ss sid k] by (auto simp: holders_upd)
  have "account us' (ss(sid := x))"
    by (rule account_same [OF stream_invD(2) [OF inv] _ dom_upd_finite h]) (use eq stream_invD(2) [OF inv] in auto)
  moreover have ch: "change us us' (\<lambda>_. 0)" using eq by simp
  ultimately show ?thesis
    using x eq stream_invD(1,3) [OF inv] sid by (intro stream_inv_upd [OF inv _ _ ch]) auto
next
  case False
  have sess: "sess_ok us rrp pc" by (rule stream_invD(3) [OF inv sid])
  obtain us1 pc1 k where e: "proxy_release now us rrp pc state = Ok (us1, pc1)" "spc_sockaddr pc1 = None" "groups_inv us1"
    and k: "srp_current rrp = Some k" "valid_peer us k" and ch: "change us us1 (\<lambda>j. if j = k then - 1 else 0)"
    by (rule release_effect [OF stream_invD(1) [OF inv] sess False])
  have eq: "us1 = us'" "pc1 = pc'" using r e by simp_all
  have h: "holders (ss(sid := x)) j = (if j = k then holders ss k - {sid} else holders ss j)" for j
    using x e eq k sid by (auto simp: holders_upd) (auto simp: holders_def)
  have held: "sid \<in> holders ss k"
    using sid False k by (auto simp: holders_def)
  have "account us' (ss(sid := x))"
    by (rule account_drop [OF stream_invD(2) [OF inv] ch [unfolded eq] k(2) dom_upd_finite [OF stream_invD(2) [OF inv]] held h])
  then show ?thesis
  proof (rule stream_inv_upd [OF inv e(3) [unfolded eq] _ ch [unfolded eq]])
    show "sess_ok us' r p" if "x = Some (r, p)" for r p
      using that x sess_ok_change [OF ch sess] e(2) eq by (auto simp: sess_ok_def)
  qed
qed

context pass_method
begin

lemma connect_inv:
  assumes inv: "stream_inv (us, ss)" and sid: "ss sid = Some (rrp, pc)" and free: "spc_sockaddr pc = None"
    and g: "get_from_groups (in_group sel) us rrp pc = Ok (rc, us', rrp', pc')"
  shows "stream_inv (us', ss(sid \<mapsto> (rrp', pc')))"
proof (rule get_effect [OF stream_invD(1) [OF inv] stream_invD(3) [OF inv sid] free])
  fix r1 p1
  assume e: "get_from_groups (in_group sel) us rrp pc = Ok (NGX_BUSY, us, r1, p1)" "spc_sockaddr p1 = None" "sess_ok us r1 p1"
  then have eq: "us' = us" "rrp' = r1" "pc' = p1" using g by simp_all
  have h: "holders (ss(sid \<mapsto> (rrp', pc'))) k = holders ss k" for k
    using e eq free sid not_holder [of ss sid k] by (auto simp: holders_upd)
  have "account us' (ss(sid \<mapsto> (rrp', pc')))"
    by (rule account_same [OF stream_invD(2) [OF inv] _ dom_upd_finite h]) (use eq stream_invD(2) [OF inv] in auto)
  moreover have ch: "change us us' (\<lambda>_. 0)" using eq by simp
  ultimately show ?thesis
    using e eq stream_invD(1) [OF inv] by (intro stream_inv_upd [OF inv _ _ ch]) auto
next
  fix us1 r1 p1 h b
  assume e: "get_from_groups (in_group sel) us rrp pc = Ok (NGX_OK, us1, r1, p1)" "spc_sockaddr p1 \<noteq> None" "sess_ok us1 r1 p1"
    and k: "srp_current r1 = Some (h, b)" "valid_peer us (h, b)" "not_full (peer_at us (h, b))"
    and us1: "groups_inv us1" "change us us1 (\<lambda>k. if k = (h, b) then 1 else 0)"
  have eq: "us1 = us'" "r1 = rrp'" "p1 = pc'" using g e(1) by simp_all
  have no: "sid \<notin> holders ss j" for j
    using free sid by (auto simp: holders_def)
  have h: "holders (ss(sid \<mapsto> (rrp', pc'))) j = (if j = (h, b) then insert sid (holders ss (h, b)) else holders ss j)" for j
    using e(2) k(1) eq no by (auto simp: holders_upd)
  have "account us' (ss(sid \<mapsto> (rrp', pc')))"
    by (rule account_take [OF stream_invD(2) [OF inv] us1(2) [unfolded eq] k(2,3) dom_upd_finite [OF stream_invD(2) [OF inv]] no h])
  then show ?thesis
    using e(3) eq by (intro stream_inv_upd [OF inv us1(1) [unfolded eq] _ us1(2) [unfolded eq]]) auto
qed

end

lemmas stream_get_defs = stream_get_def ngx_stream_upstream_get_round_robin_peer_def ngx_stream_upstream_get_least_conn_peer_def

lemma stream_get_inv:
  assumes "stream_inv (us, ss)" and "ss sid = Some (rrp, pc)" and "spc_sockaddr pc = None" and "stream_get m now us rrp pc = Ok (rc, us', rrp', pc')"
  shows "stream_inv (us', ss(sid \<mapsto> (rrp', pc')))"
  using rr.connect_inv [OF assms(1-3)] lc.connect_inv [OF assms(1-3)] assms(4)
  by (cases m) (auto simp: stream_get_defs)

lemma start_inv:
  assumes inv: "stream_inv (us, ss)" and sid: "ss sid = None" and pc: "spc_sockaddr pc = None"
    and i: "ngx_stream_upstream_init_round_robin_peer e a c us pc = Ok (Inr (rrp, pc'))"
  shows "stream_inv (us, ss(sid \<mapsto> (rrp, pc')))"
proof -
  have us: "us \<noteq> []" "length us \<le> 2" and "list_all grp_inv us"
    using stream_invD(1) [OF inv] by (auto simp: groups_inv_def)
  then have ok: "sps_number g = of_nat (length (sps_peer g)) \<and> length (sps_peer g) < 2 ^ 64 - 64" if "g \<in> set us" for g
    using that by (auto simp: list_all_iff grp_inv_def)
  note t = init_peer_tried [OF i us(2) ok]
  have free: "spc_sockaddr pc' = None" using t(4) pc by simp
  have h: "holders (ss(sid \<mapsto> (rrp, pc'))) k = holders ss k" for k
    using free sid not_holder [of ss sid k] by (auto simp: holders_upd)
  have "account us (ss(sid \<mapsto> (rrp, pc')))"
    by (rule account_same [OF stream_invD(2) [OF inv] _ dom_upd_finite h]) (use stream_invD(2) [OF inv] in auto)
  then show ?thesis
    using us t(1,3) free stream_invD(1) [OF inv]
    by (intro stream_inv_upd [OF inv _ _ change_refl]) (auto simp: sess_ok_def list_all_iff)
qed

lemma notify_inv:
  assumes inv: "stream_inv (us, ss)" and sid: "ss sid = Some (rrp, pc)" and held: "spc_sockaddr pc \<noteq> None"
    and n: "ngx_stream_upstream_notify_round_robin_peer sock us rrp ty = Ok us'"
  shows "stream_inv (us', ss)"
proof -
  obtain us1 where "ngx_stream_upstream_notify_round_robin_peer sock us rrp ty = Ok us1" "groups_inv us1" "change us us1 (\<lambda>_. 0)"
    by (rule notify_effect [OF stream_invD(1) [OF inv] stream_invD(3) [OF inv sid] held])
  then have e: "groups_inv us'" "change us us' (\<lambda>_. 0)" using n by simp_all
  have "account us' ss"
    by (rule account_same [OF stream_invD(2) [OF inv] e(2)]) (use stream_invD(2) [OF inv] in \<open>simp_all add: account_def\<close>)
  then show ?thesis
    using e(1) stream_invD(3) [OF inv] sess_ok_change [OF e(2)] by (auto simp: stream_inv_def)
qed

lemma stream_step_inv: "stream_step s s' \<Longrightarrow> stream_inv s \<Longrightarrow> stream_inv s'"
  by (induction rule: stream_step.induct) (auto intro: start_inv stream_get_inv proxy_release_inv notify_inv)

lemma stream_steps_inv: "stream_step\<^sup>*\<^sup>* s s' \<Longrightarrow> stream_inv s \<Longrightarrow> stream_inv s'"
  by (induction rule: rtranclp_induct) (auto intro: stream_step_inv)

section \<open>The configured upstream\<close>

text \<open>What the configuration parser ensures: weights are not negative, and the addresses can be counted.\<close>

definition stream_conf_ok :: "(string \<Rightarrow> int \<Rightarrow> (u_char list \<times> string) list option) \<Rightarrow> stream_srv_conf \<Rightarrow> bool" where
  "stream_conf_ok resolve us \<longleftrightarrow>
    (case sc_servers us of
       Some ss \<Rightarrow> (\<forall>s\<in>set ss. 0 \<le> sint (ss_weight s)) \<and> sum_list (map (length \<circ> ss_addrs) ss) < 2 ^ 64 - 64
     | None \<Rightarrow> (case resolve (sc_host us) (sc_port us) of None \<Rightarrow> True | Some as \<Rightarrow> length as < 2 ^ 64 - 64))"

lemma count_stream_eq: "fst (count_stream b ss nwt) = fst nwt + of_nat (length (stream_group b ss))"
  by (induction b ss nwt rule: count_stream.induct) (auto simp: stream_group_def Let_def split: if_splits)

lemma stream_group_length: "length (stream_group b ss) \<le> sum_list (map (length \<circ> ss_addrs) ss)"
  by (induction ss) (auto simp: stream_group_def)

text \<open>A group of new peers.\<close>

definition new_peer :: "stream_peer \<Rightarrow> bool" where
  "new_peer p \<longleftrightarrow> sp_current_weight p = 0 \<and> weight_ok p \<and> sp_weight p < 2 ^ 63 \<and> sp_conns p = 0"

lemma new_stream_group:
  assumes "\<forall>s\<in>set ss. 0 \<le> sint (ss_weight s)" and "p \<in> set (stream_group b ss)"
  shows "new_peer p"
proof -
  obtain s a where "s \<in> set ss" "p = new_stream_peer s a"
    using assms(2) by (auto simp: stream_group_def)
  moreover have "sint (ss_weight s) < 2 ^ 63" for s :: stream_server
    using sint_less [of "ss_weight s"] by simp
  ultimately show ?thesis
    using assms(1) by (simp add: new_peer_def new_stream_peer_def weight_ok_def)
qed

lemma new_group_inv:
  assumes "\<And>p. p \<in> set ps \<Longrightarrow> new_peer p" and "length ps < 2 ^ 64 - 64" and "n = of_nat (length ps)"
  shows "grp_inv (new_stream_peers h (n, w, t) ps)" and "grp_inv (new_stream_peers h (n, w, t) ps\<lparr>sps_single := False\<rparr>)"
    and "sps_peer (new_stream_peers h (n, w, t) ps) = ps"
proof -
  have "weight_sum ps = 0"
    unfolding weight_sum_def by (rule sum.neutral) (use assms(1) in \<open>auto simp: new_peer_def\<close>)
  then show "grp_inv (new_stream_peers h (n, w, t) ps)" "grp_inv (new_stream_peers h (n, w, t) ps\<lparr>sps_single := False\<rparr>)"
    using assms by (auto simp: grp_inv_def new_stream_peers_def new_peer_def list_all_iff)
qed (simp add: new_stream_peers_def)

lemma init_stream_inv:
  assumes "stream_conf_ok resolve conf" and "ngx_stream_upstream_init_round_robin pal resolve conf = (NGX_OK, us)"
  shows "stream_inv (us, Map.empty)"
proof -
  have ok: "groups_inv us \<and> (\<forall>grp\<in>set us. \<forall>p\<in>set (sps_peer grp). new_peer p)"
  proof (cases "sc_servers conf")
    case None
    then obtain as where as: "resolve (sc_host conf) (sc_port conf) = Some as"
      and us: "us = [new_stream_peers (sc_host conf) (of_nat (length as), of_nat (length as), of_nat (length as)) (map default_stream_peer as)]"
      using assms(2) by (auto simp: ngx_stream_upstream_init_round_robin_def ngx_rc_defs Let_def split: option.splits if_splits)
    have n: "new_peer p" if "p \<in> set (map default_stream_peer as)" for p
      using that by (auto simp: new_peer_def default_stream_peer_def weight_ok_def)
    have "length (map default_stream_peer as) < 2 ^ 64 - 64"
      using assms(1) None as by (simp add: stream_conf_ok_def)
    from new_group_inv [OF n this refl] n show ?thesis
      by (auto simp: us groups_inv_def)
  next
    case (Some ss)
    have n: "new_peer p" if "p \<in> set (stream_group b ss)" for p b
      using assms(1) Some new_stream_group that by (auto simp: stream_conf_ok_def)
    have len: "length (stream_group b ss) < 2 ^ 64 - 64" for b
      using assms(1) Some stream_group_length [of b ss] by (simp add: stream_conf_ok_def)
    have c: "\<exists>w t. count_stream b ss (0, 0, 0) = (of_nat (length (stream_group b ss)), w, t)" for b
      using count_stream_eq [of b ss "(0, 0, 0)"] by (metis add_0 fst_conv surj_pair)
    obtain w t w' t' where c: "count_stream False ss (0, 0, 0) = (of_nat (length (stream_group False ss)), w, t)"
      "count_stream True ss (0, 0, 0) = (of_nat (length (stream_group True ss)), w', t')"
      using c by metis
    note g = new_group_inv [OF n len refl]
    show ?thesis
      using assms(2) g n unfolding ngx_stream_upstream_init_round_robin_def Some option.case c Let_def fst_conv
      by (auto simp: ngx_rc_defs groups_inv_def split: if_splits)
  qed
  moreover have "sp_conns (peer_at us k) = 0" if "valid_peer us k" for k
  proof -
    have "us ! fst k \<in> set us" "peer_at us k \<in> set (sps_peer (us ! fst k))"
      using that by (simp_all add: valid_peer_def)
    with ok have "new_peer (peer_at us k)" by blast
    then show ?thesis by (simp add: new_peer_def)
  qed
  then have "account us Map.empty"
    by (simp add: account_def holders_def)
  ultimately show ?thesis
    by (simp add: stream_inv_def)
qed

text \<open>C33: Whatever the sessions do with an upstream, no operation of the balancer reads outside its data; a
  peer's connection counter is the number of sessions that hold it, never more than a configured
  \<^verbatim>\<open>max_conns\<close>; its effective weight stays between zero and the configured weight; and the current
  weights of a group add up to zero.\<close>

theorem stream_sessions_ok:
  assumes "stream_conf_ok resolve conf" and "ngx_stream_upstream_init_round_robin pal resolve conf = (NGX_OK, us0)"
    and "stream_step\<^sup>*\<^sup>* (us0, Map.empty) (us, ss)"
  shows "(\<forall>k. valid_peer us k \<longrightarrow> sp_conns (peer_at us k) = of_nat (card (holders ss k))
      \<and> (sp_max_conns (peer_at us k) \<noteq> 0 \<longrightarrow> card (holders ss k) \<le> unat (sp_max_conns (peer_at us k)))
      \<and> 0 \<le> sp_effective_weight (peer_at us k) \<and> sp_effective_weight (peer_at us k) \<le> sp_weight (peer_at us k))
    \<and> (\<forall>grp\<in>set us. weight_sum (sps_peer grp) = 0)
    \<and> (\<forall>sid rrp pc now state. ss sid = Some (rrp, pc) \<longrightarrow>
        (spc_sockaddr pc = None \<longrightarrow> (\<forall>m. \<exists>x. stream_get m now us rrp pc = Ok x))
      \<and> (spc_sockaddr pc \<noteq> None \<longrightarrow> (\<exists>x. ngx_stream_upstream_free_round_robin_peer now us rrp pc state = Ok x)
          \<and> (\<forall>sock ty. \<exists>x. ngx_stream_upstream_notify_round_robin_peer sock us rrp ty = Ok x)))"
proof -
  have inv: "stream_inv (us, ss)"
    using stream_steps_inv [OF assms(3)] init_stream_inv [OF assms(1,2)] by blast
  note I = stream_invD [OF inv]
  have w: "weight_ok (peer_at us k)" if "valid_peer us k" for k
    using I(1) that by (auto simp: groups_inv_def grp_inv_def list_all_length valid_peer_def)
  have get: "\<exists>x. stream_get m now us rrp pc = Ok x"
    if "ss sid = Some (rrp, pc)" "spc_sockaddr pc = None" for sid rrp pc now m
    using rr.get_returns [OF I(1) I(3) [OF that(1)] that(2)] lc.get_returns [OF I(1) I(3) [OF that(1)] that(2)]
    by (cases m) (auto simp: stream_get_defs)
  have free: "\<exists>x. ngx_stream_upstream_free_round_robin_peer now us rrp pc state = Ok x"
    if "ss sid = Some (rrp, pc)" "spc_sockaddr pc \<noteq> None" for sid rrp pc now state
    by (rule release_effect [OF I(1) I(3) [OF that(1)] that(2), of now state]) (use that(2) in \<open>auto simp: proxy_release_def\<close>)
  have note_ok: "\<exists>x. ngx_stream_upstream_notify_round_robin_peer sock us rrp ty = Ok x"
    if "ss sid = Some (rrp, pc)" "spc_sockaddr pc \<noteq> None" for sid rrp pc sock ty
    by (rule notify_effect [OF I(1) I(3) [OF that(1)] that(2), of sock ty]) blast
  have "\<forall>grp\<in>set us. weight_sum (sps_peer grp) = 0"
    using I(1) by (auto simp: groups_inv_def grp_inv_def list_all_iff)
  then show ?thesis
    using accountD [OF I(2)] w get free note_ok unfolding weight_ok_def by (intro conjI allI impI) blast+
qed

text \<open>C34: A session gets a peer from the first group, starting at its own, that has one it may use: not tried
  by it yet, not down, below its connection limit and not failed too often.  It is told that the upstream is
  busy exactly when there is none, and then nothing was changed.\<close>

theorem stream_get_peer_first:
  assumes "stream_conf_ok resolve conf" and "ngx_stream_upstream_init_round_robin pal resolve conf = (NGX_OK, us0)"
    and "stream_step\<^sup>*\<^sup>* (us0, Map.empty) (us, ss)" and "ss sid = Some (rrp, pc)" and "spc_sockaddr pc = None"
    and E: "E = (\<lambda>h. rr_able now (us ! h) (if h = srp_peers rrp then is_tried (srp_tried rrp) else (\<lambda>_. False)))"
  shows "(\<exists>rrp' pc'. stream_get m now us rrp pc = Ok (NGX_BUSY, us, rrp', pc')
        \<and> spc_sockaddr pc' = None \<and> (\<forall>h. srp_peers rrp \<le> h \<and> h < length us \<longrightarrow> E h = {}))
    \<or> (\<exists>us' rrp' pc' h b. stream_get m now us rrp pc = Ok (NGX_OK, us', rrp', pc')
        \<and> srp_current rrp' = Some (h, b) \<and> spc_sockaddr pc' = Some (sp_sockaddr (peer_at us (h, b)))
        \<and> srp_peers rrp \<le> h \<and> b \<in> E h \<and> (\<forall>k. srp_peers rrp \<le> k \<and> k < h \<longrightarrow> E k = {})
        \<and> sp_conns (peer_at us' (h, b)) = sp_conns (peer_at us (h, b)) + 1)"
proof -
  have inv: "stream_inv (us, ss)"
    using stream_steps_inv [OF assms(3)] init_stream_inv [OF assms(1,2)] by blast
  note first = rr.get_first [OF stream_invD(1) [OF inv] stream_invD(3) [OF inv assms(4)] assms(5) E]
    lc.get_first [OF stream_invD(1) [OF inv] stream_invD(3) [OF inv assms(4)] assms(5) E]
  show ?thesis
    by (cases m) (simp_all only: stream_get_defs stream_balancer.case first)
qed

section \<open>A run\<close>

definition demo_stream_server :: "u_char \<Rightarrow> bool \<Rightarrow> stream_server" where
  "demo_stream_server a b = \<lparr>ss_name = [], ss_addrs = [([a], [])], ss_weight = 1, ss_max_conns = 1, ss_max_fails = 1,
     ss_fail_timeout = 10, ss_down = False, ss_backup = b\<rparr>"

definition demo_stream_conf :: stream_srv_conf where
  "demo_stream_conf = \<lparr>sc_servers = Some [demo_stream_server 1 False, demo_stream_server 2 False, demo_stream_server 3 True], sc_host = [], sc_port = 80\<rparr>"

definition demo_groups :: "stream_peers list" where
  "demo_groups = snd (ngx_stream_upstream_init_round_robin (\<lambda>_. True) (\<lambda>_ _. None) demo_stream_conf)"

definition demo_stream_rrp :: stream_rrp where
  "demo_stream_rrp = \<lparr>srp_peers = 0, srp_current = None, srp_tried = [0]\<rparr>"

lemma demo_init: "ngx_stream_upstream_init_round_robin (\<lambda>_. True) (\<lambda>_ _. None) demo_stream_conf = (NGX_OK, demo_groups)"
proof -
  have "fst (ngx_stream_upstream_init_round_robin (\<lambda>_. True) (\<lambda>_ _. None) demo_stream_conf) = NGX_OK"
    by code_simp
  then show ?thesis
    by (metis demo_groups_def prod.collapse)
qed

lemma demo_stream_conf_ok: "stream_conf_ok (\<lambda>_ _. None) demo_stream_conf"
  by (simp add: stream_conf_ok_def demo_stream_conf_def demo_stream_server_def)

lemma demo_stream_start: "stream_step\<^sup>*\<^sup>* (demo_groups, Map.empty) (demo_groups, [0 \<mapsto> (demo_stream_rrp, fresh_pc\<lparr>spc_tries := 3\<rparr>)])"
proof (rule r_into_rtranclp, rule stream_step.Start)
  show "ngx_stream_upstream_init_round_robin_peer False True True demo_groups fresh_pc
    = Ok (Inr (demo_stream_rrp, fresh_pc\<lparr>spc_tries := 3\<rparr>))"
    by code_simp
qed (simp_all add: fresh_pc_def)

definition demo_taken :: "stream_peers list \<times> stream_rrp \<times> stream_pc" where
  "demo_taken = (case stream_get Round_Robin 100 demo_groups demo_stream_rrp (fresh_pc\<lparr>spc_tries := 3\<rparr>) of
     Ok (rc, x) \<Rightarrow> x | Fault e \<Rightarrow> ([], demo_stream_rrp, fresh_pc))"

lemma demo_get: "stream_get Round_Robin 100 demo_groups demo_stream_rrp (fresh_pc\<lparr>spc_tries := 3\<rparr>)
    = Ok (NGX_OK, demo_taken)"
  by code_simp

theorem stream_get_peer_first_witness:
  "\<exists>us' rrp' pc' h b. stream_get Round_Robin 100 demo_groups demo_stream_rrp (fresh_pc\<lparr>spc_tries := 3\<rparr>) = Ok (NGX_OK, us', rrp', pc')
    \<and> srp_current rrp' = Some (h, b)
    \<and> b \<in> rr_able 100 (demo_groups ! h) (if h = srp_peers demo_stream_rrp then is_tried (srp_tried demo_stream_rrp) else (\<lambda>_. False))"
proof -
  have "spc_sockaddr (fresh_pc\<lparr>spc_tries := 3\<rparr>) = None"
    by (simp add: fresh_pc_def)
  moreover have "[0 \<mapsto> (demo_stream_rrp, fresh_pc\<lparr>spc_tries := 3\<rparr>)] 0 = Some (demo_stream_rrp, fresh_pc\<lparr>spc_tries := 3\<rparr>)"
    by simp
  moreover have "NGX_OK \<noteq> NGX_BUSY"
    by (simp add: ngx_rc_defs)
  ultimately show ?thesis
    using stream_get_peer_first [OF demo_stream_conf_ok demo_init demo_stream_start _ _ refl, of 0 demo_stream_rrp "fresh_pc\<lparr>spc_tries := 3\<rparr>" Round_Robin 100] demo_get
    by (metis res.inject(2) prod.inject)
qed

theorem stream_sessions_ok_witness:
  "sp_conns (peer_at (fst demo_taken) (0, 0)) = 1"
proof -
  let ?ss = "[0 \<mapsto> snd demo_taken]"
  have "stream_step (demo_groups, [0 \<mapsto> (demo_stream_rrp, fresh_pc\<lparr>spc_tries := 3\<rparr>)]) (fst demo_taken, [0 \<mapsto> (demo_stream_rrp, fresh_pc\<lparr>spc_tries := 3\<rparr>)](0 \<mapsto> (fst (snd demo_taken), snd (snd demo_taken))))"
    by (rule stream_step.Connect [where m = Round_Robin and now = 100 and rc = NGX_OK and rrp = demo_stream_rrp and pc = "fresh_pc\<lparr>spc_tries := 3\<rparr>"])
      (simp_all add: demo_get fresh_pc_def [symmetric], simp add: fresh_pc_def)
  with demo_stream_start have "stream_step\<^sup>*\<^sup>* (demo_groups, Map.empty) (fst demo_taken, ?ss)"
    by simp
  note stream_sessions_ok [OF demo_stream_conf_ok demo_init this]
  moreover have "valid_peer (fst demo_taken) (0, 0)"
    by code_simp
  moreover have "srp_current (fst (snd demo_taken)) = Some (0, 0) \<and> spc_sockaddr (snd (snd demo_taken)) = Some [1]"
    by code_simp
  then have "holders ?ss (0, 0) = {0}"
    by (auto simp: holders_def split: if_splits) (metis prod.collapse)
  ultimately show ?thesis by simp
qed

end
