(* ===== verification/Spec2Isabelle.thy ===== *)
theory Spec2Isabelle
  imports LB_Operations Ngx_Parse_Time Http_Chunked_Theorems Http_Request_Theorems Http_Request_Uri Http_Unsafe_Uri Http_V2_Hpack Http_V2_Int Ngx_Base64 Ngx_Date_Theorems Ngx_Palloc_Theorems Ngx_Radix_Map Stream_Session
begin

text \<open>
  A verification of a fork of nginx that balances requests between a heavy and a light version of a
  service, and of the parts of nginx that its requests pass through.

  \<^bold>\<open>The program.\<close>  A worker process reads a request line and header lines
  (\<^verbatim>\<open>src/http/ngx_http_parse.c\<close>), normalises the target (\<^verbatim>\<open>ngx_http_process_request_uri\<close>), decodes a
  chunked body (\<^verbatim>\<open>ngx_http_request_body.c\<close>), asks the balancer of the upstream for a peer
  (\<^verbatim>\<open>ngx_http_upstream_round_robin.c\<close>), parses the status line and headers of the answer, sends it to the
  client (\<^verbatim>\<open>modules/ngx_http_chunked_filter_module.c\<close>) and logs the request.  In this fork the
  balancer keeps, for each version, the requests under way with their start times, a prediction
  of the response time and counters; the log module (\<^verbatim>\<open>modules/ngx_http_log_module.c\<close>) updates them when a
  request completes.  The decision compares the load of the heavy version with the performance target.
  The stream (TCP and UDP) balancers are those of nginx.

  \<^bold>\<open>The theories\<close>, in the order of the imports:

  \<^item> \<open>Ngx_Prelude\<close>: C integer types, return codes, the result type \<open>res\<close> whose \<open>Fault\<close>s are the crashes of the C
    program, and shared lemmas.  \<open>C_Float\<close>: \<^verbatim>\<open>float\<close> and \<^verbatim>\<open>double\<close> arithmetic with rounding.
  \<^item> \<open>LB_State\<close> (records of \<^verbatim>\<open>ngx_http_upstream_round_robin.h\<close> and \<^verbatim>\<open>ngx_http_request.h\<close>,
    \<^verbatim>\<open>ngx_http_upstream_init_round_robin\<close>), \<open>LB_Select\<close> (\<^verbatim>\<open>ngx_http_upstream_get_peer\<close>,
    \<^verbatim>\<open>ngx_http_upstream_get_round_robin_peer\<close>, \<^verbatim>\<open>ngx_http_upstream_buffer_request_data\<close>,
    \<^verbatim>\<open>ngx_http_upstream_free_round_robin_peer\<close>), \<open>LB_Complete\<close> (\<^verbatim>\<open>ngx_http_log_request_time\<close>,
    \<^verbatim>\<open>custom_system_monitor_capacity\<close>): the model.  The list of active requests is a linked list on an explicit heap, since
    \<^verbatim>\<open>enter_time\<close> and \<^verbatim>\<open>recent_req\<close> point into it.
    \<open>LB_Queue\<close>, \<open>LB_Invariant\<close>, \<open>LB_Safety\<close>, \<open>LB_System\<close>, \<open>LB_Reach\<close>, \<open>LB_Account\<close>, \<open>LB_Live\<close>, \<open>LB_Serve\<close>,
    \<open>LB_Init\<close>, \<open>LB_Numbers\<close>, \<open>LB_Demo\<close>: the list on the heap, the invariant of the whole balancer, the reachable
    states of arrivals, retries (\<^verbatim>\<open>ngx_http_upstream_next\<close>), completions and releases, the sizes of numbers for which
    an arrival is served, and a concrete run.  \<open>LB_Theorems\<close> and \<open>LB_Operations\<close> have the
    properties: in every reachable state a counter of active requests counts the requests under way and the tries that retries
    gave up, completions touch no freed node, a request with an eligible peer is served and counted, the decision compared with
    the rules of the README (where it keeps them, and that it does not keep the second one), and where the code goes wrong.
  \<^item> \<open>Ngx_Number\<close>, \<open>Ngx_Parse_Time\<close>: \<^verbatim>\<open>ngx_atoi\<close> and its variants, \<^verbatim>\<open>ngx_hextoi\<close>, \<^verbatim>\<open>ngx_sprintf_num\<close>,
    \<^verbatim>\<open>ngx_parse_size\<close>, \<^verbatim>\<open>ngx_parse_offset\<close>, \<^verbatim>\<open>ngx_parse_time\<close>: exact value or an error, no overflow, round trips.
  \<^item> \<open>Http_Machine\<close>: byte-wise state machines and the locales \<open>resumable\<close> and \<open>byte_parser\<close>: a parser that keeps its state between
    calls gives the same answer however the input is cut into buffers, provided that what it stores before \<^verbatim>\<open>NGX_AGAIN\<close> is all it goes on
    with; the stores are those of the code.  \<open>Http_Header\<close>, \<open>Http_Status\<close>,
    \<open>Http_Request_Line\<close>, \<open>Http_Request_Theorems\<close>: the line parsers, instances of these locales, what they accept, and that every
    pointer they set for a request line lies in its place in the line.
    \<open>Http_Uri\<close>, \<open>Http_Request_Uri\<close>: the normalisation of a target, and that a
    request is never served from a path with dot segments.
    \<open>Http_Chunked\<close>, \<open>Http_Body\<close>, \<open>Http_Decode\<close>, \<open>Http_Encode\<close>, \<open>Http_Chunked_Theorems\<close>: the chunked coding, its
    abstract decoder, the filter that refines it and the round trip with the encoder.
  \<^item> \<open>Http_V2_Table\<close> (model of \<^verbatim>\<open>v2/ngx_http_v2_table.c\<close>, the table of the HPACK decoder: a ring of pointers to entries and a ring
    of bytes), \<open>Http_V2_Ring\<close> (reading and writing around the end of the ring), \<open>Http_V2_Rep\<close> (the list of headers a table stands for, lookup,
    eviction), \<open>Http_V2_Add\<close> (the steps of an addition), \<open>Http_V2_Hpack\<close> (the table the code keeps, the locale \<open>header_table\<close>
    whose laws make an implementation refine it over all sequences of operations, its interpretation, the table of RFC 7541 with
    the simulation between the two when no size update lowers the limit before the first addition, and failing allocations).
    \<open>Http_V2_Int\<close>: the integers of HPACK, written and read back.
  \<^item> \<open>Ngx_Escape\<close> (model of base64, \<^verbatim>\<open>ngx_escape_uri\<close> and \<^verbatim>\<open>ngx_unescape_uri\<close>), \<open>Ngx_Base64\<close>, \<open>Ngx_Uri_Escape\<close>: round trips and the sizes of
    the buffers.  \<open>Http_Unsafe_Uri\<close>: \<^verbatim>\<open>ngx_http_parse_unsafe_uri\<close> and what it keeps out.
  \<^item> \<open>Ngx_Date\<close> (model of \<^verbatim>\<open>ngx_gmtime\<close>, \<^verbatim>\<open>ngx_http_time\<close>, \<^verbatim>\<open>ngx_http_cookie_time\<close> and \<^verbatim>\<open>ngx_parse_http_time\<close>), \<open>Ngx_Calendar\<close> (the formulas of
    the code against a calendar that adds up years and months), \<open>Ngx_Date_Theorems\<close>: printed dates are parsed back, and the parser
    stays inside its input and answers the second of a date.
  \<^item> \<open>Ngx_Palloc\<close> (model of the memory pools of \<^verbatim>\<open>ngx_palloc.c\<close> over an allocator of the C library), \<open>Ngx_Palloc_Inv\<close> (regions of memory, the
    invariant of a pool, small requests), \<open>Ngx_Palloc_Theorems\<close> (large regions, freeing, reset, and what holds after any sequence of
    calls: the regions handed out are apart, aligned and inside memory of the pool, and all of it is given back).
  \<^item> \<open>Ngx_Radix\<close> (model of \<^verbatim>\<open>ngx_radix_tree.c\<close>: nodes with parent pointers and a free list on a heap), \<open>Ngx_Radix_Rep\<close> (the
    nodes as functions on paths of bits), \<open>Ngx_Radix_Walk\<close> (the locales \<open>radix_walk\<close> and \<open>radix_search\<close>: what the loops do at
    a bit, and insertion, deletion and search from that), \<open>Ngx_Radix_Keys\<close> (their instances for 32-bit and 128-bit keys, creation),
    \<open>Ngx_Radix_Map\<close> (the locale \<open>prefix_map\<close>, the contract of a map from networks with search for the longest match, and its
    interpretations).
  \<^item> \<open>Stream_RR\<close>, \<open>Stream_Least_Conn\<close> (model), \<open>Stream_Choice\<close>, \<open>Stream_Group\<close>, \<open>Stream_Fair\<close>, \<open>Stream_Session\<close>: the smooth
    weighted round robin and least connections of the stream module.  The locale \<open>group_pick\<close> is what the
    fallback to backup servers needs of a balancing method, \<open>pass_method\<close> what the loops provide; both
    methods are interpretations.  Fairness, the choice of the first usable group, and the accounts of
    the sessions in all reachable states are proved from them.

  \<^bold>\<open>Conventions.\<close>  Unsigned integers are words and wrap around; signed ones are \<open>int\<close>, since overflow is
  undefined in C, and the theorems give bounds where the code guards against it.  A pointer into a
  buffer is an offset; a pointer to a peer is a position.  Whether an allocation succeeds is a boolean
  parameter, except in the model of the pools, where the allocator of the C library is a function with a contract.  Shared-memory locks are not modelled: each operation is one critical section.

  \<^bold>\<open>Bounds.\<close>  The loops over the list of active requests have \<open>Suc next_addr\<close> turns as fuel: every turn frees or passes
  a node, and \<open>next_addr\<close> nodes were ever allocated; the theorems show that \<open>OutOfFuel\<close> does not occur.
  The accounting of the balancer is proved for runs of up to \<open>INT_MAX - 7\<close> steps, because the counter of
  completed requests wraps around there, and a property shows that the prediction breaks then.
  The URI normaliser is a \<open>partial_function\<close>, and its termination is a property; so are
  the loops of the radix tree that follow pointers, and the theorem shows that they end.

  \<^bold>\<open>Not modelled.\<close>  The event loop, sockets, TLS, the frames of HTTP/2, mail, the resolver, caches, configuration parsing,
  process management and the handlers and filters of other modules: input and output, bindings of
  libraries, or nginx code that the fork does not change and that the properties do not depend on.
  Of the string functions, the escaping of HTML and JSON and UTF-8.
  Of the balancer, the \<^verbatim>\<open>malloc\<close> of a node of the list of prediction errors in the log module and the buffers in which
  \<^verbatim>\<open>custom_system_monitor_capacity\<close> builds its report: their results are not tested by the code, and the model lets them succeed.
  The name of a peer is taken up to its terminating zero, which \<^verbatim>\<open>strcpy\<close> in the set-up relies on.
  Of the stream balancers, upstreams resolved at run time and TLS sessions.
\<close>

end
